(* ===== verification/Prelude.thy ===== *)
theory Prelude
  imports Main "HOL-Library.Word"
begin

text \<open>
  Shared vocabulary of the development: the machine types of the Go sources, the error values the
  packages return, big-endian byte encodings of fixed-width values, checked \<open>uint64\<close> arithmetic, and
  the generic lemmas the component theories use.

  A Go array \<open>[32]byte\<close> (hashes, identifiers, \<open>uint256\<close> values) is a \<open>256 word\<close>, an address
  \<open>[20]byte\<close> a \<open>160 word\<close>: the zero array is \<open>0\<close>, array equality is word equality and
  \<open>bytes.Compare\<close> is the unsigned order, which \<open>bytes_less_bytes32\<close> below justifies. The bytes themselves
  are needed only where the code hashes them; \<open>be_bytes\<close> produces them.
\<close>

unbundle bit_operations_syntax

subsection \<open>Types\<close>

type_synonym byte = "8 word"
type_synonym u8 = "8 word"
type_synonym u32 = "32 word"
type_synonym u64 = "64 word"
type_synonym hash = "256 word"

definition MaxUint64 :: u64 where
  "MaxUint64 = - 1"

type_synonym address = "160 word"

text \<open>An instant (\<open>time.Time\<close>): nanoseconds since the zero \<open>Time\<close>.\<close>

type_synonym go_time = int

text \<open>The Keccak-256 hash of the Ethereum library is a parameter of every definition that hashes.\<close>

type_synonym keccak = "byte list \<Rightarrow> hash"

named_theorems go_defs \<open>definitions of the model that proofs unfold together\<close>
named_theorems encode_simps \<open>lengths of byte encodings\<close>

text \<open>\<open>a > math.MaxUint64 - b\<close> is the guard the code puts before every addition of costs.\<close>

lemma unat_MaxUint64: "unat MaxUint64 = 2 ^ 64 - 1"
  by (simp add: MaxUint64_def unsigned_minus_1_eq_mask mask_eq_exp_minus_1)

lemma unat_MaxUint64_minus: "unat (MaxUint64 - b) = 2 ^ 64 - 1 - unat b"
proof -
  have "b \<le> MaxUint64" by (simp add: MaxUint64_def)
  then show ?thesis by (simp only: unat_sub unat_MaxUint64)
qed

lemma add_guard_iff: "a > MaxUint64 - b \<longleftrightarrow> unat a + unat b \<ge> 2 ^ 64"
  using unsigned_less[of b, where 'a=nat] by (auto simp: word_less_nat_alt unat_MaxUint64_minus)

lemma unat_add_guarded:
  assumes "\<not> (a > MaxUint64 - b)"
  shows "unat (a + b) = unat a + unat b"
  using assms unfolding add_guard_iff by (simp add: unat_word_ariths)

subsection \<open>Errors\<close>

text \<open>
  The sentinel errors of the packages, one constructor each. An error wrapped by \<open>fmt.Errorf\<close> with
  \<open>%w\<close> is the error it wraps; an anonymous \<open>errors.New\<close> or \<open>fmt.Errorf\<close> is \<open>ErrMsg\<close> with a tag.
\<close>

datatype go_error =
    ErrMsg string
  \<comment> \<open>internal/domain\<close>
  | ErrZeroChainID | ErrZeroBlockHash | ErrEmptyWitness
  | ErrNilUint256 | ErrNegativeUint256 | ErrUint256Overflow
  \<comment> \<open>internal/proof\<close>
  | ErrInvalidTreeDepth | ErrInvalidSiblingCount | ErrLeafIndexOutOfRange
  | ErrEmptyPath | ErrPathLengthMismatch | ErrFinalRootMismatch | ErrTreeFull
  \<comment> \<open>Mapnode/evidence\<close>
  | ErrZeroContractAddress | ErrZeroTransactionHash | ErrZeroPayloadDigest | ErrZeroGateway | ErrZeroRequester
  | ErrInvalidTransition | ErrInvalidState | ErrInvalidReasonRequired
  \<comment> \<open>Mapnode/trustview\<close>
  | ErrTrustRootConflict | ErrInvalidTrustNode | ErrDanglingTrustEdge | ErrInvalidTrustEdge | ErrInvalidVerifiedDependency
  \<comment> \<open>Mapnode/planner\<close>
  | ErrPlanNotFound | ErrSnapshotUnsealed | ErrSnapshotEndpoint | ErrPathCostOverflow | ErrStaleSnapshot
  | ErrInconsistentPathStepCost | ErrPlanIDMismatch
  \<comment> \<open>Mapnode/proof\<close>
  | ErrPathProofNotFound | ErrPathProofIDMismatch | ErrProofMaterialMissing | ErrStaleTrustViewSnapshot
  | ErrSourceBlockHashMismatch
  \<comment> \<open>Mapnode/coordinator\<close>
  | ErrInvalidRequestState | ErrInvalidRequestTransition | ErrInvalidObservation
  \<comment> \<open>Mapnode/store\<close>
  | ErrRecordConflict | ErrRecordNotFound | ErrConcurrentUpdate | ErrStalePlanningAttempt
  | ErrInactiveEvidence | ErrGraphConflict | ErrEvidenceBinding
  \<comment> \<open>Mapnode/chain and Mapnode/reorg\<close>
  | ErrCanonicalBlockMismatch | ErrBlockUnconfirmed | ErrMalformedRPCResponse | ErrRemoteChainIDMismatch
  | ErrGatewayCodeMismatch | ErrGatewayABIMismatch | ErrCanonicalMismatch | ErrCursorDegraded | ErrNonMonotonicCursor
  \<comment> \<open>Mapnode/indexer\<close>
  | ErrInvalidVerificationReceipt
  \<comment> \<open>Mapnode/registry\<close>
  | ErrHomeChainNotFound | ErrChainNotFound | ErrNoSignerAuthority | ErrNoTransactionAuthority
  \<comment> \<open>a run-time panic of the Go program\<close>
  | Panic string

type_synonym 'a res = "go_error + 'a"

definition bind_res :: "'e + 'a \<Rightarrow> ('a \<Rightarrow> 'e + 'b) \<Rightarrow> 'e + 'b" where
  "bind_res r f = (case r of Inl e \<Rightarrow> Inl e | Inr x \<Rightarrow> f x)"

lemma bind_res_simps [simp]:
  "bind_res (Inl e) f = Inl e"
  "bind_res (Inr x) f = f x"
  by (simp_all add: bind_res_def)

lemma bind_res_eq_Inr [simp]: "bind_res r f = Inr y \<longleftrightarrow> (\<exists>x. r = Inr x \<and> f x = Inr y)"
  by (cases r) auto

lemma bind_res_eq_Inl: "bind_res r f = Inl e \<longleftrightarrow> r = Inl e \<or> (\<exists>x. r = Inr x \<and> f x = Inl e)"
  by (cases r) auto

definition is_ok :: "'e + 'a \<Rightarrow> bool" where
  "is_ok r = (case r of Inl _ \<Rightarrow> False | Inr _ \<Rightarrow> True)"

lemma is_ok_simps [simp]: "is_ok (Inr x)" "\<not> is_ok (Inl e)"
  by (simp_all add: is_ok_def)

text \<open>Sequencing of operations on a store or on a remote node: an error keeps the state the failing operation left.\<close>

definition bind_op :: "'db \<times> 'a res \<Rightarrow> ('db \<Rightarrow> 'a \<Rightarrow> 'db \<times> 'b res) \<Rightarrow> 'db \<times> 'b res" where
  "bind_op r f = (case r of (db, Inl e) \<Rightarrow> (db, Inl e) | (db, Inr x) \<Rightarrow> f db x)"

lemma bind_op_simps [simp]: "bind_op (db, Inl e) f = (db, Inl e)" "bind_op (db, Inr x) f = f db x"
  by (simp_all add: bind_op_def)

lemma bind_op_Inr:
  "bind_op r f = (db', Inr y) \<longleftrightarrow> (\<exists>db x. r = (db, Inr x) \<and> f db x = (db', Inr y))"
  by (cases r; cases "snd r") auto

lemma bind_op_InrE:
  assumes "bind_op r f = (db', Inr y)"
  obtains db x where "r = (db, Inr x)" "f db x = (db', Inr y)"
  using assms by (auto simp: bind_op_Inr)

subsection \<open>Big-endian byte encodings\<close>

text \<open>The last \<open>n\<close> bytes of a word, most significant first (\<open>binary.BigEndian\<close>, array slices).\<close>

definition be_bytes :: "nat \<Rightarrow> 'a::len word \<Rightarrow> byte list" where
  "be_bytes n w = map (\<lambda>i. ucast (drop_bit (8 * (n - 1 - i)) w)) [0..<n]"

lemma length_be_bytes [simp, encode_simps]: "length (be_bytes n w) = n"
  by (simp add: be_bytes_def)

lemma nth_be_bytes: "i < n \<Longrightarrow> be_bytes n w ! i = ucast (drop_bit (8 * (n - 1 - i)) w)"
  by (simp add: be_bytes_def)

lemma bit_be_bytes:
  assumes "k < 8 * n"
  shows "bit w k = bit (be_bytes n w ! (n - 1 - k div 8)) (k mod 8)"
proof -
  have "k div 8 < n" using assms by (simp add: less_mult_imp_div_less mult.commute)
  moreover have "8 * (k div 8) + k mod 8 = k" by simp
  ultimately show ?thesis
    by (simp add: nth_be_bytes bit_ucast_iff bit_drop_bit_eq) 
qed

lemma be_bytes_inject:
  fixes x y :: "'a::len word"
  assumes "LENGTH('a) \<le> 8 * n"
  shows "be_bytes n x = be_bytes n y \<longleftrightarrow> x = y"
proof
  assume eq: "be_bytes n x = be_bytes n y"
  show "x = y"
  proof (rule bit_word_eqI)
    fix k assume "k < LENGTH('a)"
    with assms have "k < 8 * n" by simp
    then show "bit x k = bit y k"
      using eq bit_be_bytes[of k n x] bit_be_bytes[of k n y] by simp
  qed
qed simp

text \<open>The number a byte string denotes, and Go's \<open>bytes.Compare(a, b) < 0\<close> on byte strings.\<close>

fun be_val :: "byte list \<Rightarrow> nat" where
  "be_val [] = 0"
| "be_val (b # bs) = unat b * 256 ^ length bs + be_val bs"

fun bytes_less :: "byte list \<Rightarrow> byte list \<Rightarrow> bool" where
  "bytes_less [] ys = (ys \<noteq> [])"
| "bytes_less (x # xs) [] = False"
| "bytes_less (x # xs) (y # ys) = (x < y \<or> (x = y \<and> bytes_less xs ys))"

lemma unat_byte_less: "unat (b :: byte) < 256"
  using unsigned_less[of b] by simp

lemma be_val_less: "be_val bs < 256 ^ length bs"
proof (induction bs)
  case (Cons b bs)
  have "unat b * 256 ^ length bs + be_val bs < (unat b + 1) * 256 ^ length bs"
    using Cons by simp
  also have "\<dots> \<le> 256 * 256 ^ length bs"
    by (rule mult_le_mono1) (use unat_byte_less[of b] in simp)
  finally show ?case by simp
qed simp

lemma bytes_less_iff_be_val:
  "length xs = length ys \<Longrightarrow> bytes_less xs ys \<longleftrightarrow> be_val xs < be_val ys"
proof (induction xs ys rule: list_induct2)
  case (Cons x xs y ys)
  define m where "m = (256::nat) ^ length ys"
  have lt: "be_val xs < m" "be_val ys < m"
    using be_val_less[of xs] be_val_less[of ys] Cons.hyps by (simp_all add: m_def)
  have step: "a * m + p < b * m + q" if "a < b" "p < m" for a b p q :: nat
  proof -
    have "a * m + p < (a + 1) * m" using that by simp
    also have "\<dots> \<le> b * m" by (rule mult_le_mono1) (use that in simp)
    finally show ?thesis by simp
  qed
  have "(unat x * m + be_val xs < unat y * m + be_val ys) \<longleftrightarrow>
        unat x < unat y \<or> (unat x = unat y \<and> be_val xs < be_val ys)"
    using step[of "unat x" "unat y" "be_val xs" "be_val ys"]
      step[of "unat y" "unat x" "be_val ys" "be_val xs"] lt
    by (cases "unat x" "unat y" rule: linorder_cases) (auto simp: not_less)
  then show ?case
    using Cons by (simp add: m_def word_less_nat_alt word_unat_eq_iff)
qed simp

lemma be_bytes_Suc:
  "be_bytes (Suc n) w = ucast (drop_bit (8 * n) w) # be_bytes n w"
  by (rule nth_equalityI) (auto simp: nth_be_bytes nth_Cons split: nat.split)

lemma be_val_be_bytes:
  fixes w :: "'a::len word"
  shows "be_val (be_bytes n w) = unat w mod 256 ^ n"
proof (induction n)
  case 0
  then show ?case by (simp add: be_bytes_def)
next
  case (Suc n)
  have "unat (drop_bit (8 * n) w) = unat w div 256 ^ n"
    by (subst unat_drop_bit_eq) (simp add: drop_bit_eq_div power_mult)
  then have "unat (ucast (drop_bit (8 * n) w) :: byte) = unat w div 256 ^ n mod 256"
    by (simp add: unsigned_ucast_eq take_bit_eq_mod)
  moreover have "unat w mod (256 ^ n * 256) = 256 ^ n * (unat w div 256 ^ n mod 256) + unat w mod 256 ^ n"
    by (rule mod_mult2_eq)
  ultimately show ?case
    by (simp add: be_bytes_Suc Suc mult.commute)
qed

lemma be_val_be_bytes_full:
  fixes w :: "'a::len word"
  assumes "LENGTH('a) \<le> 8 * n"
  shows "be_val (be_bytes n w) = unat w"
proof -
  have "unat w < 2 ^ LENGTH('a)" by simp
  also have "\<dots> \<le> 2 ^ (8 * n)" using assms by (intro power_increasing) simp_all
  finally show ?thesis by (simp add: be_val_be_bytes power_mult)
qed

lemma bytes_less_be_bytes:
  fixes x y :: "'a::len word"
  assumes "LENGTH('a) \<le> 8 * n"
  shows "bytes_less (be_bytes n x) (be_bytes n y) \<longleftrightarrow> x < y"
  by (simp add: bytes_less_iff_be_val be_val_be_bytes_full[OF assms] word_less_nat_alt)

text \<open>A \<open>[32]byte\<close>, a 20-byte address, and the ABI words that hold an address or a smaller integer.\<close>

definition bytes32 :: "hash \<Rightarrow> byte list" where
  "bytes32 h = be_bytes 32 h"

definition address_word :: "address \<Rightarrow> byte list" where
  "address_word a = replicate 12 0 @ be_bytes 20 a"

definition uint64_word :: "u64 \<Rightarrow> byte list" where
  "uint64_word v = replicate 24 0 @ be_bytes 8 v"

definition uint32_word :: "u32 \<Rightarrow> byte list" where
  "uint32_word v = replicate 28 0 @ be_bytes 4 v"

lemma length_words [simp, encode_simps]:
  "length (bytes32 h) = 32" "length (address_word a) = 32"
  "length (uint64_word v) = 32" "length (uint32_word i) = 32"
  by (simp_all add: bytes32_def address_word_def uint64_word_def uint32_word_def)

lemma words_inject [simp]:
  "bytes32 g = bytes32 h \<longleftrightarrow> g = h"
  "address_word a = address_word b \<longleftrightarrow> a = b"
  "uint64_word v = uint64_word w \<longleftrightarrow> v = w"
  "uint32_word i = uint32_word j \<longleftrightarrow> i = j"
  by (simp_all add: bytes32_def address_word_def uint64_word_def uint32_word_def be_bytes_inject)

lemma bytes_less_bytes32: "bytes_less (bytes32 x) (bytes32 y) \<longleftrightarrow> x < y"
  by (simp add: bytes32_def bytes_less_be_bytes)

lemma concat_bytes32_inject:
  "length xs = length ys \<Longrightarrow> concat (map bytes32 xs) @ r = concat (map bytes32 ys) @ s \<longleftrightarrow> xs = ys \<and> r = s"
  by (induction xs ys rule: list_induct2) auto

text \<open>\<open>appendLengthPrefixed\<close>: a four-byte length and the bytes of a string.\<close>

definition string_bytes :: "string \<Rightarrow> byte list" where
  "string_bytes s = map of_char s"

definition length_prefixed :: "byte list \<Rightarrow> byte list" where
  "length_prefixed bs = be_bytes 4 (of_nat (length bs) :: u32) @ bs"

lemma length_string_bytes [simp]: "length (string_bytes s) = length s"
  by (simp add: string_bytes_def)

lemma string_bytes_inject [simp]: "string_bytes s = string_bytes t \<longleftrightarrow> s = t"
proof -
  have "inj (of_char :: char \<Rightarrow> byte)"
  proof (rule injI)
    fix c d :: char
    assume "of_char c = (of_char d :: byte)"
    then have "(of_nat (of_char c) :: byte) = of_nat (of_char d)"
      by (simp only: of_nat_of_char)
    then have "of_char c mod 256 = (of_char d mod 256 :: nat)"
      by (simp add: unat_of_nat word_unat_eq_iff)
    then show "c = d"
      by (metis nat_of_char_less_256 mod_less of_char_eq_iff)
  qed
  then show ?thesis
    by (simp add: string_bytes_def inj_map_eq_map)
qed

lemma length_prefixed_append_inject:
  assumes "length a < 2 ^ 32" "length b < 2 ^ 32"
  shows "length_prefixed a @ x = length_prefixed b @ y \<longleftrightarrow> a = b \<and> x = y"
proof
  assume eq: "length_prefixed a @ x = length_prefixed b @ y"
  then have "be_bytes 4 (of_nat (length a) :: u32) = be_bytes 4 (of_nat (length b) :: u32)"
    and rest: "a @ x = b @ y"
    by (simp_all add: length_prefixed_def)
  then have "(of_nat (length a) :: u32) = of_nat (length b)"
    by (simp add: be_bytes_inject)
  with assms have "length a = length b"
    by (simp add: word_unat_eq_iff unat_of_nat)
  with rest show "a = b \<and> x = y" by simp
qed simp

subsection \<open>Strings\<close>

text \<open>
  \<open>strings.TrimSpace\<close> on the ASCII white space (tab to carriage return, and space). The Unicode white
  space Go also trims is not modelled: names and identifiers of the program are ASCII.
\<close>

definition is_space :: "char \<Rightarrow> bool" where
  "is_space c \<longleftrightarrow> c \<in> {CHR '' '', CHR 0x09, CHR 0x0A, CHR 0x0B, CHR 0x0C, CHR 0x0D}"

definition TrimSpace :: "string \<Rightarrow> string" where
  "TrimSpace s = rev (dropWhile is_space (rev (dropWhile is_space s)))"

subsection \<open>A concrete hash\<close>

text \<open>
  A computable function to put for Keccak where a property is applied to concrete inputs: a polynomial
  over the 32-byte words of the input. Its equations on ABI words make such applications evaluate.
\<close>

fun demo_words :: "nat \<Rightarrow> byte list \<Rightarrow> hash" where
  "demo_words 0 bs = 1"
| "demo_words (Suc n) bs = of_nat (be_val (take 32 bs)) + 31 * demo_words n (drop 32 bs)"

definition demo_hash :: keccak where
  "demo_hash bs = demo_words ((length bs + 31) div 32) bs"

lemma be_val_append: "be_val (xs @ ys) = be_val xs * 256 ^ length ys + be_val ys"
  by (induction xs) (simp_all add: power_add algebra_simps)

lemma be_val_zeros: "be_val (replicate n 0 @ ys) = be_val ys"
  by (induction n) simp_all

lemma demo_hash_Nil [simp]: "demo_hash [] = 1"
  by (simp add: demo_hash_def)

lemma demo_hash_word: "length w = 32 \<Longrightarrow> demo_hash (w @ bs) = of_nat (be_val w) + 31 * demo_hash bs"
proof -
  assume "length w = 32"
  moreover have "(32 + length bs + 31) div 32 = Suc ((length bs + 31) div 32)" by simp
  ultimately show ?thesis by (simp add: demo_hash_def del: div_add_self1 add_numeral_left)
qed

lemma demo_hash_words [simp]:
  "demo_hash (bytes32 h @ bs) = h + 31 * demo_hash bs"
  "demo_hash (uint64_word v @ bs) = ucast v + 31 * demo_hash bs"
  "demo_hash (uint32_word i @ bs) = ucast i + 31 * demo_hash bs"
  "demo_hash (address_word a @ bs) = ucast a + 31 * demo_hash bs"
  by (simp_all add: demo_hash_word, simp_all add: bytes32_def uint64_word_def uint32_word_def
        address_word_def be_val_zeros be_val_be_bytes_full)

lemma demo_hash_last [simp]: "demo_hash (bytes32 h) = h + 31"
  using demo_hash_words(1)[of h "[]"] by simp

end
