(* ===== verification/Replay_View.thy ===== *)
theory Replay_View
  imports Prelude "HOL-Library.AList" "HOL-Library.Char_ord" "HOL-Library.List_Lexorder" "HOL-Library.Product_Lexorder"
begin

text \<open>
  \<open>Mapnode/replay\<close>, the graph of the offline replay: costs (\<open>replay_cost_profile.go\<close>), blocks and edges, the
  ordered index of the heights seen on a chain, which is a treap with priorities mixed from the heights, and
  \<open>ReplayTrustView\<close>, which links every block to its neighbours on the same chain and records verified dependencies
  (\<open>replay_trust_view.go\<close>).

  A Go map is a function to \<open>option\<close>; the neighbours of a block, over which the search ranges, are an association
  list. A nil map of neighbours is the empty list, since no operation distinguishes it from an empty map. Node
  identifiers come from \<open>len\<close> and are natural numbers. Chain names are ASCII strings.
\<close>

subsection \<open>Names and costs\<close>

definition lower :: "char \<Rightarrow> char" where
  "lower c = (if 65 \<le> (of_char c :: nat) \<and> (of_char c :: nat) \<le> 90 then char_of (of_char c + 32 :: nat) else c)"

definition ToLower :: "string \<Rightarrow> string" where
  "ToLower s = map lower s"

definition canonicalChain :: "string \<Rightarrow> string" where
  "canonicalChain chain = ToLower (TrimSpace chain)"

record cost_profile =
  cp_ID :: string
  cp_DirectStepCost :: u64
  cp_PathStepCost :: u64
  cp_TrustRootUpdateCost :: u64

definition LegacyV41CostProfile :: cost_profile where
  "LegacyV41CostProfile = \<lparr>cp_ID = ''legacy-v4.1'', cp_DirectStepCost = 3000000, cp_PathStepCost = 30000, cp_TrustRootUpdateCost = 110000\<rparr>"

definition PrototypeCalibratedCostProfile :: cost_profile where
  "PrototypeCalibratedCostProfile =
     \<lparr>cp_ID = ''prototype-calibrated'', cp_DirectStepCost = 3000096, cp_PathStepCost = 30713, cp_TrustRootUpdateCost = 108582\<rparr>"

definition cost_Validate :: "cost_profile \<Rightarrow> unit res" where
  "cost_Validate profile =
     (if TrimSpace (cp_ID profile) = [] then Inl (ErrMsg ''cost profile id is required'')
      else if cp_DirectStepCost profile = 0 \<or> cp_PathStepCost profile = 0 \<or> cp_TrustRootUpdateCost profile = 0
      then Inl (ErrMsg ''all cost profile values must be positive'')
      else Inr ())"

definition CheckedCost :: "u64 \<Rightarrow> u64 \<Rightarrow> u64 res" where
  "CheckedCost delta step =
     (if delta \<noteq> 0 \<and> step > MaxUint64 div delta then Inl (ErrMsg ''cost overflow'') else Inr (delta * step))"

definition CheckedAdd :: "u64 \<Rightarrow> u64 \<Rightarrow> u64 res" where
  "CheckedAdd left right = (if right > MaxUint64 - left then Inl (ErrMsg ''cost overflow'') else Inr (left + right))"

subsection \<open>Blocks and edges\<close>

record replay_block =
  rb_Chain :: string
  rb_OriginalHeight :: u64
  rb_NormalizedHeight :: u64

record replay_key =
  rk_Chain :: string
  rk_Height :: u64

definition block_Key :: "replay_block \<Rightarrow> replay_key" where
  "block_Key block = \<lparr>rk_Chain = canonicalChain (rb_Chain block), rk_Height = rb_OriginalHeight block\<rparr>"

definition canonicalKey :: "replay_key \<Rightarrow> replay_key" where
  "canonicalKey key = key\<lparr>rk_Chain := canonicalChain (rk_Chain key)\<rparr>"

datatype replay_edge_kind = ReplayIntraChainUpEdge | ReplayIntraChainDownEdge | ReplayVerifiedDependencyEdgeKind

record replay_edge =
  re_Kind :: replay_edge_kind
  re_Weight :: u64

record replay_dependency =
  rd_From :: replay_key
  rd_To :: replay_key
  rd_Weight :: u64

subsection \<open>The ordered index of heights\<close>

datatype treap = Tip | Bin (ht_left: treap) (ht_key: u64) (ht_priority: u64) (ht_right: treap)

fun Contains :: "treap \<Rightarrow> u64 \<Rightarrow> bool" where
  "Contains Tip key = False"
| "Contains (Bin l k p r) key = (if key < k then Contains l key else if key > k then Contains r key else True)"

text \<open>The loop of \<open>Neighbours\<close>: a result with its flag is an option.\<close>

fun neighbours_loop :: "treap \<Rightarrow> u64 \<Rightarrow> u64 option \<Rightarrow> u64 option \<Rightarrow> u64 option \<times> u64 option" where
  "neighbours_loop Tip key predecessor successor = (predecessor, successor)"
| "neighbours_loop (Bin l k p r) key predecessor successor =
     (if key < k then neighbours_loop l key predecessor (Some k)
      else if key > k then neighbours_loop r key (Some k) successor
      else (predecessor, successor))"

definition Neighbours :: "treap \<Rightarrow> u64 \<Rightarrow> u64 option \<times> u64 option" where
  "Neighbours index key = neighbours_loop index key None None"

definition mixHeight :: "u64 \<Rightarrow> u64" where
  "mixHeight value =
     (let value = value + 0x9e3779b97f4a7c15;
          value = (value XOR drop_bit 30 value) * 0xbf58476d1ce4e5b9;
          value = (value XOR drop_bit 27 value) * 0x94d049bb133111eb
      in value XOR drop_bit 31 value)"

fun heightPriorityLess :: "treap \<Rightarrow> treap \<Rightarrow> bool" where
  "heightPriorityLess (Bin _ k p _) (Bin _ k' p' _) \<longleftrightarrow> p < p' \<or> (p = p' \<and> k < k')"
| "heightPriorityLess _ _ = False"

fun rotateHeightRight :: "treap \<Rightarrow> treap" where
  "rotateHeightRight (Bin (Bin ll lk lp lr) k p r) = Bin ll lk lp (Bin lr k p r)"
| "rotateHeightRight t = t"

fun rotateHeightLeft :: "treap \<Rightarrow> treap" where
  "rotateHeightLeft (Bin l k p (Bin rl rk rp rr)) = Bin (Bin l k p rl) rk rp rr"
| "rotateHeightLeft t = t"

fun insertHeightNode :: "treap \<Rightarrow> treap \<Rightarrow> treap" where
  "insertHeightNode Tip inserted = inserted"
| "insertHeightNode (Bin l k p r) inserted =
     (if ht_key inserted < k
      then let root = Bin (insertHeightNode l inserted) k p r
           in if heightPriorityLess (ht_left root) root then rotateHeightRight root else root
      else if ht_key inserted > k
      then let root = Bin l k p (insertHeightNode r inserted)
           in if heightPriorityLess (ht_right root) root then rotateHeightLeft root else root
      else Bin l k p r)"

definition Insert :: "treap \<Rightarrow> u64 \<Rightarrow> treap" where
  "Insert index key = insertHeightNode index (Bin Tip key (mixHeight key) Tip)"

subsection \<open>The view\<close>

record replay_view =
  rv_profile :: cost_profile
  rv_heights :: "string \<rightharpoonup> treap"
  rv_adjacency :: "replay_key \<Rightarrow> (replay_key \<times> replay_edge) list"
  rv_nodes :: "replay_key set"
  rv_nodeIDs :: "replay_key \<rightharpoonup> nat"
  rv_nodeKeys :: "replay_key list"
  rv_edgeCount :: u64
  rv_crossEdgesAdded :: u64

definition NewReplayTrustView :: "cost_profile \<Rightarrow> replay_view res" where
  "NewReplayTrustView profile =
     bind_res (cost_Validate profile) (\<lambda>_.
       Inr \<lparr>rv_profile = profile, rv_heights = (\<lambda>_. None), rv_adjacency = (\<lambda>_. []), rv_nodes = {},
            rv_nodeIDs = (\<lambda>_. None), rv_nodeKeys = [], rv_edgeCount = 0, rv_crossEdgesAdded = 0\<rparr>)"

definition setEdgeLocked :: "replay_view \<Rightarrow> replay_key \<Rightarrow> replay_key \<Rightarrow> replay_edge \<Rightarrow> replay_view" where
  "setEdgeLocked view src dst edge =
     (let neighbours = rv_adjacency view src
      in view\<lparr>rv_edgeCount := (if map_of neighbours dst = None then rv_edgeCount view + 1 else rv_edgeCount view),
             rv_adjacency := (rv_adjacency view)(src := AList.update dst edge neighbours)\<rparr>)"

definition deleteEdgeLocked :: "replay_view \<Rightarrow> replay_key \<Rightarrow> replay_key \<Rightarrow> replay_view" where
  "deleteEdgeLocked view src dst =
     (let neighbours = rv_adjacency view src
      in if map_of neighbours dst \<noteq> None
         then view\<lparr>rv_adjacency := (rv_adjacency view)(src := AList.delete dst neighbours), rv_edgeCount := rv_edgeCount view - 1\<rparr>
         else view)"

text \<open>\<open>appendPair\<close>: the two edges between neighbouring heights of a chain.\<close>

type_synonym pending_edge = "replay_key \<times> replay_key \<times> replay_edge"

definition appendPair :: "cost_profile \<Rightarrow> string \<Rightarrow> u64 \<Rightarrow> u64 \<Rightarrow> pending_edge list res" where
  "appendPair profile chain lo hi =
     (let delta = hi - lo
      in bind_res (CheckedCost delta (cp_DirectStepCost profile)) (\<lambda>up.
         bind_res (CheckedCost delta (cp_PathStepCost profile)) (\<lambda>down.
         let lowKey = \<lparr>rk_Chain = chain, rk_Height = lo\<rparr>; highKey = \<lparr>rk_Chain = chain, rk_Height = hi\<rparr>
         in Inr [(lowKey, highKey, \<lparr>re_Kind = ReplayIntraChainUpEdge, re_Weight = up\<rparr>),
                 (highKey, lowKey, \<lparr>re_Kind = ReplayIntraChainDownEdge, re_Weight = down\<rparr>)])))"

definition pending_edges :: "cost_profile \<Rightarrow> replay_key \<Rightarrow> u64 option \<Rightarrow> u64 option \<Rightarrow> pending_edge list res" where
  "pending_edges profile key predecessor successor =
     bind_res (case predecessor of None \<Rightarrow> Inr [] | Some p \<Rightarrow> appendPair profile (rk_Chain key) p (rk_Height key)) (\<lambda>below.
     bind_res (case successor of None \<Rightarrow> Inr [] | Some s \<Rightarrow> appendPair profile (rk_Chain key) (rk_Height key) s) (\<lambda>above.
     Inr (below @ above)))"

definition add_node :: "replay_view \<Rightarrow> treap \<Rightarrow> replay_key \<Rightarrow> replay_view" where
  "add_node view index key =
     view\<lparr>rv_heights := (rv_heights view)(rk_Chain key \<mapsto> Insert index (rk_Height key)),
          rv_nodes := insert key (rv_nodes view),
          rv_nodeIDs := (rv_nodeIDs view)(key \<mapsto> length (rv_nodeKeys view)),
          rv_nodeKeys := rv_nodeKeys view @ [key]\<rparr>"

definition split_edge :: "replay_view \<Rightarrow> string \<Rightarrow> u64 option \<Rightarrow> u64 option \<Rightarrow> replay_view" where
  "split_edge view chain predecessor successor =
     (case (predecessor, successor) of
        (Some p, Some s) \<Rightarrow>
          let lowKey = \<lparr>rk_Chain = chain, rk_Height = p\<rparr>; highKey = \<lparr>rk_Chain = chain, rk_Height = s\<rparr>
          in deleteEdgeLocked (deleteEdgeLocked view lowKey highKey) highKey lowKey
      | _ \<Rightarrow> view)"

definition activateLocked :: "replay_view \<Rightarrow> replay_block \<Rightarrow> replay_view \<times> replay_key res" where
  "activateLocked view block =
     (let key = block_Key block
      in if rk_Chain key = '''' then (view, Inl (ErrMsg ''replay block chain is empty''))
         else let index = (case rv_heights view (rk_Chain key) of None \<Rightarrow> Tip | Some index \<Rightarrow> index);
                  view = view\<lparr>rv_heights := (rv_heights view)(rk_Chain key \<mapsto> index)\<rparr>
              in if Contains index (rk_Height key) then (view, Inr key)
                 else case Neighbours index (rk_Height key) of (predecessor, successor) \<Rightarrow>
                   (case pending_edges (rv_profile view) key predecessor successor of
                      Inl e \<Rightarrow> (view, Inl e)
                    | Inr pending \<Rightarrow>
                        let view = split_edge (add_node view index key) (rk_Chain key) predecessor successor
                        in (fold (\<lambda>(src, dst, edge) view. setEdgeLocked view src dst edge) pending view, Inr key)))"

definition AddVerifiedDependency :: "replay_view \<Rightarrow> replay_block \<Rightarrow> replay_block \<Rightarrow> replay_view \<times> replay_dependency res" where
  "AddVerifiedDependency view fromBlock toBlock =
     bind_op (activateLocked view fromBlock) (\<lambda>view src.
     bind_op (activateLocked view toBlock) (\<lambda>view dst.
     if rv_crossEdgesAdded view = MaxUint64 then (view, Inl (ErrMsg ''cross edge addition counter overflow''))
     else let edge = \<lparr>rd_From = src, rd_To = dst, rd_Weight = cp_PathStepCost (rv_profile view)\<rparr>;
              view = setEdgeLocked view src dst \<lparr>re_Kind = ReplayVerifiedDependencyEdgeKind, re_Weight = rd_Weight edge\<rparr>
          in (view\<lparr>rv_crossEdgesAdded := rv_crossEdgesAdded view + 1\<rparr>, Inr edge)))"

definition view_Edge :: "replay_view \<Rightarrow> replay_key \<Rightarrow> replay_key \<Rightarrow> replay_edge option" where
  "view_Edge view src dst = map_of (rv_adjacency view (canonicalKey src)) (canonicalKey dst)"

definition NodeCount :: "replay_view \<Rightarrow> u64" where
  "NodeCount view = of_nat (card (rv_nodes view))"

subsection \<open>Costs and names\<close>

lemma CheckedAdd_Inr: "CheckedAdd a b = Inr c \<longleftrightarrow> unat a + unat b < 2 ^ 64 \<and> c = a + b"
  using add_guard_iff[where a = b and b = a] by (auto simp: CheckedAdd_def add.commute[of "unat b"] not_less)

lemma CheckedAdd_unat: "CheckedAdd a b = Inr c \<Longrightarrow> unat c = unat a + unat b"
  by (auto simp: CheckedAdd_Inr unat_word_ariths)

lemma CheckedCost_Inr: "CheckedCost a b = Inr c \<longleftrightarrow> unat a * unat b < 2 ^ 64 \<and> c = a * b"
proof (cases "a = 0")
  case False
  then have pos: "0 < unat a" by (simp add: unat_gt_0)
  have "b > MaxUint64 div a \<longleftrightarrow> (2 ^ 64 - 1) div unat a < unat b"
    by (simp add: word_less_nat_alt unat_div unat_MaxUint64)
  also have "\<dots> \<longleftrightarrow> 2 ^ 64 - 1 < unat b * unat a" using pos by (rule div_less_iff_less_mult)
  also have "\<dots> \<longleftrightarrow> 2 ^ 64 \<le> unat a * unat b" by (simp add: mult.commute) linarith
  finally show ?thesis using False by (auto simp: CheckedCost_def)
qed (auto simp: CheckedCost_def)

lemma CheckedCost_unat: "CheckedCost a b = Inr c \<Longrightarrow> unat c = unat a * unat b"
  by (auto simp: CheckedCost_Inr unat_word_ariths)

lemma is_space_lower [simp]: "is_space (lower c) = is_space c"
proof (cases "65 \<le> (of_char c :: nat) \<and> (of_char c :: nat) \<le> 90")
  case True
  then have u: "(of_char (lower c) :: nat) = of_char c + 32" by (simp add: lower_def)
  then show ?thesis using True by (auto simp: is_space_def)
qed (auto simp: lower_def)

lemma lower_lower [simp]: "lower (lower c) = lower c"
proof (cases "65 \<le> (of_char c :: nat) \<and> (of_char c :: nat) \<le> 90")
  case True
  then have "(of_char (lower c) :: nat) = of_char c + 32" by (simp add: lower_def)
  with True show ?thesis unfolding lower_def[of "lower c"] by simp
qed (auto simp: lower_def)

lemma TrimSpace_ToLower: "TrimSpace (ToLower s) = ToLower (TrimSpace s)"
  by (simp add: TrimSpace_def ToLower_def dropWhile_map rev_map comp_def)

lemma TrimSpace_idem: "TrimSpace (TrimSpace s) = TrimSpace s"
proof -
  define t where "t = dropWhile is_space (rev (dropWhile is_space s))"
  have t: "dropWhile is_space t = t" by (simp add: t_def)
  have "dropWhile is_space (rev t) = rev t"
  proof (cases "rev t")
    case (Cons c cs)
    then have last: "t \<noteq> []" "c = last t" by (auto simp: hd_rev[symmetric])
    obtain w where w: "rev (dropWhile is_space s) = w @ t"
      using takeWhile_dropWhile_id[of is_space "rev (dropWhile is_space s)"] by (metis t_def)
    then have "dropWhile is_space s = rev t @ rev w" by (metis rev_append rev_rev_ident)
    then have "hd (dropWhile is_space s) = c" "dropWhile is_space s \<noteq> []" using Cons by simp_all
    then have "\<not> is_space c" using hd_dropWhile by metis
    then show ?thesis using Cons by simp
  qed simp
  then show ?thesis using t by (simp add: TrimSpace_def flip: t_def)
qed

lemma canonicalChain_idem [simp]: "canonicalChain (canonicalChain c) = canonicalChain c"
  by (simp add: canonicalChain_def TrimSpace_ToLower TrimSpace_idem) (simp add: ToLower_def)

lemma canonicalKey_block [simp]: "canonicalKey (block_Key b) = block_Key b"
  by (simp add: canonicalKey_def block_Key_def)

subsection \<open>The treap\<close>

fun keys :: "treap \<Rightarrow> u64 set" where
  "keys Tip = {}"
| "keys (Bin l k p r) = insert k (keys l \<union> keys r)"

text \<open>A node is ranked by its priority and then by its key, as \<open>heightPriorityLess\<close> compares nodes.\<close>

fun ranks :: "treap \<Rightarrow> (u64 \<times> u64) set" where
  "ranks Tip = {}"
| "ranks (Bin l k p r) = insert (p, k) (ranks l \<union> ranks r)"

fun search_tree :: "treap \<Rightarrow> bool" where
  "search_tree Tip = True"
| "search_tree (Bin l k p r) \<longleftrightarrow> search_tree l \<and> search_tree r \<and> (\<forall>x \<in> keys l. x < k) \<and> (\<forall>x \<in> keys r. k < x)"

fun heap_tree :: "treap \<Rightarrow> bool" where
  "heap_tree Tip = True"
| "heap_tree (Bin l k p r) \<longleftrightarrow> heap_tree l \<and> heap_tree r \<and> (\<forall>x \<in> ranks l \<union> ranks r. (p, k) < x)"

definition index_ok :: "treap \<Rightarrow> bool" where
  "index_ok t \<longleftrightarrow> search_tree t \<and> heap_tree t \<and> (\<forall>(p, k) \<in> ranks t. p = mixHeight k)"

lemma keys_ranks: "keys t = snd ` ranks t"
  by (induction t) (auto simp: image_Un)

lemma finite_keys [simp]: "finite (keys t)"
  by (induction t) auto

lemma Contains_iff: "search_tree t \<Longrightarrow> Contains t h \<longleftrightarrow> h \<in> keys t"
  by (induction t) (auto simp: dest: less_asym)

lemma heightPriorityLess_ranks:
  "heightPriorityLess (Bin l k p r) (Bin l' k' p' r') \<longleftrightarrow> (p, k) < (p', k')"
  by (auto simp: less_prod_def less_eq_prod_def)

text \<open>What an insertion makes of a tree, and one level of it: a rotation restores the order of ranks.\<close>

definition inserted :: "u64 \<Rightarrow> u64 \<Rightarrow> treap \<Rightarrow> treap \<Rightarrow> bool" where
  "inserted key prio t t' \<longleftrightarrow>
     keys t' = insert key (keys t) \<and> ranks t' = insert (prio, key) (ranks t) \<and> search_tree t' \<and> heap_tree t'"

lemma inserted_root:
  assumes "inserted key prio t (Bin l k p r)" "\<forall>x \<in> ranks t. m < x" "(p, k) < m"
  shows "(p, k) = (prio, key)" "ranks l \<union> ranks r \<subseteq> ranks t"
proof -
  have "(p, k) \<notin> ranks t" using assms(2,3) order.asym by blast
  then show new: "(p, k) = (prio, key)" using assms(1) by (auto simp: inserted_def)
  have "(p, k) \<notin> ranks l \<union> ranks r" using assms(1) unfolding inserted_def heap_tree.simps by blast
  moreover have "ranks l \<union> ranks r \<subseteq> insert (p, k) (ranks t)" using assms(1) new by (auto simp: inserted_def)
  ultimately show "ranks l \<union> ranks r \<subseteq> ranks t" by blast
qed

lemma inserted_sides:
  "inserted key prio l l' \<Longrightarrow> keys (Bin l' k p r) = insert key (keys (Bin l k p r)) \<and> ranks (Bin l' k p r) = insert (prio, key) (ranks (Bin l k p r))"
  "inserted key prio r r' \<Longrightarrow> keys (Bin l k p r') = insert key (keys (Bin l k p r)) \<and> ranks (Bin l k p r') = insert (prio, key) (ranks (Bin l k p r))"
  by (simp_all add: inserted_def insert_commute)

lemma rotated_sides:
  "keys (Bin ll lk lp (Bin lr k p r)) = keys (Bin (Bin ll lk lp lr) k p r)" "ranks (Bin ll lk lp (Bin lr k p r)) = ranks (Bin (Bin ll lk lp lr) k p r)"
  by auto

lemma insert_left:
  assumes t: "search_tree (Bin l k p r)" "heap_tree (Bin l k p r)" and key: "key < k" and i: "inserted key prio l (Bin ll lk lp lr)"
  shows "inserted key prio (Bin l k p r)
    (if heightPriorityLess (Bin ll lk lp lr) (Bin (Bin ll lk lp lr) k p r) then Bin ll lk lp (Bin lr k p r) else Bin (Bin ll lk lp lr) k p r)"
proof -
  have below: "\<forall>x \<in> insert lk (keys ll \<union> keys lr). x < k" using i t(1) key by (simp add: inserted_def)
  have ranks: "\<forall>x \<in> ranks l \<union> ranks r. (p, k) < x" using t(2) by simp
  show ?thesis
  proof (cases "(lp, lk) < (p, k)")
    case True
    have "\<forall>x \<in> ranks lr \<union> ranks r. (p, k) < x" using inserted_root(2)[OF i _ True] ranks by blast
    moreover have "\<forall>x \<in> ranks r. (lp, lk) < x" using ranks True order.strict_trans by blast
    ultimately have "heap_tree (Bin ll lk lp (Bin lr k p r))" using i t(2) True by (auto simp: inserted_def)
    moreover have "\<forall>x \<in> keys r. lk < x" using below t(1) by (auto intro: order.strict_trans)
    moreover have "search_tree (Bin ll lk lp lr)" using i by (simp add: inserted_def)
    ultimately have "search_tree (Bin ll lk lp (Bin lr k p r))" "heap_tree (Bin ll lk lp (Bin lr k p r))" using t(1) below by auto
    then show ?thesis using inserted_sides(1)[OF i] True unfolding inserted_def heightPriorityLess_ranks by (simp only: if_True simp_thms rotated_sides)
  next
    case False
    then have "(p, k) < (lp, lk)" using below by (metis insertI1 linorder_cases old.prod.inject order.irrefl)
    moreover then have "\<forall>x \<in> ranks ll \<union> ranks lr. (p, k) < x" using i order.strict_trans unfolding inserted_def heap_tree.simps by blast
    ultimately have "\<forall>x \<in> ranks (Bin ll lk lp lr) \<union> ranks r. (p, k) < x" using ranks unfolding ranks.simps by blast
    moreover have "search_tree (Bin ll lk lp lr)" "heap_tree (Bin ll lk lp lr)" using i by (simp_all add: inserted_def)
    ultimately have "heap_tree (Bin (Bin ll lk lp lr) k p r)" "search_tree (Bin (Bin ll lk lp lr) k p r)" using t below by simp_all
    then show ?thesis using inserted_sides(1)[OF i] False unfolding inserted_def heightPriorityLess_ranks by (simp only: if_False simp_thms)
  qed
qed

lemma insert_right:
  assumes t: "search_tree (Bin l k p r)" "heap_tree (Bin l k p r)" and key: "k < key" and i: "inserted key prio r (Bin rl rk rp rr)"
  shows "inserted key prio (Bin l k p r)
    (if heightPriorityLess (Bin rl rk rp rr) (Bin l k p (Bin rl rk rp rr)) then Bin (Bin l k p rl) rk rp rr else Bin l k p (Bin rl rk rp rr))"
proof -
  have above: "\<forall>x \<in> insert rk (keys rl \<union> keys rr). k < x" using i t(1) key by (simp add: inserted_def)
  have ranks: "\<forall>x \<in> ranks l \<union> ranks r. (p, k) < x" using t(2) by simp
  show ?thesis
  proof (cases "(rp, rk) < (p, k)")
    case True
    have "\<forall>x \<in> ranks l \<union> ranks rl. (p, k) < x" using inserted_root(2)[OF i _ True] ranks by blast
    moreover have "\<forall>x \<in> ranks l. (rp, rk) < x" using ranks True order.strict_trans by blast
    ultimately have "heap_tree (Bin (Bin l k p rl) rk rp rr)" using i t(2) True by (auto simp: inserted_def)
    moreover have "\<forall>x \<in> keys l. x < rk" using above t(1) by (auto intro: order.strict_trans)
    moreover have "search_tree (Bin rl rk rp rr)" using i by (simp add: inserted_def)
    ultimately have "search_tree (Bin (Bin l k p rl) rk rp rr)" "heap_tree (Bin (Bin l k p rl) rk rp rr)" using t(1) above by auto
    then show ?thesis using inserted_sides(2)[OF i] True unfolding inserted_def heightPriorityLess_ranks by (simp only: if_True simp_thms rotated_sides[symmetric])
  next
    case False
    then have "(p, k) < (rp, rk)" using above by (metis insertI1 linorder_cases old.prod.inject order.irrefl)
    moreover then have "\<forall>x \<in> ranks rl \<union> ranks rr. (p, k) < x" using i order.strict_trans unfolding inserted_def heap_tree.simps by blast
    ultimately have "\<forall>x \<in> ranks l \<union> ranks (Bin rl rk rp rr). (p, k) < x" using ranks unfolding ranks.simps by blast
    moreover have "search_tree (Bin rl rk rp rr)" "heap_tree (Bin rl rk rp rr)" using i by (simp_all add: inserted_def)
    ultimately have "heap_tree (Bin l k p (Bin rl rk rp rr))" "search_tree (Bin l k p (Bin rl rk rp rr))" using t above by simp_all
    then show ?thesis using inserted_sides(2)[OF i] False unfolding inserted_def heightPriorityLess_ranks by (simp only: if_False simp_thms)
  qed
qed

lemma insertHeightNode_ok:
  "search_tree t \<Longrightarrow> heap_tree t \<Longrightarrow> key \<notin> keys t \<Longrightarrow> inserted key prio t (insertHeightNode t (Bin Tip key prio Tip))"
proof (induction t)
  case (Bin l k p r)
  consider "key < k" | "k < key" using Bin.prems(3) by fastforce
  then show ?case
  proof cases
    case 1
    have i: "inserted key prio l (insertHeightNode l (treap.Bin Tip key prio Tip))" using Bin by simp
    then obtain ll lk lp lr where eq: "insertHeightNode l (treap.Bin Tip key prio Tip) = treap.Bin ll lk lp lr"
      by (cases "insertHeightNode l (treap.Bin Tip key prio Tip)") (auto simp: inserted_def)
    show ?thesis using insert_left[OF Bin.prems(1,2) 1 i[unfolded eq]] 1 eq by (simp add: Let_def del: heightPriorityLess.simps split: if_split_asm)
  next
    case 2
    have i: "inserted key prio r (insertHeightNode r (treap.Bin Tip key prio Tip))" using Bin by simp
    then obtain rl rk rp rr where eq: "insertHeightNode r (treap.Bin Tip key prio Tip) = treap.Bin rl rk rp rr"
      by (cases "insertHeightNode r (treap.Bin Tip key prio Tip)") (auto simp: inserted_def)
    show ?thesis using insert_right[OF Bin.prems(1,2) 2 i[unfolded eq]] 2 less_not_sym[OF 2] eq by (simp add: Let_def del: heightPriorityLess.simps split: if_split_asm)
  qed
qed (simp add: inserted_def)

lemma index_ok_Tip [simp]: "index_ok Tip"
  by (simp add: index_ok_def)

lemma Insert_ok: "index_ok t \<Longrightarrow> h \<notin> keys t \<Longrightarrow> index_ok (Insert t h) \<and> keys (Insert t h) = insert h (keys t)"
  using insertHeightNode_ok[of t h "mixHeight h"] by (auto simp: index_ok_def Insert_def inserted_def)

lemma index_Contains: "index_ok t \<Longrightarrow> Contains t h \<longleftrightarrow> h \<in> keys t"
  by (simp add: index_ok_def Contains_iff)

text \<open>The index is determined by the heights it holds.\<close>

lemma search_tree_ranks:
  assumes "search_tree (Bin l k p r)"
  shows "ranks l = {x \<in> ranks (Bin l k p r). snd x < k}" "ranks r = {x \<in> ranks (Bin l k p r). k < snd x}"
proof -
  have f: "snd x < k \<and> \<not> k < snd x" if "x \<in> ranks l" for x using assms that by (simp add: keys_ranks) (meson less_asym)
  have g: "k < snd x \<and> \<not> snd x < k" if "x \<in> ranks r" for x using assms that by (simp add: keys_ranks) (meson less_asym)
  have h: "\<not> snd (p, k) < k" "\<not> k < snd (p, k)" by simp_all
  show "ranks l = {x \<in> ranks (Bin l k p r). snd x < k}" "ranks r = {x \<in> ranks (Bin l k p r). k < snd x}"
    unfolding ranks.simps using f g h by blast+
qed

lemma heap_root: "heap_tree (Bin l k p r) \<Longrightarrow> x \<in> ranks (Bin l k p r) \<Longrightarrow> (p, k) \<le> x"
  unfolding heap_tree.simps ranks.simps by (elim insertE) (simp, blast intro: less_imp_le)

lemma treap_unique:
  "search_tree t \<Longrightarrow> heap_tree t \<Longrightarrow> search_tree t' \<Longrightarrow> heap_tree t' \<Longrightarrow> ranks t = ranks t' \<Longrightarrow> t = t'"
proof (induction t arbitrary: t')
  case Tip
  then show ?case by (cases t') auto
next
  case (Bin l k p r)
  have "t' \<noteq> Tip" using Bin.prems(5) by auto
  then obtain l' k' p' r' where t': "t' = treap.Bin l' k' p' r'" by (cases t') simp
  have "(p', k') \<in> ranks t'" "(p, k) \<in> ranks (treap.Bin l k p r)" unfolding t' by simp_all
  then have "(p', k') \<in> ranks (treap.Bin l k p r)" "(p, k) \<in> ranks t'" unfolding Bin.prems(5) .
  then have root: "(p, k) = (p', k')"
    using heap_root[OF Bin.prems(2)] heap_root[OF Bin.prems(4)[unfolded t'], folded t'] by (metis order.antisym)
  have k: "k = k'" using root by simp
  note left = search_tree_ranks[OF Bin.prems(1), unfolded Bin.prems(5), unfolded k]
  note right = search_tree_ranks[OF Bin.prems(3)[unfolded t'], folded t']
  have "search_tree l" "heap_tree l" "search_tree r" "heap_tree r" "search_tree l'" "heap_tree l'" "search_tree r'" "heap_tree r'"
    using Bin.prems(1-4) t' by simp_all
  then have "l = l'" "r = r'"
    using Bin.IH(1)[OF _ _ _ _ trans[OF left(1) sym[OF right(1)]]] Bin.IH(2)[OF _ _ _ _ trans[OF left(2) sym[OF right(2)]]] by blast+
  then show ?case using t' root by simp
qed

lemma index_unique:
  assumes "index_ok t" "index_ok t'" "keys t = keys t'"
  shows "t = t'"
proof -
  have r: "ranks u = (\<lambda>k. (mixHeight k, k)) ` keys u" if "index_ok u" for u
    using that by (force simp: index_ok_def keys_ranks image_image)
  have "ranks t = ranks t'" using r[OF assms(1)] r[OF assms(2)] assms(3) by simp
  then show ?thesis using treap_unique assms by (simp add: index_ok_def)
qed

subsection \<open>Nearest heights\<close>

definition nearest_below :: "'a::linorder set \<Rightarrow> 'a \<Rightarrow> 'a option \<Rightarrow> bool" where
  "nearest_below H h near = (case near of None \<Rightarrow> (\<forall>x \<in> H. h < x) | Some p \<Rightarrow> p \<in> H \<and> p < h \<and> (\<forall>x \<in> H. x < h \<longrightarrow> x \<le> p))"

definition nearest_above :: "'a::linorder set \<Rightarrow> 'a \<Rightarrow> 'a option \<Rightarrow> bool" where
  "nearest_above H h near = (case near of None \<Rightarrow> (\<forall>x \<in> H. x < h) | Some s \<Rightarrow> s \<in> H \<and> h < s \<and> (\<forall>x \<in> H. h < x \<longrightarrow> s \<le> x))"

lemma nearest_below_drop:
  assumes "\<forall>x \<in> D. h < x"
  shows "nearest_below (K \<union> D) h near \<longleftrightarrow> nearest_below K h near"
proof -
  have "\<not> x < h" if "x \<in> D" for x using assms that order.asym by blast
  then show ?thesis using assms unfolding nearest_below_def by (cases near) (simp_all, blast+)
qed

lemma nearest_above_drop:
  assumes "\<forall>x \<in> D. x < h"
  shows "nearest_above (K \<union> D) h near \<longleftrightarrow> nearest_above K h near"
proof -
  have "\<not> h < x" if "x \<in> D" for x using assms that order.asym by blast
  then show ?thesis using assms unfolding nearest_above_def by (cases near) (simp_all, blast+)
qed

lemma nearest_above_join:
  assumes n: "near = Some k \<and> nearest_above K h None \<or> near \<noteq> None \<and> nearest_above K h near"
    and k: "h < k" "\<forall>x \<in> K. x < k" "\<forall>x \<in> D. k < x"
  shows "near \<noteq> None \<and> nearest_above (K \<union> insert k D) h near"
proof -
  obtain s where s: "near = Some s" using n by auto
  have K: "s \<in> insert k K" "h < s" "s \<le> k" "\<And>x. x \<in> K \<Longrightarrow> h < x \<Longrightarrow> s \<le> x"
    using n k unfolding s nearest_above_def by (auto intro: less_imp_le dest: order.asym)
  have "s \<le> x" if "x \<in> insert k D" for x using that k(3) K(3) by (auto intro: less_imp_le order.trans)
  then show ?thesis using K unfolding s nearest_above_def by (simp, blast)
qed

lemma nearest_below_join:
  assumes n: "near = Some k \<and> nearest_below K h None \<or> near \<noteq> None \<and> nearest_below K h near"
    and k: "k < h" "\<forall>x \<in> K. k < x" "\<forall>x \<in> D. x < k"
  shows "near \<noteq> None \<and> nearest_below (K \<union> insert k D) h near"
proof -
  obtain s where s: "near = Some s" using n by auto
  have K: "s \<in> insert k K" "s < h" "k \<le> s" "\<And>x. x \<in> K \<Longrightarrow> x < h \<Longrightarrow> x \<le> s"
    using n k unfolding s nearest_below_def by (auto intro: less_imp_le dest: order.asym)
  have "x \<le> s" if "x \<in> insert k D" for x using that k(3) K(3) by (auto intro: less_imp_le order.trans)
  then show ?thesis using K unfolding s nearest_below_def by (simp, blast)
qed

lemma neighbours_loop_nearest:
  "search_tree t \<Longrightarrow> h \<notin> keys t \<Longrightarrow> neighbours_loop t h pr su = (pr', su') \<Longrightarrow>
     (pr' = pr \<and> nearest_below (keys t) h None \<or> pr' \<noteq> None \<and> nearest_below (keys t) h pr') \<and>
     (su' = su \<and> nearest_above (keys t) h None \<or> su' \<noteq> None \<and> nearest_above (keys t) h su')"
proof (induction t arbitrary: pr su)
  case (Bin l k p r)
  have t: "search_tree l" "search_tree r" "\<forall>x \<in> keys l. x < k" "\<forall>x \<in> keys r. k < x" using Bin.prems(1) by simp_all
  consider "h < k" | "k < h" using Bin.prems(2) by fastforce
  then show ?case
  proof cases
    case 1
    have "h \<notin> keys l" "neighbours_loop l h pr (Some k) = (pr', su')" using Bin.prems(2,3) 1 by simp_all
    note IH = Bin.IH(1)[OF t(1) this]
    have eq: "keys (treap.Bin l k p r) = keys l \<union> insert k (keys r)" by auto
    have "\<forall>x \<in> insert k (keys r). h < x" using t(4) 1 by (auto intro: less_trans)
    note drop = nearest_below_drop[OF this]
    show ?thesis using IH nearest_above_join[OF _ 1 t(3,4), of su'] unfolding eq drop by blast
  next
    case 2
    have "h \<notin> keys r" "neighbours_loop r h (Some k) su = (pr', su')"
      using Bin.prems(2,3) 2 less_not_sym[OF 2] by simp_all
    note IH = Bin.IH(2)[OF t(2) this]
    have eq: "keys (treap.Bin l k p r) = keys r \<union> insert k (keys l)" by auto
    have "\<forall>x \<in> insert k (keys l). x < h" using t(3) 2 by (auto intro: less_trans)
    note drop = nearest_above_drop[OF this]
    show ?thesis using IH nearest_below_join[OF _ 2 t(4,3), of pr'] unfolding eq drop by blast
  qed
qed (simp add: nearest_below_def nearest_above_def)

lemma Neighbours_nearest:
  assumes "index_ok t" "h \<notin> keys t" "Neighbours t h = (pr, su)"
  shows "nearest_below (keys t) h pr" "nearest_above (keys t) h su"
  using neighbours_loop_nearest[of t h None None pr su] assms by (auto simp: index_ok_def Neighbours_def)

definition adjacent :: "'a::linorder set \<Rightarrow> 'a \<Rightarrow> 'a \<Rightarrow> bool" where
  "adjacent H lo hi \<longleftrightarrow> lo \<in> H \<and> hi \<in> H \<and> lo < hi \<and> \<not> (\<exists>x \<in> H. lo < x \<and> x < hi)"

lemma adjacent_below:
  assumes "h \<notin> H" "nearest_below H h pr"
  shows "adjacent (insert h H) lo h \<longleftrightarrow> pr = Some lo"
proof
  assume a: "adjacent (insert h H) lo h"
  then have lo: "lo \<in> H" "lo < h" by (auto simp: adjacent_def)
  then obtain p where p: "pr = Some p" "p \<in> H" "p < h" "lo \<le> p"
    using assms(2) less_asym by (cases pr) (auto simp: nearest_below_def)
  have "\<not> lo < p" using a p by (auto simp: adjacent_def)
  then show "pr = Some lo" using p by simp
next
  assume "pr = Some lo"
  then show "adjacent (insert h H) lo h" using assms by (auto simp: adjacent_def nearest_below_def)
qed

lemma adjacent_above:
  assumes "h \<notin> H" "nearest_above H h su"
  shows "adjacent (insert h H) h hi \<longleftrightarrow> su = Some hi"
proof
  assume a: "adjacent (insert h H) h hi"
  then have hi: "hi \<in> H" "h < hi" by (auto simp: adjacent_def)
  then obtain s where s: "su = Some s" "s \<in> H" "h < s" "s \<le> hi"
    using assms(2) less_asym by (cases su) (auto simp: nearest_above_def)
  have "\<not> s < hi" using a s by (auto simp: adjacent_def)
  then show "su = Some hi" using s by simp
next
  assume "su = Some hi"
  then show "adjacent (insert h H) h hi" using assms by (auto simp: adjacent_def nearest_above_def)
qed

lemma adjacent_insert:
  assumes "h \<notin> H" "nearest_below H h pr" "nearest_above H h su"
  shows "adjacent (insert h H) lo hi \<longleftrightarrow>
    pr = Some lo \<and> hi = h \<or> lo = h \<and> su = Some hi \<or> adjacent H lo hi \<and> \<not> (pr = Some lo \<and> su = Some hi)"
proof -
  consider "hi = h" | "lo = h" "hi \<noteq> h" | "lo \<noteq> h" "hi \<noteq> h" by blast
  then show ?thesis
  proof cases
    case 1
    have "\<not> adjacent H lo h" "\<not> (lo = h \<and> su = Some h)" using assms by (auto simp: adjacent_def nearest_above_def)
    then show ?thesis using adjacent_below[OF assms(1,2)] 1 by auto
  next
    case 2
    have "\<not> adjacent H h hi" using assms by (auto simp: adjacent_def)
    then show ?thesis using adjacent_above[OF assms(1,3)] 2 by auto
  next
    case 3
    have "lo < h \<and> h < hi \<longleftrightarrow> pr = Some lo \<and> su = Some hi" if a: "adjacent H lo hi"
    proof
      assume between: "lo < h \<and> h < hi"
      have "adjacent (insert h H) lo h" "adjacent (insert h H) h hi" using a between by (auto simp: adjacent_def intro: less_trans)
      then show "pr = Some lo \<and> su = Some hi" using adjacent_below[OF assms(1,2)] adjacent_above[OF assms(1,3)] by simp
    next
      assume "pr = Some lo \<and> su = Some hi"
      then show "lo < h \<and> h < hi" using assms by (auto simp: nearest_below_def nearest_above_def)
    qed
    then show ?thesis using 3 by (auto simp: adjacent_def)
  qed
qed

subsection \<open>Indexes built by insertion\<close>

lemma not_less_child:
  assumes "heap_tree (Bin l k p r)" "t \<in> {l, r}"
  shows "\<not> heightPriorityLess t (Bin l k p r)"
proof (cases t)
  case (Bin tl tk tp tr)
  then have "(tp, tk) \<in> ranks l \<union> ranks r" using assms(2) by auto
  then have "(p, k) < (tp, tk)" using assms(1) unfolding heap_tree.simps by blast
  then show ?thesis unfolding Bin heightPriorityLess_ranks by (rule less_not_sym)
qed simp

lemma insertHeightNode_present:
  "search_tree t \<Longrightarrow> heap_tree t \<Longrightarrow> key \<in> keys t \<Longrightarrow> insertHeightNode t (Bin Tip key prio Tip) = t"
proof (induction t)
  case (Bin l k p r)
  have l: "\<not> heightPriorityLess l (treap.Bin l k p r)" and r: "\<not> heightPriorityLess r (treap.Bin l k p r)"
    using not_less_child[OF Bin.prems(2)] by simp_all
  consider "key < k" "key \<in> keys l" | "k < key" "\<not> key < k" "key \<in> keys r" | "key = k"
    using Bin.prems(1,3) less_not_sym by fastforce
  then show ?case
    by cases (use Bin l r in \<open>simp_all add: Let_def del: heightPriorityLess.simps\<close>)
qed simp

lemma Insert_any: "index_ok t \<Longrightarrow> index_ok (Insert t h) \<and> keys (Insert t h) = insert h (keys t)"
  using Insert_ok insertHeightNode_present by (cases "h \<in> keys t") (auto simp: Insert_def index_ok_def)

lemma foldl_Insert: "index_ok t \<Longrightarrow> index_ok (foldl Insert t hs) \<and> keys (foldl Insert t hs) = set hs \<union> keys t"
  by (induction hs arbitrary: t) (simp_all add: Insert_any)

subsection \<open>Edges of a view\<close>

abbreviation edge_at :: "replay_view \<Rightarrow> replay_key \<Rightarrow> replay_key \<Rightarrow> replay_edge option" where
  "edge_at v a b \<equiv> map_of (rv_adjacency v a) b"

definition edge_pairs :: "replay_view \<Rightarrow> (replay_key \<times> replay_key) set" where
  "edge_pairs v = {(a, b). edge_at v a b \<noteq> None}"

definition heights_on :: "replay_view \<Rightarrow> string \<Rightarrow> u64 set" where
  "heights_on v c = {h. \<lparr>rk_Chain = c, rk_Height = h\<rparr> \<in> rv_nodes v}"

text \<open>
  The kinds of edges: up and down edges link adjacent heights of a chain at the cost of the steps between them, a
  verified dependency costs one path step.
\<close>

definition edge_ok :: "cost_profile \<Rightarrow> (string \<Rightarrow> u64 set) \<Rightarrow> replay_key \<Rightarrow> replay_key \<Rightarrow> replay_edge \<Rightarrow> bool" where
  "edge_ok profile H a b e =
     (case re_Kind e of
        ReplayIntraChainUpEdge \<Rightarrow> rk_Chain a = rk_Chain b \<and> adjacent (H (rk_Chain a)) (rk_Height a) (rk_Height b) \<and>
          unat (re_Weight e) = (unat (rk_Height b) - unat (rk_Height a)) * unat (cp_DirectStepCost profile)
      | ReplayIntraChainDownEdge \<Rightarrow> rk_Chain a = rk_Chain b \<and> adjacent (H (rk_Chain a)) (rk_Height b) (rk_Height a) \<and>
          unat (re_Weight e) = (unat (rk_Height a) - unat (rk_Height b)) * unat (cp_PathStepCost profile)
      | ReplayVerifiedDependencyEdgeKind \<Rightarrow> re_Weight e = cp_PathStepCost profile)"

definition ids_ok :: "replay_view \<Rightarrow> bool" where
  "ids_ok v \<longleftrightarrow> distinct (rv_nodeKeys v) \<and> rv_nodes v = set (rv_nodeKeys v) \<and>
     (\<forall>k i. rv_nodeIDs v k = Some i \<longleftrightarrow> i < length (rv_nodeKeys v) \<and> rv_nodeKeys v ! i = k)"

definition index_of :: "replay_view \<Rightarrow> string \<Rightarrow> treap" where
  "index_of v c = (case rv_heights v c of None \<Rightarrow> Tip | Some t \<Rightarrow> t)"

definition heights_ok :: "replay_view \<Rightarrow> bool" where
  "heights_ok v \<longleftrightarrow> (\<forall>c. index_ok (index_of v c) \<and> keys (index_of v c) = heights_on v c) \<and>
     (\<forall>k \<in> rv_nodes v. canonicalKey k = k \<and> rk_Chain k \<noteq> [])"

definition edges_ok :: "replay_view \<Rightarrow> bool" where
  "edges_ok v \<longleftrightarrow>
     (\<forall>a b e. edge_at v a b = Some e \<longrightarrow> a \<in> rv_nodes v \<and> b \<in> rv_nodes v \<and> edge_ok (rv_profile v) (heights_on v) a b e) \<and>
     (\<forall>c lo hi. adjacent (heights_on v c) lo hi \<longrightarrow>
        edge_at v \<lparr>rk_Chain = c, rk_Height = lo\<rparr> \<lparr>rk_Chain = c, rk_Height = hi\<rparr> \<noteq> None \<and>
        edge_at v \<lparr>rk_Chain = c, rk_Height = hi\<rparr> \<lparr>rk_Chain = c, rk_Height = lo\<rparr> \<noteq> None)"

text \<open>The number of edges a view keeps is the number of edges it has.\<close>

definition counted :: "replay_view \<Rightarrow> bool" where
  "counted v \<longleftrightarrow> (\<forall>a. distinct (map fst (rv_adjacency v a))) \<and> finite (edge_pairs v) \<and> rv_edgeCount v = of_nat (card (edge_pairs v))"

definition view_ok :: "replay_view \<Rightarrow> bool" where
  "view_ok v \<longleftrightarrow> cost_Validate (rv_profile v) = Inr () \<and> ids_ok v \<and> heights_ok v \<and> edges_ok v \<and> counted v"

lemma setEdge_fields [simp]:
  "rv_profile (setEdgeLocked v a b e) = rv_profile v" "rv_heights (setEdgeLocked v a b e) = rv_heights v"
  "rv_nodes (setEdgeLocked v a b e) = rv_nodes v" "rv_nodeIDs (setEdgeLocked v a b e) = rv_nodeIDs v"
  "rv_nodeKeys (setEdgeLocked v a b e) = rv_nodeKeys v" "rv_crossEdgesAdded (setEdgeLocked v a b e) = rv_crossEdgesAdded v"
  by (simp_all add: setEdgeLocked_def Let_def)

lemma deleteEdge_fields [simp]:
  "rv_profile (deleteEdgeLocked v a b) = rv_profile v" "rv_heights (deleteEdgeLocked v a b) = rv_heights v"
  "rv_nodes (deleteEdgeLocked v a b) = rv_nodes v" "rv_nodeIDs (deleteEdgeLocked v a b) = rv_nodeIDs v"
  "rv_nodeKeys (deleteEdgeLocked v a b) = rv_nodeKeys v" "rv_crossEdgesAdded (deleteEdgeLocked v a b) = rv_crossEdgesAdded v"
  by (simp_all add: deleteEdgeLocked_def Let_def)

lemma edge_at_set: "edge_at (setEdgeLocked v s d e) a b = (if a = s \<and> b = d then Some e else edge_at v a b)"
  by (simp add: setEdgeLocked_def Let_def update_conv')

lemma edge_at_delete: "edge_at (deleteEdgeLocked v s d) a b = (if a = s \<and> b = d then None else edge_at v a b)"
  by (auto simp: deleteEdgeLocked_def Let_def delete_conv')

lemma counted_set:
  assumes "counted v"
  shows "counted (setEdgeLocked v s d e)"
proof -
  have pairs: "edge_pairs (setEdgeLocked v s d e) = insert (s, d) (edge_pairs v)" by (auto simp: edge_pairs_def edge_at_set split: if_splits)
  have "rv_edgeCount (setEdgeLocked v s d e) = (if (s, d) \<in> edge_pairs v then rv_edgeCount v else rv_edgeCount v + 1)"
    by (auto simp: setEdgeLocked_def Let_def edge_pairs_def)
  then have "rv_edgeCount (setEdgeLocked v s d e) = of_nat (card (insert (s, d) (edge_pairs v)))"
    using assms by (simp add: counted_def card_insert_if)
  moreover have "distinct (map fst (rv_adjacency (setEdgeLocked v s d e) a))" for a
    using assms by (simp add: counted_def setEdgeLocked_def Let_def distinct_update)
  ultimately show ?thesis using assms by (simp add: counted_def pairs)
qed

lemma counted_delete:
  assumes "counted v"
  shows "counted (deleteEdgeLocked v s d)"
proof -
  have pairs: "edge_pairs (deleteEdgeLocked v s d) = edge_pairs v - {(s, d)}" by (auto simp: edge_pairs_def edge_at_delete split: if_splits)
  have "of_nat (card (edge_pairs v)) = (of_nat (card (edge_pairs v - {(s, d)})) + 1 :: u64)" if "(s, d) \<in> edge_pairs v"
    using assms that by (metis Suc_eq_plus1 card.remove counted_def of_nat_1 of_nat_add)
  then have "rv_edgeCount (deleteEdgeLocked v s d) = of_nat (card (edge_pairs v - {(s, d)}))"
    using assms by (cases "(s, d) \<in> edge_pairs v") (auto simp: counted_def deleteEdgeLocked_def Let_def edge_pairs_def)
  moreover have "distinct (map fst (rv_adjacency (deleteEdgeLocked v s d) a))" for a
    using assms by (simp add: counted_def deleteEdgeLocked_def Let_def distinct_delete)
  ultimately show ?thesis using assms by (simp add: counted_def pairs)
qed

subsection \<open>Activating a block\<close>

definition set_edges :: "pending_edge list \<Rightarrow> replay_view \<Rightarrow> replay_view" where
  "set_edges ps v = fold (\<lambda>(src, dst, edge) view. setEdgeLocked view src dst edge) ps v"

lemma set_edges_fields [simp]:
  "rv_profile (set_edges ps v) = rv_profile v" "rv_heights (set_edges ps v) = rv_heights v"
  "rv_nodes (set_edges ps v) = rv_nodes v" "rv_nodeIDs (set_edges ps v) = rv_nodeIDs v"
  "rv_nodeKeys (set_edges ps v) = rv_nodeKeys v" "rv_crossEdgesAdded (set_edges ps v) = rv_crossEdgesAdded v"
  unfolding set_edges_def by (induction ps arbitrary: v; auto)+

lemma set_edges_counted: "counted v \<Longrightarrow> counted (set_edges ps v)"
  unfolding set_edges_def by (induction ps arbitrary: v) (auto simp: counted_set)

lemma edge_at_set_edges:
  "edge_at (set_edges ps v) a b = Some e \<Longrightarrow> (a, b, e) \<in> set ps \<or> edge_at v a b = Some e"
  "edge_at v a b \<noteq> None \<or> (\<exists>e. (a, b, e) \<in> set ps) \<Longrightarrow> edge_at (set_edges ps v) a b \<noteq> None"
  unfolding set_edges_def
  by (induction ps arbitrary: v; force simp: edge_at_set split: if_splits)+

lemma split_edge_fields [simp]:
  "rv_profile (split_edge v c pr su) = rv_profile v" "rv_heights (split_edge v c pr su) = rv_heights v"
  "rv_nodes (split_edge v c pr su) = rv_nodes v" "rv_nodeIDs (split_edge v c pr su) = rv_nodeIDs v"
  "rv_nodeKeys (split_edge v c pr su) = rv_nodeKeys v" "rv_crossEdgesAdded (split_edge v c pr su) = rv_crossEdgesAdded v"
  by (simp_all add: split_edge_def Let_def split: option.split)

lemma split_edge_counted: "counted v \<Longrightarrow> counted (split_edge v c pr su)"
  by (simp add: split_edge_def Let_def counted_delete split: option.split)

text \<open>The two edges that a block between two heights replaces.\<close>

definition split_pair :: "string \<Rightarrow> u64 option \<Rightarrow> u64 option \<Rightarrow> replay_key \<Rightarrow> replay_key \<Rightarrow> bool" where
  "split_pair c pr su a b \<longleftrightarrow> rk_Chain a = c \<and> rk_Chain b = c \<and> pr \<noteq> None \<and> su \<noteq> None \<and>
     (pr = Some (rk_Height a) \<and> su = Some (rk_Height b) \<or> su = Some (rk_Height a) \<and> pr = Some (rk_Height b))"

lemma split_pair_Some:
  "split_pair c (Some p) (Some s) a b \<longleftrightarrow>
     a = \<lparr>rk_Chain = c, rk_Height = p\<rparr> \<and> b = \<lparr>rk_Chain = c, rk_Height = s\<rparr> \<or>
     a = \<lparr>rk_Chain = c, rk_Height = s\<rparr> \<and> b = \<lparr>rk_Chain = c, rk_Height = p\<rparr>"
  by (cases a; cases b) (auto simp: split_pair_def)

lemma if_merge: "(if P then z else if Q then z else w) = (if Q \<or> P then z else w)"
  by simp

lemma edge_at_split:
  "edge_at (split_edge v c pr su) a b = (if split_pair c pr su a b then None else edge_at v a b)"
proof (cases "pr = None \<or> su = None")
  case True
  then show ?thesis by (auto simp: split_edge_def split_pair_def split: option.split)
next
  case False
  then obtain p s where "pr = Some p" "su = Some s" by auto
  then show ?thesis
    by (simp only: split_edge_def prod.case option.case Let_def edge_at_delete if_merge split_pair_Some)
qed

lemma add_node_edges [simp]: "rv_adjacency (add_node v t k) = rv_adjacency v" "rv_profile (add_node v t k) = rv_profile v"
  "rv_crossEdgesAdded (add_node v t k) = rv_crossEdgesAdded v"
  by (simp_all add: add_node_def)

lemma add_node_counted [simp]: "counted (add_node v t k) = counted v"
  by (simp add: counted_def edge_pairs_def add_node_def)

lemma heights_on_add: "heights_on (add_node v t k) = (heights_on v)(rk_Chain k := insert (rk_Height k) (heights_on v (rk_Chain k)))"
  by (rule ext, cases k) (auto simp: heights_on_def add_node_def)

lemma ids_ok_add:
  assumes "ids_ok v" "k \<notin> rv_nodes v"
  shows "ids_ok (add_node v t k)"
proof -
  have "rv_nodeIDs (add_node v t k) k' = Some i \<longleftrightarrow> i < length (rv_nodeKeys v @ [k]) \<and> (rv_nodeKeys v @ [k]) ! i = k'" for k' i
  proof (cases "k' = k")
    case True
    then show ?thesis using assms by (auto simp: add_node_def ids_ok_def nth_append less_Suc_eq in_set_conv_nth)
  next
    case False
    then show ?thesis using assms by (auto simp: add_node_def ids_ok_def nth_append less_Suc_eq)
  qed
  then show ?thesis using assms by (auto simp: ids_ok_def add_node_def)
qed

lemma heights_ok_add:
  assumes ok: "heights_ok v" and k: "canonicalKey k = k" "rk_Chain k \<noteq> []" "t = index_of v (rk_Chain k)" "rk_Height k \<notin> keys t"
  shows "heights_ok (add_node v t k)"
proof -
  have idx: "index_of (add_node v t k) c = (if c = rk_Chain k then Insert t (rk_Height k) else index_of v c)" for c
    by (simp add: index_of_def add_node_def)
  have t: "index_ok t" "keys t = heights_on v (rk_Chain k)" using ok k(3) by (simp_all add: heights_ok_def)
  show ?thesis using ok k Insert_ok[OF t(1) k(4)] t(2) unfolding heights_ok_def idx heights_on_add by (auto simp: add_node_def)
qed

lemma appendPair_Inr:
  assumes "appendPair profile c lo hi = Inr ps" "lo < hi"
  obtains up down where
    "ps = [(\<lparr>rk_Chain = c, rk_Height = lo\<rparr>, \<lparr>rk_Chain = c, rk_Height = hi\<rparr>, \<lparr>re_Kind = ReplayIntraChainUpEdge, re_Weight = up\<rparr>),
           (\<lparr>rk_Chain = c, rk_Height = hi\<rparr>, \<lparr>rk_Chain = c, rk_Height = lo\<rparr>, \<lparr>re_Kind = ReplayIntraChainDownEdge, re_Weight = down\<rparr>)]"
    "unat up = (unat hi - unat lo) * unat (cp_DirectStepCost profile)" "unat down = (unat hi - unat lo) * unat (cp_PathStepCost profile)"
proof -
  have d: "unat (hi - lo) = unat hi - unat lo" using assms(2) by (intro unat_sub) (rule less_imp_le)
  obtain up down where c: "CheckedCost (hi - lo) (cp_DirectStepCost profile) = Inr up" "CheckedCost (hi - lo) (cp_PathStepCost profile) = Inr down"
    "ps = [(\<lparr>rk_Chain = c, rk_Height = lo\<rparr>, \<lparr>rk_Chain = c, rk_Height = hi\<rparr>, \<lparr>re_Kind = ReplayIntraChainUpEdge, re_Weight = up\<rparr>),
           (\<lparr>rk_Chain = c, rk_Height = hi\<rparr>, \<lparr>rk_Chain = c, rk_Height = lo\<rparr>, \<lparr>re_Kind = ReplayIntraChainDownEdge, re_Weight = down\<rparr>)]"
    using assms(1) by (auto simp: appendPair_def Let_def)
  show thesis using that[OF c(3)] CheckedCost_unat[OF c(1)] CheckedCost_unat[OF c(2)] d by simp
qed

abbreviation on_chain :: "string \<Rightarrow> u64 \<Rightarrow> replay_key" where
  "on_chain c h \<equiv> \<lparr>rk_Chain = c, rk_Height = h\<rparr>"

definition pair_edges :: "cost_profile \<Rightarrow> string \<Rightarrow> u64 \<Rightarrow> u64 \<Rightarrow> pending_edge list \<Rightarrow> bool" where
  "pair_edges profile c lo hi ps \<longleftrightarrow> (\<exists>up down.
     ps = [(on_chain c lo, on_chain c hi, \<lparr>re_Kind = ReplayIntraChainUpEdge, re_Weight = up\<rparr>),
           (on_chain c hi, on_chain c lo, \<lparr>re_Kind = ReplayIntraChainDownEdge, re_Weight = down\<rparr>)] \<and>
     unat up = (unat hi - unat lo) * unat (cp_DirectStepCost profile) \<and> unat down = (unat hi - unat lo) * unat (cp_PathStepCost profile))"

lemma pair_edgesI: "appendPair profile c lo hi = Inr ps \<Longrightarrow> lo < hi \<Longrightarrow> pair_edges profile c lo hi ps"
  unfolding pair_edges_def by (elim appendPair_Inr) blast+

lemma pair_edges_ok:
  assumes "pair_edges profile c lo hi ps" "adjacent (H c) lo hi"
  shows "(a, b, e) \<in> set ps \<Longrightarrow> edge_ok profile H a b e \<and> (a = on_chain c lo \<and> b = on_chain c hi \<or> a = on_chain c hi \<and> b = on_chain c lo)"
  using assms unfolding pair_edges_def by (auto simp: edge_ok_def)

lemma pair_edges_both:
  "pair_edges profile c lo hi ps \<Longrightarrow> (\<exists>e. (on_chain c lo, on_chain c hi, e) \<in> set ps) \<and> (\<exists>e. (on_chain c hi, on_chain c lo, e) \<in> set ps)"
  unfolding pair_edges_def by auto

lemma pending_edges_Inr:
  assumes "pending_edges profile k pr su = Inr ps" "\<And>p. pr = Some p \<Longrightarrow> p < rk_Height k" "\<And>s. su = Some s \<Longrightarrow> rk_Height k < s"
  obtains below above where "ps = below @ above"
    "pr = None \<and> below = [] \<or> (\<exists>p. pr = Some p \<and> pair_edges profile (rk_Chain k) p (rk_Height k) below)"
    "su = None \<and> above = [] \<or> (\<exists>s. su = Some s \<and> pair_edges profile (rk_Chain k) (rk_Height k) s above)"
proof -
  obtain below above where
    b: "(case pr of None \<Rightarrow> Inr [] | Some p \<Rightarrow> appendPair profile (rk_Chain k) p (rk_Height k)) = Inr below" and
    a: "(case su of None \<Rightarrow> Inr [] | Some s \<Rightarrow> appendPair profile (rk_Chain k) (rk_Height k) s) = Inr above" and ps: "ps = below @ above"
    using assms(1) unfolding pending_edges_def by auto
  have "pr = None \<and> below = [] \<or> (\<exists>p. pr = Some p \<and> pair_edges profile (rk_Chain k) p (rk_Height k) below)"
    using b assms(2) by (cases pr) (auto intro: pair_edgesI)
  moreover have "su = None \<and> above = [] \<or> (\<exists>s. su = Some s \<and> pair_edges profile (rk_Chain k) (rk_Height k) s above)"
    using a assms(3) by (cases su) (auto intro: pair_edgesI)
  ultimately show thesis using that ps by blast
qed

text \<open>Edges that stay keep their kind and cost when a height is added to their chain.\<close>

lemma edge_ok_insert:
  assumes "edge_ok profile H a b e" "h \<notin> H c" "nearest_below (H c) h pr" "nearest_above (H c) h su" "\<not> split_pair c pr su a b"
  shows "edge_ok profile (H(c := insert h (H c))) a b e"
proof -
  have "adjacent ((H(c := insert h (H c))) (rk_Chain a)) lo hi"
    if "adjacent (H (rk_Chain a)) lo hi" "rk_Chain a = c \<Longrightarrow> \<not> (pr = Some lo \<and> su = Some hi)" for lo hi
    using that adjacent_insert[OF assms(2-4), of lo hi] by auto
  moreover have "\<not> (pr = Some (rk_Height a) \<and> su = Some (rk_Height b))" "\<not> (pr = Some (rk_Height b) \<and> su = Some (rk_Height a))"
    if "rk_Chain a = c" "rk_Chain b = c" using assms(5) that by (auto simp: split_pair_def)
  ultimately show ?thesis using assms(1) unfolding edge_ok_def by (auto split: replay_edge_kind.split_asm)
qed

lemma heights_on_nodes: "rv_nodes v = rv_nodes w \<Longrightarrow> heights_on v = heights_on w"
  by (simp add: heights_on_def fun_eq_iff)

lemma edges_ok_activate:
  assumes ok: "edges_ok v" and k: "k \<notin> rv_nodes v" "c = rk_Chain k" "h = rk_Height k"
    and near: "nearest_below (heights_on v c) h pr" "nearest_above (heights_on v c) h su"
    and ps: "pending_edges (rv_profile v) k pr su = Inr ps"
  shows "edges_ok (set_edges ps (split_edge (add_node v t k) c pr su))" (is "edges_ok ?v")
proof -
  have key: "k = on_chain c h" using k(2,3) by simp
  then have new: "h \<notin> heights_on v c" using k(1) by (simp add: heights_on_def)
  have H: "heights_on ?v = (heights_on v)(c := insert h (heights_on v c))" (is "_ = ?H")
    using heights_on_add[of v t k] k(2,3) heights_on_nodes[of ?v "add_node v t k"] by simp
  have lt: "\<And>p. pr = Some p \<Longrightarrow> p < rk_Height k" "\<And>s. su = Some s \<Longrightarrow> rk_Height k < s"
    using near k(3) by (auto simp: nearest_below_def nearest_above_def)
  obtain below above where parts: "ps = below @ above"
    "pr = None \<and> below = [] \<or> (\<exists>p. pr = Some p \<and> pair_edges (rv_profile v) c p h below)"
    "su = None \<and> above = [] \<or> (\<exists>s. su = Some s \<and> pair_edges (rv_profile v) c h s above)"
    using pending_edges_Inr[OF ps lt] k(2,3) by blast
  note adj = adjacent_insert[OF new near]
  have nodes: "rv_nodes ?v = insert k (rv_nodes v)" by (simp add: add_node_def)
  have near_nodes: "on_chain c x \<in> rv_nodes v" if "pr = Some x \<or> su = Some x" for x
    using that near by (auto simp: nearest_below_def nearest_above_def heights_on_def)
  have pend: "edge_ok (rv_profile v) ?H a b e \<and> a \<in> rv_nodes ?v \<and> b \<in> rv_nodes ?v" if "(a, b, e) \<in> set ps" for a b e
  proof -
    from that consider "(a, b, e) \<in> set below" | "(a, b, e) \<in> set above" unfolding parts(1) by auto
    then show ?thesis
    proof cases
      case 1
      then obtain p where p: "pr = Some p" "pair_edges (rv_profile v) c p h below" using parts(2) by auto
      then show ?thesis using pair_edges_ok[OF p(2), of ?H, OF _ 1] adj[of p h] near_nodes[of p] nodes key by auto
    next
      case 2
      then obtain s where s: "su = Some s" "pair_edges (rv_profile v) c h s above" using parts(3) by auto
      then show ?thesis using pair_edges_ok[OF s(2), of ?H, OF _ 2] adj[of h s] near_nodes[of s] nodes key by auto
    qed
  qed
  have edges: "a \<in> rv_nodes ?v \<and> b \<in> rv_nodes ?v \<and> edge_ok (rv_profile v) ?H a b e" if "edge_at ?v a b = Some e" for a b e
    using edge_at_set_edges(1)[OF that]
  proof
    assume "edge_at (split_edge (add_node v t k) c pr su) a b = Some e"
    then have "\<not> split_pair c pr su a b" "edge_at v a b = Some e" unfolding edge_at_split by (auto split: if_splits)
    then show ?thesis using ok edge_ok_insert[where H = "heights_on v", OF _ new near] nodes unfolding edges_ok_def by blast
  qed (use pend in blast)
  have ladder: "edge_at ?v (on_chain c' lo) (on_chain c' hi) \<noteq> None \<and> edge_at ?v (on_chain c' hi) (on_chain c' lo) \<noteq> None"
    if a: "adjacent (?H c') lo hi" for c' lo hi
  proof (cases "adjacent (heights_on v c') lo hi \<and> \<not> (c' = c \<and> pr = Some lo \<and> su = Some hi)")
    case True
    have "\<not> (pr = Some hi \<and> su = Some lo)" using True lt by (auto simp: adjacent_def dest: less_trans)
    then have "\<not> split_pair c pr su (on_chain c' lo) (on_chain c' hi)" "\<not> split_pair c pr su (on_chain c' hi) (on_chain c' lo)"
      using True by (auto simp: split_pair_def)
    then show ?thesis using ok True unfolding edges_ok_def by (intro conjI edge_at_set_edges(2)) (simp_all add: edge_at_split del: not_None_eq)
  next
    case False
    then have "c' = c" using a by (auto split: if_splits)
    then have "pr = Some lo \<and> hi = h \<or> lo = h \<and> su = Some hi" using a adj[of lo hi] False by auto
    then have "(\<exists>e. (on_chain c lo, on_chain c hi, e) \<in> set ps) \<and> (\<exists>e. (on_chain c hi, on_chain c lo, e) \<in> set ps)"
    proof
      assume "pr = Some lo \<and> hi = h"
      then show ?thesis using parts(1,2) pair_edges_both[of _ c lo h below] by auto
    next
      assume "lo = h \<and> su = Some hi"
      then show ?thesis using parts(1,3) pair_edges_both[of _ c h hi above] by auto
    qed
    then show ?thesis unfolding \<open>c' = c\<close> by (intro conjI edge_at_set_edges(2)) simp_all
  qed
  show ?thesis using edges ladder unfolding edges_ok_def H by simp
qed

lemma view_ok_cong:
  assumes "rv_profile v = rv_profile w" "rv_nodes v = rv_nodes w" "rv_nodeIDs v = rv_nodeIDs w" "rv_nodeKeys v = rv_nodeKeys w"
    "rv_adjacency v = rv_adjacency w" "rv_edgeCount v = rv_edgeCount w" "index_of v = index_of w"
  shows "view_ok v = view_ok w"
proof -
  have "heights_on v = heights_on w" using assms(2) by (rule heights_on_nodes)
  moreover have "edge_pairs v = edge_pairs w" by (simp add: edge_pairs_def assms(5))
  ultimately show ?thesis unfolding view_ok_def ids_ok_def heights_ok_def edges_ok_def counted_def by (simp only: assms)
qed

lemma activate_new:
  assumes ok: "view_ok v" and k: "canonicalKey k = k" "rk_Chain k \<noteq> []" and t: "t = index_of v (rk_Chain k)" "rk_Height k \<notin> keys t"
    and ps: "Neighbours t (rk_Height k) = (pr, su)" "pending_edges (rv_profile v) k pr su = Inr ps"
  shows "view_ok (set_edges ps (split_edge (add_node v t k) (rk_Chain k) pr su))" (is "view_ok ?v")
proof -
  have parts: "cost_Validate (rv_profile v) = Inr ()" "ids_ok v" "heights_ok v" "edges_ok v" "counted v" using ok by (simp_all add: view_ok_def)
  have index: "index_ok t" "keys t = heights_on v (rk_Chain k)" using parts(3) t(1) by (simp_all add: heights_ok_def)
  have new: "k \<notin> rv_nodes v" using t(2) index(2) by (cases k) (simp add: heights_on_def)
  have near: "nearest_below (heights_on v (rk_Chain k)) (rk_Height k) pr" "nearest_above (heights_on v (rk_Chain k)) (rk_Height k) su"
    using Neighbours_nearest[OF index(1) t(2) ps(1)] index(2) by simp_all
  have "ids_ok ?v" using ids_ok_add[OF parts(2) new, of t] by (simp add: ids_ok_def)
  moreover have "heights_ok ?v"
    using heights_ok_add[OF parts(3) k t] heights_on_nodes[of ?v "add_node v t k"] by (simp add: heights_ok_def index_of_def)
  moreover have "edges_ok ?v" by (rule edges_ok_activate[OF parts(4) new refl refl near ps(2)])
  moreover have "counted ?v" using parts(5) by (simp add: set_edges_counted split_edge_counted)
  ultimately show ?thesis using parts(1) by (simp add: view_ok_def)
qed

lemma activate_ok:
  assumes "view_ok v" "activateLocked v b = (v', r)"
  shows "view_ok v' \<and> rv_nodes v \<subseteq> rv_nodes v' \<and> rv_profile v' = rv_profile v \<and> rv_crossEdgesAdded v' = rv_crossEdgesAdded v \<and>
    (case r of Inl e \<Rightarrow> v' = v\<lparr>rv_heights := rv_heights v'\<rparr> \<and> index_of v' = index_of v | Inr k \<Rightarrow> k = block_Key b \<and> rv_nodes v' = insert k (rv_nodes v))"
proof (cases "rk_Chain (block_Key b) = []")
  case True
  then show ?thesis using assms by (auto simp: activateLocked_def Let_def)
next
  case False
  define k where "k = block_Key b"
  define t where "t = index_of v (rk_Chain k)"
  define w where "w = v\<lparr>rv_heights := (rv_heights v)(rk_Chain k \<mapsto> t)\<rparr>"
  have idx: "index_of w = index_of v" by (simp add: w_def index_of_def t_def fun_eq_iff)
  have w: "view_ok w" using view_ok_cong[of w v] assms(1) idx by (simp add: w_def)
  have index: "index_ok t" "keys t = heights_on v (rk_Chain k)" using assms(1) by (simp_all add: t_def view_ok_def heights_ok_def)
  have act: "(if Contains t (rk_Height k) then (w, Inr k)
    else case Neighbours t (rk_Height k) of (pr, su) \<Rightarrow>
      (case pending_edges (rv_profile w) k pr su of
         Inl e \<Rightarrow> (w, Inl e)
       | Inr ps \<Rightarrow> (set_edges ps (split_edge (add_node w t k) (rk_Chain k) pr su), Inr k))) = (v', r)"
    unfolding assms(2)[symmetric] activateLocked_def Let_def set_edges_def w_def t_def index_of_def k_def using False by simp
  show ?thesis
  proof (cases "Contains t (rk_Height k)")
    case True
    then have "k \<in> rv_nodes v" using index by (cases k) (simp add: index_Contains heights_on_def)
    then show ?thesis using act True w by (auto simp: w_def k_def)
  next
    case new: False
    obtain pr su where n: "Neighbours t (rk_Height k) = (pr, su)" by fastforce
    show ?thesis
    proof (cases "pending_edges (rv_profile w) k pr su")
      case (Inl e)
      then show ?thesis using act new n w idx by (auto simp: w_def)
    next
      case (Inr ps)
      have v': "v' = set_edges ps (split_edge (add_node w t k) (rk_Chain k) pr su)" "r = Inr k" using act new n Inr by simp_all
      have "view_ok v'" unfolding v'
        by (rule activate_new[OF w _ _ _ _ n Inr]) (use False new index idx in \<open>simp_all add: k_def t_def index_Contains\<close>)
      then show ?thesis using v' by (simp add: k_def add_node_def w_def subset_insertI)
    qed
  qed
qed

subsection \<open>Verified dependencies and reachable views\<close>

lemma edge_at_set_same: "edge_at (setEdgeLocked v s d e) s d = Some e"
  by (simp add: edge_at_set)

lemma view_ok_set_dependency:
  assumes ok: "view_ok v" and ab: "a \<in> rv_nodes v" "b \<in> rv_nodes v" and e: "re_Kind e = ReplayVerifiedDependencyEdgeKind" "re_Weight e = cp_PathStepCost (rv_profile v)"
  shows "view_ok (setEdgeLocked v a b e)" (is "view_ok ?v")
proof -
  have H: "heights_on ?v = heights_on v" by (rule heights_on_nodes) simp
  have "edge_ok (rv_profile v) (heights_on v) x y f \<and> x \<in> rv_nodes v \<and> y \<in> rv_nodes v" if "edge_at ?v x y = Some f" for x y f
    using that ok ab e unfolding edge_at_set view_ok_def edges_ok_def by (cases "x = a \<and> y = b") (auto simp: edge_ok_def)
  moreover have "edge_at ?v x y \<noteq> None" if "edge_at v x y \<noteq> None" for x y
    using that unfolding edge_at_set by (cases "x = a \<and> y = b") auto
  ultimately have "edges_ok ?v" using ok unfolding view_ok_def edges_ok_def H setEdge_fields by blast
  moreover have "counted ?v" using counted_set[of v a b] ok by (simp add: view_ok_def)
  moreover have "heights_ok ?v" "ids_ok ?v" using ok unfolding view_ok_def heights_ok_def H by (simp_all add: index_of_def ids_ok_def)
  ultimately show ?thesis using ok by (simp add: view_ok_def)
qed

lemma AddVerifiedDependency_ok:
  assumes ok: "view_ok v" and add: "AddVerifiedDependency v f t = (v', r)"
  shows "view_ok v' \<and> rv_nodes v \<subseteq> rv_nodes v' \<and> rv_profile v' = rv_profile v \<and>
    (\<forall>e. r = Inr e \<longrightarrow> edge_at v' (block_Key f) (block_Key t) = Some \<lparr>re_Kind = ReplayVerifiedDependencyEdgeKind, re_Weight = cp_PathStepCost (rv_profile v)\<rparr>)"
proof -
  obtain v1 r1 where 1: "activateLocked v f = (v1, r1)" by fastforce
  note a1 = activate_ok[OF ok 1]
  show ?thesis
  proof (cases r1)
    case (Inl e)
    then show ?thesis using add 1 a1 by (auto simp: AddVerifiedDependency_def)
  next
    case k1: (Inr k)
    obtain v2 r2 where 2: "activateLocked v1 t = (v2, r2)" by fastforce
    have ok1: "view_ok v1" using a1 by simp
    note a2 = activate_ok[OF ok1 2]
    show ?thesis
    proof (cases r2)
      case (Inl e)
      then show ?thesis using add 1 2 a1 a2 k1 by (auto simp: AddVerifiedDependency_def)
    next
      case k2: (Inr k')
      have in2: "k \<in> rv_nodes v2" "k' \<in> rv_nodes v2" using a1 a2 k1 k2 by auto
      have ok2: "view_ok v2" using a2 by simp
      let ?e = "\<lparr>re_Kind = ReplayVerifiedDependencyEdgeKind, re_Weight = cp_PathStepCost (rv_profile v2)\<rparr>"
      let ?w = "(setEdgeLocked v2 k k' ?e)\<lparr>rv_crossEdgesAdded := rv_crossEdgesAdded v2 + 1\<rparr>"
      have w: "view_ok ?w"
        using view_ok_cong[of ?w "setEdgeLocked v2 k k' ?e"] view_ok_set_dependency[OF ok2 in2, of ?e] by (simp add: index_of_def fun_eq_iff)
      have key: "edge_at ?w k k' = Some ?e" "rv_nodes ?w = rv_nodes v2" "rv_profile ?w = rv_profile v2"
        using edge_at_set_same[of v2 k k' ?e] by simp_all
      have same: "k = block_Key f" "k' = block_Key t" "rv_profile v2 = rv_profile v" "rv_nodes v \<subseteq> rv_nodes v2" using a1 a2 k1 k2 by auto
      show ?thesis
      proof (cases "rv_crossEdgesAdded v2 = MaxUint64")
        case True
        then show ?thesis using add 1 2 k1 k2 ok2 same by (auto simp: AddVerifiedDependency_def)
      next
        case False
        then have "v' = ?w" using add 1 2 k1 k2 by (simp add: AddVerifiedDependency_def Let_def)
        then show ?thesis using w key same by (simp del: replay_view.simps)
      qed
    qed
  qed
qed

text \<open>The views a replay can build from a profile, failed operations included.\<close>

inductive reachable_view :: "cost_profile \<Rightarrow> replay_view \<Rightarrow> bool" for profile where
  reachable_new: "NewReplayTrustView profile = Inr v \<Longrightarrow> reachable_view profile v"
| reachable_activate: "reachable_view profile v \<Longrightarrow> activateLocked v b = (v', r) \<Longrightarrow> reachable_view profile v'"
| reachable_add: "reachable_view profile v \<Longrightarrow> AddVerifiedDependency v f t = (v', r') \<Longrightarrow> reachable_view profile v'"

lemma NewReplayTrustView_ok: "NewReplayTrustView profile = Inr v \<Longrightarrow> view_ok v \<and> rv_profile v = profile"
  by (auto simp: NewReplayTrustView_def view_ok_def ids_ok_def heights_ok_def edges_ok_def counted_def edge_pairs_def
      index_of_def heights_on_def adjacent_def)

lemma reachable_view_ok: "reachable_view profile v \<Longrightarrow> view_ok v \<and> rv_profile v = profile"
proof (induction rule: reachable_view.induct)
  case (reachable_new v)
  then show ?case by (rule NewReplayTrustView_ok)
next
  case (reachable_activate v b v' r)
  then show ?case using activate_ok[of v b v' r] by simp
next
  case (reachable_add v f t v' r)
  then show ?case using AddVerifiedDependency_ok[of v f t v' r] by simp
qed

lemma view_counts:
  assumes "view_ok v"
  shows "NodeCount v = of_nat (length (rv_nodeKeys v))" "rv_edgeCount v = of_nat (card {(a, b). edge_at v a b \<noteq> None})"
  using assms by (simp_all add: view_ok_def NodeCount_def ids_ok_def distinct_card counted_def edge_pairs_def)

subsection \<open>What a view promises\<close>

text \<open>
  C14. The index of heights does not depend on the order of insertions: the same heights, inserted in any
  order and with repetitions, give the same tree. It contains exactly them, and for a height it does
  not contain it finds the nearest lower and the nearest higher one.
\<close>

theorem height_index_canonical:
  assumes "set hs = set hs'"
  shows "foldl Insert Tip hs = foldl Insert Tip hs' \<and>
    (\<forall>h. Contains (foldl Insert Tip hs) h \<longleftrightarrow> h \<in> set hs) \<and>
    (\<forall>h. h \<notin> set hs \<longrightarrow> nearest_below (set hs) h (fst (Neighbours (foldl Insert Tip hs) h)) \<and>
       nearest_above (set hs) h (snd (Neighbours (foldl Insert Tip hs) h)))"
proof (intro conjI allI impI)
  have tip: "index_ok Tip" by (simp add: index_ok_def)
  note a = foldl_Insert[OF tip, of hs] and b = foldl_Insert[OF tip, of hs']
  show "foldl Insert Tip hs = foldl Insert Tip hs'" using index_unique a b assms by simp
  show "Contains (foldl Insert Tip hs) h \<longleftrightarrow> h \<in> set hs" for h using index_Contains a by simp
  fix h assume "h \<notin> set hs"
  then show "nearest_below (set hs) h (fst (Neighbours (foldl Insert Tip hs) h))" "nearest_above (set hs) h (snd (Neighbours (foldl Insert Tip hs) h))"
    using Neighbours_nearest[of "foldl Insert Tip hs" h] a by (metis keys.simps(1) prod.collapse sup_bot_right)+
qed

theorem height_index_canonical_witness:
  "foldl Insert Tip [7, 3, 9, 3] = foldl Insert Tip [3, 7, 9] \<and> Contains (foldl Insert Tip [7, 3, 9, 3]) 9 \<and>
   nearest_below {3, 7, 9} 8 (fst (Neighbours (foldl Insert Tip [7, 3, 9, 3]) 8))"
proof -
  have "set [7, 3, 9, 3] = set [3, 7, 9 :: u64]" by auto
  note h = height_index_canonical[OF this]
  have "8 \<notin> set [7, 3, 9, 3 :: u64]" by simp
  moreover have "set [7, 3, 9, 3] = {3, 7, 9 :: u64}" by auto
  ultimately show ?thesis using h by (metis insertCI)
qed

text \<open>
  C13. Every view the replay can build is well formed: node identifiers number the blocks without gaps,
  the index of every chain holds its heights, every edge has the weight its kind prescribes, adjacent
  heights of a chain are linked in both directions, and the counters are exact. An activation that
  fails leaves blocks, edges and counters as they were.
\<close>

theorem replay_view_wellformed:
  assumes "reachable_view profile v"
  shows "rv_profile v = profile \<and> ids_ok v \<and> heights_ok v \<and> edges_ok v \<and>
    NodeCount v = of_nat (length (rv_nodeKeys v)) \<and> rv_edgeCount v = of_nat (card {(a, b). edge_at v a b \<noteq> None}) \<and>
    (\<forall>b v' e. activateLocked v b = (v', Inl e) \<longrightarrow> v' = v\<lparr>rv_heights := rv_heights v'\<rparr> \<and> index_of v' = index_of v)"
proof -
  have ok: "view_ok v" "rv_profile v = profile" using reachable_view_ok[OF assms] by simp_all
  have "v' = v\<lparr>rv_heights := rv_heights v'\<rparr> \<and> index_of v' = index_of v" if "activateLocked v b = (v', Inl e)" for b v' e
    using activate_ok[OF ok(1) that] by simp
  then show ?thesis using ok view_counts[OF ok(1)] by (simp add: view_ok_def)
qed

definition example_view :: replay_view where
  "example_view =
     (case NewReplayTrustView LegacyV41CostProfile of
        Inr v \<Rightarrow>
          let a1 = \<lparr>rb_Chain = ''A'', rb_OriginalHeight = 1, rb_NormalizedHeight = 0\<rparr>;
              a9 = \<lparr>rb_Chain = '' a'', rb_OriginalHeight = 9, rb_NormalizedHeight = 8\<rparr>;
              b3 = \<lparr>rb_Chain = ''B'', rb_OriginalHeight = 3, rb_NormalizedHeight = 0\<rparr>
          in fst (AddVerifiedDependency (fst (AddVerifiedDependency (fst (activateLocked v a9)) a1 b3)) b3 a9))"

lemma example_view_reachable: "reachable_view LegacyV41CostProfile example_view"
proof -
  have "TrimSpace ''legacy-v4.1'' \<noteq> []" by (simp add: TrimSpace_def is_space_def)
  then obtain v where v: "NewReplayTrustView LegacyV41CostProfile = Inr v" by (simp add: NewReplayTrustView_def cost_Validate_def LegacyV41CostProfile_def)
  have act: "reachable_view p (fst (activateLocked w b))" if "reachable_view p w" for p w b
    using reachable_activate[OF that] by (metis prod.collapse)
  have add: "reachable_view p (fst (AddVerifiedDependency w b c))" if "reachable_view p w" for p w b c
    using reachable_add[OF that] by (metis prod.collapse)
  show ?thesis unfolding example_view_def v Let_def sum.case by (intro add act reachable_new[OF v])
qed

lemma example_view_keys: "map (\<lambda>k. (rk_Chain k, rk_Height k)) (rv_nodeKeys example_view) = [(''a'', 9), (''a'', 1), (''b'', 3)]"
  by code_simp

theorem replay_view_wellformed_witness:
  "ids_ok example_view \<and> edges_ok example_view \<and> NodeCount example_view = 3"
  using replay_view_wellformed[OF example_view_reachable] arg_cong[OF example_view_keys, of length] by simp

end
