(* ===== verification/Go_Heap.thy ===== *)
theory Go_Heap
  imports Main "HOL-Library.Multiset"
begin

text \<open>
  The binary heap of Go's standard library (\<open>container/heap\<close>), which both path searches use as their
  priority queue: \<open>Init\<close>, \<open>Push\<close>, \<open>Pop\<close> and their sift loops over a slice, with the client's \<open>Less\<close> as
  a parameter. The interface the searches rely on is the locale \<open>priority_queue\<close>; the heap implements it
  for every strict weak order.
\<close>

subsection \<open>The operations\<close>

definition heap_swap :: "'a list \<Rightarrow> nat \<Rightarrow> nat \<Rightarrow> 'a list" where
  "heap_swap xs i j = xs[i := xs ! j, j := xs ! i]"

function heap_up :: "('a \<Rightarrow> 'a \<Rightarrow> bool) \<Rightarrow> 'a list \<Rightarrow> nat \<Rightarrow> 'a list" where
  "heap_up lt xs j =
     (let i = (j - 1) div 2
      in if i = j \<or> \<not> lt (xs ! j) (xs ! i) then xs else heap_up lt (heap_swap xs i j) i)"
  by pat_completeness auto
termination
  by (relation "measure (\<lambda>(lt, xs, j). j)") auto

function heap_down :: "('a \<Rightarrow> 'a \<Rightarrow> bool) \<Rightarrow> 'a list \<Rightarrow> nat \<Rightarrow> nat \<Rightarrow> 'a list" where
  "heap_down lt xs i n =
     (let j1 = 2 * i + 1
      in if j1 \<ge> n then xs
         else let j = (if j1 + 1 < n \<and> lt (xs ! (j1 + 1)) (xs ! j1) then j1 + 1 else j1)
              in if \<not> lt (xs ! j) (xs ! i) then xs else heap_down lt (heap_swap xs i j) j n)"
  by pat_completeness auto
termination
  by (relation "measure (\<lambda>(lt, xs, i, n). n - i)") (auto simp: Let_def split: if_splits)

declare heap_up.simps [simp del] heap_down.simps [simp del]

fun heap_init_loop :: "('a \<Rightarrow> 'a \<Rightarrow> bool) \<Rightarrow> 'a list \<Rightarrow> nat \<Rightarrow> 'a list" where
  "heap_init_loop lt xs 0 = xs"
| "heap_init_loop lt xs (Suc i) = heap_init_loop lt (heap_down lt xs i (length xs)) i"

definition heap_Init :: "('a \<Rightarrow> 'a \<Rightarrow> bool) \<Rightarrow> 'a list \<Rightarrow> 'a list" where
  "heap_Init lt xs = heap_init_loop lt xs (length xs div 2)"

definition heap_Push :: "('a \<Rightarrow> 'a \<Rightarrow> bool) \<Rightarrow> 'a list \<Rightarrow> 'a \<Rightarrow> 'a list" where
  "heap_Push lt xs x = heap_up lt (xs @ [x]) (length xs)"

definition heap_Pop :: "('a \<Rightarrow> 'a \<Rightarrow> bool) \<Rightarrow> 'a list \<Rightarrow> 'a \<times> 'a list" where
  "heap_Pop lt xs =
     (let n = length xs - 1;
          ys = heap_down lt (heap_swap xs 0 n) 0 n
      in (ys ! n, take n ys))"

subsection \<open>The interface\<close>

locale weak_order =
  fixes lt :: "'a \<Rightarrow> 'a \<Rightarrow> bool"
  assumes asym: "lt x y \<Longrightarrow> \<not> lt y x"
    and neg_trans: "lt x z \<Longrightarrow> lt x y \<or> lt y z"
begin

lemma irrefl: "\<not> lt x x"
  using asym by blast

lemma trans: "lt x y \<Longrightarrow> lt y z \<Longrightarrow> lt x z"
  using asym neg_trans by blast

lemma not_less_trans: "\<not> lt x y \<Longrightarrow> \<not> lt y z \<Longrightarrow> \<not> lt x z"
  using neg_trans by blast

end

locale priority_queue =
  fixes lt :: "'a \<Rightarrow> 'a \<Rightarrow> bool"
    and init :: "'a list \<Rightarrow> 'q"
    and push :: "'q \<Rightarrow> 'a \<Rightarrow> 'q"
    and pop :: "'q \<Rightarrow> 'a \<times> 'q"
    and invar :: "'q \<Rightarrow> bool"
    and elems :: "'q \<Rightarrow> 'a multiset"
  assumes invar_init: "invar (init xs)"
    and elems_init: "elems (init xs) = mset xs"
    and invar_push: "invar q \<Longrightarrow> invar (push q x)"
    and elems_push: "invar q \<Longrightarrow> elems (push q x) = add_mset x (elems q)"
    and invar_pop: "invar q \<Longrightarrow> elems q \<noteq> {#} \<Longrightarrow> pop q = (x, q') \<Longrightarrow> invar q'"
    and elems_pop: "invar q \<Longrightarrow> elems q \<noteq> {#} \<Longrightarrow> pop q = (x, q') \<Longrightarrow> elems q = add_mset x (elems q')"
    and pop_min: "invar q \<Longrightarrow> elems q \<noteq> {#} \<Longrightarrow> pop q = (x, q') \<Longrightarrow> y \<in># elems q \<Longrightarrow> \<not> lt y x"
begin

text \<open>Popping is the inverse of pushing on the contents, up to the choice of a minimum.\<close>

lemma pop_rest: "invar q \<Longrightarrow> elems q \<noteq> {#} \<Longrightarrow> pop q = (x, q') \<Longrightarrow> elems q' = elems q - {#x#}"
  by (simp add: elems_pop)

lemma size_pop: "invar q \<Longrightarrow> elems q \<noteq> {#} \<Longrightarrow> pop q = (x, q') \<Longrightarrow> size (elems q) = Suc (size (elems q'))"
  by (simp add: elems_pop)

lemma pop_in: "invar q \<Longrightarrow> elems q \<noteq> {#} \<Longrightarrow> pop q = (x, q') \<Longrightarrow> x \<in># elems q"
  by (simp add: elems_pop)

lemma pop_min_rest: "invar q \<Longrightarrow> elems q \<noteq> {#} \<Longrightarrow> pop q = (x, q') \<Longrightarrow> y \<in># elems q' \<Longrightarrow> \<not> lt y x"
  using elems_pop[of q x q'] pop_min[of q x q' y] by simp

end

subsection \<open>Swapping\<close>

lemma length_heap_swap [simp]: "length (heap_swap xs i j) = length xs"
  by (simp add: heap_swap_def)

lemma nth_heap_swap:
  "i < length xs \<Longrightarrow> j < length xs \<Longrightarrow>
   heap_swap xs i j ! k = (if k = j then xs ! i else if k = i then xs ! j else xs ! k)"
  by (auto simp: heap_swap_def nth_list_update)

lemma mset_heap_swap [simp]: "i < length xs \<Longrightarrow> j < length xs \<Longrightarrow> mset (heap_swap xs i j) = mset xs"
  by (simp add: heap_swap_def mset_swap)

lemma length_heap_up [simp]: "length (heap_up lt xs j) = length xs"
proof (induction lt xs j rule: heap_up.induct)
  case (1 lt xs j)
  then show ?case by (subst heap_up.simps) (auto simp: Let_def)
qed

lemma length_heap_down [simp]: "length (heap_down lt xs i n) = length xs"
proof (induction lt xs i n rule: heap_down.induct)
  case (1 lt xs i n)
  then show ?case by (subst heap_down.simps) (auto simp: Let_def)
qed

lemma mset_heap_up: "j < length xs \<Longrightarrow> mset (heap_up lt xs j) = mset xs"
proof (induction lt xs j rule: heap_up.induct)
  case (1 lt xs j)
  then have "(j - 1) div 2 < length xs" by linarith
  with 1 show ?case by (subst heap_up.simps) (auto simp: Let_def)
qed

lemma mset_heap_down: "n \<le> length xs \<Longrightarrow> mset (heap_down lt xs i n) = mset xs"
proof (induction lt xs i n rule: heap_down.induct)
  case (1 lt xs i n)
  then show ?case by (subst heap_down.simps) (auto simp: Let_def)
qed

lemma nth_heap_down_beyond: "n \<le> length xs \<Longrightarrow> n \<le> k \<Longrightarrow> heap_down lt xs i n ! k = xs ! k"
proof (induction lt xs i n rule: heap_down.induct)
  case (1 lt xs i n)
  then show ?case by (subst heap_down.simps) (auto simp: Let_def nth_heap_swap)
qed

subsection \<open>The heap order\<close>

text \<open>Every node below position \<open>n\<close> whose parent is at least \<open>r\<close> is not less than its parent.\<close>

definition heap_from :: "('a \<Rightarrow> 'a \<Rightarrow> bool) \<Rightarrow> nat \<Rightarrow> nat \<Rightarrow> 'a list \<Rightarrow> bool" where
  "heap_from lt r n xs \<longleftrightarrow>
     (\<forall>k<n. 0 < k \<and> r \<le> (k - 1) div 2 \<longrightarrow> \<not> lt (xs ! k) (xs ! ((k - 1) div 2)))"

abbreviation is_heap :: "('a \<Rightarrow> 'a \<Rightarrow> bool) \<Rightarrow> 'a list \<Rightarrow> bool" where
  "is_heap lt xs \<equiv> heap_from lt 0 (length xs) xs"

text \<open>The state of \<open>heap_down\<close> at position \<open>i\<close>: only the children of \<open>i\<close> may violate the order.\<close>

definition sift_down_inv :: "('a \<Rightarrow> 'a \<Rightarrow> bool) \<Rightarrow> nat \<Rightarrow> nat \<Rightarrow> nat \<Rightarrow> 'a list \<Rightarrow> bool" where
  "sift_down_inv lt r i n xs \<longleftrightarrow>
     (\<forall>k<n. 0 < k \<and> r \<le> (k - 1) div 2 \<and> (k - 1) div 2 \<noteq> i \<longrightarrow> \<not> lt (xs ! k) (xs ! ((k - 1) div 2))) \<and>
     (\<forall>k<n. 0 < k \<and> (k - 1) div 2 = i \<and> 0 < i \<and> r \<le> (i - 1) div 2 \<longrightarrow> \<not> lt (xs ! k) (xs ! ((i - 1) div 2)))"

text \<open>The state of \<open>heap_up\<close> at position \<open>j\<close>: only \<open>j\<close> itself may violate the order.\<close>

definition sift_up_inv :: "('a \<Rightarrow> 'a \<Rightarrow> bool) \<Rightarrow> nat \<Rightarrow> 'a list \<Rightarrow> bool" where
  "sift_up_inv lt j xs \<longleftrightarrow>
     (\<forall>k<length xs. 0 < k \<and> k \<noteq> j \<longrightarrow> \<not> lt (xs ! k) (xs ! ((k - 1) div 2))) \<and>
     (\<forall>k<length xs. 0 < k \<and> (k - 1) div 2 = j \<and> 0 < j \<longrightarrow> \<not> lt (xs ! k) (xs ! ((j - 1) div 2)))"

lemma child_cases: "0 < k \<Longrightarrow> (k - 1) div 2 = i \<longleftrightarrow> k = 2 * i + 1 \<or> k = 2 * i + 2" for k i :: nat
  by auto

context weak_order
begin

lemma sift_down_step:
  assumes inv: "sift_down_inv lt r i n xs" and n: "n \<le> length xs" and i: "2 * i + 1 < n"
    and j: "j = (if 2 * i + 2 < n \<and> lt (xs ! (2 * i + 2)) (xs ! (2 * i + 1)) then 2 * i + 2 else 2 * i + 1)"
    and less: "lt (xs ! j) (xs ! i)"
  shows "sift_down_inv lt r j n (heap_swap xs i j)"
proof -
  have jn: "j < n" "i < j" "(j - 1) div 2 = i" using i j by auto
  have sibling: "\<not> lt (xs ! k) (xs ! j)" if "k < n" "0 < k" "(k - 1) div 2 = i" for k
  proof -
    have "k = 2 * i + 1 \<or> k = 2 * i + 2" using that by (simp only: child_cases)
    then show ?thesis using that(1) j irrefl asym by (auto split: if_splits)
  qed
  have nth: "heap_swap xs i j ! k = (if k = j then xs ! i else if k = i then xs ! j else xs ! k)" for k
    using jn n by (intro nth_heap_swap) auto
  note inv1 = inv[unfolded sift_down_inv_def, THEN conjunct1, rule_format]
  note inv2 = inv[unfolded sift_down_inv_def, THEN conjunct2, rule_format]
  show ?thesis
    unfolding sift_down_inv_def
  proof (intro conjI allI impI; elim conjE)
    fix k assume k: "k < n" "0 < k" "r \<le> (k - 1) div 2" "(k - 1) div 2 \<noteq> j"
    consider "k = j" | "k = i" | "k \<noteq> j" "(k - 1) div 2 = i" | "k \<noteq> i" "k \<noteq> j" "(k - 1) div 2 \<noteq> i" by blast
    then show "\<not> lt (heap_swap xs i j ! k) (heap_swap xs i j ! ((k - 1) div 2))"
    proof cases
      case 1 then show ?thesis using jn less asym by (simp add: nth)
    next
      case 2
      then have "(k - 1) div 2 < i" using k by linarith
      then show ?thesis using 2 k jn inv2[of j] by (simp add: nth)
    next
      case 3 then show ?thesis using jn k sibling[of k] by (cases "k = i") (auto simp: nth)
    next
      case 4 then show ?thesis using k inv1[of k] by (simp add: nth)
    qed
  next
    fix k assume k: "k < n" "0 < k" "(k - 1) div 2 = j" "0 < j" "r \<le> (j - 1) div 2"
    then have "k \<noteq> i" "k \<noteq> j" using jn by auto
    moreover have "\<not> lt (xs ! k) (xs ! j)" using k jn inv1[of k] by force
    ultimately show "\<not> lt (heap_swap xs i j ! k) (heap_swap xs i j ! ((j - 1) div 2))"
      using jn by (simp add: nth)
  qed
qed

lemma heap_from_down:
  "sift_down_inv lt r i n xs \<Longrightarrow> n \<le> length xs \<Longrightarrow> heap_from lt r n (heap_down lt xs i n)"
proof (induction "n - i" arbitrary: xs i rule: less_induct)
  case less
  let ?j = "if 2 * i + 2 < n \<and> lt (xs ! (2 * i + 2)) (xs ! (2 * i + 1)) then 2 * i + 2 else 2 * i + 1"
  consider (leaf) "n \<le> 2 * i + 1"
    | (stop) "2 * i + 1 < n" "\<not> lt (xs ! ?j) (xs ! i)"
    | (swap) "2 * i + 1 < n" "lt (xs ! ?j) (xs ! i)" by linarith
  then show ?case
  proof cases
    case leaf
    then have "(k - 1) div 2 \<noteq> i" if "k < n" "0 < k" for k using that by auto
    with less.prems leaf show ?thesis
      by (subst heap_down.simps) (auto simp: sift_down_inv_def heap_from_def)
  next
    case stop
    have child: "\<not> lt (xs ! k) (xs ! i)" if "k < n" "0 < k" "(k - 1) div 2 = i" for k
    proof -
      have "k = 2 * i + 1 \<or> k = 2 * i + 2" using that by (simp only: child_cases)
      then have "\<not> lt (xs ! k) (xs ! ?j)" using that(1) irrefl asym by (auto split: if_splits)
      then show ?thesis using stop(2) not_less_trans by blast
    qed
    have "heap_down lt xs i n = xs"
      using stop by (subst heap_down.simps) (auto simp: Let_def split: if_splits)
    with less.prems child show ?thesis by (auto simp: sift_down_inv_def heap_from_def)
  next
    case swap
    have "heap_down lt xs i n = heap_down lt (heap_swap xs i ?j) ?j n"
      using swap by (subst heap_down.simps) (auto simp: Let_def split: if_splits)
    moreover have "sift_down_inv lt r ?j n (heap_swap xs i ?j)"
      using sift_down_step[OF less.prems swap(1) refl swap(2)] .
    ultimately show ?thesis
      using less.hyps[of ?j "heap_swap xs i ?j"] less.prems(2) swap(1) by (auto split: if_splits)
  qed
qed

lemma sift_up_step:
  assumes inv: "sift_up_inv lt j xs" and j: "0 < j" "j < length xs" and i: "i = (j - 1) div 2"
    and less: "lt (xs ! j) (xs ! i)"
  shows "sift_up_inv lt i (heap_swap xs i j)"
proof -
  have ij: "i < j" "i < length xs" using i j by auto
  have nth: "heap_swap xs i j ! k = (if k = j then xs ! i else if k = i then xs ! j else xs ! k)" for k
    using ij j by (intro nth_heap_swap) auto
  note inv1 = inv[unfolded sift_up_inv_def, THEN conjunct1, rule_format]
  note inv2 = inv[unfolded sift_up_inv_def, THEN conjunct2, rule_format]
  have other: "\<not> lt (xs ! k) (xs ! j)" if "k < length xs" "0 < k" "k \<noteq> j" "(k - 1) div 2 = i" for k
    using inv1[of k] that less trans by blast
  show ?thesis
    unfolding sift_up_inv_def length_heap_swap
  proof (intro conjI allI impI; elim conjE)
    fix k assume k: "k < length xs" "0 < k" "k \<noteq> i"
    consider "k = j" | "k \<noteq> j" "(k - 1) div 2 = i" | "k \<noteq> j" "(k - 1) div 2 = j"
      | "k \<noteq> j" "(k - 1) div 2 \<noteq> i" "(k - 1) div 2 \<noteq> j" by blast
    then show "\<not> lt (heap_swap xs i j ! k) (heap_swap xs i j ! ((k - 1) div 2))"
    proof cases
      case 1
      then have p: "(k - 1) div 2 = i" using i by simp
      show ?thesis unfolding p using 1 ij less asym by (simp add: nth)
    next
      case 2 then show ?thesis using k ij other[of k] by (simp add: nth)
    next
      case 3
      then have "\<not> lt (xs ! k) (xs ! i)" using k j inv2[of k] unfolding i by blast
      then show ?thesis using 3 k by (simp add: nth)
    next
      case 4 then show ?thesis using k inv1[of k] by (simp add: nth)
    qed
  next
    fix k assume k: "k < length xs" "0 < k" "(k - 1) div 2 = i" "0 < i"
    have p: "(i - 1) div 2 < i" using k(4) by linarith
    have up: "\<not> lt (xs ! i) (xs ! ((i - 1) div 2))" using inv1[of i] ij k(4) by simp
    have "k \<noteq> i" using k by linarith
    then show "\<not> lt (heap_swap xs i j ! k) (heap_swap xs i j ! ((i - 1) div 2))"
      using p ij up inv1[of k] k not_less_trans[of "xs ! k" "xs ! i"] by (auto simp: nth)
  qed
qed

lemma is_heap_up: "sift_up_inv lt j xs \<Longrightarrow> j < length xs \<Longrightarrow> is_heap lt (heap_up lt xs j)"
proof (induction j arbitrary: xs rule: less_induct)
  case (less j)
  let ?i = "(j - 1) div 2"
  show ?case
  proof (cases "j = 0 \<or> \<not> lt (xs ! j) (xs ! ?i)")
    case True
    then have "heap_up lt xs j = xs" by (subst heap_up.simps) auto
    with True less.prems show ?thesis by (auto simp: sift_up_inv_def heap_from_def)
  next
    case False
    then have j: "0 < j" "lt (xs ! j) (xs ! ?i)" "?i < j" by auto
    then have "heap_up lt xs j = heap_up lt (heap_swap xs ?i j) ?i"
      by (subst heap_up.simps) (simp add: Let_def)
    moreover have "sift_up_inv lt ?i (heap_swap xs ?i j)"
      using sift_up_step[OF less.prems(1) j(1) less.prems(2) refl j(2)] .
    ultimately show ?thesis using less.IH[of ?i "heap_swap xs ?i j"] j less.prems(2) by simp
  qed
qed

lemma heap_root_min: "heap_from lt 0 n xs \<Longrightarrow> k < n \<Longrightarrow> \<not> lt (xs ! k) (xs ! 0)"
proof (induction k rule: less_induct)
  case (less k)
  show ?case
  proof (cases "k = 0")
    case True
    then show ?thesis by (simp add: irrefl)
  next
    case False
    then have "\<not> lt (xs ! ((k - 1) div 2)) (xs ! 0)" using less by simp
    moreover have "\<not> lt (xs ! k) (xs ! ((k - 1) div 2))"
      using less.prems False by (auto simp: heap_from_def)
    ultimately show ?thesis using not_less_trans by blast
  qed
qed

subsection \<open>Correctness of the operations\<close>

lemma is_heap_Push: "is_heap lt xs \<Longrightarrow> is_heap lt (heap_Push lt xs x)"
  unfolding heap_Push_def
proof (rule is_heap_up)
  assume heap: "is_heap lt xs"
  have parent: "(k - 1) div 2 < length xs" if "0 < k" "k \<le> length xs" for k using that by linarith
  show "sift_up_inv lt (length xs) (xs @ [x])"
    unfolding sift_up_inv_def
  proof (intro conjI allI impI; elim conjE)
    fix k assume "k < length (xs @ [x])" "0 < k" "k \<noteq> length xs"
    then show "\<not> lt ((xs @ [x]) ! k) ((xs @ [x]) ! ((k - 1) div 2))"
      using heap parent[of k] by (simp add: heap_from_def nth_append)
  next
    fix k assume "k < length (xs @ [x])" "0 < k" "(k - 1) div 2 = length xs"
    then show "\<not> lt ((xs @ [x]) ! k) ((xs @ [x]) ! ((length xs - 1) div 2))"
      using parent[of k] by simp
  qed
qed simp

lemma heap_from_init_loop:
  "heap_from lt i (length xs) xs \<Longrightarrow> is_heap lt (heap_init_loop lt xs i)"
proof (induction i arbitrary: xs)
  case (Suc i)
  have "sift_down_inv lt i i (length xs) xs"
    using Suc.prems by (auto simp: sift_down_inv_def heap_from_def)
  then have "heap_from lt i (length xs) (heap_down lt xs i (length xs))"
    by (rule heap_from_down) simp
  with Suc.IH[of "heap_down lt xs i (length xs)"] show ?case by simp
qed simp

lemma is_heap_Init: "is_heap lt (heap_Init lt xs)"
  unfolding heap_Init_def by (rule heap_from_init_loop) (auto simp: heap_from_def)

lemma heap_Pop_props:
  assumes heap: "is_heap lt xs" and ne: "xs \<noteq> []" and pop: "heap_Pop lt xs = (x, ys)"
  shows "x = xs ! 0" "mset xs = add_mset x (mset ys)" "is_heap lt ys"
proof -
  define n where "n = length xs - 1"
  define zs where "zs = heap_down lt (heap_swap xs 0 n) 0 n"
  have n: "n < length xs" "0 < length xs" using ne by (simp_all add: n_def)
  have x: "x = zs ! n" and ys: "ys = take n zs"
    using pop by (simp_all add: heap_Pop_def Let_def n_def zs_def)
  have len: "length zs = Suc n" using n by (simp add: zs_def n_def)
  have "zs ! n = heap_swap xs 0 n ! n"
    unfolding zs_def using n by (intro nth_heap_down_beyond) simp_all
  then show x0: "x = xs ! 0" using x n by (simp add: nth_heap_swap)
  have "zs = ys @ [x]" using len x ys by (metis lessI take_Suc_conv_app_nth take_all_iff order_refl)
  moreover have "mset zs = mset xs" unfolding zs_def using n by (simp add: mset_heap_down)
  ultimately show "mset xs = add_mset x (mset ys)" by (metis add_mset_add_single mset_append mset_single_iff_right)
  have "sift_down_inv lt 0 0 n (heap_swap xs 0 n)"
    using heap n by (auto simp: sift_down_inv_def heap_from_def nth_heap_swap)
  then have "heap_from lt 0 n zs"
    unfolding zs_def using n by (intro heap_from_down) simp_all
  then show "is_heap lt ys" using len by (auto simp: heap_from_def ys)
qed

lemma heap_Pop_min:
  assumes "is_heap lt xs" "heap_Pop lt xs = (x, ys)" "y \<in># mset xs"
  shows "\<not> lt y x"
proof -
  from assms(3) obtain k where "k < length xs" "y = xs ! k" by (auto simp: in_set_conv_nth)
  moreover have "x = xs ! 0" using assms by (intro heap_Pop_props(1)) auto
  ultimately show ?thesis using heap_root_min[OF assms(1)] by simp
qed

lemma mset_heap_Init: "mset (heap_Init lt xs) = mset xs"
proof -
  have "length (heap_init_loop lt xs i) = length xs \<and> mset (heap_init_loop lt xs i) = mset xs" for i
    by (induction i arbitrary: xs) (simp_all add: mset_heap_down)
  then show ?thesis by (simp add: heap_Init_def)
qed

lemma mset_heap_Push: "mset (heap_Push lt xs x) = add_mset x (mset xs)"
  by (simp add: heap_Push_def mset_heap_up)

end

text \<open>The heap implements the queue interface for every strict weak order.\<close>

sublocale weak_order \<subseteq> hq: priority_queue lt "heap_Init lt" "heap_Push lt" "heap_Pop lt" "is_heap lt" mset
proof unfold_locales
  fix xs ys x y
  show "is_heap lt (heap_Init lt xs)" by (rule is_heap_Init)
  show "mset (heap_Init lt xs) = mset xs" by (rule mset_heap_Init)
  show "is_heap lt xs \<Longrightarrow> is_heap lt (heap_Push lt xs x)" by (rule is_heap_Push)
  show "is_heap lt xs \<Longrightarrow> mset (heap_Push lt xs x) = add_mset x (mset xs)" by (rule mset_heap_Push)
  show "is_heap lt xs \<Longrightarrow> mset xs \<noteq> {#} \<Longrightarrow> heap_Pop lt xs = (x, ys) \<Longrightarrow> is_heap lt ys"
    by (rule heap_Pop_props(3)) auto
  show "is_heap lt xs \<Longrightarrow> mset xs \<noteq> {#} \<Longrightarrow> heap_Pop lt xs = (x, ys) \<Longrightarrow> mset xs = add_mset x (mset ys)"
    by (rule heap_Pop_props(2)) auto
  show "is_heap lt xs \<Longrightarrow> mset xs \<noteq> {#} \<Longrightarrow> heap_Pop lt xs = (x, ys) \<Longrightarrow> y \<in># mset xs \<Longrightarrow> \<not> lt y x"
    by (rule heap_Pop_min)
qed

end
