(* ===== verification/Best_First.thy ===== *)
theory Best_First
  imports Main "HOL-Library.Multiset"
begin

text \<open>
  The part of Dijkstra's algorithm the two path searches of the program share, over abstract labels. A
  search keeps the best label known for a node and a queue of labelled nodes; it pops a least item,
  skips it when a better label is known and otherwise extends it along every outgoing edge. The locale
  states what labels must satisfy; the lemmas show that a popped fresh item carries the least label of
  its node, that an exhausted queue has seen every reachable node, and that a potential falls with
  every item popped.
\<close>

locale best_first =
  fixes le :: "'l \<Rightarrow> 'l \<Rightarrow> bool"
    and start :: 'v
    and start_label :: 'l
    and succs :: "'v \<Rightarrow> 'e list"
    and target :: "'e \<Rightarrow> 'v"
    and extend :: "'l \<Rightarrow> 'e \<Rightarrow> 'l option"
  assumes le_total: "le a b \<or> le b a"
    and le_trans: "le a b \<Longrightarrow> le b c \<Longrightarrow> le a c"
    and extend_le: "extend a e = Some b \<Longrightarrow> le a b"
    and extend_mono: "le a b \<Longrightarrow> extend b e = Some b' \<Longrightarrow> \<exists>a'. extend a e = Some a' \<and> le a' b'"
    and finite_sources: "finite {v. succs v \<noteq> []}"
begin

lemma le_refl: "le a a"
  using le_total by blast

text \<open>The labels that paths from the start give a node.\<close>

inductive reaches :: "'v \<Rightarrow> 'l \<Rightarrow> bool" where
  reaches_start: "reaches start start_label"
| reaches_step: "reaches v a \<Longrightarrow> e \<in> set (succs v) \<Longrightarrow> extend a e = Some b \<Longrightarrow> reaches (target e) b"

text \<open>Extending a popped label along one edge, and along a list of edges.\<close>

fun relax :: "'l \<Rightarrow> 'e \<Rightarrow> ('v \<rightharpoonup> 'l) \<times> ('l \<times> 'v) multiset \<Rightarrow> ('v \<rightharpoonup> 'l) \<times> ('l \<times> 'v) multiset" where
  "relax a e (best, Q) =
     (case extend a e of
        None \<Rightarrow> (best, Q)
      | Some b \<Rightarrow>
          if (case best (target e) of None \<Rightarrow> True | Some c \<Rightarrow> \<not> le c b)
          then (best(target e \<mapsto> b), add_mset (b, target e) Q)
          else (best, Q))"

fun relax_all ::
  "'l \<Rightarrow> 'e list \<Rightarrow> ('v \<rightharpoonup> 'l) \<times> ('l \<times> 'v) multiset \<Rightarrow> ('v \<rightharpoonup> 'l) \<times> ('l \<times> 'v) multiset" where
  "relax_all a [] st = st"
| "relax_all a (e # es) st = relax_all a es (relax a e st)"

text \<open>
  The invariant, with \<open>S\<close> the settled nodes: labels come from paths, settled labels are least, every
  known unsettled node has exactly one current item in the queue and settled nodes have none.
\<close>

definition labels_ok :: "'v set \<Rightarrow> ('v \<rightharpoonup> 'l) \<Rightarrow> ('l \<times> 'v) multiset \<Rightarrow> bool" where
  "labels_ok S best Q \<longleftrightarrow>
     (\<exists>b. best start = Some b \<and> le b start_label) \<and>
     (\<forall>v b. best v = Some b \<longrightarrow> reaches v b) \<and>
     (\<forall>v\<in>S. \<exists>b. best v = Some b \<and> (\<forall>c. reaches v c \<longrightarrow> le b c)) \<and>
     (\<forall>x\<in>#Q. reaches (snd x) (fst x) \<and> (\<exists>b. best (snd x) = Some b \<and> le b (fst x))) \<and>
     (\<forall>v b. best v = Some b \<longrightarrow>
        size {#x \<in># Q. snd x = v \<and> le (fst x) b#} = (if v \<in> S then 0 else 1))"

text \<open>The settled nodes have pushed their labels along the edges \<open>E\<close> selects.\<close>

definition closed_on :: "('v \<Rightarrow> 'e set) \<Rightarrow> 'v set \<Rightarrow> ('v \<rightharpoonup> 'l) \<Rightarrow> bool" where
  "closed_on E S best \<longleftrightarrow>
     (\<forall>v\<in>S. \<forall>e\<in>E v. \<forall>b c. best v = Some b \<longrightarrow> extend b e = Some c \<longrightarrow>
        (\<exists>d. best (target e) = Some d \<and> le d c))"

definition search_inv :: "'v set \<Rightarrow> ('v \<rightharpoonup> 'l) \<Rightarrow> ('l \<times> 'v) multiset \<Rightarrow> bool" where
  "search_inv S best Q \<longleftrightarrow> labels_ok S best Q \<and> closed_on (\<lambda>v. set (succs v)) S best"

definition potential :: "'v set \<Rightarrow> ('l \<times> 'v) multiset \<Rightarrow> nat" where
  "potential S Q = size Q + (\<Sum>v \<in> {v. succs v \<noteq> []} - S. length (succs v))"

lemma search_inv_init: "search_inv {} [start \<mapsto> start_label] {#(start_label, start)#}"
  by (auto simp: search_inv_def labels_ok_def closed_on_def le_refl intro: reaches_start split: if_splits)

lemma labels_ok_fresh_item:
  assumes "labels_ok S best Q" "best v = Some b" "v \<notin> S"
  shows "\<exists>m. (m, v) \<in># Q \<and> le m b"
proof -
  have "size {#x \<in># Q. snd x = v \<and> le (fst x) b#} = 1"
    using assms by (simp add: labels_ok_def)
  then obtain x where "x \<in># {#x \<in># Q. snd x = v \<and> le (fst x) b#}"
    by (metis multiset_nonemptyE size_empty zero_neq_one)
  then show ?thesis by (cases x) auto
qed

text \<open>Every path label is bounded below by its settled node or by an item of the queue.\<close>

lemma reaches_bounded:
  assumes "search_inv S best Q" "reaches v c"
  shows "(\<exists>b. v \<in> S \<and> best v = Some b \<and> le b c) \<or> (\<exists>m u. (m, u) \<in># Q \<and> le m c)"
  using assms(2)
proof (induction rule: reaches.induct)
  case reaches_start
  obtain b where b: "best start = Some b" "le b start_label"
    using assms(1) by (auto simp: search_inv_def labels_ok_def)
  then show ?case
    using labels_ok_fresh_item[of S best Q start b] assms(1) le_trans
    by (cases "start \<in> S") (auto simp: search_inv_def)
next
  case (reaches_step v a e c)
  from reaches_step.IH show ?case
  proof
    assume "\<exists>b. v \<in> S \<and> best v = Some b \<and> le b a"
    then obtain b where b: "v \<in> S" "best v = Some b" "le b a" by blast
    then obtain b' where b': "extend b e = Some b'" "le b' c"
      using extend_mono[OF _ reaches_step.hyps(3)] by blast
    then obtain d where d: "best (target e) = Some d" "le d b'"
      using assms(1) b reaches_step.hyps(2) unfolding search_inv_def closed_on_def by blast
    then have "le d c" using b' le_trans by blast
    then show ?thesis
      using d labels_ok_fresh_item[of S best Q "target e" d] assms(1) le_trans
      by (cases "target e \<in> S") (auto simp: search_inv_def)
  next
    assume "\<exists>m u. (m, u) \<in># Q \<and> le m a"
    then show ?thesis using extend_le[OF reaches_step.hyps(3)] le_trans by blast
  qed
qed

lemma exhausted:
  assumes "search_inv S best {#}" "reaches v c"
  shows "v \<in> S"
  using reaches_bounded[OF assms] by auto

subsection \<open>Popping a stale item\<close>

lemma stale_step:
  assumes "search_inv S best (add_mset (a, v) Q)" "best v = Some b" "\<not> le a b"
  shows "search_inv S best Q" "potential S Q < potential S (add_mset (a, v) Q)"
proof -
  have "size {#x \<in># add_mset (a, v) Q. snd x = u \<and> le (fst x) c#} = size {#x \<in># Q. snd x = u \<and> le (fst x) c#}"
    if "best u = Some c" for u c
    using assms that by auto
  with assms(1) show "search_inv S best Q"
    by (auto simp: search_inv_def labels_ok_def)
qed (simp add: potential_def)

subsection \<open>Popping a current item\<close>

text \<open>The invariant while the edges of the node just settled are being relaxed.\<close>

definition relaxing :: "'v set \<Rightarrow> 'v \<Rightarrow> 'e set \<Rightarrow> ('v \<rightharpoonup> 'l) \<times> ('l \<times> 'v) multiset \<Rightarrow> bool" where
  "relaxing S v D st \<longleftrightarrow> labels_ok S (fst st) (snd st) \<and>
     closed_on (\<lambda>u. if u = v then D else set (succs u)) S (fst st)"

lemma labels_ok_update:
  assumes ok: "labels_ok S best Q" and r: "reaches u b"
    and better: "case best u of None \<Rightarrow> True | Some c \<Rightarrow> \<not> le c b"
  shows "u \<notin> S" "labels_ok S (best(u \<mapsto> b)) (add_mset (b, u) Q)"
proof -
  show u: "u \<notin> S" using assms unfolding labels_ok_def by force
  have below: "le b c" if "best u = Some c" for c
    using that better le_total by auto
  have none: "\<not> le (fst x) b" if x: "x \<in># Q" "snd x = u" for x
  proof -
    obtain c where "best u = Some c" "le c (fst x)" using ok x unfolding labels_ok_def by blast
    then show ?thesis using better le_trans[of c "fst x" b] by auto
  qed
  have size: "size {#x \<in># Q. snd x = u \<and> le (fst x) b#} = 0"
    using none by (auto simp: filter_mset_eq_conv[where N="{#}"])
  have 1: "\<exists>c. (best(u \<mapsto> b)) start = Some c \<and> le c start_label"
    using ok below le_trans unfolding labels_ok_def by (cases "u = start") auto
  have 2: "\<forall>v c. (best(u \<mapsto> b)) v = Some c \<longrightarrow> reaches v c"
    using ok r unfolding labels_ok_def by simp
  have 3: "\<forall>v\<in>S. \<exists>c. (best(u \<mapsto> b)) v = Some c \<and> (\<forall>d. reaches v d \<longrightarrow> le c d)"
    using ok u unfolding labels_ok_def by auto
  have "\<exists>c. (best(u \<mapsto> b)) (snd x) = Some c \<and> le c (fst x)" if x: "x \<in># Q" for x
  proof -
    obtain c where "best (snd x) = Some c" "le c (fst x)" using ok x unfolding labels_ok_def by blast
    then show ?thesis using below[of c] le_trans[of b c "fst x"] by (cases "snd x = u") auto
  qed
  then have 4: "\<forall>x\<in>#add_mset (b, u) Q. reaches (snd x) (fst x) \<and> (\<exists>c. (best(u \<mapsto> b)) (snd x) = Some c \<and> le c (fst x))"
    using ok r le_refl unfolding labels_ok_def by simp
  have "size {#x \<in># add_mset (b, u) Q. snd x = v \<and> le (fst x) c#} = (if v \<in> S then 0 else 1)"
    if "(best(u \<mapsto> b)) v = Some c" for v c
  proof (cases "v = u")
    case False
    then have "size {#x \<in># Q. snd x = v \<and> le (fst x) c#} = (if v \<in> S then 0 else 1)"
      using ok that unfolding labels_ok_def by simp
    then show ?thesis using False by simp
  qed (use that size le_refl u in simp)
  then have 5: "\<forall>v c. (best(u \<mapsto> b)) v = Some c \<longrightarrow>
        size {#x \<in># add_mset (b, u) Q. snd x = v \<and> le (fst x) c#} = (if v \<in> S then 0 else 1)"
    by blast
  show "labels_ok S (best(u \<mapsto> b)) (add_mset (b, u) Q)"
    unfolding labels_ok_def using 1 2 3 4 5 by blast
qed

lemma closed_on_update:
  assumes "closed_on E S best" "u \<notin> S" "\<And>c. best u = Some c \<Longrightarrow> le b c"
  shows "closed_on E S (best(u \<mapsto> b))"
  unfolding closed_on_def
proof (intro ballI allI impI)
  fix v e c d
  assume v: "v \<in> S" "e \<in> E v" "(best(u \<mapsto> b)) v = Some c" "extend c e = Some d"
  then have "best v = Some c" using assms(2) by (auto split: if_splits)
  then obtain d' where "best (target e) = Some d'" "le d' d"
    using v assms(1) unfolding closed_on_def by blast
  then show "\<exists>d'. (best(u \<mapsto> b)) (target e) = Some d' \<and> le d' d"
    using assms(3)[of d'] le_trans[of b d' d] by (cases "target e = u") auto
qed

lemma closed_on_insert:
  assumes "closed_on (\<lambda>u. if u = v then D else set (succs u)) S best" "best v = Some b"
    and "\<And>c. extend b e = Some c \<Longrightarrow> \<exists>d. best (target e) = Some d \<and> le d c"
  shows "closed_on (\<lambda>u. if u = v then insert e D else set (succs u)) S best"
  unfolding closed_on_def
proof (intro ballI allI impI)
  fix u e' c d
  assume u: "u \<in> S" "e' \<in> (if u = v then insert e D else set (succs u))" "best u = Some c" "extend c e' = Some d"
  show "\<exists>d'. best (target e') = Some d' \<and> le d' d"
  proof (cases "u = v \<and> e' = e")
    case True
    then show ?thesis using u assms(2,3) by simp
  next
    case False
    then have "e' \<in> (if u = v then D else set (succs u))" using u(2) by (auto split: if_splits)
    then show ?thesis using u assms(1) unfolding closed_on_def by blast
  qed
qed

lemma relax_relaxing:
  assumes inv: "relaxing S v D st" and v: "fst st v = Some b" "v \<in> S" and a: "reaches v a" "le a b"
    and e: "e \<in> set (succs v)"
  shows "relaxing S v (insert e D) (relax a e st) \<and> fst (relax a e st) v = Some b \<and>
    size (snd (relax a e st)) \<le> Suc (size (snd st))"
proof (cases st)
  case (Pair best Q)
  show ?thesis
  proof (cases "extend a e")
    case None
    then have "extend b e = None" using extend_mono[OF a(2), of e] by (cases "extend b e") auto
    then show ?thesis using Pair None inv v closed_on_insert[of v D S best b e]
      by (simp add: relaxing_def)
  next
    case (Some c)
    have r: "reaches (target e) c" using reaches_step[OF a(1) e Some] .
    have below: "le c d" if "extend b e = Some d" for d
      using extend_mono[OF a(2) that] Some by simp
    show ?thesis
    proof (cases "case best (target e) of None \<Rightarrow> True | Some d \<Rightarrow> \<not> le d c")
      case True
      have ok: "labels_ok S best Q" using inv Pair by (simp add: relaxing_def)
      note up = labels_ok_update[OF ok r True]
      have "closed_on (\<lambda>u. if u = v then D else set (succs u)) S (best(target e \<mapsto> c))"
        using inv Pair True up(1) le_total
        by (intro closed_on_update) (auto simp: relaxing_def)
      moreover have "target e \<noteq> v" using up(1) v by auto
      ultimately show ?thesis using Pair Some True up v below
          closed_on_insert[of v D S "best(target e \<mapsto> c)" b e]
        by (simp add: relaxing_def)
    next
      case False
      then obtain d where d: "best (target e) = Some d" "le d c" by (auto split: option.splits)
      have "closed_on (\<lambda>u. if u = v then D else set (succs u)) S best" "best v = Some b"
        using inv v Pair by (auto simp: relaxing_def)
      then have "closed_on (\<lambda>u. if u = v then insert e D else set (succs u)) S best"
        using d below le_trans by (intro closed_on_insert) blast+
      then show ?thesis using Pair Some False d inv v by (simp add: relaxing_def)
    qed
  qed
qed

lemma relax_all_relaxing:
  assumes "relaxing S v D st" "fst st v = Some b" "v \<in> S" "reaches v a" "le a b" "set es \<subseteq> set (succs v)"
  shows "relaxing S v (D \<union> set es) (relax_all a es st) \<and>
    size (snd (relax_all a es st)) \<le> size (snd st) + length es"
  using assms
proof (induction es arbitrary: D st)
  case (Cons e es)
  have e: "e \<in> set (succs v)" using Cons.prems by simp
  note r = relax_relaxing[OF Cons.prems(1-5) e]
  have "relaxing S v (insert e D \<union> set es) (relax_all a es (relax a e st)) \<and>
    size (snd (relax_all a es (relax a e st))) \<le> size (snd (relax a e st)) + length es"
    using Cons.IH[of "insert e D" "relax a e st"] r Cons.prems by auto
  then show ?case using r by auto
qed simp

lemma potential_settle:
  assumes "v \<notin> S" "size Q' \<le> size Q + length (succs v)"
  shows "potential (insert v S) Q' < potential S (add_mset (a, v) Q)"
proof (cases "succs v = []")
  case True
  then have "{v. succs v \<noteq> []} - insert v S = {v. succs v \<noteq> []} - S" by auto
  then show ?thesis using assms True by (simp add: potential_def)
next
  case False
  then have split: "{v. succs v \<noteq> []} - S = insert v ({v. succs v \<noteq> []} - insert v S)" using assms by auto
  have "(\<Sum>v \<in> {v. succs v \<noteq> []} - S. length (succs v)) =
    length (succs v) + (\<Sum>v \<in> {v. succs v \<noteq> []} - insert v S. length (succs v))"
    unfolding split using finite_sources by (subst sum.insert) auto
  then show ?thesis using assms by (simp add: potential_def)
qed

lemma fresh_pop:
  assumes inv: "search_inv S best (add_mset (a, v) Q)" and min: "\<And>x. x \<in># Q \<Longrightarrow> le a (fst x)"
    and b: "best v = Some b" "le a b"
  shows "v \<notin> S" "reaches v a" "\<And>c. reaches v c \<Longrightarrow> le a c"
proof -
  have ok: "labels_ok S best (add_mset (a, v) Q)" using inv by (simp add: search_inv_def)
  have "size {#x \<in># add_mset (a, v) Q. snd x = v \<and> le (fst x) b#} = (if v \<in> S then 0 else 1)"
    using ok b(1) unfolding labels_ok_def by blast
  then show "v \<notin> S"
    using b(2) by auto
  show "reaches v a" using ok by (auto simp: labels_ok_def)
  show "le a c" if c: "reaches v c" for c
  proof -
    obtain m u where m: "(m, u) \<in># add_mset (a, v) Q" "le m c"
      using reaches_bounded[OF inv c] \<open>v \<notin> S\<close> by blast
    then have "le a m" using min[of "(m, u)"] le_refl by (cases "(m, u) \<in># Q") auto
    then show ?thesis using m(2) le_trans by blast
  qed
qed

lemma labels_ok_settle:
  assumes ok: "labels_ok S best (add_mset (a, v) Q)" and b: "best v = Some b" "le a b"
    and v: "v \<notin> S" "\<And>c. reaches v c \<Longrightarrow> le b c"
  shows "labels_ok (insert v S) best Q"
proof -
  have 1: "size {#x \<in># Q. snd x = u \<and> le (fst x) c#} = (if u \<in> insert v S then 0 else 1)"
    if c: "best u = Some c" for u c
  proof -
    have "size {#x \<in># add_mset (a, v) Q. snd x = u \<and> le (fst x) c#} = (if u \<in> S then 0 else 1)"
      using ok c unfolding labels_ok_def by blast
    then show ?thesis using b v(1) c by (cases "u = v") simp_all
  qed
  have 2: "\<exists>c. best u = Some c \<and> (\<forall>d. reaches u d \<longrightarrow> le c d)" if "u \<in> insert v S" for u
    using that ok b v unfolding labels_ok_def by (cases "u = v") simp_all
  have 3: "reaches (snd x) (fst x) \<and> (\<exists>c. best (snd x) = Some c \<and> le c (fst x))" if "x \<in># Q" for x
    using that ok unfolding labels_ok_def by simp
  have 4: "\<exists>c. best start = Some c \<and> le c start_label"
    using ok unfolding labels_ok_def by (elim conjE)
  have 5: "\<forall>u c. best u = Some c \<longrightarrow> reaches u c"
    using ok unfolding labels_ok_def by (elim conjE)
  show ?thesis
    unfolding labels_ok_def using 4 5 1 2 3 by simp
qed

lemma fresh_step:
  assumes inv: "search_inv S best (add_mset (a, v) Q)" and min: "\<And>x. x \<in># Q \<Longrightarrow> le a (fst x)"
    and b: "best v = Some b" "le a b" and st: "relax_all a (succs v) (best, Q) = (best', Q')"
  shows "search_inv (insert v S) best' Q'" "potential (insert v S) Q' < potential S (add_mset (a, v) Q)"
proof -
  have pop: "v \<notin> S" "reaches v a" "\<And>c. reaches v c \<Longrightarrow> le a c"
    using fresh_pop[OF inv _ b] min by blast+
  have ok: "labels_ok S best (add_mset (a, v) Q)" using inv by (simp add: search_inv_def)
  then have "\<exists>c. best v = Some c \<and> le c a" unfolding labels_ok_def by simp
  then have "le b a" using b(1) by simp
  then have "le b c" if "reaches v c" for c
    using pop(3)[OF that] le_trans by blast
  then have "labels_ok (insert v S) best Q"
    using labels_ok_settle[OF ok b pop(1)] by blast
  moreover have "closed_on (\<lambda>u. if u = v then {} else set (succs u)) (insert v S) best"
    using inv unfolding search_inv_def closed_on_def by (metis empty_iff insert_iff)
  ultimately have "relaxing (insert v S) v {} (best, Q)" by (simp add: relaxing_def)
  from relax_all_relaxing[OF this, of b a "succs v"] b pop(2)
  have r: "relaxing (insert v S) v (set (succs v)) (best', Q')" "size Q' \<le> size Q + length (succs v)"
    by (simp_all add: st)
  have "(\<lambda>u. if u = v then set (succs v) else set (succs u)) = (\<lambda>u. set (succs u))" by (simp add: fun_eq_iff)
  then show "search_inv (insert v S) best' Q'"
    using r(1) by (simp add: relaxing_def search_inv_def)
  show "potential (insert v S) Q' < potential S (add_mset (a, v) Q)"
    using potential_settle[OF pop(1) r(2)] .
qed

end

end
