(* ===== verification/Replay_Search.thy ===== *)
theory Replay_Search
  imports Replay_View Go_Heap Best_First
begin

text \<open>
  \<open>replay_dijkstra.go\<close>: the shortest path of a replay view within a cost bound. The search keeps its distances in
  arrays that are reused between searches; an entry counts only when it carries the generation of the current search.
  The order in which Go ranges over a map of neighbours is a parameter \<open>ord\<close>, any permutation of the entries for every
  node expanded. The four slices of a scratch are grown together, so an index that is in range for one is for all.
\<close>

subsection \<open>The reused search state\<close>

record queue_item =
  qi_id :: nat
  qi_key :: replay_key
  qi_cost :: u64

record search_scratch =
  ss_generation :: u64
  ss_distances :: "u64 list"
  ss_distanceGenerations :: "u64 list"
  ss_predecessors :: "nat list"
  ss_predecessorGenerations :: "u64 list"
  ss_queue :: "queue_item list"

definition grow :: "'a list \<Rightarrow> nat \<Rightarrow> 'a \<Rightarrow> 'a list" where
  "grow xs n z = (if length xs < n then xs @ replicate (n - length xs) z else xs)"

definition clear :: "u64 list \<Rightarrow> u64 list" where
  "clear xs = map (\<lambda>_. 0) xs"

definition scratch_begin :: "search_scratch \<Rightarrow> nat \<Rightarrow> search_scratch" where
  "scratch_begin scratch n =
     (let scratch = scratch\<lparr>ss_distances := grow (ss_distances scratch) n 0,
                            ss_distanceGenerations := grow (ss_distanceGenerations scratch) n 0,
                            ss_predecessors := grow (ss_predecessors scratch) n 0,
                            ss_predecessorGenerations := grow (ss_predecessorGenerations scratch) n 0\<rparr>;
          scratch = (if ss_generation scratch = MaxUint64
                     then scratch\<lparr>ss_distanceGenerations := clear (ss_distanceGenerations scratch),
                                  ss_predecessorGenerations := clear (ss_predecessorGenerations scratch),
                                  ss_generation := 1\<rparr>
                     else let generation = ss_generation scratch + 1
                          in scratch\<lparr>ss_generation := (if generation = 0 then 1 else generation)\<rparr>)
      in scratch\<lparr>ss_queue := []\<rparr>)"

definition getDistance :: "search_scratch \<Rightarrow> nat \<Rightarrow> u64 option" where
  "getDistance scratch i =
     (if i \<ge> length (ss_distanceGenerations scratch) \<or> ss_distanceGenerations scratch ! i \<noteq> ss_generation scratch then None
      else Some (ss_distances scratch ! i))"

definition setDistance :: "search_scratch \<Rightarrow> nat \<Rightarrow> u64 \<Rightarrow> search_scratch" where
  "setDistance scratch i distance =
     scratch\<lparr>ss_distances := (ss_distances scratch)[i := distance],
             ss_distanceGenerations := (ss_distanceGenerations scratch)[i := ss_generation scratch]\<rparr>"

definition getPredecessor :: "search_scratch \<Rightarrow> nat \<Rightarrow> nat option" where
  "getPredecessor scratch i =
     (if i \<ge> length (ss_predecessorGenerations scratch) \<or> ss_predecessorGenerations scratch ! i \<noteq> ss_generation scratch then None
      else Some (ss_predecessors scratch ! i))"

definition setPredecessor :: "search_scratch \<Rightarrow> nat \<Rightarrow> nat \<Rightarrow> search_scratch" where
  "setPredecessor scratch i predecessor =
     scratch\<lparr>ss_predecessors := (ss_predecessors scratch)[i := predecessor],
             ss_predecessorGenerations := (ss_predecessorGenerations scratch)[i := ss_generation scratch]\<rparr>"

definition queue_Less :: "queue_item \<Rightarrow> queue_item \<Rightarrow> bool" where
  "queue_Less a b =
     (if qi_cost a \<noteq> qi_cost b then qi_cost a < qi_cost b
      else if rk_Chain (qi_key a) \<noteq> rk_Chain (qi_key b) then rk_Chain (qi_key a) < rk_Chain (qi_key b)
      else rk_Height (qi_key a) < rk_Height (qi_key b))"

subsection \<open>Paths\<close>

record replay_segment =
  rs_From :: replay_key
  rs_To :: replay_key
  rs_Kind :: replay_edge_kind
  rs_Weight :: u64

record replay_path =
  rp_Cost :: u64
  rp_Nodes :: "replay_key list"
  rp_Segments :: "replay_segment list"

definition nodeIDLocked :: "replay_view \<Rightarrow> replay_key \<Rightarrow> nat res" where
  "nodeIDLocked view key =
     (case rv_nodeIDs view key of
        None \<Rightarrow> Inl (ErrMsg ''replay invariant: node ID missing'')
      | Some i \<Rightarrow> if i \<ge> length (rv_nodeKeys view) then Inl (ErrMsg ''replay invariant: node ID out of range'')
                  else if rv_nodeKeys view ! i \<noteq> key then Inl (ErrMsg ''replay invariant: node ID maps to another key'')
                  else Inr i)"

text \<open>Following the predecessors back from the goal; the first argument bounds the number of steps.\<close>

fun path_back :: "nat \<Rightarrow> replay_view \<Rightarrow> search_scratch \<Rightarrow> nat \<Rightarrow> nat \<Rightarrow> replay_key list \<Rightarrow> replay_key list res option" where
  "path_back 0 view scratch start current nodes = None"
| "path_back (Suc n) view scratch start current nodes =
     (if current = start then Some (Inr nodes)
      else case getPredecessor scratch current of
        None \<Rightarrow> Some (Inl (ErrMsg ''replay path predecessor missing''))
      | Some prior \<Rightarrow>
          if prior \<ge> length (rv_nodeKeys view) then Some (Inl (ErrMsg ''replay invariant: predecessor node ID out of range''))
          else path_back n view scratch start prior (nodes @ [rv_nodeKeys view ! prior]))"

fun path_segments :: "replay_view \<Rightarrow> replay_key list \<Rightarrow> replay_segment list res" where
  "path_segments view (a # b # nodes) =
     (case map_of (rv_adjacency view a) b of
        None \<Rightarrow> Inl (ErrMsg ''replay path edge disappeared'')
      | Some edge \<Rightarrow> bind_res (path_segments view (b # nodes)) (\<lambda>segments.
          Inr (\<lparr>rs_From = a, rs_To = b, rs_Kind = re_Kind edge, rs_Weight = re_Weight edge\<rparr> # segments)))"
| "path_segments view _ = Inr []"

definition reconstructPathLocked :: "replay_view \<Rightarrow> nat \<Rightarrow> nat \<Rightarrow> u64 \<Rightarrow> search_scratch \<Rightarrow> replay_path option res option" where
  "reconstructPathLocked view start goal cost scratch =
     (if goal \<ge> length (rv_nodeKeys view) then Some (Inl (ErrMsg ''replay invariant: goal node ID out of range''))
      else case path_back (length (rv_nodeKeys view) + 1) view scratch start goal [rv_nodeKeys view ! goal] of
        None \<Rightarrow> None
      | Some (Inl e) \<Rightarrow> Some (Inl e)
      | Some (Inr nodes) \<Rightarrow>
          let nodes = rev nodes
          in Some (bind_res (path_segments view nodes) (\<lambda>segments.
               Inr (Some \<lparr>rp_Cost = cost, rp_Nodes = nodes, rp_Segments = segments\<rparr>))))"

subsection \<open>The search\<close>

type_synonym map_order = "replay_key \<Rightarrow> (replay_key \<times> replay_edge) list \<Rightarrow> (replay_key \<times> replay_edge) list"

fun relax_neighbours ::
  "replay_view \<Rightarrow> (replay_key \<Rightarrow> bool) \<Rightarrow> u64 \<Rightarrow> queue_item \<Rightarrow> (replay_key \<times> replay_edge) list \<Rightarrow> search_scratch \<Rightarrow>
     search_scratch \<times> unit res" where
  "relax_neighbours view nodeOK cutoff item [] scratch = (scratch, Inr ())"
| "relax_neighbours view nodeOK cutoff item ((neighbour, edge) # rest) scratch =
     (case CheckedAdd (qi_cost item) (re_Weight edge) of
        Inl e \<Rightarrow> (scratch, Inl e)
      | Inr candidate \<Rightarrow>
          if candidate > cutoff \<or> \<not> nodeOK neighbour then relax_neighbours view nodeOK cutoff item rest scratch
          else case nodeIDLocked view neighbour of
            Inl e \<Rightarrow> (scratch, Inl e)
          | Inr neighbourID \<Rightarrow>
              if (case getDistance scratch neighbourID of None \<Rightarrow> False | Some known \<Rightarrow> candidate \<ge> known)
              then relax_neighbours view nodeOK cutoff item rest scratch
              else let scratch = setPredecessor (setDistance scratch neighbourID candidate) neighbourID (qi_id item);
                       scratch = scratch\<lparr>ss_queue := heap_Push queue_Less (ss_queue scratch)
                                   \<lparr>qi_id = neighbourID, qi_key = neighbour, qi_cost = candidate\<rparr>\<rparr>
                   in relax_neighbours view nodeOK cutoff item rest scratch)"

text \<open>The loop; the first argument bounds the number of items popped, \<open>None\<close> is reaching the bound.\<close>

fun search_loop ::
  "nat \<Rightarrow> map_order \<Rightarrow> replay_view \<Rightarrow> (replay_key \<Rightarrow> bool) \<Rightarrow> u64 \<Rightarrow> nat \<Rightarrow> nat \<Rightarrow> search_scratch \<Rightarrow>
     (search_scratch \<times> replay_path option res) option" where
  "search_loop 0 ord view nodeOK cutoff startID goalID scratch = None"
| "search_loop (Suc n) ord view nodeOK cutoff startID goalID scratch =
     (if ss_queue scratch = [] then Some (scratch, Inr None)
      else case heap_Pop queue_Less (ss_queue scratch) of (item, queue) \<Rightarrow>
        let scratch = scratch\<lparr>ss_queue := queue\<rparr>
        in if getDistance scratch (qi_id item) \<noteq> Some (qi_cost item)
           then search_loop n ord view nodeOK cutoff startID goalID scratch
           else if qi_cost item > cutoff then Some (scratch, Inr None)
           else if \<not> nodeOK (qi_key item) then search_loop n ord view nodeOK cutoff startID goalID scratch
           else if qi_id item = goalID
           then map_option (Pair scratch) (reconstructPathLocked view startID goalID (qi_cost item) scratch)
           else case relax_neighbours view nodeOK cutoff item (ord (qi_key item) (rv_adjacency view (qi_key item))) scratch of
             (scratch, Inl e) \<Rightarrow> Some (scratch, Inl e)
           | (scratch, Inr _) \<Rightarrow> search_loop n ord view nodeOK cutoff startID goalID scratch)"

definition node_ok :: "cost_profile \<Rightarrow> u64 \<Rightarrow> string \<Rightarrow> u64 \<Rightarrow> replay_key \<Rightarrow> bool" where
  "node_ok profile cutoff targetChain targetHeight key =
     (let steps = cutoff div cp_DirectStepCost profile;
          minTargetHeight = (if targetHeight > steps then targetHeight - steps else 0)
      in rk_Chain key \<noteq> canonicalChain targetChain \<or> rk_Height key \<ge> minTargetHeight)"

definition search_fuel :: "replay_view \<Rightarrow> nat" where
  "search_fuel view = (\<Sum>k \<leftarrow> rv_nodeKeys view. length (rv_adjacency view k)) + 2"

definition ShortestPath ::
  "map_order \<Rightarrow> replay_view \<Rightarrow> search_scratch \<Rightarrow> replay_key \<Rightarrow> replay_key \<Rightarrow> u64 \<Rightarrow> string \<Rightarrow> u64 \<Rightarrow>
     (search_scratch \<times> replay_path option res) option" where
  "ShortestPath ord view scratch start goal cutoff targetChain targetHeight =
     (let start = canonicalKey start; goal = canonicalKey goal
      in if start = goal
         then Some (scratch, Inr (Some \<lparr>rp_Cost = 0, rp_Nodes = [start], rp_Segments = []\<rparr>))
         else let scratch = scratch_begin scratch (length (rv_nodeKeys view))
              in case nodeIDLocked view start of
                   Inl e \<Rightarrow> Some (scratch, Inl e)
                 | Inr startID \<Rightarrow>
                     (case nodeIDLocked view goal of
                        Inl e \<Rightarrow> Some (scratch, Inl e)
                      | Inr goalID \<Rightarrow>
                          let nodeOK = node_ok (rv_profile view) cutoff targetChain targetHeight;
                              scratch = setDistance scratch startID 0;
                              queue = heap_Init queue_Less (ss_queue scratch @ [\<lparr>qi_id = startID, qi_key = start, qi_cost = 0\<rparr>])
                          in search_loop (search_fuel view) ord view nodeOK cutoff startID goalID (scratch\<lparr>ss_queue := queue\<rparr>)))"

subsection \<open>Generations\<close>

definition scratch_ok :: "search_scratch \<Rightarrow> bool" where
  "scratch_ok s \<longleftrightarrow> length (ss_distances s) = length (ss_distanceGenerations s) \<and>
     length (ss_predecessors s) = length (ss_distanceGenerations s) \<and>
     length (ss_predecessorGenerations s) = length (ss_distanceGenerations s) \<and>
     (\<forall>g \<in> set (ss_distanceGenerations s) \<union> set (ss_predecessorGenerations s). g \<le> ss_generation s)"

abbreviation capacity :: "search_scratch \<Rightarrow> nat" where
  "capacity s \<equiv> length (ss_distanceGenerations s)"

lemma length_grow [simp]: "length (grow xs n z) = max (length xs) n"
  by (simp add: grow_def)

lemma set_grow: "set (grow xs n z) \<subseteq> insert z (set xs)"
  by (auto simp: grow_def)

lemma generation_step: "g \<noteq> MaxUint64 \<Longrightarrow> g + 1 \<noteq> 0 \<and> g < g + 1" for g :: u64
proof -
  assume g: "g \<noteq> MaxUint64"
  have "unat g \<noteq> 2 ^ 64 - 1" using g by (metis unat_MaxUint64 word_unat_eq_iff)
  then have "unat g + 1 < 2 ^ 64" using unsigned_less[of g, where 'a = nat] by simp
  then have "unat (g + 1) = unat g + 1" by (simp add: unat_word_ariths)
  then show ?thesis by (auto simp: word_less_nat_alt)
qed

text \<open>A search starts with no distance and no predecessor, whatever earlier searches left and also when the generation wraps.\<close>

lemma scratch_begin_fresh:
  assumes "scratch_ok s"
  shows "scratch_ok (scratch_begin s n)" "n \<le> capacity (scratch_begin s n)" "ss_queue (scratch_begin s n) = []"
    "getDistance (scratch_begin s n) i = None" "getPredecessor (scratch_begin s n) i = None"
proof -
  let ?s = "scratch_begin s n"
  have old: "g \<le> ss_generation s" if "g \<in> set (grow (ss_distanceGenerations s) n 0) \<union> set (grow (ss_predecessorGenerations s) n 0)" for g
  proof -
    have "g = 0 \<or> g \<in> set (ss_distanceGenerations s) \<union> set (ss_predecessorGenerations s)" using that set_grow by fast
    then show ?thesis using assms by (auto simp: scratch_ok_def)
  qed
  have gens: "g < ss_generation ?s" if "g \<in> set (ss_distanceGenerations ?s) \<union> set (ss_predecessorGenerations ?s)" for g
  proof (cases "ss_generation s = MaxUint64")
    case True
    then show ?thesis using that by (auto simp: scratch_begin_def Let_def clear_def)
  next
    case False
    then have "g \<le> ss_generation s" "ss_generation ?s = ss_generation s + 1"
      using that old generation_step[OF False] by (simp_all add: scratch_begin_def Let_def)
    then show ?thesis using generation_step[OF False] by (metis le_less_trans)
  qed
  have "\<forall>g \<in> set (ss_distanceGenerations ?s) \<union> set (ss_predecessorGenerations ?s). g \<le> ss_generation ?s" using gens less_imp_le by blast
  then show "scratch_ok ?s" using assms by (simp add: scratch_ok_def scratch_begin_def Let_def clear_def)
  show "n \<le> capacity ?s" "ss_queue ?s = []" by (simp_all add: scratch_begin_def Let_def clear_def)
  have "ss_distanceGenerations ?s ! i \<noteq> ss_generation ?s" if "i < capacity ?s" using gens[of "ss_distanceGenerations ?s ! i"] nth_mem[OF that] by auto
  then show "getDistance ?s i = None" by (auto simp: getDistance_def)
  have "ss_predecessorGenerations ?s ! i \<noteq> ss_generation ?s" if "i < length (ss_predecessorGenerations ?s)"
    using gens[of "ss_predecessorGenerations ?s ! i"] nth_mem[OF that] by auto
  then show "getPredecessor ?s i = None" by (auto simp: getPredecessor_def)
qed

lemma scratch_set:
  assumes "scratch_ok s" "i < capacity s"
  shows "scratch_ok (setDistance s i d)" "scratch_ok (setPredecessor s i p)"
    "getDistance (setDistance s i d) j = (if j = i then Some d else getDistance s j)"
    "getPredecessor (setPredecessor s i p) j = (if j = i then Some p else getPredecessor s j)"
    "getDistance (setPredecessor s i p) j = getDistance s j" "getPredecessor (setDistance s i d) j = getPredecessor s j"
    "capacity (setDistance s i d) = capacity s" "capacity (setPredecessor s i p) = capacity s"
    "ss_queue (setDistance s i d) = ss_queue s" "ss_queue (setPredecessor s i p) = ss_queue s"
  using assms
  by (auto simp: scratch_ok_def setDistance_def setPredecessor_def getDistance_def getPredecessor_def
      dest!: set_update_subset_insert[THEN subsetD])

lemma scratch_queue [simp]:
  "scratch_ok (s\<lparr>ss_queue := q\<rparr>) = scratch_ok s" "getDistance (s\<lparr>ss_queue := q\<rparr>) = getDistance s"
  "getPredecessor (s\<lparr>ss_queue := q\<rparr>) = getPredecessor s"
  by (simp_all add: scratch_ok_def fun_eq_iff getDistance_def getPredecessor_def)

subsection \<open>The order of the queue\<close>

definition item_rank :: "queue_item \<Rightarrow> u64 \<times> string \<times> u64" where
  "item_rank i = (qi_cost i, rk_Chain (qi_key i), rk_Height (qi_key i))"

lemma queue_Less_rank: "queue_Less a b \<longleftrightarrow> item_rank a < item_rank b"
  by (auto simp: queue_Less_def item_rank_def)

interpretation rq: weak_order queue_Less
  by unfold_locales (auto simp: queue_Less_rank)

lemma item_rank_cost: "item_rank a \<le> item_rank b \<Longrightarrow> qi_cost a \<le> qi_cost b"
  by (auto simp: item_rank_def)

subsection \<open>The search as a best-first search\<close>

definition search_succs :: "map_order \<Rightarrow> replay_view \<Rightarrow> (replay_key \<Rightarrow> bool) \<Rightarrow> replay_key \<Rightarrow> (replay_key \<times> replay_edge) list" where
  "search_succs ord view nodeOK k = (if k \<in> set (rv_nodeKeys view) \<and> nodeOK k then ord k (rv_adjacency view k) else [])"

definition search_extend :: "(replay_key \<Rightarrow> bool) \<Rightarrow> u64 \<Rightarrow> u64 \<Rightarrow> replay_key \<times> replay_edge \<Rightarrow> u64 option" where
  "search_extend nodeOK cutoff cost e =
     (case CheckedAdd cost (re_Weight (snd e)) of
        Inl _ \<Rightarrow> None
      | Inr candidate \<Rightarrow> if candidate > cutoff \<or> \<not> nodeOK (fst e) then None else Some candidate)"

lemma search_extend_Some:
  "search_extend nodeOK cutoff c e = Some d \<longleftrightarrow>
     unat c + unat (re_Weight (snd e)) < 2 ^ 64 \<and> d = c + re_Weight (snd e) \<and> d \<le> cutoff \<and> nodeOK (fst e)"
proof (cases "CheckedAdd c (re_Weight (snd e))")
  case (Inl x)
  then show ?thesis using CheckedAdd_Inr[of c "re_Weight (snd e)" "c + re_Weight (snd e)"] by (simp add: search_extend_def)
next
  case (Inr x)
  then have "unat c + unat (re_Weight (snd e)) < 2 ^ 64" "x = c + re_Weight (snd e)" by (simp_all only: CheckedAdd_Inr)
  then show ?thesis using Inr by (auto simp: search_extend_def not_less)
qed

lemma search_extend_unat: "search_extend nodeOK cutoff c e = Some d \<Longrightarrow> unat d = unat c + unat (re_Weight (snd e))"
  by (auto simp: search_extend_Some unat_word_ariths)

interpretation rs: best_first "(\<le>) :: u64 \<Rightarrow> u64 \<Rightarrow> bool" start "0 :: u64" "search_succs ord view nodeOK" fst "search_extend nodeOK cutoff"
  for start :: replay_key and ord view nodeOK cutoff
proof unfold_locales
  fix a b b' :: u64 and e :: "replay_key \<times> replay_edge"
  show "search_extend nodeOK cutoff a e = Some b \<Longrightarrow> a \<le> b"
    using search_extend_unat[of nodeOK cutoff a e b] by (simp add: word_le_nat_alt)
  assume ab: "a \<le> b" and ext: "search_extend nodeOK cutoff b e = Some b'"
  have le: "unat a \<le> unat b" using ab by (simp add: word_le_nat_alt)
  have s: "unat b' = unat b + unat (re_Weight (snd e))" "unat b + unat (re_Weight (snd e)) < 2 ^ 64" "b' \<le> cutoff" "nodeOK (fst e)"
    using ext search_extend_unat[OF ext] by (auto simp: search_extend_Some)
  have u: "unat (a + re_Weight (snd e)) = unat a + unat (re_Weight (snd e))" using le s(2) by (simp add: unat_word_ariths)
  then have "a + re_Weight (snd e) \<le> b'" using le s(1) by (simp add: word_le_nat_alt)
  moreover from this have "a + re_Weight (snd e) \<le> cutoff" using s(3) by (rule order.trans)
  moreover have "unat a + unat (re_Weight (snd e)) < 2 ^ 64" using le s(2) by linarith
  ultimately show "\<exists>a'. search_extend nodeOK cutoff a e = Some a' \<and> a' \<le> b'"
    using s(4) by (auto simp: search_extend_Some)
next
  show "finite {v. search_succs ord view nodeOK v \<noteq> []}"
    by (rule finite_subset[of _ "set (rv_nodeKeys view)"]) (auto simp: search_succs_def)
qed auto

subsection \<open>Relaxing the neighbours of a node\<close>

definition dist_of :: "replay_view \<Rightarrow> search_scratch \<Rightarrow> replay_key \<Rightarrow> u64 option" where
  "dist_of view s k = (case rv_nodeIDs view k of None \<Rightarrow> None | Some i \<Rightarrow> getDistance s i)"

definition pred_of :: "replay_view \<Rightarrow> search_scratch \<Rightarrow> replay_key \<Rightarrow> nat option" where
  "pred_of view s k = (case rv_nodeIDs view k of None \<Rightarrow> None | Some i \<Rightarrow> getPredecessor s i)"

definition abs_items :: "queue_item list \<Rightarrow> (u64 \<times> replay_key) multiset" where
  "abs_items q = image_mset (\<lambda>i. (qi_cost i, qi_key i)) (mset q)"

definition state_ok :: "replay_view \<Rightarrow> search_scratch \<Rightarrow> bool" where
  "state_ok view s \<longleftrightarrow> scratch_ok s \<and> length (rv_nodeKeys view) \<le> capacity s \<and> is_heap queue_Less (ss_queue s) \<and>
     (\<forall>x \<in> set (ss_queue s). rv_nodeIDs view (qi_key x) = Some (qi_id x))"

lemma nodeID_Inr:
  assumes "ids_ok view"
  shows "nodeIDLocked view k = Inr i \<longleftrightarrow> rv_nodeIDs view k = Some i"
proof (cases "rv_nodeIDs view k")
  case (Some j)
  then have "j < length (rv_nodeKeys view) \<and> rv_nodeKeys view ! j = k" using assms unfolding ids_ok_def by blast
  then show ?thesis using Some by (simp add: nodeIDLocked_def)
qed (simp add: nodeIDLocked_def)

lemma nodeID_known: "ids_ok view \<Longrightarrow> (\<exists>i. rv_nodeIDs view k = Some i) \<longleftrightarrow> k \<in> rv_nodes view"
  by (auto simp: ids_ok_def in_set_conv_nth)

lemma nodeID_ok: "ids_ok view \<Longrightarrow> k \<in> rv_nodes view \<Longrightarrow> \<exists>i. nodeIDLocked view k = Inr i \<and> rv_nodeIDs view k = Some i"
  using nodeID_known nodeID_Inr by blast

lemma nodeID_inject: "ids_ok view \<Longrightarrow> rv_nodeIDs view k = Some i \<Longrightarrow> rv_nodeIDs view k' = Some i \<Longrightarrow> k' = k"
  by (simp add: ids_ok_def)

definition push_neighbour :: "search_scratch \<Rightarrow> nat \<Rightarrow> nat \<Rightarrow> replay_key \<Rightarrow> u64 \<Rightarrow> search_scratch" where
  "push_neighbour s from_id i k c =
     (setPredecessor (setDistance s i c) i from_id)\<lparr>ss_queue := heap_Push queue_Less (ss_queue s) \<lparr>qi_id = i, qi_key = k, qi_cost = c\<rparr>\<rparr>"

lemma push_neighbour_ok:
  assumes ids: "ids_ok view" and ok: "state_ok view s" and i: "rv_nodeIDs view k = Some i"
  shows "state_ok view (push_neighbour s from_id i k c)"
    "dist_of view (push_neighbour s from_id i k c) = (dist_of view s)(k \<mapsto> c)"
    "pred_of view (push_neighbour s from_id i k c) = (pred_of view s)(k \<mapsto> from_id)"
    "abs_items (ss_queue (push_neighbour s from_id i k c)) = add_mset (c, k) (abs_items (ss_queue s))"
proof -
  have len: "i < length (rv_nodeKeys view)" using ids i by (simp add: ids_ok_def)
  have s: "scratch_ok s" "i < capacity s" using ok len by (simp_all add: state_ok_def)
  let ?d = "setDistance s i c"
  note d = scratch_set[OF s]
  have d': "scratch_ok ?d" "i < capacity ?d" using d s by simp_all
  note p = scratch_set[OF d']
  have gets: "getDistance (push_neighbour s from_id i k c) j = (if j = i then Some c else getDistance s j)"
    "getPredecessor (push_neighbour s from_id i k c) j = (if j = i then Some from_id else getPredecessor s j)" for j
    using p(4,5) d(3,6) by (simp_all add: push_neighbour_def)
  have same: "j = i \<longleftrightarrow> x = k" if "rv_nodeIDs view x = Some j" for x j
    using that i nodeID_inject[OF ids i, of x] by auto
  show "dist_of view (push_neighbour s from_id i k c) = (dist_of view s)(k \<mapsto> c)"
  proof
    fix x show "dist_of view (push_neighbour s from_id i k c) x = ((dist_of view s)(k \<mapsto> c)) x"
      using i same[of x] by (cases "rv_nodeIDs view x") (auto simp: dist_of_def gets)
  qed
  show "pred_of view (push_neighbour s from_id i k c) = (pred_of view s)(k \<mapsto> from_id)"
  proof
    fix x show "pred_of view (push_neighbour s from_id i k c) x = ((pred_of view s)(k \<mapsto> from_id)) x"
      using i same[of x] by (cases "rv_nodeIDs view x") (auto simp: pred_of_def gets)
  qed
  have m: "mset (heap_Push queue_Less (ss_queue s) x) = add_mset x (mset (ss_queue s))" for x by (rule rq.mset_heap_Push)
  then have set: "set (heap_Push queue_Less (ss_queue s) x) = insert x (set (ss_queue s))" for x
    by (metis set_mset_add_mset_insert set_mset_mset)
  show "abs_items (ss_queue (push_neighbour s from_id i k c)) = add_mset (c, k) (abs_items (ss_queue s))"
    by (simp add: abs_items_def push_neighbour_def m)
  show "state_ok view (push_neighbour s from_id i k c)"
    using ok p(2) p(8) d(7) i rq.is_heap_Push unfolding state_ok_def push_neighbour_def scratch_queue by (simp add: set)
qed

text \<open>What relaxing may change: a new distance comes from an edge and names the relaxed node as predecessor.\<close>

definition relaxed :: "replay_view \<Rightarrow> (replay_key \<times> replay_edge \<Rightarrow> u64 option) \<Rightarrow> nat \<Rightarrow> (replay_key \<times> replay_edge) set \<Rightarrow> search_scratch \<Rightarrow> search_scratch \<Rightarrow> bool" where
  "relaxed view ext i E s s' \<longleftrightarrow> (\<forall>k. dist_of view s' k = dist_of view s k \<and> pred_of view s' k = pred_of view s k \<or>
     pred_of view s' k = Some i \<and> dist_of view s' k \<noteq> None \<and> (\<exists>e. (k, e) \<in> E \<and> ext (k, e) = dist_of view s' k))"

lemma relaxed_refl: "relaxed view ext i E s s"
  by (simp add: relaxed_def)

lemma relaxed_step:
  assumes "relaxed view ext i E s1 s'" "dist_of view s1 = (dist_of view s)(k \<mapsto> c)" "pred_of view s1 = (pred_of view s)(k \<mapsto> i)"
    "ext (k, e) = Some c" "E \<subseteq> F" "(k, e) \<in> F"
  shows "relaxed view ext i F s s'"
  unfolding relaxed_def
proof
  fix x
  show "dist_of view s' x = dist_of view s x \<and> pred_of view s' x = pred_of view s x \<or>
     pred_of view s' x = Some i \<and> dist_of view s' x \<noteq> None \<and> (\<exists>e. (x, e) \<in> F \<and> ext (x, e) = dist_of view s' x)"
    using assms(1)[unfolded relaxed_def, rule_format, of x] assms(2-6) by (cases "x = k") auto
qed

lemma relax_neighbours_refines:
  assumes "relax_neighbours view nodeOK cutoff item es s = (s', r)" "ids_ok view" "state_ok view s" "fst ` set es \<subseteq> rv_nodes view"
  shows "state_ok view s' \<and>
    (case r of
       Inl e \<Rightarrow> e = ErrMsg ''cost overflow'' \<and> (\<exists>x \<in> set es. 2 ^ 64 \<le> unat (qi_cost item) + unat (re_Weight (snd x)))
     | Inr _ \<Rightarrow>
         rs.relax_all nodeOK cutoff (qi_cost item) es (dist_of view s, abs_items (ss_queue s)) = (dist_of view s', abs_items (ss_queue s')) \<and>
         relaxed view (search_extend nodeOK cutoff (qi_cost item)) (qi_id item) (set es) s s' \<and>
         (\<forall>x \<in> set es. unat (qi_cost item) + unat (re_Weight (snd x)) < 2 ^ 64))"
  using assms
proof (induction es arbitrary: s)
  case Nil
  then show ?case by (auto simp: relaxed_refl)
next
  case (Cons x es)
  obtain k e where x: "x = (k, e)" by fastforce
  show ?case
  proof (cases "CheckedAdd (qi_cost item) (re_Weight e)")
    case (Inl err)
    then have "err = ErrMsg ''cost overflow'' \<and> 2 ^ 64 \<le> unat (qi_cost item) + unat (re_Weight e)"
      using CheckedAdd_Inr[of "qi_cost item" "re_Weight e" "qi_cost item + re_Weight e"] by (auto simp: CheckedAdd_def split: if_splits)
    then show ?thesis using Cons.prems Inl x by auto
  next
    case (Inr c)
    have sum: "unat (qi_cost item) + unat (re_Weight e) < 2 ^ 64" using Inr by (simp add: CheckedAdd_Inr)
    show ?thesis
    proof (cases "search_extend nodeOK cutoff (qi_cost item) x")
      case None
      then have skip: "c > cutoff \<or> \<not> nodeOK k" using Inr x by (auto simp: search_extend_def split: if_splits)
      then have "relax_neighbours view nodeOK cutoff item es s = (s', r)" using Cons.prems(1) Inr x by simp
      note IH = Cons.IH[OF this Cons.prems(2,3)]
      show ?thesis using IH Cons.prems(4) sum None x by (auto simp: relaxed_def split: sum.split_asm)
    next
      case (Some d)
      then have d: "d = c" "\<not> (c > cutoff \<or> \<not> nodeOK k)" using Inr x by (auto simp: search_extend_def split: if_splits)
      obtain i where i: "nodeIDLocked view k = Inr i" "rv_nodeIDs view k = Some i"
        using nodeID_ok[OF Cons.prems(2), of k] Cons.prems(4) x by auto
      have known: "dist_of view s k = getDistance s i" using i(2) by (simp add: dist_of_def)
      show ?thesis
      proof (cases "case getDistance s i of None \<Rightarrow> False | Some known \<Rightarrow> c \<ge> known")
        case True
        then have "relax_neighbours view nodeOK cutoff item es s = (s', r)" using Cons.prems(1) Inr x i d(2) by simp
        note IH = Cons.IH[OF this Cons.prems(2,3)]
        have "rs.relax nodeOK cutoff (qi_cost item) x (dist_of view s, abs_items (ss_queue s)) = (dist_of view s, abs_items (ss_queue s))"
          using True known Some d x by (auto split: option.split_asm)
        then show ?thesis using IH Cons.prems(4) sum x by (auto simp: relaxed_def split: sum.split_asm)
      next
        case False
        let ?s = "push_neighbour s (qi_id item) i k c"
        note push = push_neighbour_ok[OF Cons.prems(2,3) i(2), of "qi_id item" c]
        have q: "ss_queue (setPredecessor (setDistance s i c) i (qi_id item)) = ss_queue s" by (simp add: setPredecessor_def setDistance_def)
        have "relax_neighbours view nodeOK cutoff item es ?s = (s', r)"
          using Cons.prems(1) Inr x i d(2) False by (simp add: Let_def q push_neighbour_def del: not_less)
        note IH = Cons.IH[OF this Cons.prems(2) push(1)]
        have "rs.relax nodeOK cutoff (qi_cost item) x (dist_of view s, abs_items (ss_queue s)) = (dist_of view ?s, abs_items (ss_queue ?s))"
          using False known Some d x push(2,4) by (auto split: option.split_asm)
        moreover have "relaxed view (search_extend nodeOK cutoff (qi_cost item)) (qi_id item) (set es) ?s s' \<Longrightarrow>
            relaxed view (search_extend nodeOK cutoff (qi_cost item)) (qi_id item) (set (x # es)) s s'"
          using relaxed_step[OF _ push(2,3), of _ _ s' e "set (x # es)"] Some d x by auto
        ultimately show ?thesis using IH Cons.prems(4) sum x by (auto split: sum.split_asm)
      qed
    qed
  qed
qed

subsection \<open>Walks\<close>

fun walk_cost :: "replay_view \<Rightarrow> replay_key list \<Rightarrow> nat option" where
  "walk_cost v [] = None"
| "walk_cost v [a] = Some 0"
| "walk_cost v (a # b # ks) =
     (case edge_at v a b of None \<Rightarrow> None | Some e \<Rightarrow> map_option (\<lambda>c. unat (re_Weight e) + c) (walk_cost v (b # ks)))"

text \<open>A walk the search may return: it stays on the nodes the target rule admits.\<close>

definition admissible :: "(replay_key \<Rightarrow> bool) \<Rightarrow> replay_key list \<Rightarrow> bool" where
  "admissible nodeOK ks \<longleftrightarrow> length ks = 1 \<or> (\<forall>k \<in> set ks. nodeOK k)"

lemma walk_cost_snoc:
  "ks \<noteq> [] \<Longrightarrow> walk_cost v (ks @ [b]) =
     (case walk_cost v ks of None \<Rightarrow> None | Some c \<Rightarrow> map_option (\<lambda>e. c + unat (re_Weight e)) (edge_at v (last ks) b))"
  by (induction v ks rule: walk_cost.induct) (auto simp: option.map_comp comp_def add.assoc split: option.split)

definition permutes_order :: "map_order \<Rightarrow> bool" where
  "permutes_order ord \<longleftrightarrow> (\<forall>k xs. mset (ord k xs) = mset xs)"

lemma permutes_set: "permutes_order ord \<Longrightarrow> set (ord k xs) = set xs"
  by (metis permutes_order_def set_mset_mset)

lemma edge_at_iff: "view_ok v \<Longrightarrow> (b, e) \<in> set (rv_adjacency v a) \<longleftrightarrow> edge_at v a b = Some e"
  by (auto simp: view_ok_def counted_def dest: map_of_SomeD)

lemma view_edge_nodes: "view_ok v \<Longrightarrow> edge_at v a b = Some e \<Longrightarrow> a \<in> rv_nodes v \<and> b \<in> rv_nodes v"
  by (simp add: view_ok_def edges_ok_def)

lemma edge_weight_pos:
  assumes "view_ok v" "edge_at v a b = Some e"
  shows "0 < unat (re_Weight e)"
proof -
  have p: "0 < unat (cp_DirectStepCost (rv_profile v))" "0 < unat (cp_PathStepCost (rv_profile v))"
    using assms(1) by (auto simp: view_ok_def cost_Validate_def unat_gt_0 split: if_splits)
  have "edge_ok (rv_profile v) (heights_on v) a b e" using assms by (simp add: view_ok_def edges_ok_def)
  then show ?thesis using p by (auto simp: edge_ok_def adjacent_def word_less_nat_alt split: replay_edge_kind.split_asm)
qed

lemma search_succs_iff:
  assumes "view_ok v" "permutes_order ord"
  shows "(b, e) \<in> set (search_succs ord v nodeOK a) \<longleftrightarrow> nodeOK a \<and> edge_at v a b = Some e"
  using edge_at_iff[OF assms(1), of b e a] view_edge_nodes[OF assms(1), of a b e] assms(1)
  by (auto simp: search_succs_def permutes_set[OF assms(2)] view_ok_def ids_ok_def)

lemma all_nodes_ok: "ks = [a] \<or> (\<forall>x \<in> set ks. P x) \<Longrightarrow> P (last ks) \<Longrightarrow> \<forall>x \<in> set ks. P x"
  by auto

lemma replay_reaches_walk:
  assumes "view_ok v" "permutes_order ord" "rs.reaches start ord v nodeOK cutoff k c"
  shows "c \<le> cutoff \<and> (\<exists>ks. ks \<noteq> [] \<and> hd ks = start \<and> last ks = k \<and> walk_cost v ks = Some (unat c) \<and>
    (ks = [start] \<or> (\<forall>x \<in> set ks. nodeOK x)))"
  using assms(3)
proof (induction rule: rs.reaches.induct)
  case reaches_start
  show ?case by (intro conjI exI[of _ "[start]"]) simp_all
next
  case (reaches_step u a e b)
  obtain k w where e: "e = (k, w)" by fastforce
  have edge: "nodeOK u" "edge_at v u k = Some w" using reaches_step.hyps(2) search_succs_iff[OF assms(1,2)] unfolding e by blast+
  have b: "b \<le> cutoff" "nodeOK k" "unat b = unat a + unat (re_Weight w)"
    using reaches_step.hyps(3) search_extend_unat[OF reaches_step.hyps(3)] by (auto simp: e search_extend_Some)
  obtain ks where ks: "ks \<noteq> []" "hd ks = start" "last ks = u" "walk_cost v ks = Some (unat a)" "ks = [start] \<or> (\<forall>x \<in> set ks. nodeOK x)"
    using reaches_step.IH by blast
  have "\<forall>x \<in> set ks. nodeOK x" using all_nodes_ok[OF ks(5)] ks(3) edge(1) by simp
  then have "\<forall>x \<in> set (ks @ [k]). nodeOK x" using b(2) by simp
  moreover have "walk_cost v (ks @ [k]) = Some (unat b)" using ks edge(2) b(3) by (simp add: walk_cost_snoc)
  ultimately show ?case using b(1) ks e by (intro conjI exI[of _ "ks @ [k]"]) simp_all
qed

lemma replay_walk_reaches:
  assumes v: "view_ok v" "permutes_order ord"
  shows "ks \<noteq> [] \<Longrightarrow> hd ks = start \<Longrightarrow> walk_cost v ks = Some c \<Longrightarrow> c \<le> unat cutoff \<Longrightarrow> admissible nodeOK ks \<Longrightarrow>
    \<exists>a. rs.reaches start ord v nodeOK cutoff (last ks) a \<and> unat a = c"
proof (induction ks arbitrary: c rule: rev_induct)
  case (snoc k ks)
  show ?case
  proof (cases "ks = []")
    case True
    then show ?thesis using snoc.prems rs.reaches_start[of start ord v nodeOK cutoff] by auto
  next
    case False
    then obtain c' e where c: "walk_cost v ks = Some c'" "edge_at v (last ks) k = Some e" "c = c' + unat (re_Weight e)"
      using snoc.prems(3) by (auto simp: walk_cost_snoc split: option.split_asm)
    have adm: "\<forall>x \<in> set (ks @ [k]). nodeOK x" using snoc.prems(5) False by (simp add: admissible_def)
    obtain a where a: "rs.reaches start ord v nodeOK cutoff (last ks) a" "unat a = c'"
      using snoc.IH[OF False _ c(1)] snoc.prems(2,4) c(3) adm False by (auto simp: admissible_def)
    have lt: "unat a + unat (re_Weight e) < 2 ^ 64" using a(2) c(3) snoc.prems(4) unsigned_less[of cutoff, where 'a = nat] by simp
    then have u: "unat (a + re_Weight e) = c" using a(2) c(3) by (simp add: unat_word_ariths)
    then have "search_extend nodeOK cutoff a (k, e) = Some (a + re_Weight e)"
      using lt adm snoc.prems(4) by (simp add: search_extend_Some word_le_nat_alt)
    moreover have "(k, e) \<in> set (search_succs ord v nodeOK (last ks))"
      using search_succs_iff[OF v] c(2) adm False by simp
    ultimately show ?thesis using rs.reaches_step[OF a(1)] u by fastforce
  qed
qed simp

subsection \<open>Reconstructing the path\<close>

definition pred_inv :: "replay_view \<Rightarrow> (replay_key \<Rightarrow> bool) \<Rightarrow> u64 \<Rightarrow> replay_key \<Rightarrow> replay_key set \<Rightarrow> search_scratch \<Rightarrow> bool" where
  "pred_inv v nodeOK cutoff start S s \<longleftrightarrow> (\<forall>k d. dist_of v s k = Some d \<longrightarrow> k \<noteq> start \<longrightarrow>
     (\<exists>u i e c. u \<in> S \<and> rv_nodeIDs v u = Some i \<and> pred_of v s k = Some i \<and> edge_at v u k = Some e \<and> nodeOK u \<and>
        dist_of v s u = Some c \<and> search_extend nodeOK cutoff c (k, e) = Some d))"

definition traced :: "replay_view \<Rightarrow> (replay_key \<Rightarrow> bool) \<Rightarrow> replay_key \<Rightarrow> nat \<Rightarrow> search_scratch \<Rightarrow> replay_key \<Rightarrow> u64 \<Rightarrow> replay_key list \<Rightarrow> bool" where
  "traced v nodeOK start startID s k d ks \<longleftrightarrow>
     ks \<noteq> [] \<and> hd ks = start \<and> last ks = k \<and> walk_cost v ks = Some (unat d) \<and> (ks = [start] \<or> (\<forall>x \<in> set ks. nodeOK x)) \<and>
     distinct ks \<and> set ks \<subseteq> rv_nodes v \<and> (\<forall>x \<in> set ks. \<exists>c. dist_of v s x = Some c \<and> c \<le> d) \<and>
     (\<forall>n acc i. rv_nodeIDs v k = Some i \<longrightarrow> length ks \<le> n \<longrightarrow> path_back n v s startID i acc = Some (Inr (acc @ rev (butlast ks))))"

lemma trace_back:
  assumes v: "view_ok v" and pred: "pred_inv v nodeOK cutoff start S s" and start: "dist_of v s start = Some 0" "rv_nodeIDs v start = Some startID"
  shows "dist_of v s k = Some d \<Longrightarrow> \<exists>ks. traced v nodeOK start startID s k d ks"
proof (induction "unat d" arbitrary: k d rule: less_induct)
  case less
  have ids: "ids_ok v" using v by (simp add: view_ok_def)
  show ?case
  proof (cases "k = start")
    case True
    have "path_back n v s startID startID acc = Some (Inr acc)" if "0 < n" for n acc using that by (cases n) simp_all
    then have "traced v nodeOK start startID s k d [start]"
      using True less.prems start nodeID_known[OF ids, of start] by (auto simp: traced_def Suc_le_eq)
    then show ?thesis by blast
  next
    case False
    obtain u i e c where p: "u \<in> S" "rv_nodeIDs v u = Some i" "pred_of v s k = Some i" "edge_at v u k = Some e" "nodeOK u"
      "dist_of v s u = Some c" "search_extend nodeOK cutoff c (k, e) = Some d"
      using pred False less.prems unfolding pred_inv_def by blast
    have d: "unat d = unat c + unat (re_Weight e)" "nodeOK k" using search_extend_unat[OF p(7)] p(7) by (auto simp: search_extend_Some)
    have lt: "unat c < unat d" using d(1) edge_weight_pos[OF v p(4)] by simp
    obtain ks where ks: "traced v nodeOK start startID s u c ks" using less.hyps[OF lt p(6)] by blast
    note t = ks[unfolded traced_def]
    have new: "k \<notin> set ks"
    proof
      assume "k \<in> set ks"
      then have "d \<le> c" using t less.prems by auto
      then show False using lt by (simp add: word_le_nat_alt)
    qed
    have bounded: "\<forall>x \<in> set (ks @ [k]). \<exists>c'. dist_of v s x = Some c' \<and> c' \<le> d"
    proof
      fix x assume "x \<in> set (ks @ [k])"
      then consider "x \<in> set ks" | "x = k" by auto
      then show "\<exists>c'. dist_of v s x = Some c' \<and> c' \<le> d"
      proof cases
        case 1
        then obtain c' where "dist_of v s x = Some c'" "c' \<le> c" using t by blast
        then show ?thesis using lt by (auto simp: word_le_nat_alt)
      qed (use less.prems in simp)
    qed
    have follow: "path_back n v s startID j acc = Some (Inr (acc @ rev (butlast (ks @ [k]))))"
      if j: "rv_nodeIDs v k = Some j" and n: "length (ks @ [k]) \<le> n" for n acc j
    proof -
      obtain m where m: "n = Suc m" "length ks \<le> m" using n by (cases n) auto
      have "j \<noteq> startID" using False j start(2) nodeID_inject[OF ids] by blast
      moreover have "getPredecessor s j = Some i" using p(3) j by (simp add: pred_of_def)
      moreover have "i < length (rv_nodeKeys v)" "rv_nodeKeys v ! i = u" using p(2) ids by (simp_all add: ids_ok_def)
      ultimately have "path_back n v s startID j acc = path_back m v s startID i (acc @ [u])" using m(1) by simp
      also have "\<dots> = Some (Inr ((acc @ [u]) @ rev (butlast ks)))" using t p(2) m(2) by blast
      finally have eq: "path_back n v s startID j acc = Some (Inr ((acc @ [u]) @ rev (butlast ks)))" .
      have r: "rev ks = u # rev (butlast ks)" using t by (metis append_butlast_last_id rev_eq_Cons_iff rev_rev_ident)
      show ?thesis unfolding butlast_snoc r eq by simp
    qed
    have "walk_cost v (ks @ [k]) = Some (unat d)" using t p(4) d(1) by (simp add: walk_cost_snoc)
    moreover have "\<forall>x \<in> set ks. nodeOK x" using all_nodes_ok[of ks start nodeOK] t p(5) by simp
    then have "\<forall>x \<in> set (ks @ [k]). nodeOK x" using d(2) by simp
    moreover have "set (ks @ [k]) \<subseteq> rv_nodes v" using t view_edge_nodes[OF v p(4)] by auto
    ultimately have "traced v nodeOK start startID s k d (ks @ [k])"
      unfolding traced_def using t new bounded follow by (intro conjI allI impI) auto
    then show ?thesis by blast
  qed
qed

lemma path_segments_walk:
  "walk_cost v ks \<noteq> None \<Longrightarrow>
     path_segments v ks = Inr (map (\<lambda>(a, b). case edge_at v a b of Some e \<Rightarrow> \<lparr>rs_From = a, rs_To = b, rs_Kind = re_Kind e, rs_Weight = re_Weight e\<rparr>) (zip ks (tl ks)))"
  by (induction v ks rule: path_segments.induct) (auto split: option.split_asm)

subsection \<open>The loop\<close>

definition search_inv :: "map_order \<Rightarrow> replay_view \<Rightarrow> (replay_key \<Rightarrow> bool) \<Rightarrow> u64 \<Rightarrow> replay_key \<Rightarrow> replay_key \<Rightarrow> replay_key set \<Rightarrow> search_scratch \<Rightarrow> bool" where
  "search_inv ord v nodeOK cutoff start goal S s \<longleftrightarrow>
     state_ok v s \<and> goal \<notin> S \<and> rs.search_inv start ord v nodeOK cutoff S (dist_of v s) (abs_items (ss_queue s)) \<and>
     pred_inv v nodeOK cutoff start S s"

definition found_path :: "replay_view \<Rightarrow> (replay_key \<Rightarrow> bool) \<Rightarrow> replay_key \<Rightarrow> replay_key \<Rightarrow> replay_path \<Rightarrow> bool" where
  "found_path v nodeOK start goal p \<longleftrightarrow>
     rp_Nodes p \<noteq> [] \<and> hd (rp_Nodes p) = start \<and> last (rp_Nodes p) = goal \<and> distinct (rp_Nodes p) \<and>
     walk_cost v (rp_Nodes p) = Some (unat (rp_Cost p)) \<and> admissible nodeOK (rp_Nodes p) \<and>
     path_segments v (rp_Nodes p) = Inr (rp_Segments p)"

definition search_answer :: "map_order \<Rightarrow> replay_view \<Rightarrow> (replay_key \<Rightarrow> bool) \<Rightarrow> u64 \<Rightarrow> replay_key \<Rightarrow> replay_key \<Rightarrow> replay_path option res \<Rightarrow> bool" where
  "search_answer ord v nodeOK cutoff start goal r =
     (case r of
        Inr (Some p) \<Rightarrow> found_path v nodeOK start goal p \<and> rs.reaches start ord v nodeOK cutoff goal (rp_Cost p) \<and>
          (\<forall>c. rs.reaches start ord v nodeOK cutoff goal c \<longrightarrow> rp_Cost p \<le> c)
      | Inr None \<Rightarrow> \<forall>c. \<not> rs.reaches start ord v nodeOK cutoff goal c
      | Inl e \<Rightarrow> e = ErrMsg ''cost overflow'' \<and>
          (\<exists>u c w e'. rs.reaches start ord v nodeOK cutoff u c \<and> nodeOK u \<and> edge_at v u w = Some e' \<and> 2 ^ 64 \<le> unat c + unat (re_Weight e')))"

lemma pop_state:
  assumes "state_ok v s" "ss_queue s \<noteq> []" "heap_Pop queue_Less (ss_queue s) = (x, q)"
  shows "state_ok v (s\<lparr>ss_queue := q\<rparr>)" "abs_items (ss_queue s) = add_mset (qi_cost x, qi_key x) (abs_items q)"
    "rv_nodeIDs v (qi_key x) = Some (qi_id x)" "\<And>y. y \<in># abs_items q \<Longrightarrow> qi_cost x \<le> fst y"
proof -
  have h: "is_heap queue_Less (ss_queue s)" and ne: "mset (ss_queue s) \<noteq> {#}" using assms by (simp_all add: state_ok_def)
  note m = rq.hq.elems_pop[OF h ne assms(3)]
  have sets: "set (ss_queue s) = insert x (set q)" using m by (metis set_mset_add_mset_insert set_mset_mset)
  show "state_ok v (s\<lparr>ss_queue := q\<rparr>)"
    using assms(1) rq.hq.invar_pop[OF h ne assms(3)] sets unfolding state_ok_def scratch_queue by simp
  show "abs_items (ss_queue s) = add_mset (qi_cost x, qi_key x) (abs_items q)" by (simp add: abs_items_def m)
  show "rv_nodeIDs v (qi_key x) = Some (qi_id x)" using assms(1) sets by (simp add: state_ok_def)
  fix y assume "y \<in># abs_items q"
  then obtain z where z: "z \<in># mset q" "y = (qi_cost z, qi_key z)" by (auto simp: abs_items_def)
  then have "\<not> queue_Less z x" using rq.hq.pop_min_rest[OF h ne assms(3)] by simp
  then have "item_rank x \<le> item_rank z" unfolding queue_Less_rank by (rule leI)
  then show "qi_cost x \<le> fst y" using item_rank_cost z(2) by simp
qed

lemma reaches_ok:
  assumes "rs.reaches start ord v nodeOK cutoff k c"
  shows "c \<le> cutoff" "k = start \<or> nodeOK k"
  using assms by (induction rule: rs.reaches.induct) (simp_all add: search_extend_Some)

lemma dist_start:
  assumes "rs.search_inv start ord v nodeOK cutoff S best Q"
  shows "best start = Some 0"
  using assms by (auto simp: rs.search_inv_def rs.labels_ok_def)

text \<open>Distances of settled nodes do not change any more.\<close>

lemma settled_distance:
  assumes "rs.search_inv start ord v nodeOK cutoff S best Q" "rs.search_inv start ord v nodeOK cutoff (insert u S) best' Q'" "x \<in> S"
  shows "best' x = best x"
proof -
  obtain b where b: "best x = Some b" "rs.reaches start ord v nodeOK cutoff x b" "\<forall>c. rs.reaches start ord v nodeOK cutoff x c \<longrightarrow> b \<le> c"
    using assms(1,3) unfolding rs.search_inv_def rs.labels_ok_def by blast
  obtain b' where b': "best' x = Some b'" "rs.reaches start ord v nodeOK cutoff x b'" "\<forall>c. rs.reaches start ord v nodeOK cutoff x c \<longrightarrow> b' \<le> c"
    using assms(2,3) unfolding rs.search_inv_def rs.labels_ok_def by blast
  have "b' = b" using b b' by (metis order.antisym)
  then show ?thesis using b b' by simp
qed

lemma labels_queue: "dist_of v (s\<lparr>ss_queue := q\<rparr>) = dist_of v s" "pred_of v (s\<lparr>ss_queue := q\<rparr>) = pred_of v s"
  by (simp_all add: dist_of_def pred_of_def getDistance_def getPredecessor_def fun_eq_iff split: option.split)

lemma fresh_item:
  assumes inv: "search_inv ord v nodeOK cutoff start goal S s" and pop: "ss_queue s \<noteq> []" "heap_Pop queue_Less (ss_queue s) = (x, q)"
    and fresh: "getDistance s (qi_id x) = Some (qi_cost x)"
  shows "rs.search_inv start ord v nodeOK cutoff S (dist_of v s) (add_mset (qi_cost x, qi_key x) (abs_items q))"
    "dist_of v s (qi_key x) = Some (qi_cost x)" "qi_key x \<notin> S"
    "rs.reaches start ord v nodeOK cutoff (qi_key x) (qi_cost x)"
    "\<And>c. rs.reaches start ord v nodeOK cutoff (qi_key x) c \<Longrightarrow> qi_cost x \<le> c"
proof -
  have ok: "state_ok v s" using inv by (simp add: search_inv_def)
  note p = pop_state[OF ok pop]
  show i: "rs.search_inv start ord v nodeOK cutoff S (dist_of v s) (add_mset (qi_cost x, qi_key x) (abs_items q))"
    using inv p(2) by (simp add: search_inv_def)
  show d: "dist_of v s (qi_key x) = Some (qi_cost x)" using fresh p(3) by (simp add: dist_of_def)
  note f = rs.fresh_pop[OF i p(4) d order.refl]
  show "qi_key x \<notin> S" "rs.reaches start ord v nodeOK cutoff (qi_key x) (qi_cost x)"
    "\<And>c. rs.reaches start ord v nodeOK cutoff (qi_key x) c \<Longrightarrow> qi_cost x \<le> c" using f by blast+
qed

lemma search_inv_settle:
  assumes v: "view_ok v" "permutes_order ord" and inv: "search_inv ord v nodeOK cutoff start goal S s"
    and pop: "ss_queue s \<noteq> []" "heap_Pop queue_Less (ss_queue s) = (x, q)" and fresh: "getDistance s (qi_id x) = Some (qi_cost x)"
    and key: "nodeOK (qi_key x)" "qi_key x \<noteq> goal"
    and relax: "relax_neighbours v nodeOK cutoff x (ord (qi_key x) (rv_adjacency v (qi_key x))) (s\<lparr>ss_queue := q\<rparr>) = (s', Inr r)"
  shows "search_inv ord v nodeOK cutoff start goal (insert (qi_key x) S) s'"
    "rs.potential ord v nodeOK (insert (qi_key x) S) (abs_items (ss_queue s')) < rs.potential ord v nodeOK S (abs_items (ss_queue s))"
proof -
  let ?u = "qi_key x" let ?es = "ord ?u (rv_adjacency v ?u)"
  have ids: "ids_ok v" and ok: "state_ok v s" using v inv by (simp_all add: view_ok_def search_inv_def)
  note p = pop_state[OF ok pop] and f = fresh_item[OF inv pop fresh]
  have edges: "(k, e) \<in> set ?es \<longleftrightarrow> edge_at v ?u k = Some e" for k e using edge_at_iff[OF v(1)] permutes_set[OF v(2)] by simp
  have sub: "fst ` set ?es \<subseteq> rv_nodes v" using edges view_edge_nodes[OF v(1)] by auto
  have succ: "search_succs ord v nodeOK ?u = ?es"
    using key(1) p(3) nodeID_known[OF ids, of ?u] ids by (auto simp: search_succs_def ids_ok_def)
  note same = labels_queue
  note r = relax_neighbours_refines[OF relax ids p(1) sub]
  have r': "state_ok v s'" "rs.relax_all nodeOK cutoff (qi_cost x) (search_succs ord v nodeOK ?u) (dist_of v s, abs_items q) = (dist_of v s', abs_items (ss_queue s'))"
    "relaxed v (search_extend nodeOK cutoff (qi_cost x)) (qi_id x) (set ?es) (s\<lparr>ss_queue := q\<rparr>) s'"
    using r same succ by simp_all
  note fs = rs.fresh_step[OF f(1) p(4) f(2) order.refl r'(2)]
  have settled: "dist_of v s' y = dist_of v s y" if "y \<in> S" for y
    using settled_distance[OF f(1) fs(1) that] .
  obtain b where b: "dist_of v s' ?u = Some b" "rs.reaches start ord v nodeOK cutoff ?u b" "\<forall>c. rs.reaches start ord v nodeOK cutoff ?u c \<longrightarrow> b \<le> c"
    using fs(1) unfolding rs.search_inv_def rs.labels_ok_def by blast
  have du: "dist_of v s' ?u = Some (qi_cost x)" using b f(4,5) by (metis order.antisym)
  have "pred_inv v nodeOK cutoff start (insert ?u S) s'" unfolding pred_inv_def
  proof (intro allI impI)
    fix k d assume k: "dist_of v s' k = Some d" "k \<noteq> start"
    show "\<exists>u i e c. u \<in> insert ?u S \<and> rv_nodeIDs v u = Some i \<and> pred_of v s' k = Some i \<and> edge_at v u k = Some e \<and> nodeOK u \<and>
        dist_of v s' u = Some c \<and> search_extend nodeOK cutoff c (k, e) = Some d"
      using r'(3)[unfolded relaxed_def, rule_format, of k]
    proof
      assume "dist_of v s' k = dist_of v (s\<lparr>ss_queue := q\<rparr>) k \<and> pred_of v s' k = pred_of v (s\<lparr>ss_queue := q\<rparr>) k"
      then have o: "dist_of v s k = Some d" "pred_of v s' k = pred_of v s k" using k(1) same by simp_all
      obtain u i e c where "u \<in> S" "rv_nodeIDs v u = Some i" "pred_of v s k = Some i" "edge_at v u k = Some e" "nodeOK u"
        "dist_of v s u = Some c" "search_extend nodeOK cutoff c (k, e) = Some d"
        using inv k(2) o(1) unfolding search_inv_def pred_inv_def by blast
      then show ?thesis using o(2) settled[of u] by (metis insertI2)
    next
      assume "pred_of v s' k = Some (qi_id x) \<and> dist_of v s' k \<noteq> None \<and> (\<exists>e. (k, e) \<in> set ?es \<and> search_extend nodeOK cutoff (qi_cost x) (k, e) = dist_of v s' k)"
      then show ?thesis using p(3) edges key(1) du k(1) by (metis insertI1)
    qed
  qed
  then show "search_inv ord v nodeOK cutoff start goal (insert ?u S) s'"
    using r'(1) fs(1) inv key(2) by (simp add: search_inv_def)
  show "rs.potential ord v nodeOK (insert ?u S) (abs_items (ss_queue s')) < rs.potential ord v nodeOK S (abs_items (ss_queue s))"
    using fs(2) p(2) by simp
qed

lemma search_inv_skip:
  assumes v: "view_ok v" and inv: "search_inv ord v nodeOK cutoff start goal S s" and ne: "start \<noteq> goal"
    and pop: "ss_queue s \<noteq> []" "heap_Pop queue_Less (ss_queue s) = (x, q)" and fresh: "getDistance s (qi_id x) = Some (qi_cost x)"
    and key: "\<not> nodeOK (qi_key x)"
  shows "search_inv ord v nodeOK cutoff start goal (insert (qi_key x) S) (s\<lparr>ss_queue := q\<rparr>)"
    "rs.potential ord v nodeOK (insert (qi_key x) S) (abs_items q) < rs.potential ord v nodeOK S (abs_items (ss_queue s))"
proof -
  have ok: "state_ok v s" using inv by (simp add: search_inv_def)
  note p = pop_state[OF ok pop] and f = fresh_item[OF inv pop fresh]
  have succ: "search_succs ord v nodeOK (qi_key x) = []" using key by (simp add: search_succs_def)
  have "rs.relax_all nodeOK cutoff (qi_cost x) (search_succs ord v nodeOK (qi_key x)) (dist_of v s, abs_items q) = (dist_of v s, abs_items q)"
    using succ by simp
  note fs = rs.fresh_step[OF f(1) p(4) f(2) order.refl this]
  note same = labels_queue
  have "qi_key x = start" using reaches_ok(2)[OF f(4)] key by blast
  then have "goal \<notin> insert (qi_key x) S" using ne inv by (auto simp: search_inv_def)
  moreover have "pred_inv v nodeOK cutoff start (insert (qi_key x) S) (s\<lparr>ss_queue := q\<rparr>)"
    using inv unfolding search_inv_def pred_inv_def same by (meson insertI2)
  ultimately show "search_inv ord v nodeOK cutoff start goal (insert (qi_key x) S) (s\<lparr>ss_queue := q\<rparr>)"
    using p(1) fs(1) by (simp add: search_inv_def same)
  show "rs.potential ord v nodeOK (insert (qi_key x) S) (abs_items q) < rs.potential ord v nodeOK S (abs_items (ss_queue s))"
    using fs(2) p(2) by simp
qed

lemma search_inv_stale:
  assumes inv: "search_inv ord v nodeOK cutoff start goal S s"
    and pop: "ss_queue s \<noteq> []" "heap_Pop queue_Less (ss_queue s) = (x, q)" and stale: "getDistance s (qi_id x) \<noteq> Some (qi_cost x)"
  shows "search_inv ord v nodeOK cutoff start goal S (s\<lparr>ss_queue := q\<rparr>)"
    "rs.potential ord v nodeOK S (abs_items q) < rs.potential ord v nodeOK S (abs_items (ss_queue s))"
proof -
  have ok: "state_ok v s" using inv by (simp add: search_inv_def)
  note p = pop_state[OF ok pop]
  have i: "rs.search_inv start ord v nodeOK cutoff S (dist_of v s) (add_mset (qi_cost x, qi_key x) (abs_items q))"
    using inv p(2) by (simp add: search_inv_def)
  obtain b where b: "dist_of v s (qi_key x) = Some b" "b \<le> qi_cost x"
    using i unfolding rs.search_inv_def rs.labels_ok_def by auto
  then have "\<not> qi_cost x \<le> b" using stale p(3) by (auto simp: dist_of_def)
  note st = rs.stale_step[OF i b(1) this]
  note same = labels_queue
  show "search_inv ord v nodeOK cutoff start goal S (s\<lparr>ss_queue := q\<rparr>)"
    using inv p(1) st(1) by (simp add: search_inv_def same pred_inv_def)
  show "rs.potential ord v nodeOK S (abs_items q) < rs.potential ord v nodeOK S (abs_items (ss_queue s))"
    using st(2) p(2) by simp
qed

lemma reconstruct_goal:
  assumes v: "view_ok v" and inv: "search_inv ord v nodeOK cutoff start goal S s" and ids: "rv_nodeIDs v start = Some startID" "rv_nodeIDs v goal = Some goalID"
    and d: "dist_of v s goal = Some d"
  shows "\<exists>p. reconstructPathLocked v startID goalID d s = Some (Inr (Some p)) \<and> rp_Cost p = d \<and> found_path v nodeOK start goal p"
proof -
  have i: "pred_inv v nodeOK cutoff start S s" "dist_of v s start = Some 0"
    using inv dist_start by (auto simp: search_inv_def)
  have id: "ids_ok v" using v by (simp add: view_ok_def)
  then have g: "goalID < length (rv_nodeKeys v)" "rv_nodeKeys v ! goalID = goal" using ids(2) by (simp_all add: ids_ok_def)
  obtain ks where "traced v nodeOK start startID s goal d ks" using trace_back[OF v i ids(1) d] by blast
  note t = this[unfolded traced_def]
  have "card (set ks) \<le> card (rv_nodes v)" using t id by (intro card_mono) (simp_all add: ids_ok_def)
  then have "length ks \<le> length (rv_nodeKeys v) + 1" using t id by (metis distinct_card ids_ok_def trans_le_add1)
  then have b: "path_back (length (rv_nodeKeys v) + 1) v s startID goalID [goal] = Some (Inr ([goal] @ rev (butlast ks)))" using t ids(2) by blast
  have r: "rev ([goal] @ rev (butlast ks)) = ks" using t by (metis append_butlast_last_id rev_append rev_rev_ident rev_singleton_conv)
  obtain segs where segs: "path_segments v ks = Inr segs" using path_segments_walk[of v ks] t by simp
  have "reconstructPathLocked v startID goalID d s = Some (Inr (Some \<lparr>rp_Cost = d, rp_Nodes = ks, rp_Segments = segs\<rparr>))"
    using g b r segs by (simp add: reconstructPathLocked_def Let_def del: append_Cons append_Nil)
  moreover have "admissible nodeOK ks" using t unfolding admissible_def by (metis One_nat_def length_Cons list.size(3))
  ultimately show ?thesis using t segs by (auto simp: found_path_def)
qed

lemma search_loop_result:
  assumes v: "view_ok v" "permutes_order ord" and ids: "rv_nodeIDs v start = Some startID" "rv_nodeIDs v goal = Some goalID" and ne: "start \<noteq> goal"
  shows "search_inv ord v nodeOK cutoff start goal S s \<Longrightarrow> rs.potential ord v nodeOK S (abs_items (ss_queue s)) < n \<Longrightarrow>
    \<exists>s' r. search_loop n ord v nodeOK cutoff startID goalID s = Some (s', r) \<and> scratch_ok s' \<and> search_answer ord v nodeOK cutoff start goal r"
proof (induction n arbitrary: S s)
  case (Suc n)
  have ok: "state_ok v s" "scratch_ok s" "goal \<notin> S" using Suc.prems(1) by (simp_all add: search_inv_def state_ok_def)
  show ?case
  proof (cases "ss_queue s = []")
    case True
    have "\<forall>c. \<not> rs.reaches start ord v nodeOK cutoff goal c"
      using rs.exhausted[of start ord v nodeOK cutoff S "dist_of v s"] Suc.prems(1) True ok(3) by (auto simp: search_inv_def abs_items_def)
    then show ?thesis using True ok by (simp add: search_answer_def)
  next
    case ne_q: False
    obtain x q where pop: "heap_Pop queue_Less (ss_queue s) = (x, q)" by fastforce
    note p = pop_state[OF ok(1) ne_q pop]
    let ?s = "s\<lparr>ss_queue := q\<rparr>"
    show ?thesis
    proof (cases "getDistance s (qi_id x) = Some (qi_cost x)")
      case False
      note st = search_inv_stale[OF Suc.prems(1) ne_q pop False]
      have "rs.potential ord v nodeOK S (abs_items (ss_queue ?s)) < n" using st(2) Suc.prems(2) by simp
      from Suc.IH[OF st(1) this] show ?thesis using ne_q pop False by simp
    next
      case fresh: True
      note f = fresh_item[OF Suc.prems(1) ne_q pop fresh]
      have cut: "\<not> cutoff < qi_cost x" using reaches_ok(1)[OF f(4)] by simp
      show ?thesis
      proof (cases "nodeOK (qi_key x)")
        case False
        note st = search_inv_skip[OF v(1) Suc.prems(1) ne ne_q pop fresh False]
        have "rs.potential ord v nodeOK (insert (qi_key x) S) (abs_items (ss_queue ?s)) < n" using st(2) Suc.prems(2) by simp
        from Suc.IH[OF st(1) this] show ?thesis using ne_q pop fresh cut False by simp
      next
        case okx: True
        show ?thesis
        proof (cases "qi_id x = goalID")
          case True
          then have key: "qi_key x = goal" using p(3) ids(2) v(1) nodeID_inject[of v goal goalID "qi_key x"] by (simp add: view_ok_def)
          obtain pth where pth: "reconstructPathLocked v startID goalID (qi_cost x) s = Some (Inr (Some pth))" "rp_Cost pth = qi_cost x" "found_path v nodeOK start goal pth"
            using reconstruct_goal[OF v(1) Suc.prems(1) ids f(2)[unfolded key]] by blast
          have same: "path_back m v ?s a b acc = path_back m v s a b acc" for m a b acc
            by (induction m arbitrary: b acc) (simp_all split: option.split)
          have "reconstructPathLocked v startID goalID (qi_cost x) ?s = Some (Inr (Some pth))"
            using pth(1) unfolding reconstructPathLocked_def same .
          moreover have "search_answer ord v nodeOK cutoff start goal (Inr (Some pth))" using pth(2,3) f(4,5) key by (simp add: search_answer_def)
          ultimately show ?thesis using ne_q pop fresh cut okx True ok by simp
        next
          case notgoal: False
          then have key: "qi_key x \<noteq> goal" using p(3) ids(2) by auto
          let ?es = "ord (qi_key x) (rv_adjacency v (qi_key x))"
          have edges: "(k, e) \<in> set ?es \<longleftrightarrow> edge_at v (qi_key x) k = Some e" for k e using edge_at_iff[OF v(1)] permutes_set[OF v(2)] by simp
          obtain s' r where relax: "relax_neighbours v nodeOK cutoff x ?es ?s = (s', r)" by fastforce
          have sub: "fst ` set ?es \<subseteq> rv_nodes v" using edges view_edge_nodes[OF v(1)] by auto
          note ref = relax_neighbours_refines[OF relax _ p(1) sub]
          show ?thesis
          proof (cases r)
            case (Inl e)
            have o: "state_ok v s'" "e = ErrMsg ''cost overflow''" "\<exists>x' \<in> set ?es. 2 ^ 64 \<le> unat (qi_cost x) + unat (re_Weight (snd x'))"
              using ref v(1) Inl by (simp_all add: view_ok_def)
            have "search_answer ord v nodeOK cutoff start goal (Inl e)"
              using o(2,3) f(4) okx edges by (fastforce simp: search_answer_def)
            then show ?thesis using ne_q pop fresh cut okx notgoal relax Inl o(1) by (simp add: state_ok_def)
          next
            case (Inr u)
            note st = search_inv_settle[OF v Suc.prems(1) ne_q pop fresh okx key relax[unfolded Inr]]
            have "rs.potential ord v nodeOK (insert (qi_key x) S) (abs_items (ss_queue s')) < n" using st(2) Suc.prems(2) by simp
            from Suc.IH[OF st(1) this] show ?thesis using ne_q pop fresh cut okx notgoal relax Inr by simp
          qed
        qed
      qed
    qed
  qed
qed simp

subsection \<open>The whole search\<close>

text \<open>The scratch space of a new entry of the pool.\<close>

definition empty_scratch :: search_scratch where
  "empty_scratch = \<lparr>ss_generation = 0, ss_distances = [], ss_distanceGenerations = [], ss_predecessors = [], ss_predecessorGenerations = [], ss_queue = []\<rparr>"

definition start_state :: "replay_view \<Rightarrow> search_scratch \<Rightarrow> nat \<Rightarrow> replay_key \<Rightarrow> search_scratch" where
  "start_state v s startID start =
     (let s = setDistance (scratch_begin s (length (rv_nodeKeys v))) startID 0
      in s\<lparr>ss_queue := heap_Init queue_Less (ss_queue s @ [\<lparr>qi_id = startID, qi_key = start, qi_cost = 0\<rparr>])\<rparr>)"

lemma start_state_ok:
  assumes ids: "ids_ok v" and s: "scratch_ok s" and i: "rv_nodeIDs v start = Some startID"
  shows "state_ok v (start_state v s startID start)" "dist_of v (start_state v s startID start) = [start \<mapsto> 0]"
    "pred_of v (start_state v s startID start) = Map.empty"
    "mset (ss_queue (start_state v s startID start)) = {#\<lparr>qi_id = startID, qi_key = start, qi_cost = 0\<rparr>#}"
proof -
  let ?b = "scratch_begin s (length (rv_nodeKeys v))"
  note b = scratch_begin_fresh[OF s, of "length (rv_nodeKeys v)"]
  have "startID < capacity ?b" using ids i b(2) by (simp add: ids_ok_def)
  note d = scratch_set[OF b(1) this]
  have q: "ss_queue (setDistance ?b startID 0) = []" using d(9) b(3) by simp
  show m: "mset (ss_queue (start_state v s startID start)) = {#\<lparr>qi_id = startID, qi_key = start, qi_cost = 0\<rparr>#}"
    by (simp add: start_state_def Let_def q rq.mset_heap_Init)
  then have "set (ss_queue (start_state v s startID start)) = {\<lparr>qi_id = startID, qi_key = start, qi_cost = 0\<rparr>}"
    by (metis set_mset_mset set_mset_single)
  then show "state_ok v (start_state v s startID start)"
    using d(1,7) b(2) i unfolding state_ok_def by (simp add: start_state_def Let_def rq.is_heap_Init)
  have "startID = j \<longleftrightarrow> x = start" if "rv_nodeIDs v x = Some j" for x j using that i nodeID_inject[OF ids] by auto
  then show "dist_of v (start_state v s startID start) = [start \<mapsto> 0]"
    using i by (auto simp: fun_eq_iff dist_of_def start_state_def Let_def d(3) b(4) split: option.split)
  show "pred_of v (start_state v s startID start) = Map.empty"
    by (auto simp: fun_eq_iff pred_of_def start_state_def Let_def d(6) b(5) split: option.split)
qed

lemma search_fuel_enough:
  assumes "ids_ok v" "permutes_order ord" "size Q = 1"
  shows "rs.potential ord v nodeOK {} Q < search_fuel v"
proof -
  have len: "length (ord k xs) = length xs" for k xs using assms(2) unfolding permutes_order_def by (metis size_mset)
  have "(\<Sum>k \<in> {k. search_succs ord v nodeOK k \<noteq> []} - {}. length (search_succs ord v nodeOK k)) \<le>
      (\<Sum>k \<in> set (rv_nodeKeys v). length (rv_adjacency v k))"
    by (rule order.trans[OF sum_mono2[of "set (rv_nodeKeys v)"] sum_mono]) (auto simp: search_succs_def len)
  also have "\<dots> = (\<Sum>k \<leftarrow> rv_nodeKeys v. length (rv_adjacency v k))"
    using assms(1) by (simp add: sum_list_distinct_conv_sum_set ids_ok_def)
  finally show ?thesis using assms(3) by (simp add: rs.potential_def search_fuel_def)
qed

lemma ShortestPath_start:
  assumes "ids_ok v" "rv_nodeIDs v (canonicalKey start) = Some startID" "rv_nodeIDs v (canonicalKey goal) = Some goalID" "canonicalKey start \<noteq> canonicalKey goal"
  shows "ShortestPath ord v s start goal cutoff chain height =
    search_loop (search_fuel v) ord v (node_ok (rv_profile v) cutoff chain height) cutoff startID goalID (start_state v s startID (canonicalKey start))"
proof -
  have "nodeIDLocked v (canonicalKey start) = Inr startID" "nodeIDLocked v (canonicalKey goal) = Inr goalID"
    using assms nodeID_Inr[OF assms(1)] by blast+
  then show ?thesis using assms(4) by (simp add: ShortestPath_def start_state_def Let_def)
qed

lemma ShortestPath_answer:
  assumes v: "view_ok v" "permutes_order ord" and s: "scratch_ok s"
    and nodes: "canonicalKey start \<in> rv_nodes v" "canonicalKey goal \<in> rv_nodes v"
  shows "\<exists>s' r. ShortestPath ord v s start goal cutoff chain height = Some (s', r) \<and> scratch_ok s' \<and>
    search_answer ord v (node_ok (rv_profile v) cutoff chain height) cutoff (canonicalKey start) (canonicalKey goal) r"
proof (cases "canonicalKey start = canonicalKey goal")
  case True
  then show ?thesis using s rs.reaches_start by (auto simp: ShortestPath_def Let_def search_answer_def found_path_def admissible_def)
next
  case False
  have ids: "ids_ok v" using v by (simp add: view_ok_def)
  obtain startID goalID where i: "rv_nodeIDs v (canonicalKey start) = Some startID" "rv_nodeIDs v (canonicalKey goal) = Some goalID"
    using nodes nodeID_known[OF ids] by blast
  let ?ok = "node_ok (rv_profile v) cutoff chain height"
  let ?s = "start_state v s startID (canonicalKey start)"
  note st = start_state_ok[OF ids s i(1)]
  have q: "abs_items (ss_queue ?s) = {#(0, canonicalKey start)#}" by (simp add: abs_items_def st(4))
  have "search_inv ord v ?ok cutoff (canonicalKey start) (canonicalKey goal) {} ?s"
    using st(1,2) rs.search_inv_init by (simp add: search_inv_def q pred_inv_def)
  moreover have "rs.potential ord v ?ok {} (abs_items (ss_queue ?s)) < search_fuel v"
    by (rule search_fuel_enough[OF ids v(2)]) (simp add: q)
  ultimately show ?thesis
    using search_loop_result[OF v i False] unfolding ShortestPath_start[OF ids i False] by blast
qed

text \<open>
  C11. On every reachable view the search of the replay between two blocks of the view returns. A path it returns is a simple walk of
  the view from the start to the goal inside the admitted nodes, with the cost of its edges, and no
  admissible walk is cheaper; it returns no path exactly when no admissible walk fits the cut-off,
  and an error only when a cost exceeds 64 bits. The scratch space may come from any earlier search.
\<close>

theorem replay_search_optimal:
  assumes v: "reachable_view profile v" "permutes_order ord" and s: "scratch_ok s"
    and nodes: "canonicalKey start \<in> rv_nodes v" "canonicalKey goal \<in> rv_nodes v"
  shows "\<exists>s' r. ShortestPath ord v s start goal cutoff chain height = Some (s', r) \<and> scratch_ok s' \<and>
    (let nodeOK = node_ok (rv_profile v) cutoff chain height;
         walk = (\<lambda>ks c. ks \<noteq> [] \<and> hd ks = canonicalKey start \<and> walk_cost v ks = Some c \<and> admissible nodeOK ks)
     in case r of
          Inr (Some p) \<Rightarrow> found_path v nodeOK (canonicalKey start) (canonicalKey goal) p \<and> rp_Cost p \<le> cutoff \<and>
            (\<forall>ks c. walk ks c \<and> last ks = canonicalKey goal \<longrightarrow> unat (rp_Cost p) \<le> c)
        | Inr None \<Rightarrow> \<forall>ks c. walk ks c \<and> last ks = canonicalKey goal \<longrightarrow> unat cutoff < c
        | Inl e \<Rightarrow> e = ErrMsg ''cost overflow'' \<and>
            (\<exists>ks c k e'. walk ks c \<and> edge_at v (last ks) k = Some e' \<and> 2 ^ 64 \<le> c + unat (re_Weight e')))"
proof -
  let ?ok = "node_ok (rv_profile v) cutoff chain height"
  have vo: "view_ok v" using reachable_view_ok[OF v(1)] by simp
  obtain s' r where r: "ShortestPath ord v s start goal cutoff chain height = Some (s', r)" "scratch_ok s'"
    "search_answer ord v ?ok cutoff (canonicalKey start) (canonicalKey goal) r"
    using ShortestPath_answer[OF vo v(2) s nodes] by blast
  have wr: "\<exists>a. rs.reaches (canonicalKey start) ord v ?ok cutoff (last ks) a \<and> unat a = c"
    if "ks \<noteq> []" "hd ks = canonicalKey start" "walk_cost v ks = Some c" "admissible ?ok ks" "c \<le> unat cutoff" for ks c
    using replay_walk_reaches[OF vo v(2)] that by blast
  show ?thesis
  proof (cases r)
    case (Inl e)
    then obtain u c w e' where o: "e = ErrMsg ''cost overflow''" "rs.reaches (canonicalKey start) ord v ?ok cutoff u c" "edge_at v u w = Some e'"
      "2 ^ 64 \<le> unat c + unat (re_Weight e')" using r(3) by (auto simp: search_answer_def)
    obtain ks where ks: "ks \<noteq> []" "hd ks = canonicalKey start" "last ks = u" "walk_cost v ks = Some (unat c)" "ks = [canonicalKey start] \<or> (\<forall>x \<in> set ks. ?ok x)"
      using replay_reaches_walk[OF vo v(2) o(2)] by blast
    have "admissible ?ok ks" using ks(5) unfolding admissible_def by (metis One_nat_def length_Cons list.size(3))
    then show ?thesis using ks o r(1,2) Inl unfolding Let_def
      by (intro exI[of _ s'] exI[of _ r]) (simp only: sum.case, blast)
  next
    case (Inr po)
    show ?thesis
    proof (cases po)
      case None
      then have "\<forall>c. \<not> rs.reaches (canonicalKey start) ord v ?ok cutoff (canonicalKey goal) c" using r(3) Inr by (simp add: search_answer_def)
      then have "unat cutoff < c" if "ks \<noteq> []" "hd ks = canonicalKey start" "walk_cost v ks = Some c" "admissible ?ok ks" "last ks = canonicalKey goal" for ks c
        using wr[OF that(1-4)] that(5) by (metis leI)
      then show ?thesis using r(1,2) Inr None unfolding Let_def
        by (intro exI[of _ s'] exI[of _ r]) (simp only: sum.case option.case, blast)
    next
      case (Some p)
      then have p: "found_path v ?ok (canonicalKey start) (canonicalKey goal) p" "rs.reaches (canonicalKey start) ord v ?ok cutoff (canonicalKey goal) (rp_Cost p)"
        "\<forall>c. rs.reaches (canonicalKey start) ord v ?ok cutoff (canonicalKey goal) c \<longrightarrow> rp_Cost p \<le> c" using r(3) Inr by (simp_all add: search_answer_def)
      have cut: "rp_Cost p \<le> cutoff" using reaches_ok(1)[OF p(2)] .
      have "unat (rp_Cost p) \<le> c" if "ks \<noteq> []" "hd ks = canonicalKey start" "walk_cost v ks = Some c" "admissible ?ok ks" "last ks = canonicalKey goal" for ks c
      proof (cases "c \<le> unat cutoff")
        case True
        then show ?thesis using wr[OF that(1-4)] that(5) p(3) by (metis word_le_nat_alt)
      qed (use cut in \<open>simp add: word_le_nat_alt\<close>)
      then show ?thesis using p(1) cut r(1,2) Inr Some unfolding Let_def
        by (intro exI[of _ s'] exI[of _ r]) (simp only: sum.case option.case, blast)
    qed
  qed
qed

lemma example_search:
  "(case ShortestPath (\<lambda>k xs. xs) example_view empty_scratch \<lparr>rk_Chain = ''A'', rk_Height = 1\<rparr> \<lparr>rk_Chain = ''A'', rk_Height = 9\<rparr> 24000000 ''A'' 9 of
      Some (s, Inr (Some p)) \<Rightarrow> rp_Cost p = 60000 | _ \<Rightarrow> False)"
  by code_simp

theorem replay_search_optimal_witness:
  "\<exists>p. rp_Cost p = 60000 \<and>
     found_path example_view (node_ok LegacyV41CostProfile 24000000 ''A'' 9) \<lparr>rk_Chain = ''a'', rk_Height = 1\<rparr> \<lparr>rk_Chain = ''a'', rk_Height = 9\<rparr> p"
proof -
  let ?a = "\<lparr>rk_Chain = ''A'', rk_Height = 1\<rparr>" and ?b = "\<lparr>rk_Chain = ''A'', rk_Height = 9\<rparr>"
  have c: "canonicalKey ?a = \<lparr>rk_Chain = ''a'', rk_Height = 1\<rparr>" "canonicalKey ?b = \<lparr>rk_Chain = ''a'', rk_Height = 9\<rparr>" by code_simp+
  have n: "canonicalKey ?a \<in> rv_nodes example_view" "canonicalKey ?b \<in> rv_nodes example_view" unfolding c by code_simp+
  have "permutes_order (\<lambda>k xs. xs)" "scratch_ok empty_scratch" by (simp_all add: permutes_order_def scratch_ok_def empty_scratch_def)
  note opt = replay_search_optimal[OF example_view_reachable this n, of 24000000 "''A''" 9]
  obtain s p where p: "ShortestPath (\<lambda>k xs. xs) example_view empty_scratch ?a ?b 24000000 ''A'' 9 = Some (s, Inr (Some p))" "rp_Cost p = 60000"
    using example_search by (auto split: option.split_asm prod.split_asm sum.split_asm)
  have "rv_profile example_view = LegacyV41CostProfile" using reachable_view_ok[OF example_view_reachable] by simp
  then show ?thesis using opt p(2) unfolding p(1) Let_def c by auto
qed

subsection \<open>Independence of the map order and of earlier searches\<close>

definition improves :: "replay_view \<Rightarrow> (replay_key \<times> replay_edge \<Rightarrow> u64 option) \<Rightarrow> search_scratch \<Rightarrow> replay_key \<times> replay_edge \<Rightarrow> u64 option" where
  "improves v ext s x =
     (case ext x of None \<Rightarrow> None
      | Some c \<Rightarrow> (case dist_of v s (fst x) of Some d \<Rightarrow> if d \<le> c then None else Some c | None \<Rightarrow> Some c))"

definition pushed :: "replay_view \<Rightarrow> replay_key \<times> replay_edge \<Rightarrow> u64 option \<Rightarrow> queue_item multiset" where
  "pushed v x d = (case d of None \<Rightarrow> {#} | Some c \<Rightarrow> {#\<lparr>qi_id = the (rv_nodeIDs v (fst x)), qi_key = fst x, qi_cost = c\<rparr>#})"

lemma improves_cong: "dist_of v s (fst x) = dist_of v t (fst x) \<Longrightarrow> improves v ext s x = improves v ext t x"
  unfolding improves_def by (erule ssubst) (rule refl)

text \<open>What relaxing does, written without an order of the neighbours.\<close>

definition relax_effect :: "replay_view \<Rightarrow> (replay_key \<times> replay_edge \<Rightarrow> u64 option) \<Rightarrow> nat \<Rightarrow> (replay_key \<times> replay_edge) list \<Rightarrow> search_scratch \<Rightarrow> search_scratch \<Rightarrow> bool" where
  "relax_effect v ext i es s s' \<longleftrightarrow>
     (\<forall>k. k \<notin> fst ` set es \<longrightarrow> dist_of v s' k = dist_of v s k \<and> pred_of v s' k = pred_of v s k) \<and>
     (\<forall>x \<in> set es. case improves v ext s x of
         None \<Rightarrow> dist_of v s' (fst x) = dist_of v s (fst x) \<and> pred_of v s' (fst x) = pred_of v s (fst x)
       | Some c \<Rightarrow> dist_of v s' (fst x) = Some c \<and> pred_of v s' (fst x) = Some i) \<and>
     mset (ss_queue s') = mset (ss_queue s) + (\<Sum>x \<in># mset es. pushed v x (improves v ext s x))"

lemma relax_effect_Cons:
  assumes step: "relax_effect v ext i [x] s s1" and rest: "relax_effect v ext i es s1 s'" and new: "fst x \<notin> fst ` set es"
  shows "relax_effect v ext i (x # es) s s'"
proof -
  have imp: "improves v ext s1 y = improves v ext s y" if "y \<in> set es" for y
  proof (rule improves_cong)
    have "fst y \<notin> fst ` set [x]" using that new by (metis empty_set image_empty image_eqI image_insert list.simps(15) singletonD)
    then show "dist_of v s1 (fst y) = dist_of v s (fst y)" using step unfolding relax_effect_def by blast
  qed
  have "(\<Sum>y \<in># mset es. pushed v y (improves v ext s1 y)) = (\<Sum>y \<in># mset es. pushed v y (improves v ext s y))"
    by (intro arg_cong[of _ _ sum_mset] image_mset_cong) (simp add: imp)
  moreover have "case improves v ext s y of
         None \<Rightarrow> dist_of v s' (fst y) = dist_of v s (fst y) \<and> pred_of v s' (fst y) = pred_of v s (fst y)
       | Some c \<Rightarrow> dist_of v s' (fst y) = Some c \<and> pred_of v s' (fst y) = Some i" if "y \<in> set (x # es)" for y
  proof (cases "y = x")
    case True
    have "x \<in> set [x]" by simp
    then have "case improves v ext s x of
         None \<Rightarrow> dist_of v s1 (fst x) = dist_of v s (fst x) \<and> pred_of v s1 (fst x) = pred_of v s (fst x)
       | Some c \<Rightarrow> dist_of v s1 (fst x) = Some c \<and> pred_of v s1 (fst x) = Some i"
      using step unfolding relax_effect_def by blast
    moreover have "dist_of v s' (fst x) = dist_of v s1 (fst x)" "pred_of v s' (fst x) = pred_of v s1 (fst x)"
      using rest new unfolding relax_effect_def by blast+
    ultimately show ?thesis using True by (cases "improves v ext s x") simp_all
  next
    case False
    then have y: "y \<in> set es" using that by simp
    then have "fst y \<notin> fst ` set [x]" using new by (metis empty_set image_empty image_eqI image_insert list.simps(15) singletonD)
    then show ?thesis using step rest imp[OF y] y unfolding relax_effect_def by (metis (no_types, lifting) option.case_eq_if)
  qed
  ultimately show ?thesis using step rest unfolding relax_effect_def by (auto simp: add.assoc)
qed

lemma relax_neighbours_effect:
  assumes "relax_neighbours v nodeOK cutoff item es s = (s', Inr u)" "ids_ok v" "state_ok v s" "fst ` set es \<subseteq> rv_nodes v" "distinct (map fst es)"
  shows "relax_effect v (search_extend nodeOK cutoff (qi_cost item)) (qi_id item) es s s'"
  using assms
proof (induction es arbitrary: s)
  case Nil
  then show ?case by (simp add: relax_effect_def)
next
  case (Cons x es)
  let ?ext = "search_extend nodeOK cutoff (qi_cost item)"
  obtain k e where x: "x = (k, e)" by fastforce
  obtain i where i: "nodeIDLocked v k = Inr i" "rv_nodeIDs v k = Some i" using nodeID_ok[OF Cons.prems(2), of k] Cons.prems(4) x by auto
  obtain c where c: "CheckedAdd (qi_cost item) (re_Weight e) = Inr c" using Cons.prems(1) x by (cases "CheckedAdd (qi_cost item) (re_Weight e)") simp_all
  have known: "dist_of v s k = getDistance s i" using i(2) by (simp add: dist_of_def)
  have prems: "fst ` set es \<subseteq> rv_nodes v" "distinct (map fst es)" "fst x \<notin> fst ` set es" using Cons.prems(4,5) by simp_all
  show ?case
  proof (cases "improves v ?ext s x")
    case None
    then have "relax_neighbours v nodeOK cutoff item es s = (s', Inr u)"
      using Cons.prems(1) x c i known by (auto simp: improves_def search_extend_def split: if_splits option.split_asm)
    then have "relax_effect v ?ext (qi_id item) es s s'" using Cons.IH Cons.prems(2,3) prems by blast
    moreover have "relax_effect v ?ext (qi_id item) [x] s s" using None by (simp add: relax_effect_def pushed_def)
    ultimately show ?thesis using relax_effect_Cons prems(3) by blast
  next
    case (Some d)
    let ?s = "push_neighbour s (qi_id item) i k c"
    note push = push_neighbour_ok[OF Cons.prems(2,3) i(2), of "qi_id item" c]
    have d: "d = c" "\<not> (c > cutoff \<or> \<not> nodeOK k)" "\<not> (case getDistance s i of None \<Rightarrow> False | Some known \<Rightarrow> c \<ge> known)"
      using Some x c known by (auto simp: improves_def search_extend_def split: if_splits option.split_asm)
    have q: "ss_queue (setPredecessor (setDistance s i c) i (qi_id item)) = ss_queue s" by (simp add: setPredecessor_def setDistance_def)
    have "relax_neighbours v nodeOK cutoff item es ?s = (s', Inr u)"
      using Cons.prems(1) c x i d(2,3) by (simp add: Let_def q push_neighbour_def del: not_less)
    then have "relax_effect v ?ext (qi_id item) es ?s s'" using Cons.IH Cons.prems(2) push(1) prems by blast
    moreover have "mset (ss_queue ?s) = add_mset \<lparr>qi_id = i, qi_key = k, qi_cost = c\<rparr> (mset (ss_queue s))"
      by (simp add: push_neighbour_def rq.mset_heap_Push)
    then have "relax_effect v ?ext (qi_id item) [x] s ?s" using Some d(1) x i push(2,3) by (simp add: relax_effect_def pushed_def)
    ultimately show ?thesis using relax_effect_Cons prems(3) by blast
  qed
qed

text \<open>Two searches in the same state: equal distances and predecessors, equal queues up to their layout.\<close>

definition same_search :: "replay_view \<Rightarrow> search_scratch \<Rightarrow> search_scratch \<Rightarrow> bool" where
  "same_search v s t \<longleftrightarrow> state_ok v s \<and> state_ok v t \<and> dist_of v s = dist_of v t \<and> pred_of v s = pred_of v t \<and>
     mset (ss_queue s) = mset (ss_queue t)"

lemma same_pop:
  assumes same: "same_search v s t" and ne: "ss_queue s \<noteq> []"
    and pop: "heap_Pop queue_Less (ss_queue s) = (x, q)" "heap_Pop queue_Less (ss_queue t) = (y, q')"
  shows "y = x \<and> same_search v (s\<lparr>ss_queue := q\<rparr>) (t\<lparr>ss_queue := q'\<rparr>)"
proof -
  have ok: "state_ok v s" "state_ok v t" and m: "mset (ss_queue t) = mset (ss_queue s)" using same by (simp_all add: same_search_def)
  have ne': "ss_queue t \<noteq> []" "mset (ss_queue s) \<noteq> {#}" "mset (ss_queue t) \<noteq> {#}" using ne m by auto
  have heap: "is_heap queue_Less (ss_queue s)" "is_heap queue_Less (ss_queue t)" using ok by (simp_all add: state_ok_def)
  note px = pop_state[OF ok(1) ne pop(1)] and py = pop_state[OF ok(2) ne'(1) pop(2)]
  note mx = rq.hq.elems_pop[OF heap(1) ne'(2) pop(1)] and my = rq.hq.elems_pop[OF heap(2) ne'(3) pop(2)]
  have xy: "add_mset x (mset q) = add_mset y (mset q')" using mx my m by metis
  have "\<not> queue_Less y x"
  proof (cases "y = x")
    case False
    then have "y \<in># mset q" using xy by (metis add_mset_remove_trivial_If insert_noteq_member)
    then show ?thesis using rq.hq.pop_min_rest[OF heap(1) ne'(2) pop(1)] by blast
  qed (simp add: queue_Less_rank)
  moreover have "\<not> queue_Less x y"
  proof (cases "x = y")
    case False
    then have "x \<in># mset q'" using xy by (metis add_mset_remove_trivial_If insert_noteq_member)
    then show ?thesis using rq.hq.pop_min_rest[OF heap(2) ne'(3) pop(2)] by blast
  qed (simp add: queue_Less_rank)
  ultimately have "item_rank x = item_rank y" unfolding queue_Less_rank by (metis linorder_neqE)
  then have "qi_cost x = qi_cost y" "qi_key x = qi_key y" by (simp_all add: item_rank_def replay_key.equality)
  moreover from this have "qi_id x = qi_id y" using px(3) py(3) by simp
  ultimately have "y = x" by (simp add: queue_item.equality)
  then show ?thesis using xy same px(1) py(1) labels_queue by (simp add: same_search_def)
qed

lemma permutes_relax:
  assumes v: "view_ok v" "permutes_order ord" "permutes_order ord'"
  shows "set (ord k (rv_adjacency v k)) = set (ord' k (rv_adjacency v k))" "mset (ord k (rv_adjacency v k)) = mset (ord' k (rv_adjacency v k))"
    "distinct (map fst (ord k (rv_adjacency v k)))" "fst ` set (ord k (rv_adjacency v k)) \<subseteq> rv_nodes v"
proof -
  show m: "mset (ord k (rv_adjacency v k)) = mset (ord' k (rv_adjacency v k))" using v(2,3) by (simp add: permutes_order_def)
  then show "set (ord k (rv_adjacency v k)) = set (ord' k (rv_adjacency v k))" by (rule mset_eq_setD)
  have "mset (map fst (ord k (rv_adjacency v k))) = mset (map fst (rv_adjacency v k))" using v(2) by (simp add: permutes_order_def)
  then show "distinct (map fst (ord k (rv_adjacency v k)))" using v(1) unfolding view_ok_def counted_def by (metis mset_eq_imp_distinct_iff)
  show "fst ` set (ord k (rv_adjacency v k)) \<subseteq> rv_nodes v"
    using edge_at_iff[OF v(1)] view_edge_nodes[OF v(1)] unfolding permutes_set[OF v(2)] by auto
qed

lemma relax_effect_at:
  assumes "relax_effect v ext i es s s'" "x \<in> set es"
  shows "dist_of v s' (fst x) = (case improves v ext s x of None \<Rightarrow> dist_of v s (fst x) | Some c \<Rightarrow> Some c)"
    "pred_of v s' (fst x) = (case improves v ext s x of None \<Rightarrow> pred_of v s (fst x) | Some c \<Rightarrow> Some i)"
proof -
  have "case improves v ext s x of
         None \<Rightarrow> dist_of v s' (fst x) = dist_of v s (fst x) \<and> pred_of v s' (fst x) = pred_of v s (fst x)
       | Some c \<Rightarrow> dist_of v s' (fst x) = Some c \<and> pred_of v s' (fst x) = Some i"
    using assms unfolding relax_effect_def by blast
  then show "dist_of v s' (fst x) = (case improves v ext s x of None \<Rightarrow> dist_of v s (fst x) | Some c \<Rightarrow> Some c)"
    "pred_of v s' (fst x) = (case improves v ext s x of None \<Rightarrow> pred_of v s (fst x) | Some c \<Rightarrow> Some i)"
    by (cases "improves v ext s x", simp_all)+
qed

lemma same_relax:
  assumes v: "view_ok v" "permutes_order ord" "permutes_order ord'" and same: "same_search v s t"
    and relax: "relax_neighbours v nodeOK cutoff x (ord (qi_key x) (rv_adjacency v (qi_key x))) s = (s', r)"
      "relax_neighbours v nodeOK cutoff x (ord' (qi_key x) (rv_adjacency v (qi_key x))) t = (t', r')"
  shows "r = r' \<and> (\<forall>u. r = Inr u \<longrightarrow> same_search v s' t')"
proof -
  let ?es = "ord (qi_key x) (rv_adjacency v (qi_key x))" let ?es' = "ord' (qi_key x) (rv_adjacency v (qi_key x))"
  let ?ext = "search_extend nodeOK cutoff (qi_cost x)"
  have ids: "ids_ok v" and ok: "state_ok v s" "state_ok v t" using v(1) same by (simp_all add: view_ok_def same_search_def)
  note p = permutes_relax[OF v, of "qi_key x"] and p' = permutes_relax[OF v(1,3,2), of "qi_key x"]
  note a = relax_neighbours_refines[OF relax(1) ids ok(1) p(4)] and b = relax_neighbours_refines[OF relax(2) ids ok(2) p'(4)]
  show ?thesis
  proof (cases r)
    case (Inl e)
    then obtain y where y: "e = ErrMsg ''cost overflow''" "y \<in> set ?es'" "2 ^ 64 \<le> unat (qi_cost x) + unat (re_Weight (snd y))" using a p(1) by auto
    have "r' = Inl e"
    proof (cases r')
      case (Inl e')
      then show ?thesis using b y(1) by simp
    next
      case (Inr u)
      then have "unat (qi_cost x) + unat (re_Weight (snd y)) < 2 ^ 64" using b y(2) by simp
      then show ?thesis using y(3) by simp
    qed
    then show ?thesis using Inl by simp
  next
    case (Inr u)
    then have nov: "\<forall>y \<in> set ?es'. unat (qi_cost x) + unat (re_Weight (snd y)) < 2 ^ 64" using a p(1) by simp
    obtain u' where u': "r' = Inr u'"
    proof (cases r')
      case (Inl e')
      then obtain y where "y \<in> set ?es'" "2 ^ 64 \<le> unat (qi_cost x) + unat (re_Weight (snd y))" using b by auto
      then show ?thesis using nov leD by blast
    qed
    have e: "relax_effect v ?ext (qi_id x) ?es s s'" "relax_effect v ?ext (qi_id x) ?es' t t'"
      using relax_neighbours_effect[OF relax(1)[unfolded Inr] ids ok(1) p(4,3)]
        relax_neighbours_effect[OF relax(2)[unfolded u'] ids ok(2) p'(4,3)] .
    have d: "dist_of v t = dist_of v s" "pred_of v t = pred_of v s" "mset (ss_queue t) = mset (ss_queue s)" using same by (simp_all add: same_search_def)
    have imp: "improves v ?ext t y = improves v ?ext s y" for y using d by (intro improves_cong) simp
    have e': "relax_effect v ?ext (qi_id x) ?es s t'" using e(2) unfolding relax_effect_def d imp p(1,2)[symmetric] .
    have "dist_of v s' k = dist_of v t' k \<and> pred_of v s' k = pred_of v t' k" for k
    proof (cases "k \<in> fst ` set ?es")
      case True
      then obtain y where y: "y \<in> set ?es" "k = fst y" by blast
      show ?thesis unfolding y(2) relax_effect_at[OF e(1) y(1)] relax_effect_at[OF e' y(1)] by (rule conjI refl)+
    next
      case False
      then show ?thesis using e(1)[unfolded relax_effect_def, THEN conjunct1, rule_format, of k]
          e'[unfolded relax_effect_def, THEN conjunct1, rule_format, of k] by simp
    qed
    moreover have "mset (ss_queue s') = mset (ss_queue t')"
      using e(1)[unfolded relax_effect_def, THEN conjunct2, THEN conjunct2] e'[unfolded relax_effect_def, THEN conjunct2, THEN conjunct2] by (rule trans[OF _ sym])
    moreover have "state_ok v s'" "state_ok v t'" using a b by blast+
    ultimately show ?thesis unfolding same_search_def fun_eq_iff Inr u' by simp
  qed
qed

lemma same_path_back:
  assumes v: "ids_ok v" and same: "pred_of v s = pred_of v t"
  shows "i < length (rv_nodeKeys v) \<Longrightarrow> path_back n v s a i acc = path_back n v t a i acc"
proof (induction n arbitrary: i acc)
  case (Suc n)
  have "rv_nodeIDs v (rv_nodeKeys v ! i) = Some i" using v Suc.prems by (simp add: ids_ok_def)
  then have "getPredecessor s i = getPredecessor t i" using fun_cong[OF same, of "rv_nodeKeys v ! i"] by (simp add: pred_of_def)
  then show ?case using Suc.IH by (auto split: option.split)
qed simp

lemma same_dist:
  assumes "same_search v s t" "rv_nodeIDs v k = Some i"
  shows "getDistance s i = getDistance t i"
proof -
  have "dist_of v s k = dist_of v t k" using assms(1) by (simp add: same_search_def)
  then show ?thesis using assms(2) by (simp add: dist_of_def)
qed

lemma search_loop_snd:
  assumes "ss_queue s \<noteq> []" "heap_Pop queue_Less (ss_queue s) = (x, q)"
    "relax_neighbours v nodeOK cutoff x (ord (qi_key x) (rv_adjacency v (qi_key x))) (s\<lparr>ss_queue := q\<rparr>) = (s', r)"
  shows "map_option snd (search_loop (Suc n) ord v nodeOK cutoff startID goalID s) =
    (if getDistance (s\<lparr>ss_queue := q\<rparr>) (qi_id x) \<noteq> Some (qi_cost x) then map_option snd (search_loop n ord v nodeOK cutoff startID goalID (s\<lparr>ss_queue := q\<rparr>))
     else if qi_cost x > cutoff then Some (Inr None)
     else if \<not> nodeOK (qi_key x) then map_option snd (search_loop n ord v nodeOK cutoff startID goalID (s\<lparr>ss_queue := q\<rparr>))
     else if qi_id x = goalID then reconstructPathLocked v startID goalID (qi_cost x) (s\<lparr>ss_queue := q\<rparr>)
     else case r of Inl e \<Rightarrow> Some (Inl e) | Inr _ \<Rightarrow> map_option snd (search_loop n ord v nodeOK cutoff startID goalID s'))"
  using assms by (simp add: Let_def option.map_comp comp_def option.map_ident split: sum.split)

lemma search_loop_same:
  assumes v: "view_ok v" "permutes_order ord" "permutes_order ord'" and goal: "goalID < length (rv_nodeKeys v)"
  shows "same_search v s t \<Longrightarrow> map_option snd (search_loop n ord v nodeOK cutoff startID goalID s) =
    map_option snd (search_loop n ord' v nodeOK cutoff startID goalID t)"
proof (induction n arbitrary: s t)
  case (Suc n)
  have ids: "ids_ok v" using v(1) by (simp add: view_ok_def)
  have m: "mset (ss_queue s) = mset (ss_queue t)" using Suc.prems by (simp add: same_search_def)
  show ?case
  proof (cases "ss_queue s = []")
    case True
    then show ?thesis using m by simp
  next
    case False
    then have ne: "ss_queue t \<noteq> []" using m by auto
    obtain x q where x: "heap_Pop queue_Less (ss_queue s) = (x, q)" by fastforce
    obtain y q' where y: "heap_Pop queue_Less (ss_queue t) = (y, q')" by fastforce
    let ?s = "s\<lparr>ss_queue := q\<rparr>" let ?t = "t\<lparr>ss_queue := q'\<rparr>"
    have yx: "y = x" and st: "same_search v ?s ?t" using same_pop[OF Suc.prems False x y] by simp_all
    have "rv_nodeIDs v (qi_key x) = Some (qi_id x)"
      using pop_state(3)[OF _ False x] Suc.prems by (simp add: same_search_def)
    then have d: "getDistance ?t (qi_id x) = getDistance ?s (qi_id x)" using same_dist[OF st] by simp
    have rec: "reconstructPathLocked v startID goalID c ?s = reconstructPathLocked v startID goalID c ?t" for c
      using same_path_back[OF ids _ goal, of ?s ?t] st unfolding reconstructPathLocked_def by (simp add: same_search_def)
    obtain s' r where s': "relax_neighbours v nodeOK cutoff x (ord (qi_key x) (rv_adjacency v (qi_key x))) ?s = (s', r)" by fastforce
    obtain t' r' where t': "relax_neighbours v nodeOK cutoff x (ord' (qi_key x) (rv_adjacency v (qi_key x))) ?t = (t', r')" by fastforce
    note rel = same_relax[OF v st s' t']
    note IH = Suc.IH[OF st]
    note unfold_s = search_loop_snd[where ord = ord, OF False x s'] and unfold_t = search_loop_snd[where ord = ord', OF ne y[unfolded yx] t']
    have last: "(case r of Inl e \<Rightarrow> Some (Inl e) | Inr _ \<Rightarrow> map_option snd (search_loop n ord v nodeOK cutoff startID goalID s')) =
        (case r' of Inl e \<Rightarrow> Some (Inl e) | Inr _ \<Rightarrow> map_option snd (search_loop n ord' v nodeOK cutoff startID goalID t'))"
      using rel Suc.IH[of s' t'] by (cases r) auto
    show ?thesis unfolding unfold_s unfold_t d IH rec last by (rule refl)
  qed
qed simp

lemma ShortestPath_same:
  assumes vo: "view_ok v" and ord: "permutes_order ord" "permutes_order ord'" and scratch: "scratch_ok s" "scratch_ok t"
  shows "map_option snd (ShortestPath ord v s start goal cutoff chain height) =
    map_option snd (ShortestPath ord' v t start goal cutoff chain height)"
proof (cases "canonicalKey start = canonicalKey goal")
  case True
  then show ?thesis by (simp add: ShortestPath_def Let_def)
next
  case ne: False
  have ids: "ids_ok v" using vo by (simp add: view_ok_def)
  show ?thesis
  proof (cases "\<exists>i j. rv_nodeIDs v (canonicalKey start) = Some i \<and> rv_nodeIDs v (canonicalKey goal) = Some j")
    case True
    then obtain i j where i: "rv_nodeIDs v (canonicalKey start) = Some i" "rv_nodeIDs v (canonicalKey goal) = Some j" by blast
    have "j < length (rv_nodeKeys v)" using ids i(2) by (simp add: ids_ok_def)
    moreover have "same_search v (start_state v s i (canonicalKey start)) (start_state v t i (canonicalKey start))"
      using start_state_ok[OF ids scratch(1) i(1)] start_state_ok[OF ids scratch(2) i(1)] by (simp add: same_search_def)
    ultimately show ?thesis unfolding ShortestPath_start[OF ids i ne] by (rule search_loop_same[OF vo ord])
  next
    case False
    then have "(\<exists>e. nodeIDLocked v (canonicalKey start) = Inl e) \<or> (\<exists>e. nodeIDLocked v (canonicalKey goal) = Inl e)"
      using nodeID_Inr[OF ids] by (metis sum.exhaust)
    then show ?thesis using ne by (auto simp: ShortestPath_def Let_def split: sum.split)
  qed
qed

text \<open>
  C12. The outcome of a search depends on the view and the query only: whatever order Go iterates the
  adjacency maps in, and whatever earlier searches left in the reused scratch space (a wrapped
  generation counter included), the same path, absence of a path or error is returned.
\<close>

theorem replay_search_deterministic:
  assumes v: "reachable_view profile v" and ord: "permutes_order ord" "permutes_order ord'" and scratch: "scratch_ok s" "scratch_ok t"
  shows "map_option snd (ShortestPath ord v s start goal cutoff chain height) =
    map_option snd (ShortestPath ord' v t start goal cutoff chain height)"
  using ShortestPath_same[OF _ ord scratch] reachable_view_ok[OF v] by blast

theorem replay_search_deterministic_witness:
  "map_option snd (ShortestPath (\<lambda>k. rev) example_view (empty_scratch\<lparr>ss_generation := MaxUint64\<rparr>)
       \<lparr>rk_Chain = ''A'', rk_Height = 1\<rparr> \<lparr>rk_Chain = ''A'', rk_Height = 9\<rparr> 24000000 ''A'' 9) =
   map_option snd (ShortestPath (\<lambda>k xs. xs) example_view empty_scratch
       \<lparr>rk_Chain = ''A'', rk_Height = 1\<rparr> \<lparr>rk_Chain = ''A'', rk_Height = 9\<rparr> 24000000 ''A'' 9)"
  by (rule replay_search_deterministic[OF example_view_reachable]) (simp_all add: permutes_order_def scratch_ok_def empty_scratch_def)

end
