(* ===== verification/Replay.thy ===== *)
theory Replay
  imports Replay_Search
begin

text \<open>
  \<open>Mapnode/replay\<close>, the decisions of the offline replay: settings (\<open>config.go\<close>), checkpoint periods
  (\<open>replay_checkpoint_policy.go\<close>), the heights a verifier already trusts (\<open>replay_baseline.go\<close>), the choice between
  a direct verification and a path (\<open>replay_planner.go\<close>), and the coordinator that processes one event after the other
  and restores the state of processed ones (\<open>replay_coordinator.go\<close>).

  Settings and kinds of decisions are strings, as in the code. A Go map that is iterated over is an association list
  in the order of the iteration. The search takes the order of the adjacency maps and the scratch space the pool
  hands out as arguments. The time of an event is a number of nanoseconds; the volume, which no decision reads, is the
  text of its column.
\<close>

subsection \<open>Settings, events and checkpoints\<close>

type_synonym setting = string

definition ToUpper :: "string \<Rightarrow> string" where
  "ToUpper s = map (\<lambda>c. if 97 \<le> (of_char c :: nat) \<and> (of_char c :: nat) \<le> 122 then char_of (of_char c - 32 :: nat) else c) s"

definition ParseSetting :: "string \<Rightarrow> setting res" where
  "ParseSetting value =
     (let setting = ToUpper (TrimSpace value)
      in if setting \<in> {''B0'', ''B1'', ''B2'', ''B3''} then Inr setting else Inl (ErrMsg ''unknown replay setting''))"

definition UsesTrustMap :: "setting \<Rightarrow> bool" where
  "UsesTrustMap setting \<longleftrightarrow> setting = ''B2'' \<or> setting = ''B3''"

definition UsesCheckpoint :: "setting \<Rightarrow> bool" where
  "UsesCheckpoint setting \<longleftrightarrow> setting = ''B1'' \<or> setting = ''B3''"

record replay_event =
  ev_ID :: string
  ev_OriginalRow :: u64
  ev_Sequence :: u64
  ev_Source :: replay_block
  ev_Destination :: replay_block
  ev_SourceTime :: int
  ev_BridgeName :: string
  ev_TxCount :: int
  ev_VolumeUSD :: string

type_synonym checkpoint_policy = "string \<rightharpoonup> u64"

fun policy_loop :: "(string \<times> u64) list \<Rightarrow> checkpoint_policy \<Rightarrow> checkpoint_policy res" where
  "policy_loop [] canonical = Inr canonical"
| "policy_loop ((chain, period) # periods) canonical =
     (let name = canonicalChain chain
      in if name = '''' then Inl (ErrMsg ''checkpoint chain is empty'')
         else if period = 0 then Inl (ErrMsg ''checkpoint period must be positive'')
         else if canonical name \<noteq> None then Inl (ErrMsg ''duplicate checkpoint chain'')
         else policy_loop periods (canonical(name \<mapsto> period)))"

definition NewCheckpointPolicy :: "(string \<times> u64) list \<Rightarrow> checkpoint_policy res" where
  "NewCheckpointPolicy periods = policy_loop periods (\<lambda>_. None)"

definition Period :: "checkpoint_policy \<Rightarrow> string \<Rightarrow> u64 option" where
  "Period policy chain = policy (canonicalChain chain)"

definition CheckpointHeight :: "checkpoint_policy \<Rightarrow> string \<Rightarrow> u64 \<Rightarrow> u64 option res" where
  "CheckpointHeight policy chain originalHeight =
     (case policy (canonicalChain chain) of
        None \<Rightarrow> Inr None
      | Some period \<Rightarrow> if period = 0 then Inl (Panic ''integer divide by zero'') else Inr (Some ((originalHeight div period) * period)))"

subsection \<open>Baselines\<close>

record baselines =
  bl_initHeights :: "string \<rightharpoonup> u64"
  bl_values :: "(string \<times> string) \<rightharpoonup> u64"

definition NewReplayBaselines :: "(string \<times> u64) list \<Rightarrow> baselines" where
  "NewReplayBaselines initHeights =
     \<lparr>bl_initHeights = foldl (\<lambda>m (chain, height). m(canonicalChain chain \<mapsto> height)) (\<lambda>_. None) initHeights, bl_values = (\<lambda>_. None)\<rparr>"

text \<open>A missing entry of a Go map of numbers reads as zero.\<close>

definition init_height :: "baselines \<Rightarrow> string \<Rightarrow> u64" where
  "init_height b target = (case bl_initHeights b target of None \<Rightarrow> 0 | Some h \<Rightarrow> h)"

definition baseline_Get :: "baselines \<Rightarrow> string \<Rightarrow> string \<Rightarrow> baselines \<times> u64" where
  "baseline_Get b verifierChain targetChain =
     (let key = (canonicalChain verifierChain, canonicalChain targetChain)
      in case bl_values b key of
           Some value \<Rightarrow> (b, value)
         | None \<Rightarrow> (let value = init_height b (snd key) in (b\<lparr>bl_values := (bl_values b)(key \<mapsto> value)\<rparr>, value)))"

definition baseline_Advance :: "baselines \<Rightarrow> string \<Rightarrow> string \<Rightarrow> u64 \<Rightarrow> baselines \<times> u64" where
  "baseline_Advance b verifierChain targetChain height =
     (let key = (canonicalChain verifierChain, canonicalChain targetChain);
          current = (case bl_values b key of None \<Rightarrow> init_height b (snd key) | Some value \<Rightarrow> value);
          current = (if height > current then height else current)
      in (b\<lparr>bl_values := (bl_values b)(key \<mapsto> current)\<rparr>, current))"

record direct_estimate =
  de_BaselineBefore :: u64
  de_DirectStart :: u64
  de_DirectBlocks :: u64
  de_CheckpointConfigured :: bool
  de_CheckpointPeriod :: u64
  de_CheckpointHeight :: u64
  de_CheckpointApplied :: bool
  de_Cost :: u64

definition estimate_from :: "u64 \<Rightarrow> string \<Rightarrow> u64 \<Rightarrow> cost_profile \<Rightarrow> checkpoint_policy \<Rightarrow> bool \<Rightarrow> direct_estimate res" where
  "estimate_from baseline targetChain targetHeight profile policy useCheckpoint =
     (let estimate = \<lparr>de_BaselineBefore = baseline, de_DirectStart = baseline, de_DirectBlocks = 0, de_CheckpointConfigured = False,
                      de_CheckpointPeriod = 0, de_CheckpointHeight = 0, de_CheckpointApplied = False, de_Cost = 0\<rparr>
      in if targetHeight \<ge> baseline
         then bind_res
                (case (if useCheckpoint then Period policy targetChain else None) of
                   None \<Rightarrow> Inr estimate
                 | Some period \<Rightarrow>
                     if period = 0 then Inl (Panic ''integer divide by zero'')
                     else let checkpoint = (targetHeight div period) * period;
                              estimate = estimate\<lparr>de_CheckpointConfigured := True, de_CheckpointPeriod := period, de_CheckpointHeight := checkpoint\<rparr>
                          in Inr (if checkpoint > de_DirectStart estimate
                                  then estimate\<lparr>de_DirectStart := checkpoint, de_CheckpointApplied := True\<rparr> else estimate))
                (\<lambda>estimate.
                   let estimate = estimate\<lparr>de_DirectBlocks := targetHeight - de_DirectStart estimate\<rparr>
                   in bind_res (CheckedCost (de_DirectBlocks estimate) (cp_DirectStepCost profile)) (\<lambda>cost. Inr (estimate\<lparr>de_Cost := cost\<rparr>)))
         else let estimate = estimate\<lparr>de_DirectBlocks := baseline - targetHeight\<rparr>
              in bind_res (CheckedCost (de_DirectBlocks estimate) (cp_PathStepCost profile)) (\<lambda>cost. Inr (estimate\<lparr>de_Cost := cost\<rparr>)))"

definition EstimateDirect ::
  "baselines \<Rightarrow> string \<Rightarrow> string \<Rightarrow> u64 \<Rightarrow> cost_profile \<Rightarrow> checkpoint_policy \<Rightarrow> bool \<Rightarrow> baselines \<times> direct_estimate res" where
  "EstimateDirect b verifierChain targetChain targetHeight profile policy useCheckpoint =
     (case baseline_Get b verifierChain targetChain of (b, baseline) \<Rightarrow>
        (b, estimate_from baseline targetChain targetHeight profile policy useCheckpoint))"

subsection \<open>The planner\<close>

record plan_choice =
  pc_UseTrustMap :: bool
  pc_PathFound :: bool
  pc_Path :: replay_path
  pc_TotalCost :: u64

definition no_path :: replay_path where
  "no_path = \<lparr>rp_Cost = 0, rp_Nodes = [], rp_Segments = []\<rparr>"

definition planner_choose :: "cost_profile \<Rightarrow> u64 \<Rightarrow> replay_path option \<Rightarrow> plan_choice res" where
  "planner_choose profile directCost found =
     (case found of
        None \<Rightarrow> Inr \<lparr>pc_UseTrustMap = False, pc_PathFound = False, pc_Path = no_path, pc_TotalCost = directCost\<rparr>
      | Some path \<Rightarrow>
          bind_res (CheckedAdd (rp_Cost path) (cp_TrustRootUpdateCost profile)) (\<lambda>total.
            let choice = \<lparr>pc_UseTrustMap = False, pc_PathFound = True, pc_Path = path, pc_TotalCost = directCost\<rparr>
            in Inr (if total < directCost then choice\<lparr>pc_UseTrustMap := True, pc_TotalCost := total\<rparr> else choice)))"

definition replay_Plan ::
  "map_order \<Rightarrow> search_scratch \<Rightarrow> cost_profile \<Rightarrow> replay_view \<Rightarrow> replay_key \<Rightarrow> replay_key \<Rightarrow> u64 \<Rightarrow> plan_choice res option" where
  "replay_Plan ord scratch profile view start goal directCost =
     (if directCost \<le> cp_TrustRootUpdateCost profile
      then Some (Inr \<lparr>pc_UseTrustMap = False, pc_PathFound = False, pc_Path = no_path, pc_TotalCost = directCost\<rparr>)
      else map_option (\<lambda>(_, r). bind_res r (planner_choose profile directCost))
             (ShortestPath ord view scratch start goal (directCost - cp_TrustRootUpdateCost profile) (rk_Chain goal) (rk_Height goal)))"

subsection \<open>The coordinator\<close>

record replay_decision =
  rd_EventID :: string
  rd_Sequence :: u64
  rd_Setting :: setting
  rd_Decision :: string
  rd_PlanningEnabled :: bool
  rd_BaselineBefore :: u64
  rd_BaselineAfter :: u64
  rd_DirectStart :: u64
  rd_DirectBlocks :: u64
  rd_CheckpointConfigured :: bool
  rd_CheckpointPeriod :: u64
  rd_CheckpointHeight :: u64
  rd_CheckpointApplied :: bool
  rd_DirectCost :: u64
  rd_PathFound :: bool
  rd_PathCost :: u64
  rd_TrustMapTotalCost :: u64
  rd_ChosenCost :: u64
  rd_Path :: replay_path
  rd_GraphNodes :: u64
  rd_GraphEdges :: u64
  rd_CrossEdgesAdded :: u64

definition ReplayDecisionDirect :: string where "ReplayDecisionDirect = ''direct''"

definition ReplayDecisionTrustMap :: string where "ReplayDecisionTrustMap = ''trustmap''"

record coordinator =
  co_setting :: setting
  co_profile :: cost_profile
  co_policy :: checkpoint_policy
  co_view :: replay_view
  co_baselines :: baselines

definition NewReplayCoordinator :: "setting \<Rightarrow> (string \<times> u64) list \<Rightarrow> cost_profile \<Rightarrow> checkpoint_policy \<Rightarrow> coordinator res" where
  "NewReplayCoordinator setting initHeights profile policy =
     (if setting \<noteq> ''B0'' \<and> setting \<noteq> ''B1'' \<and> setting \<noteq> ''B2'' \<and> setting \<noteq> ''B3'' then Inl (ErrMsg ''unknown replay setting'')
      else bind_res (NewReplayTrustView profile) (\<lambda>view.
        Inr \<lparr>co_setting = setting, co_profile = profile, co_policy = policy, co_view = view, co_baselines = NewReplayBaselines initHeights\<rparr>))"

text \<open>Both \<open>replay_Process\<close> and \<open>replay_Restore\<close> activate the two blocks of the event first.\<close>

definition activate_event :: "coordinator \<Rightarrow> replay_event \<Rightarrow> coordinator \<times> (replay_key \<times> replay_key) res" where
  "activate_event c event =
     (if UsesTrustMap (co_setting c)
      then case activateLocked (co_view c) (ev_Destination event) of
             (view, Inl e) \<Rightarrow> (c\<lparr>co_view := view\<rparr>, Inl e)
           | (view, Inr start) \<Rightarrow>
               (case activateLocked view (ev_Source event) of
                  (view, Inl e) \<Rightarrow> (c\<lparr>co_view := view\<rparr>, Inl e)
                | (view, Inr goal) \<Rightarrow> (c\<lparr>co_view := view\<rparr>, Inr (start, goal)))
      else (c, Inr (block_Key (ev_Destination event), block_Key (ev_Source event))))"

definition estimate_event :: "coordinator \<Rightarrow> replay_event \<Rightarrow> coordinator \<times> direct_estimate res" where
  "estimate_event c event =
     (case EstimateDirect (co_baselines c) (rb_Chain (ev_Destination event)) (rb_Chain (ev_Source event))
             (rb_OriginalHeight (ev_Source event)) (co_profile c) (co_policy c) (UsesCheckpoint (co_setting c)) of
        (b, r) \<Rightarrow> (c\<lparr>co_baselines := b\<rparr>, r))"

definition direct_decision :: "coordinator \<Rightarrow> replay_event \<Rightarrow> direct_estimate \<Rightarrow> replay_decision" where
  "direct_decision c event estimate =
     \<lparr>rd_EventID = ev_ID event, rd_Sequence = ev_Sequence event, rd_Setting = co_setting c, rd_Decision = ReplayDecisionDirect,
      rd_PlanningEnabled = UsesTrustMap (co_setting c), rd_BaselineBefore = de_BaselineBefore estimate, rd_BaselineAfter = 0,
      rd_DirectStart = de_DirectStart estimate, rd_DirectBlocks = de_DirectBlocks estimate,
      rd_CheckpointConfigured = de_CheckpointConfigured estimate, rd_CheckpointPeriod = de_CheckpointPeriod estimate,
      rd_CheckpointHeight = de_CheckpointHeight estimate, rd_CheckpointApplied = de_CheckpointApplied estimate,
      rd_DirectCost = de_Cost estimate, rd_PathFound = False, rd_PathCost = 0, rd_TrustMapTotalCost = 0, rd_ChosenCost = de_Cost estimate,
      rd_Path = no_path, rd_GraphNodes = 0, rd_GraphEdges = 0, rd_CrossEdgesAdded = 0\<rparr>"

definition apply_choice :: "cost_profile \<Rightarrow> replay_decision \<Rightarrow> plan_choice \<Rightarrow> replay_decision res" where
  "apply_choice profile d choice =
     (let d = d\<lparr>rd_PathFound := pc_PathFound choice, rd_Path := pc_Path choice\<rparr>
      in bind_res
           (if pc_PathFound choice
            then bind_res (CheckedAdd (rp_Cost (pc_Path choice)) (cp_TrustRootUpdateCost profile)) (\<lambda>total.
                   Inr (d\<lparr>rd_PathCost := rp_Cost (pc_Path choice), rd_TrustMapTotalCost := total\<rparr>))
            else Inr d)
           (\<lambda>d. Inr (if pc_UseTrustMap choice then d\<lparr>rd_Decision := ReplayDecisionTrustMap, rd_ChosenCost := pc_TotalCost choice\<rparr> else d)))"

definition plan_event ::
  "map_order \<Rightarrow> search_scratch \<Rightarrow> coordinator \<Rightarrow> replay_key \<Rightarrow> replay_key \<Rightarrow> replay_decision \<Rightarrow> replay_decision res option" where
  "plan_event ord scratch c start goal d =
     (if rd_PlanningEnabled d
      then map_option (\<lambda>r. bind_res r (apply_choice (co_profile c) d))
             (replay_Plan ord scratch (co_profile c) (co_view c) start goal (rd_DirectCost d))
      else Some (Inr d))"

definition advance_event :: "coordinator \<Rightarrow> replay_event \<Rightarrow> coordinator \<times> u64" where
  "advance_event c event =
     (case baseline_Advance (co_baselines c) (rb_Chain (ev_Destination event)) (rb_Chain (ev_Source event)) (rb_OriginalHeight (ev_Source event)) of
        (b, after) \<Rightarrow> (c\<lparr>co_baselines := b\<rparr>, after))"

definition add_dependency :: "coordinator \<Rightarrow> replay_event \<Rightarrow> coordinator \<times> unit res" where
  "add_dependency c event =
     (if UsesTrustMap (co_setting c)
      then case AddVerifiedDependency (co_view c) (ev_Destination event) (ev_Source event) of
             (view, Inl e) \<Rightarrow> (c\<lparr>co_view := view\<rparr>, Inl e)
           | (view, Inr _) \<Rightarrow> (c\<lparr>co_view := view\<rparr>, Inr ())
      else (c, Inr ()))"

definition replay_Process ::
  "map_order \<Rightarrow> search_scratch \<Rightarrow> coordinator \<Rightarrow> replay_event \<Rightarrow> (coordinator \<times> replay_decision res) option" where
  "replay_Process ord scratch c event =
     (case activate_event c event of
        (c, Inl e) \<Rightarrow> Some (c, Inl e)
      | (c, Inr (start, goal)) \<Rightarrow>
          (case estimate_event c event of
             (c, Inl e) \<Rightarrow> Some (c, Inl e)
           | (c, Inr estimate) \<Rightarrow>
               (case plan_event ord scratch c start goal (direct_decision c event estimate) of
                  None \<Rightarrow> None
                | Some (Inl e) \<Rightarrow> Some (c, Inl e)
                | Some (Inr d) \<Rightarrow>
                    (case advance_event c event of (c, after) \<Rightarrow>
                       let d = d\<lparr>rd_BaselineAfter := after\<rparr>
                       in (case add_dependency c event of
                             (c, Inl e) \<Rightarrow> Some (c, Inl e)
                           | (c, Inr _) \<Rightarrow>
                               Some (c, Inr (if rd_PlanningEnabled d
                                 then d\<lparr>rd_CrossEdgesAdded := rv_crossEdgesAdded (co_view c), rd_GraphNodes := NodeCount (co_view c),
                                        rd_GraphEdges := rv_edgeCount (co_view c)\<rparr>
                                 else d)))))))"

subsection \<open>Restoring\<close>

fun restored_cost :: "replay_view \<Rightarrow> replay_key list \<Rightarrow> replay_segment list \<Rightarrow> u64 \<Rightarrow> u64 res" where
  "restored_cost view nodes [] pathCost = Inr pathCost"
| "restored_cost view nodes (segment # segments) pathCost =
     (if rs_From segment \<noteq> hd nodes \<or> rs_To segment \<noteq> hd (tl nodes) then Inl (ErrMsg ''path segment mismatch'')
      else case view_Edge view (rs_From segment) (rs_To segment) of
        None \<Rightarrow> Inl (ErrMsg ''path edge mismatch'')
      | Some edge \<Rightarrow>
          if re_Kind edge \<noteq> rs_Kind segment \<or> re_Weight edge \<noteq> rs_Weight segment then Inl (ErrMsg ''path edge mismatch'')
          else case CheckedAdd pathCost (rs_Weight segment) of
            Inl _ \<Rightarrow> Inl (ErrMsg ''path cost overflow mismatch'')
          | Inr pathCost \<Rightarrow> restored_cost view (tl nodes) segments pathCost)"

definition validateRestoredDecision :: "coordinator \<Rightarrow> replay_event \<Rightarrow> replay_decision \<Rightarrow> direct_estimate \<Rightarrow> unit res" where
  "validateRestoredDecision c event d estimate =
     (let expectedAfter = (if rb_OriginalHeight (ev_Source event) > rd_BaselineBefore d then rb_OriginalHeight (ev_Source event) else rd_BaselineBefore d);
          path = rd_Path d
      in if rd_PlanningEnabled d \<noteq> UsesTrustMap (co_setting c) then Inl (ErrMsg ''planning mode mismatch'')
         else if rd_BaselineBefore d \<noteq> de_BaselineBefore estimate \<or> rd_DirectStart d \<noteq> de_DirectStart estimate \<or>
           rd_DirectBlocks d \<noteq> de_DirectBlocks estimate \<or> rd_CheckpointConfigured d \<noteq> de_CheckpointConfigured estimate \<or>
           rd_CheckpointPeriod d \<noteq> de_CheckpointPeriod estimate \<or> rd_CheckpointHeight d \<noteq> de_CheckpointHeight estimate \<or>
           rd_CheckpointApplied d \<noteq> de_CheckpointApplied estimate \<or> rd_DirectCost d \<noteq> de_Cost estimate
         then Inl (ErrMsg ''direct estimate mismatch'')
         else if rd_BaselineAfter d \<noteq> expectedAfter then Inl (ErrMsg ''baseline after mismatch'')
         else if \<not> rd_PlanningEnabled d
         then if rd_Decision d \<noteq> ReplayDecisionDirect \<or> rd_ChosenCost d \<noteq> rd_DirectCost d \<or> rd_PathFound d \<or> rd_PathCost d \<noteq> 0 \<or>
                rd_TrustMapTotalCost d \<noteq> 0 \<or> rp_Nodes path \<noteq> [] \<or> rp_Segments path \<noteq> []
              then Inl (ErrMsg ''baseline-only result mismatch'') else Inr ()
         else if rd_Decision d \<noteq> ReplayDecisionDirect \<and> rd_Decision d \<noteq> ReplayDecisionTrustMap then Inl (ErrMsg ''kind mismatch'')
         else if \<not> rd_PathFound d
         then if rd_Decision d \<noteq> ReplayDecisionDirect \<or> rd_ChosenCost d \<noteq> rd_DirectCost d \<or> rd_PathCost d \<noteq> 0 \<or>
                rd_TrustMapTotalCost d \<noteq> 0 \<or> rp_Nodes path \<noteq> [] \<or> rp_Segments path \<noteq> []
              then Inl (ErrMsg ''missing path mismatch'') else Inr ()
         else if rp_Nodes path = [] \<or> length (rp_Segments path) + 1 \<noteq> length (rp_Nodes path) \<or>
           hd (rp_Nodes path) \<noteq> block_Key (ev_Destination event) \<or> last (rp_Nodes path) \<noteq> block_Key (ev_Source event)
         then Inl (ErrMsg ''path endpoints mismatch'')
         else bind_res (restored_cost (co_view c) (rp_Nodes path) (rp_Segments path) 0) (\<lambda>pathCost.
           if rp_Cost path \<noteq> pathCost \<or> rd_PathCost d \<noteq> pathCost then Inl (ErrMsg ''path cost mismatch'')
           else case CheckedAdd pathCost (cp_TrustRootUpdateCost (co_profile c)) of
             Inl _ \<Rightarrow> Inl (ErrMsg ''TrustMap total mismatch'')
           | Inr pathTotal \<Rightarrow>
               if rd_TrustMapTotalCost d \<noteq> pathTotal then Inl (ErrMsg ''TrustMap total mismatch'')
               else if rd_Decision d = ReplayDecisionTrustMap
               then if pathTotal \<ge> rd_DirectCost d \<or> rd_ChosenCost d \<noteq> pathTotal then Inl (ErrMsg ''TrustMap selection mismatch'') else Inr ()
               else if pathTotal < rd_DirectCost d \<or> rd_ChosenCost d \<noteq> rd_DirectCost d then Inl (ErrMsg ''Direct selection mismatch'')
               else Inr ()))"

definition replay_Restore :: "coordinator \<Rightarrow> replay_event \<Rightarrow> replay_decision \<Rightarrow> coordinator \<times> unit res" where
  "replay_Restore c event d =
     (if rd_EventID d \<noteq> ev_ID event \<or> rd_Sequence d \<noteq> ev_Sequence event \<or> rd_Setting d \<noteq> co_setting c
      then (c, Inl (ErrMsg ''restore replay event identity mismatch''))
      else case activate_event c event of
        (c, Inl e) \<Rightarrow> (c, Inl e)
      | (c, Inr _) \<Rightarrow>
          (case baseline_Get (co_baselines c) (rb_Chain (ev_Destination event)) (rb_Chain (ev_Source event)) of (b, baseline) \<Rightarrow>
             let c = c\<lparr>co_baselines := b\<rparr>
             in if baseline \<noteq> rd_BaselineBefore d then (c, Inl (ErrMsg ''restore replay baseline before mismatch''))
                else case estimate_event c event of
                  (c, Inl e) \<Rightarrow> (c, Inl e)
                | (c, Inr estimate) \<Rightarrow>
                    (case validateRestoredDecision c event d estimate of
                       Inl e \<Rightarrow> (c, Inl e)
                     | Inr _ \<Rightarrow>
                         (case advance_event c event of (c, after) \<Rightarrow>
                            if after \<noteq> rd_BaselineAfter d then (c, Inl (ErrMsg ''restore replay baseline after mismatch''))
                            else case add_dependency c event of
                              (c, Inl e) \<Rightarrow> (c, Inl e)
                            | (c, Inr _) \<Rightarrow>
                                if NodeCount (co_view c) \<noteq> rd_GraphNodes d \<or> rv_edgeCount (co_view c) \<noteq> rd_GraphEdges d \<or>
                                  rv_crossEdgesAdded (co_view c) \<noteq> rd_CrossEdgesAdded d
                                then (c, Inl (ErrMsg ''restore replay graph counter mismatch''))
                                else (c, Inr ())))))"

subsection \<open>Checkpoints and baselines\<close>

lemma policy_loop_pos:
  "policy_loop periods canonical = Inr policy \<Longrightarrow> (\<And>c. canonical c \<noteq> Some 0) \<Longrightarrow> policy c \<noteq> Some 0"
  by (induction periods canonical rule: policy_loop.induct) (auto simp: Let_def split: if_splits)

lemma NewCheckpointPolicy_pos: "NewCheckpointPolicy periods = Inr policy \<Longrightarrow> policy c \<noteq> Some 0"
  using policy_loop_pos[of periods "\<lambda>_. None" policy c] by (simp add: NewCheckpointPolicy_def)

definition baseline_of :: "baselines \<Rightarrow> string \<Rightarrow> string \<Rightarrow> u64" where
  "baseline_of b v t = snd (baseline_Get b v t)"

lemma baseline_Get_again:
  assumes "baseline_Get b v t = (b', x)"
  shows "baseline_Get b' v t = (b', x)" "baseline_of b v t = x" "baseline_of b' v' t' = baseline_of b v' t'" "init_height b' c = init_height b c"
  using assms by (auto simp: baseline_Get_def baseline_of_def init_height_def Let_def split: option.split_asm option.split if_splits)

lemma init_height_values [simp]: "init_height (b\<lparr>bl_values := m\<rparr>) = init_height b"
  by (simp add: fun_eq_iff init_height_def)

lemma baseline_of_value:
  "baseline_of b v t = (case bl_values b (canonicalChain v, canonicalChain t) of None \<Rightarrow> init_height b (canonicalChain t) | Some x \<Rightarrow> x)"
  by (simp add: baseline_of_def baseline_Get_def Let_def split: option.split)

lemma baseline_Advance_max:
  assumes "baseline_Advance b v t h = (b', x)"
  shows "x = max (baseline_of b v t) h"
    "baseline_of b' v' t' = (if canonicalChain v' = canonicalChain v \<and> canonicalChain t' = canonicalChain t then x else baseline_of b v' t')"
proof -
  have x: "(if h > baseline_of b v t then h else baseline_of b v t) = x" and b': "b' = b\<lparr>bl_values := (bl_values b)((canonicalChain v, canonicalChain t) \<mapsto> x)\<rparr>"
    using assms unfolding baseline_Advance_def baseline_of_value Let_def snd_conv by auto
  show "x = max (baseline_of b v t) h" unfolding x[symmetric] by (auto simp: max_def)
  show "baseline_of b' v' t' = (if canonicalChain v' = canonicalChain v \<and> canonicalChain t' = canonicalChain t then x else baseline_of b v' t')"
    by (simp add: b' baseline_of_value split: option.split)
qed

text \<open>The height from which a direct verification starts, and its cost.\<close>

definition direct_start :: "checkpoint_policy \<Rightarrow> bool \<Rightarrow> string \<Rightarrow> u64 \<Rightarrow> u64 \<Rightarrow> nat" where
  "direct_start policy useCheckpoint chain baseline height =
     (case (if useCheckpoint then Period policy chain else None) of
        None \<Rightarrow> unat baseline
      | Some period \<Rightarrow> max (unat baseline) (unat height div unat period * unat period))"

definition direct_price :: "cost_profile \<Rightarrow> checkpoint_policy \<Rightarrow> bool \<Rightarrow> string \<Rightarrow> u64 \<Rightarrow> u64 \<Rightarrow> nat" where
  "direct_price profile policy useCheckpoint chain baseline height =
     (if baseline \<le> height then (unat height - direct_start policy useCheckpoint chain baseline height) * unat (cp_DirectStepCost profile)
      else (unat baseline - unat height) * unat (cp_PathStepCost profile))"

lemma checkpoint_below: "unat (height div period * period) = unat height div unat period * unat period" for height period :: u64
proof -
  have "unat height div unat period * unat period \<le> unat height" by (rule div_times_less_eq_dividend)
  also have "unat height < 2 ^ 64" using unsigned_less[of height, where 'a = nat] by simp
  finally have "unat height div unat period * unat period < 2 ^ 64" .
  then have "(unat height div unat period * unat period) mod 2 ^ LENGTH(64) = unat height div unat period * unat period" by simp
  then show ?thesis unfolding unat_word_ariths(2) unat_div .
qed

lemma estimate_from_up:
  assumes "baseline \<le> height" "Period policy chain \<noteq> Some 0"
    and s: "s = (case (if useCheckpoint then Period policy chain else None) of None \<Rightarrow> baseline
      | Some period \<Rightarrow> if height div period * period > baseline then height div period * period else baseline)"
  shows "case estimate_from baseline chain height profile policy useCheckpoint of
      Inr estimate \<Rightarrow> CheckedCost (height - s) (cp_DirectStepCost profile) = Inr (de_Cost estimate) \<and> de_BaselineBefore estimate = baseline
    | Inl e \<Rightarrow> CheckedCost (height - s) (cp_DirectStepCost profile) = Inl e"
proof (cases "if useCheckpoint then Period policy chain else None")
  case None
  then show ?thesis using assms by (cases "CheckedCost (height - baseline) (cp_DirectStepCost profile)") (simp_all add: estimate_from_def Let_def)
next
  case (Some p)
  then have "p \<noteq> 0" using assms(2) by (auto split: if_splits)
  then show ?thesis using assms(1) Some s
    by (cases "CheckedCost (height - s) (cp_DirectStepCost profile)"; cases "height div p * p > baseline") (simp_all add: estimate_from_def Let_def)
qed

lemma estimate_from_cost:
  assumes pos: "\<And>c. policy c \<noteq> Some 0"
  shows "(case estimate_from baseline chain height profile policy useCheckpoint of
      Inr estimate \<Rightarrow> unat (de_Cost estimate) = direct_price profile policy useCheckpoint chain baseline height \<and> de_BaselineBefore estimate = baseline
    | Inl e \<Rightarrow> e = ErrMsg ''cost overflow'' \<and> 2 ^ 64 \<le> direct_price profile policy useCheckpoint chain baseline height)"
proof -
  have checked: "case CheckedCost d s of Inr c \<Rightarrow> unat c = unat d * unat s | Inl e \<Rightarrow> e = ErrMsg ''cost overflow'' \<and> 2 ^ 64 \<le> unat d * unat s" for d s
  proof (cases "CheckedCost d s")
    case (Inl e)
    then show ?thesis using CheckedCost_Inr[of d s "d * s"] by (auto simp: CheckedCost_def split: if_splits)
  qed (use CheckedCost_unat in simp)
  show ?thesis
  proof (cases "baseline \<le> height")
    case False
    then have "unat (baseline - height) = unat baseline - unat height" by (simp add: unat_sub)
    then show ?thesis using checked[of "baseline - height" "cp_PathStepCost profile"] False
      by (auto simp: estimate_from_def direct_price_def Let_def split: sum.split_asm)
  next
    case True
    define s where "s = (case (if useCheckpoint then Period policy chain else None) of None \<Rightarrow> baseline
      | Some period \<Rightarrow> if height div period * period > baseline then height div period * period else baseline)"
    have pos': "Period policy chain \<noteq> Some 0" using pos by (simp add: Period_def)
    have cp: "unat (height div p * p) \<le> unat height" for p by (simp add: checkpoint_below)
    have su: "unat s = direct_start policy useCheckpoint chain baseline height"
      by (auto simp: s_def direct_start_def max_def checkpoint_below[symmetric] word_less_nat_alt word_le_nat_alt split: option.split)
    have "s \<le> height" using True cp by (auto simp: s_def word_le_nat_alt split: option.split)
    then have blocks: "unat (height - s) = unat height - direct_start policy useCheckpoint chain baseline height" using su by (simp add: unat_sub)
    note up = estimate_from_up[OF True pos' s_def, of profile]
    show ?thesis using checked[of "height - s" "cp_DirectStepCost profile"] True blocks up
      by (cases "estimate_from baseline chain height profile policy useCheckpoint") (simp_all add: direct_price_def)
  qed
qed

subsection \<open>Plans\<close>

text \<open>What a plan promises on a view: the cheaper of the direct cost and a cheapest admissible walk with the root update.\<close>

definition plan_walk :: "replay_view \<Rightarrow> cost_profile \<Rightarrow> u64 \<Rightarrow> replay_key \<Rightarrow> replay_key \<Rightarrow> replay_key list \<Rightarrow> nat \<Rightarrow> bool" where
  "plan_walk v profile direct start goal ks w \<longleftrightarrow> ks \<noteq> [] \<and> hd ks = start \<and> last ks = goal \<and> walk_cost v ks = Some w \<and>
     admissible (node_ok profile (direct - cp_TrustRootUpdateCost profile) (rk_Chain goal) (rk_Height goal)) ks"

definition plan_ok :: "replay_view \<Rightarrow> cost_profile \<Rightarrow> u64 \<Rightarrow> replay_key \<Rightarrow> replay_key \<Rightarrow> plan_choice \<Rightarrow> bool" where
  "plan_ok v profile direct start goal p \<longleftrightarrow>
     (if pc_PathFound p
      then plan_walk v profile direct start goal (rp_Nodes (pc_Path p)) (unat (rp_Cost (pc_Path p))) \<and>
        path_segments v (rp_Nodes (pc_Path p)) = Inr (rp_Segments (pc_Path p)) \<and>
        unat (rp_Cost (pc_Path p)) + unat (cp_TrustRootUpdateCost profile) < 2 ^ 64 \<and>
        (pc_UseTrustMap p \<longleftrightarrow> rp_Cost (pc_Path p) + cp_TrustRootUpdateCost profile < direct) \<and>
        pc_TotalCost p = (if pc_UseTrustMap p then rp_Cost (pc_Path p) + cp_TrustRootUpdateCost profile else direct)
      else \<not> pc_UseTrustMap p \<and> pc_Path p = no_path \<and> pc_TotalCost p = direct) \<and>
     pc_TotalCost p \<le> direct \<and>
     (\<forall>ks w. plan_walk v profile direct start goal ks w \<longrightarrow> unat (pc_TotalCost p) \<le> w + unat (cp_TrustRootUpdateCost profile))"

lemma plan_ok_none:
  assumes "\<And>ks w. plan_walk v profile direct start goal ks w \<Longrightarrow> unat direct \<le> w + unat (cp_TrustRootUpdateCost profile)"
  shows "plan_ok v profile direct start goal \<lparr>pc_UseTrustMap = False, pc_PathFound = False, pc_Path = no_path, pc_TotalCost = direct\<rparr>"
  using assms by (simp add: plan_ok_def)

lemma replay_Plan_result:
  assumes v: "view_ok v" "permutes_order ord" and s: "scratch_ok s" and profile: "rv_profile v = profile"
    and nodes: "start \<in> rv_nodes v" "goal \<in> rv_nodes v"
  shows "\<exists>r. replay_Plan ord s profile v start goal direct = Some r \<and> (\<forall>p. r = Inr p \<longrightarrow> plan_ok v profile direct start goal p)"
proof (cases "direct \<le> cp_TrustRootUpdateCost profile")
  case True
  then have "unat direct \<le> unat (cp_TrustRootUpdateCost profile)" by (simp add: word_le_nat_alt)
  then show ?thesis using True plan_ok_none by (auto simp: replay_Plan_def)
next
  case False
  define cutoff where "cutoff = direct - cp_TrustRootUpdateCost profile"
  have cut: "unat cutoff = unat direct - unat (cp_TrustRootUpdateCost profile)" "unat (cp_TrustRootUpdateCost profile) < unat direct"
    using False by (simp_all add: cutoff_def unat_sub word_le_nat_alt not_le)
  have canon: "canonicalKey start = start" "canonicalKey goal = goal" using v(1) nodes by (simp_all add: view_ok_def heights_ok_def)
  let ?ok = "node_ok profile cutoff (rk_Chain goal) (rk_Height goal)"
  obtain s' r where r: "ShortestPath ord v s start goal cutoff (rk_Chain goal) (rk_Height goal) = Some (s', r)"
    "search_answer ord v ?ok cutoff start goal r"
    using ShortestPath_answer[OF v s, of start goal cutoff "rk_Chain goal" "rk_Height goal"] nodes unfolding canon profile by blast
  have plan: "replay_Plan ord s profile v start goal direct = Some (bind_res r (planner_choose profile direct))"
    using False r(1) by (simp add: replay_Plan_def cutoff_def)
  have reach: "\<exists>a. rs.reaches start ord v ?ok cutoff goal a \<and> unat a = w" if "plan_walk v profile direct start goal ks w" "w \<le> unat cutoff" for ks w
    using that replay_walk_reaches[OF v, of ks start w cutoff ?ok] by (auto simp: plan_walk_def cutoff_def)
  have far: "unat direct \<le> w + unat (cp_TrustRootUpdateCost profile)" if "\<not> w \<le> unat cutoff" for w using that cut by linarith
  show ?thesis
  proof (cases r)
    case (Inl e)
    then show ?thesis using plan by simp
  next
    case (Inr found)
    show ?thesis
    proof (cases found)
      case None
      then have "\<not> rs.reaches start ord v ?ok cutoff goal c" for c using r(2) Inr by (simp add: search_answer_def)
      then have "unat direct \<le> w + unat (cp_TrustRootUpdateCost profile)" if "plan_walk v profile direct start goal ks w" for ks w
        using reach[OF that] far by blast
      from plan_ok_none[OF this] show ?thesis using plan Inr None by (simp add: planner_choose_def)
    next
      case (Some path)
      then have p: "found_path v ?ok start goal path" "rs.reaches start ord v ?ok cutoff goal (rp_Cost path)"
        "\<forall>c. rs.reaches start ord v ?ok cutoff goal c \<longrightarrow> rp_Cost path \<le> c" using r(2) Inr by (simp_all add: search_answer_def)
      let ?t = "rp_Cost path + cp_TrustRootUpdateCost profile"
      have "unat (rp_Cost path) \<le> unat cutoff" using reaches_ok(1)[OF p(2)] by (simp add: word_le_nat_alt)
      then have le: "unat (rp_Cost path) + unat (cp_TrustRootUpdateCost profile) \<le> unat direct" using cut by linarith
      then have lt: "unat (rp_Cost path) + unat (cp_TrustRootUpdateCost profile) < 2 ^ 64" using unsigned_less[of direct, where 'a = nat] by simp
      then have add: "CheckedAdd (rp_Cost path) (cp_TrustRootUpdateCost profile) = Inr ?t" and t: "unat ?t = unat (rp_Cost path) + unat (cp_TrustRootUpdateCost profile)"
        by (simp_all add: CheckedAdd_Inr unat_word_ariths)
      have best: "unat ?t \<le> w + unat (cp_TrustRootUpdateCost profile)" if "plan_walk v profile direct start goal ks w" for ks w
      proof (cases "w \<le> unat cutoff")
        case True
        then show ?thesis using reach[OF that] p(3) t by (auto simp: word_le_nat_alt)
      next
        case False
        then show ?thesis using far[OF False] le t by linarith
      qed
      have walk: "plan_walk v profile direct start goal (rp_Nodes path) (unat (rp_Cost path))" "path_segments v (rp_Nodes path) = Inr (rp_Segments path)"
        using p(1) by (simp_all add: plan_walk_def found_path_def cutoff_def)
      define c where "c = \<lparr>pc_UseTrustMap = ?t < direct, pc_PathFound = True, pc_Path = path, pc_TotalCost = (if ?t < direct then ?t else direct)\<rparr>"
      have "replay_Plan ord s profile v start goal direct = Some (Inr c)" using plan Inr Some add by (simp add: planner_choose_def Let_def c_def)
      moreover have "unat (pc_TotalCost c) = unat ?t" using le t by (auto simp: c_def word_less_nat_alt)
      then have "plan_ok v profile direct start goal c" using walk lt best le t
        by (simp add: plan_ok_def c_def word_le_nat_alt)
      ultimately show ?thesis by simp
    qed
  qed
qed

subsection \<open>The invariant of a coordinator\<close>

definition coordinator_ok :: "coordinator \<Rightarrow> bool" where
  "coordinator_ok c \<longleftrightarrow> view_ok (co_view c) \<and> rv_profile (co_view c) = co_profile c \<and> (\<forall>chain. co_policy c chain \<noteq> Some 0) \<and>
     (\<not> UsesTrustMap (co_setting c) \<longrightarrow> rv_nodes (co_view c) = {} \<and> rv_edgeCount (co_view c) = 0 \<and> rv_crossEdgesAdded (co_view c) = 0)"

text \<open>Two coordinators that differ in their view and their baselines only.\<close>

definition same_config :: "coordinator \<Rightarrow> coordinator \<Rightarrow> bool" where
  "same_config c c' \<longleftrightarrow> co_setting c' = co_setting c \<and> co_profile c' = co_profile c \<and> co_policy c' = co_policy c"

lemma NewReplayCoordinator_ok:
  assumes "NewReplayCoordinator setting initHeights profile policy = Inr c" "\<And>chain. policy chain \<noteq> Some 0"
  shows "coordinator_ok c \<and> co_setting c = setting \<and> co_profile c = profile \<and> co_policy c = policy"
proof -
  obtain v where v: "NewReplayTrustView profile = Inr v"
    "c = \<lparr>co_setting = setting, co_profile = profile, co_policy = policy, co_view = v, co_baselines = NewReplayBaselines initHeights\<rparr>"
    using assms(1) by (auto simp: NewReplayCoordinator_def split: if_splits)
  then show ?thesis using NewReplayTrustView_ok[OF v(1)] assms(2)
    by (auto simp: coordinator_ok_def NewReplayTrustView_def)
qed

lemma activate_event_ok:
  assumes ok: "coordinator_ok c" and act: "activate_event c event = (c', r)"
  shows "coordinator_ok c'" "same_config c c'" "co_baselines c' = co_baselines c"
    "r = Inr (a, b) \<Longrightarrow> a = block_Key (ev_Destination event) \<and> b = block_Key (ev_Source event)"
    "r = Inr (a, b) \<Longrightarrow> UsesTrustMap (co_setting c) \<Longrightarrow> a \<in> rv_nodes (co_view c') \<and> b \<in> rv_nodes (co_view c')"
proof -
  have "coordinator_ok c' \<and> same_config c c' \<and> co_baselines c' = co_baselines c \<and>
    (\<forall>a b. r = Inr (a, b) \<longrightarrow> a = block_Key (ev_Destination event) \<and> b = block_Key (ev_Source event) \<and>
      (UsesTrustMap (co_setting c) \<longrightarrow> a \<in> rv_nodes (co_view c') \<and> b \<in> rv_nodes (co_view c')))"
  proof (cases "UsesTrustMap (co_setting c)")
    case False
    then show ?thesis using assms by (auto simp: activate_event_def same_config_def)
  next
    case True
    have v: "view_ok (co_view c)" using ok by (simp add: coordinator_ok_def)
    obtain v1 r1 where 1: "activateLocked (co_view c) (ev_Destination event) = (v1, r1)" by fastforce
    note a1 = activate_ok[OF v 1]
    obtain v2 r2 where 2: "activateLocked v1 (ev_Source event) = (v2, r2)" by fastforce
    have "view_ok v1" using a1 by simp
    note a2 = activate_ok[OF this 2]
    show ?thesis
    proof (cases r1)
      case (Inl e)
      then show ?thesis using True act 1 a1 ok by (auto simp: activate_event_def coordinator_ok_def same_config_def)
    next
      case (Inr k)
      then show ?thesis using True act 1 a1 2 a2 ok
        by (cases r2) (auto simp: activate_event_def coordinator_ok_def same_config_def)
    qed
  qed
  then show "coordinator_ok c'" "same_config c c'" "co_baselines c' = co_baselines c"
    "r = Inr (a, b) \<Longrightarrow> a = block_Key (ev_Destination event) \<and> b = block_Key (ev_Source event)"
    "r = Inr (a, b) \<Longrightarrow> UsesTrustMap (co_setting c) \<Longrightarrow> a \<in> rv_nodes (co_view c') \<and> b \<in> rv_nodes (co_view c')" by blast+
qed

text \<open>The baseline of the pair of chains of an event, and the cost of verifying it directly.\<close>

definition event_baseline :: "coordinator \<Rightarrow> replay_event \<Rightarrow> u64" where
  "event_baseline c event = baseline_of (co_baselines c) (rb_Chain (ev_Destination event)) (rb_Chain (ev_Source event))"

definition event_price :: "coordinator \<Rightarrow> replay_event \<Rightarrow> nat" where
  "event_price c event = direct_price (co_profile c) (co_policy c) (UsesCheckpoint (co_setting c)) (rb_Chain (ev_Source event))
     (event_baseline c event) (rb_OriginalHeight (ev_Source event))"

lemma estimate_event_ok:
  assumes "estimate_event c event = (c', r)"
  shows "c' = c\<lparr>co_baselines := fst (baseline_Get (co_baselines c) (rb_Chain (ev_Destination event)) (rb_Chain (ev_Source event)))\<rparr>"
    "r = estimate_from (event_baseline c event) (rb_Chain (ev_Source event)) (rb_OriginalHeight (ev_Source event)) (co_profile c) (co_policy c) (UsesCheckpoint (co_setting c))"
    "estimate_event c' event = (c', r)" "event_baseline c' event' = event_baseline c event'"
proof -
  obtain b x where g: "baseline_Get (co_baselines c) (rb_Chain (ev_Destination event)) (rb_Chain (ev_Source event)) = (b, x)" by fastforce
  note again = baseline_Get_again[OF g]
  show c': "c' = c\<lparr>co_baselines := fst (baseline_Get (co_baselines c) (rb_Chain (ev_Destination event)) (rb_Chain (ev_Source event)))\<rparr>"
    and r: "r = estimate_from (event_baseline c event) (rb_Chain (ev_Source event)) (rb_OriginalHeight (ev_Source event)) (co_profile c) (co_policy c) (UsesCheckpoint (co_setting c))"
    using assms g again(2) by (auto simp: estimate_event_def EstimateDirect_def event_baseline_def)
  have x: "event_baseline c event = x" using again(2) by (simp add: event_baseline_def)
  show "estimate_event c' event = (c', r)" unfolding c' r x using g again(1) by (simp add: estimate_event_def EstimateDirect_def)
  show "event_baseline c' event' = event_baseline c event'" unfolding c' using g again(3) by (simp add: event_baseline_def)
qed

lemma estimate_event_price:
  assumes "estimate_event c event = (c', Inr e)" "\<And>chain. co_policy c chain \<noteq> Some 0"
  shows "de_BaselineBefore e = event_baseline c event" "unat (de_Cost e) = event_price c event"
proof -
  have "case Inr e of
      Inr estimate \<Rightarrow> unat (de_Cost estimate) = event_price c event \<and> de_BaselineBefore estimate = event_baseline c event
    | Inl x \<Rightarrow> x = ErrMsg ''cost overflow'' \<and> 2 ^ 64 \<le> event_price c event"
    unfolding estimate_event_ok(2)[OF assms(1)] event_price_def by (rule estimate_from_cost) (rule assms(2))
  then show "de_BaselineBefore e = event_baseline c event" "unat (de_Cost e) = event_price c event" by simp_all
qed

lemma advance_event_ok:
  assumes "advance_event c event = (c', after)"
  shows "c' = c\<lparr>co_baselines := co_baselines c'\<rparr>" "after = max (event_baseline c event) (rb_OriginalHeight (ev_Source event))"
    "event_baseline c' event' =
      (if rk_Chain (block_Key (ev_Destination event')) = rk_Chain (block_Key (ev_Destination event)) \<and>
          rk_Chain (block_Key (ev_Source event')) = rk_Chain (block_Key (ev_Source event)) then after
       else event_baseline c event')"
proof -
  obtain b where b: "baseline_Advance (co_baselines c) (rb_Chain (ev_Destination event)) (rb_Chain (ev_Source event)) (rb_OriginalHeight (ev_Source event)) = (b, after)"
    "c' = c\<lparr>co_baselines := b\<rparr>" using assms by (auto simp: advance_event_def split: prod.split_asm)
  note m = baseline_Advance_max[OF b(1)]
  show "c' = c\<lparr>co_baselines := co_baselines c'\<rparr>" using b(2) by simp
  show "after = max (event_baseline c event) (rb_OriginalHeight (ev_Source event))" using m(1) by (simp add: event_baseline_def)
  show "event_baseline c' event' =
      (if rk_Chain (block_Key (ev_Destination event')) = rk_Chain (block_Key (ev_Destination event)) \<and>
          rk_Chain (block_Key (ev_Source event')) = rk_Chain (block_Key (ev_Source event)) then after
       else event_baseline c event')"
    by (simp add: b(2) event_baseline_def m(2) block_Key_def)
qed

lemma add_dependency_ok:
  assumes ok: "coordinator_ok c" and add: "add_dependency c event = (c', r)"
  shows "coordinator_ok c' \<and> same_config c c' \<and> co_baselines c' = co_baselines c"
proof (cases "UsesTrustMap (co_setting c)")
  case True
  obtain v r' where v: "AddVerifiedDependency (co_view c) (ev_Destination event) (ev_Source event) = (v, r')" by fastforce
  have "view_ok (co_view c)" using ok by (simp add: coordinator_ok_def)
  note AddVerifiedDependency_ok[OF this v]
  then show ?thesis using True add v ok by (cases r') (auto simp: add_dependency_def coordinator_ok_def same_config_def)
qed (use assms in \<open>auto simp: add_dependency_def same_config_def\<close>)

subsection \<open>Processing an event\<close>

definition planned :: "cost_profile \<Rightarrow> plan_choice \<Rightarrow> replay_decision \<Rightarrow> replay_decision" where
  "planned profile p d =
     d\<lparr>rd_PathFound := pc_PathFound p, rd_Path := pc_Path p, rd_PathCost := (if pc_PathFound p then rp_Cost (pc_Path p) else 0),
       rd_TrustMapTotalCost := (if pc_PathFound p then rp_Cost (pc_Path p) + cp_TrustRootUpdateCost profile else 0),
       rd_Decision := (if pc_UseTrustMap p then ReplayDecisionTrustMap else ReplayDecisionDirect), rd_ChosenCost := pc_TotalCost p\<rparr>"

lemma plan_event_result:
  assumes ok: "coordinator_ok c" and env: "permutes_order ord" "scratch_ok s"
    and nodes: "UsesTrustMap (co_setting c) \<Longrightarrow> start \<in> rv_nodes (co_view c) \<and> goal \<in> rv_nodes (co_view c)"
  shows "\<exists>r. plan_event ord s c start goal (direct_decision c event e) = Some r \<and>
    (\<forall>d. r = Inr d \<longrightarrow> (if UsesTrustMap (co_setting c)
       then \<exists>p. plan_ok (co_view c) (co_profile c) (de_Cost e) start goal p \<and> d = planned (co_profile c) p (direct_decision c event e)
       else d = direct_decision c event e))"
proof (cases "UsesTrustMap (co_setting c)")
  case False
  then show ?thesis by (simp add: plan_event_def direct_decision_def)
next
  case True
  have v: "view_ok (co_view c)" "rv_profile (co_view c) = co_profile c" using ok by (simp_all add: coordinator_ok_def)
  obtain r where r: "replay_Plan ord s (co_profile c) (co_view c) start goal (de_Cost e) = Some r"
    "\<And>p. r = Inr p \<Longrightarrow> plan_ok (co_view c) (co_profile c) (de_Cost e) start goal p"
    using replay_Plan_result[OF v(1) env v(2)] nodes True by blast
  show ?thesis
  proof (cases r)
    case (Inl x)
    then show ?thesis using True r(1) by (simp add: plan_event_def direct_decision_def)
  next
    case (Inr p)
    note p = r(2)[OF Inr]
    have "apply_choice (co_profile c) (direct_decision c event e) p = Inr (planned (co_profile c) p (direct_decision c event e))"
    proof (cases "pc_PathFound p")
      case found: True
      then have "CheckedAdd (rp_Cost (pc_Path p)) (cp_TrustRootUpdateCost (co_profile c)) = Inr (rp_Cost (pc_Path p) + cp_TrustRootUpdateCost (co_profile c))"
        using p by (simp add: plan_ok_def CheckedAdd_Inr)
      then show ?thesis using found p by (simp add: apply_choice_def planned_def plan_ok_def direct_decision_def Let_def)
    next
      case False
      then show ?thesis using p by (simp add: apply_choice_def planned_def plan_ok_def direct_decision_def Let_def)
    qed
    then have "plan_event ord s c start goal (direct_decision c event e) = Some (Inr (planned (co_profile c) p (direct_decision c event e)))"
      using True r(1) Inr by (simp add: plan_event_def direct_decision_def)
    then show ?thesis using True p by auto
  qed
qed

text \<open>A processed event, step by step.\<close>

definition counted_decision :: "coordinator \<Rightarrow> u64 \<Rightarrow> replay_decision \<Rightarrow> replay_decision" where
  "counted_decision c after d =
     (let d = d\<lparr>rd_BaselineAfter := after\<rparr>
      in if rd_PlanningEnabled d
         then d\<lparr>rd_CrossEdgesAdded := rv_crossEdgesAdded (co_view c), rd_GraphNodes := NodeCount (co_view c), rd_GraphEdges := rv_edgeCount (co_view c)\<rparr>
         else d)"

definition processed :: "coordinator \<Rightarrow> replay_event \<Rightarrow> coordinator \<Rightarrow> direct_estimate \<Rightarrow> replay_decision \<Rightarrow> coordinator \<Rightarrow> replay_decision \<Rightarrow> bool" where
  "processed c event c2 e d0 c' d \<longleftrightarrow>
     (\<exists>c1 c3 after. activate_event c event = (c1, Inr (block_Key (ev_Destination event), block_Key (ev_Source event))) \<and>
        estimate_event c1 event = (c2, Inr e) \<and>
        (if UsesTrustMap (co_setting c2)
         then \<exists>p. plan_ok (co_view c2) (co_profile c2) (de_Cost e) (block_Key (ev_Destination event)) (block_Key (ev_Source event)) p \<and>
           d0 = planned (co_profile c2) p (direct_decision c2 event e)
         else d0 = direct_decision c2 event e) \<and>
        advance_event c2 event = (c3, after) \<and> add_dependency c3 event = (c', Inr ()) \<and> d = counted_decision c' after d0)"

lemma replay_Process_result:
  assumes ok: "coordinator_ok c" and env: "permutes_order ord" "scratch_ok s"
  shows "\<exists>c' r. replay_Process ord s c event = Some (c', r) \<and> coordinator_ok c' \<and> same_config c c' \<and>
    (\<forall>d. r = Inr d \<longrightarrow> (\<exists>c2 e d0. coordinator_ok c2 \<and> same_config c c2 \<and> event_baseline c2 event = event_baseline c event \<and> processed c event c2 e d0 c' d))"
proof -
  obtain c1 r1 where 1: "activate_event c event = (c1, r1)" by fastforce
  note a = activate_event_ok[OF ok 1]
  show ?thesis
  proof (cases r1)
    case (Inl x)
    then show ?thesis using 1 a by (simp add: replay_Process_def)
  next
    case (Inr k)
    then have k: "r1 = Inr (block_Key (ev_Destination event), block_Key (ev_Source event))" using a(4) by (cases k) simp
    obtain c2 r2 where 2: "estimate_event c1 event = (c2, r2)" by fastforce
    note e = estimate_event_ok[OF 2]
    have c2: "coordinator_ok c2" "same_config c c2" "co_view c2 = co_view c1" "co_setting c2 = co_setting c"
      using a(1,2) e(1) by (simp_all add: coordinator_ok_def same_config_def)
    have base: "event_baseline c2 event = event_baseline c event" using e(4) a(3) by (simp add: event_baseline_def)
    show ?thesis
    proof (cases r2)
      case (Inl x)
      then show ?thesis using 1 k 2 c2 by (simp add: replay_Process_def)
    next
      case (Inr est)
      have "UsesTrustMap (co_setting c2) \<Longrightarrow> block_Key (ev_Destination event) \<in> rv_nodes (co_view c2) \<and> block_Key (ev_Source event) \<in> rv_nodes (co_view c2)"
        using a(5)[OF k] c2(3,4) by simp
      from plan_event_result[OF c2(1) env this, where event = event and e = est]
      obtain r3 where 3: "plan_event ord s c2 (block_Key (ev_Destination event)) (block_Key (ev_Source event)) (direct_decision c2 event est) = Some r3"
        "\<And>d. r3 = Inr d \<Longrightarrow> if UsesTrustMap (co_setting c2)
          then \<exists>p. plan_ok (co_view c2) (co_profile c2) (de_Cost est) (block_Key (ev_Destination event)) (block_Key (ev_Source event)) p \<and>
            d = planned (co_profile c2) p (direct_decision c2 event est) else d = direct_decision c2 event est" by blast
      show ?thesis
      proof (cases r3)
        case (Inl x)
        then show ?thesis using 1 k 2 Inr 3(1) c2 by (simp add: replay_Process_def)
      next
        case d0: (Inr d0)
        obtain c3 after where 4: "advance_event c2 event = (c3, after)" by fastforce
        obtain b where b: "c3 = c2\<lparr>co_baselines := b\<rparr>" using advance_event_ok(1)[OF 4] by blast
        have c3: "coordinator_ok c3" "same_config c c3" using c2(1,2) unfolding b by (simp_all add: coordinator_ok_def same_config_def)
        obtain c4 r4 where 5: "add_dependency c3 event = (c4, r4)" by fastforce
        note add = add_dependency_ok[OF c3(1) 5]
        have c4: "coordinator_ok c4" "same_config c c4" using add c3(2) by (simp_all add: same_config_def)
        show ?thesis
        proof (cases r4)
          case (Inl x)
          then show ?thesis using 1 k 2 Inr 3(1) d0 4 5 c4 by (simp add: replay_Process_def)
        next
          case r4: (Inr u)
          have "replay_Process ord s c event = Some (c4, Inr (counted_decision c4 after d0))"
            using 1 k 2 Inr 3(1) d0 4 5 r4 by (simp add: replay_Process_def counted_decision_def Let_def)
          moreover have "processed c event c2 est d0 c4 (counted_decision c4 after d0)"
            unfolding processed_def
          proof (rule exI[of _ c1], rule exI[of _ c3], rule exI[of _ after], intro conjI)
            show "activate_event c event = (c1, Inr (block_Key (ev_Destination event), block_Key (ev_Source event)))" using 1 k by simp
            show "estimate_event c1 event = (c2, Inr est)" using 2 Inr by simp
            show "add_dependency c3 event = (c4, Inr ())" using 5 r4 by simp
          qed (rule 3(2)[OF d0] 4 refl)+
          ultimately show ?thesis using c4 c2(1,2) base by blast
        qed
      qed
    qed
  qed
qed

subsection \<open>Restoring a processed event\<close>

lemma counted_fields [simp]:
  "rd_EventID (counted_decision c a d) = rd_EventID d" "rd_Sequence (counted_decision c a d) = rd_Sequence d"
  "rd_Setting (counted_decision c a d) = rd_Setting d" "rd_Decision (counted_decision c a d) = rd_Decision d"
  "rd_PlanningEnabled (counted_decision c a d) = rd_PlanningEnabled d" "rd_BaselineBefore (counted_decision c a d) = rd_BaselineBefore d"
  "rd_BaselineAfter (counted_decision c a d) = a" "rd_DirectStart (counted_decision c a d) = rd_DirectStart d"
  "rd_DirectBlocks (counted_decision c a d) = rd_DirectBlocks d" "rd_CheckpointConfigured (counted_decision c a d) = rd_CheckpointConfigured d"
  "rd_CheckpointPeriod (counted_decision c a d) = rd_CheckpointPeriod d" "rd_CheckpointHeight (counted_decision c a d) = rd_CheckpointHeight d"
  "rd_CheckpointApplied (counted_decision c a d) = rd_CheckpointApplied d" "rd_DirectCost (counted_decision c a d) = rd_DirectCost d"
  "rd_PathFound (counted_decision c a d) = rd_PathFound d" "rd_PathCost (counted_decision c a d) = rd_PathCost d"
  "rd_TrustMapTotalCost (counted_decision c a d) = rd_TrustMapTotalCost d" "rd_ChosenCost (counted_decision c a d) = rd_ChosenCost d"
  "rd_Path (counted_decision c a d) = rd_Path d"
  by (simp_all add: counted_decision_def Let_def)

lemma view_Edge_at:
  assumes "view_ok v" "edge_at v a b = Some e"
  shows "view_Edge v a b = Some e"
  using assms view_edge_nodes[OF assms] by (simp add: view_Edge_def view_ok_def heights_ok_def)

lemma restored_cost_walk:
  assumes v: "view_ok v"
  shows "walk_cost v ks = Some w \<Longrightarrow> path_segments v ks = Inr segs \<Longrightarrow> unat acc + w < 2 ^ 64 \<Longrightarrow>
    restored_cost v ks segs acc = Inr (acc + of_nat w) \<and> length segs + 1 = length ks"
proof (induction ks arbitrary: w segs acc)
  case (Cons a ks)
  show ?case
  proof (cases ks)
    case Nil
    then show ?thesis using Cons.prems by simp
  next
    case (Cons b ks')
    obtain e w' where e: "edge_at v a b = Some e" "walk_cost v ks = Some w'" "w = unat (re_Weight e) + w'"
      using Cons.prems(1) Cons by (auto split: option.split_asm)
    obtain segs' where segs: "path_segments v ks = Inr segs'" "segs = \<lparr>rs_From = a, rs_To = b, rs_Kind = re_Kind e, rs_Weight = re_Weight e\<rparr> # segs'"
      using Cons.prems(2) e(1) Cons by auto
    have lt: "unat acc + unat (re_Weight e) < 2 ^ 64" using Cons.prems(3) e(3) by linarith
    then have add: "CheckedAdd acc (re_Weight e) = Inr (acc + re_Weight e)" "unat (acc + re_Weight e) = unat acc + unat (re_Weight e)"
      by (simp_all add: CheckedAdd_Inr unat_word_ariths)
    have "unat (acc + re_Weight e) + w' < 2 ^ 64" using Cons.prems(3) add(2) e(3) by linarith
    from Cons.IH[OF e(2) segs(1) this]
    show ?thesis using e add segs Cons view_Edge_at[OF v e(1)] by simp
  qed
qed simp

lemma validate_direct:
  assumes "\<not> UsesTrustMap (co_setting c)" "a = max (de_BaselineBefore e) (rb_OriginalHeight (ev_Source event))"
  shows "validateRestoredDecision c event (counted_decision c' a (direct_decision c event e)) e = Inr ()"
  using assms by (auto simp: validateRestoredDecision_def Let_def direct_decision_def no_path_def max_def)

lemma validate_planned:
  assumes ok: "view_ok (co_view c)" and tm: "UsesTrustMap (co_setting c)" and a: "a = max (de_BaselineBefore e) (rb_OriginalHeight (ev_Source event))"
    and p: "plan_ok (co_view c) (co_profile c) (de_Cost e) (block_Key (ev_Destination event)) (block_Key (ev_Source event)) p"
  shows "validateRestoredDecision c event (counted_decision c' a (planned (co_profile c) p (direct_decision c event e))) e = Inr ()"
proof -
  have after: "de_BaselineBefore e < rb_OriginalHeight (ev_Source event) \<longrightarrow> a = rb_OriginalHeight (ev_Source event)"
    "\<not> de_BaselineBefore e < rb_OriginalHeight (ev_Source event) \<longrightarrow> a = de_BaselineBefore e"
    using a by (auto simp: max_def)
  have kinds: "ReplayDecisionTrustMap \<noteq> ReplayDecisionDirect" by (simp add: ReplayDecisionTrustMap_def ReplayDecisionDirect_def)
  show ?thesis
  proof (cases "pc_PathFound p")
    case False
    then show ?thesis using p tm after by (simp add: validateRestoredDecision_def Let_def planned_def direct_decision_def no_path_def plan_ok_def)
  next
    case True
    let ?path = "pc_Path p" let ?t = "rp_Cost (pc_Path p) + cp_TrustRootUpdateCost (co_profile c)"
    have w: "plan_walk (co_view c) (co_profile c) (de_Cost e) (block_Key (ev_Destination event)) (block_Key (ev_Source event)) (rp_Nodes ?path) (unat (rp_Cost ?path))"
      "path_segments (co_view c) (rp_Nodes ?path) = Inr (rp_Segments ?path)" "unat (rp_Cost ?path) + unat (cp_TrustRootUpdateCost (co_profile c)) < 2 ^ 64"
      "pc_UseTrustMap p \<longleftrightarrow> ?t < de_Cost e" "pc_TotalCost p = (if pc_UseTrustMap p then ?t else de_Cost e)"
      using p True by (simp_all add: plan_ok_def)
    have add: "CheckedAdd (rp_Cost ?path) (cp_TrustRootUpdateCost (co_profile c)) = Inr ?t" using w(3) by (simp add: CheckedAdd_Inr)
    have "unat (0 :: u64) + unat (rp_Cost ?path) < 2 ^ 64" using unsigned_less[of "rp_Cost ?path", where 'a = nat] by simp
    from restored_cost_walk[OF ok _ w(2) this] w(1)
    have r: "restored_cost (co_view c) (rp_Nodes ?path) (rp_Segments ?path) 0 = Inr (rp_Cost ?path)" "length (rp_Segments ?path) + 1 = length (rp_Nodes ?path)"
      by (simp_all add: plan_walk_def)
    show ?thesis using True tm w(1,4,5) r add kinds after
      by (simp add: validateRestoredDecision_def Let_def planned_def direct_decision_def plan_walk_def not_less)
  qed
qed

lemma restore_processed:
  assumes ok: "coordinator_ok c" "coordinator_ok c2" "coordinator_ok c'" "same_config c c2" "same_config c c'"
    and p: "processed c event c2 e d0 c' d"
  shows "replay_Restore c event d = (c', Inr ())"
proof -
  obtain c1 c3 after where s: "activate_event c event = (c1, Inr (block_Key (ev_Destination event), block_Key (ev_Source event)))"
    "estimate_event c1 event = (c2, Inr e)"
    "if UsesTrustMap (co_setting c2)
     then \<exists>p. plan_ok (co_view c2) (co_profile c2) (de_Cost e) (block_Key (ev_Destination event)) (block_Key (ev_Source event)) p \<and>
       d0 = planned (co_profile c2) p (direct_decision c2 event e)
     else d0 = direct_decision c2 event e"
    "advance_event c2 event = (c3, after)" "add_dependency c3 event = (c', Inr ())" "d = counted_decision c' after d0"
    using p unfolding processed_def by blast
  note est = estimate_event_ok[OF s(2)]
  have "co_policy c1 = co_policy c2" using est(1) by simp
  then have pos: "co_policy c1 chain \<noteq> Some 0" for chain using ok(2) by (simp add: coordinator_ok_def)
  have before: "de_BaselineBefore e = event_baseline c1 event" using estimate_event_price(1)[OF s(2)] pos by blast
  have after: "after = max (de_BaselineBefore e) (rb_OriginalHeight (ev_Source event))" using advance_event_ok(2)[OF s(4)] est(4)[of event] before by simp
  obtain b x where g: "baseline_Get (co_baselines c1) (rb_Chain (ev_Destination event)) (rb_Chain (ev_Source event)) = (b, x)" by fastforce
  have c2: "c2 = c1\<lparr>co_baselines := b\<rparr>" and x: "x = de_BaselineBefore e"
    using est(1) g before baseline_Get_again(2)[OF g] by (simp_all add: event_baseline_def)
  have d0: "rd_EventID d0 = ev_ID event \<and> rd_Sequence d0 = ev_Sequence event \<and> rd_Setting d0 = co_setting c2 \<and> rd_BaselineBefore d0 = de_BaselineBefore e \<and>
      rd_PlanningEnabled d0 = UsesTrustMap (co_setting c2) \<and> rd_CrossEdgesAdded d0 = 0 \<and> rd_GraphNodes d0 = 0 \<and> rd_GraphEdges d0 = 0"
    using s(3) by (auto simp: planned_def direct_decision_def split: if_splits)
  have valid: "validateRestoredDecision c2 event d e = Inr ()"
  proof (cases "UsesTrustMap (co_setting c2)")
    case True
    then show ?thesis using s(3,6) validate_planned[OF _ True after] ok(2) by (auto simp: coordinator_ok_def)
  next
    case False
    then show ?thesis using s(3,6) validate_direct[OF False after] by simp
  qed
  have counters: "NodeCount (co_view c') = rd_GraphNodes d \<and> rv_edgeCount (co_view c') = rd_GraphEdges d \<and> rv_crossEdgesAdded (co_view c') = rd_CrossEdgesAdded d"
  proof (cases "UsesTrustMap (co_setting c2)")
    case True
    then show ?thesis using s(6) d0 by (simp add: counted_decision_def Let_def)
  next
    case False
    then have "\<not> UsesTrustMap (co_setting c')" using ok(4,5) by (simp add: same_config_def)
    then show ?thesis using False s(6) d0 ok(3) by (simp add: counted_decision_def Let_def coordinator_ok_def NodeCount_def)
  qed
  have set: "co_setting c2 = co_setting c" using ok(4) by (simp add: same_config_def)
  have ids: "rd_EventID d = ev_ID event" "rd_Sequence d = ev_Sequence event" "rd_Setting d = co_setting c"
    "rd_BaselineBefore d = de_BaselineBefore e" "rd_BaselineAfter d = after" unfolding s(6) using d0 set by simp_all
  show ?thesis unfolding replay_Restore_def using ids s(1) g x est(3) valid s(4,5) counters by (simp add: Let_def flip: c2)
qed

subsection \<open>Reachable coordinators\<close>

lemma replay_Restore_ok:
  assumes ok: "coordinator_ok c" and r: "replay_Restore c event d = (c', r)"
  shows "coordinator_ok c' \<and> same_config c c'"
proof -
  obtain c1 r1 where 1: "activate_event c event = (c1, r1)" by fastforce
  note a = activate_event_ok(1,2)[OF ok 1]
  obtain b x where g: "baseline_Get (co_baselines c1) (rb_Chain (ev_Destination event)) (rb_Chain (ev_Source event)) = (b, x)" by fastforce
  let ?c = "c1\<lparr>co_baselines := b\<rparr>"
  obtain c2 r2 where 2: "estimate_event ?c event = (c2, r2)" by fastforce
  obtain c3 after where 3: "advance_event c2 event = (c3, after)" by fastforce
  obtain c4 r4 where 4: "add_dependency c3 event = (c4, r4)" by fastforce
  have c: "coordinator_ok ?c" "same_config c ?c" using a by (simp_all add: coordinator_ok_def same_config_def)
  obtain b2 where "c2 = ?c\<lparr>co_baselines := b2\<rparr>" using estimate_event_ok(1)[OF 2] by blast
  then have c2: "coordinator_ok c2" "same_config c c2" using c by (simp_all add: coordinator_ok_def same_config_def)
  obtain b3 where "c3 = c2\<lparr>co_baselines := b3\<rparr>" using advance_event_ok(1)[OF 3] by blast
  then have c3: "coordinator_ok c3" "same_config c c3" using c2 by (simp_all add: coordinator_ok_def same_config_def)
  have c4: "coordinator_ok c4" "same_config c c4" using add_dependency_ok[OF c3(1) 4] c3(2) by (simp_all add: same_config_def)
  have "c' \<in> {c, c1, ?c, c2, c3, c4}"
    using r unfolding replay_Restore_def 1 Let_def
    by (simp add: g 2 3 4 split: if_splits sum.split_asm)
  moreover have "same_config c c" by (simp add: same_config_def)
  ultimately show ?thesis using ok a c c2 c3 c4 by blast
qed

inductive reachable_coordinator :: "coordinator \<Rightarrow> bool" where
  coordinator_new: "NewCheckpointPolicy periods = Inr policy \<Longrightarrow> NewReplayCoordinator setting initHeights profile policy = Inr c \<Longrightarrow> reachable_coordinator c"
| coordinator_process: "reachable_coordinator c \<Longrightarrow> permutes_order ord \<Longrightarrow> scratch_ok s \<Longrightarrow> replay_Process ord s c event = Some (c', r) \<Longrightarrow> reachable_coordinator c'"
| coordinator_restore: "reachable_coordinator c \<Longrightarrow> replay_Restore c event d = (c', r') \<Longrightarrow> reachable_coordinator c'"

lemma reachable_coordinator_ok: "reachable_coordinator c \<Longrightarrow> coordinator_ok c"
proof (induction rule: reachable_coordinator.induct)
  case (coordinator_new periods policy setting initHeights profile c)
  then show ?case using NewReplayCoordinator_ok NewCheckpointPolicy_pos by blast
next
  case (coordinator_process c ord s event c' r)
  then show ?case using replay_Process_result[of c ord s event] by auto
next
  case (coordinator_restore c event d c' r)
  then show ?case using replay_Restore_ok by blast
qed

text \<open>
  The decision an event calls for: priced directly from its baseline, and with planning the cheaper of that and of a
  cheapest admissible walk of the view that has the two blocks of the event.
\<close>

definition optimal_decision :: "coordinator \<Rightarrow> replay_event \<Rightarrow> replay_decision \<Rightarrow> bool" where
  "optimal_decision c event d \<longleftrightarrow>
     (let v = co_view (fst (activate_event c event));
          walk = plan_walk v (co_profile c) (rd_DirectCost d) (block_Key (ev_Destination event)) (block_Key (ev_Source event));
          update = unat (cp_TrustRootUpdateCost (co_profile c))
      in unat (rd_DirectCost d) = event_price c event \<and> rd_BaselineBefore d = event_baseline c event \<and>
         rd_BaselineAfter d = max (event_baseline c event) (rb_OriginalHeight (ev_Source event)) \<and>
         rd_ChosenCost d \<le> rd_DirectCost d \<and>
         (if rd_Decision d = ReplayDecisionTrustMap
          then walk (rp_Nodes (rd_Path d)) (unat (rp_Cost (rd_Path d))) \<and> unat (rd_ChosenCost d) = unat (rp_Cost (rd_Path d)) + update \<and>
            rd_ChosenCost d < rd_DirectCost d
          else rd_ChosenCost d = rd_DirectCost d) \<and>
         (UsesTrustMap (co_setting c) \<longrightarrow> (\<forall>ks w. walk ks w \<longrightarrow> unat (rd_ChosenCost d) \<le> w + update)))"

lemma processed_optimal:
  assumes p: "coordinator_ok c2" "same_config c c2" "event_baseline c2 event = event_baseline c event" "processed c event c2 e d0 c' d"
  shows "optimal_decision c event d"
proof -
  from p(4) obtain c1 c3 after where s: "activate_event c event = (c1, Inr (block_Key (ev_Destination event), block_Key (ev_Source event)))"
    "estimate_event c1 event = (c2, Inr e)"
    "if UsesTrustMap (co_setting c2)
     then \<exists>p. plan_ok (co_view c2) (co_profile c2) (de_Cost e) (block_Key (ev_Destination event)) (block_Key (ev_Source event)) p \<and>
       d0 = planned (co_profile c2) p (direct_decision c2 event e)
     else d0 = direct_decision c2 event e"
    "advance_event c2 event = (c3, after)" "d = counted_decision c' after d0"
    unfolding processed_def by blast
  note est = estimate_event_ok[OF s(2)]
  have kinds: "ReplayDecisionDirect \<noteq> ReplayDecisionTrustMap" by (simp add: ReplayDecisionTrustMap_def ReplayDecisionDirect_def)
  have c1: "co_view c2 = co_view c1" "co_policy c1 = co_policy c2" "co_profile c1 = co_profile c2" "co_setting c1 = co_setting c2" using est(1) by simp_all
  have cfg: "co_setting c2 = co_setting c" "co_profile c2 = co_profile c" "co_policy c2 = co_policy c" using p(2) by (simp_all add: same_config_def)
  have base: "event_baseline c1 event = event_baseline c event" using est(4)[of event] p(3) by simp
  have "co_policy c1 chain \<noteq> Some 0" for chain using p(1) c1 by (simp add: coordinator_ok_def)
  note price = estimate_event_price[OF s(2) this]
  have cost: "unat (de_Cost e) = event_price c event" using price(2) base c1 cfg by (simp add: event_price_def)
  have before: "de_BaselineBefore e = event_baseline c event" using price(1) base by simp
  have after: "after = max (event_baseline c event) (rb_OriginalHeight (ev_Source event))" using advance_event_ok(2)[OF s(4)] p(3) by simp
  have v: "co_view (fst (activate_event c event)) = co_view c2" using s(1) c1 by simp
  show ?thesis
  proof (cases "UsesTrustMap (co_setting c2)")
    case False
    then show ?thesis using s(3) cost before after kinds cfg unfolding optimal_decision_def Let_def v s(5) by (simp add: direct_decision_def)
  next
    case True
    then obtain q where q: "plan_ok (co_view c2) (co_profile c2) (de_Cost e) (block_Key (ev_Destination event)) (block_Key (ev_Source event)) q"
      "d0 = planned (co_profile c2) q (direct_decision c2 event e)" using s(3) by auto
    have sum: "pc_PathFound q \<Longrightarrow> unat (rp_Cost (pc_Path q) + cp_TrustRootUpdateCost (co_profile c)) = unat (rp_Cost (pc_Path q)) + unat (cp_TrustRootUpdateCost (co_profile c))"
      using q(1) cfg by (simp add: plan_ok_def unat_word_ariths)
    show ?thesis using q(1) sum cost before after kinds cfg True unfolding optimal_decision_def Let_def v s(5) q(2)
      by (auto simp: planned_def direct_decision_def plan_ok_def split: if_splits)
  qed
qed

lemma Process_Restore:
  assumes ok: "coordinator_ok c" and env: "permutes_order ord" "scratch_ok s" and p: "replay_Process ord s c event = Some (c', Inr d)"
  shows "replay_Restore c event d = (c', Inr ())"
proof -
  obtain c2 e d0 where "coordinator_ok c2" "same_config c c2" "processed c event c2 e d0 c' d" "coordinator_ok c'" "same_config c c'"
    using replay_Process_result[OF ok env, of event] p by auto
  then show ?thesis using restore_processed[OF ok] by blast
qed

lemma Process_same:
  assumes ok: "coordinator_ok c" and env: "permutes_order ord" "permutes_order ord'" "scratch_ok s" "scratch_ok t"
  shows "replay_Process ord s c event = replay_Process ord' t c event"
proof -
  have plan: "replay_Plan ord s profile v start goal direct = replay_Plan ord' t profile v start goal direct" if v: "view_ok v" for profile v start goal direct
  proof -
    have "(\<lambda>(_ :: search_scratch, r). f r) = f \<circ> snd" for f :: "replay_path option res \<Rightarrow> plan_choice res" by auto
    then have "map_option (\<lambda>(_ :: search_scratch, r). f r) x = map_option f (map_option snd x)" for f :: "replay_path option res \<Rightarrow> plan_choice res" and x
      by (simp add: option.map_comp)
    then show ?thesis unfolding replay_Plan_def using ShortestPath_same[OF v env] by simp
  qed
  obtain c1 r1 where 1: "activate_event c event = (c1, r1)" by fastforce
  obtain c2 r2 where 2: "estimate_event c1 event = (c2, r2)" by fastforce
  have "view_ok (co_view c2)" using activate_event_ok(1)[OF ok 1] estimate_event_ok(1)[OF 2] by (simp add: coordinator_ok_def)
  then have "plan_event ord s c2 a b d = plan_event ord' t c2 a b d" for a b d unfolding plan_event_def using plan by simp
  then show ?thesis unfolding replay_Process_def 1 by (simp add: 2 split: sum.split prod.split)
qed

text \<open>
  C33. Processing an event on a reachable coordinator always returns. The direct cost of the decision is the price of
  the blocks between the target and the baseline, or the checkpoint where one applies. The chosen cost never exceeds
  it; a TrustMap decision follows a walk of the graph, costs that walk and the update of the TrustRoot, and is strictly
  cheaper, and with planning no admissible walk, the update included, would have been cheaper than the chosen cost. The baseline moves to the maximum of itself and the target height. The
  outcome does not depend on the order of Go maps or on the scratch space.
\<close>

theorem replay_decision_optimal:
  assumes c: "reachable_coordinator c" and env: "permutes_order ord" "scratch_ok s"
  shows "\<exists>c' r. replay_Process ord s c event = Some (c', r) \<and> (\<forall>d. r = Inr d \<longrightarrow> optimal_decision c event d) \<and>
    (\<forall>ord' t. permutes_order ord' \<and> scratch_ok t \<longrightarrow> replay_Process ord' t c event = Some (c', r))"
proof -
  have ok: "coordinator_ok c" using c by (rule reachable_coordinator_ok)
  obtain c' r where r: "replay_Process ord s c event = Some (c', r)"
    "\<And>d. r = Inr d \<Longrightarrow> \<exists>c2 e d0. coordinator_ok c2 \<and> same_config c c2 \<and> event_baseline c2 event = event_baseline c event \<and> processed c event c2 e d0 c' d"
    using replay_Process_result[OF ok env] by blast
  have "optimal_decision c event d" if "r = Inr d" for d using r(2)[OF that] processed_optimal by blast
  moreover have "replay_Process ord' t c event = Some (c', r)" if "permutes_order ord'" "scratch_ok t" for ord' t
    using Process_same[OF ok that(1) env(1) that(2) env(2)] r(1) by simp
  ultimately show ?thesis using r(1) by blast
qed

text \<open>
  Restoring what was processed is exact: for every decision that \<open>Process\<close> returned on a reachable coordinator,
  \<open>Restore\<close> accepts the event with that decision on the same coordinator, reaches the same state as \<open>Process\<close> did and
  needs neither the search nor its scratch space.
\<close>

theorem replay_restore_roundtrip:
  assumes c: "reachable_coordinator c" and env: "permutes_order ord" "scratch_ok s"
    and p: "replay_Process ord s c event = Some (c', Inr d)"
  shows "replay_Restore c event d = (c', Inr ())"
  using Process_Restore[OF reachable_coordinator_ok[OF c] env p] .

subsection \<open>An example\<close>

definition example_event :: "string \<Rightarrow> u64 \<Rightarrow> string \<Rightarrow> u64 \<Rightarrow> u64 \<Rightarrow> replay_event" where
  "example_event dst dstHeight src srcHeight n =
     \<lparr>ev_ID = ''event'', ev_OriginalRow = n + 1, ev_Sequence = n, ev_Source = \<lparr>rb_Chain = src, rb_OriginalHeight = srcHeight, rb_NormalizedHeight = 0\<rparr>,
      ev_Destination = \<lparr>rb_Chain = dst, rb_OriginalHeight = dstHeight, rb_NormalizedHeight = 0\<rparr>, ev_SourceTime = 0, ev_BridgeName = '''',
      ev_TxCount = 1, ev_VolumeUSD = ''''\<rparr>"

definition example_start :: coordinator where
  "example_start =
     (case NewCheckpointPolicy [(''B'', 100)] of Inr policy \<Rightarrow>
        (case NewReplayCoordinator ''B3'' [(''a'', 2), (''b'', 3), (''c'', 5)] LegacyV41CostProfile policy of Inr c \<Rightarrow> c))"

definition example_step :: "coordinator \<Rightarrow> replay_event \<Rightarrow> coordinator" where
  "example_step c event = fst (the (replay_Process (\<lambda>k xs. xs) empty_scratch c event))"

definition example_coordinator :: coordinator where
  "example_coordinator = example_step (example_step example_start (example_event ''a'' 2 ''b'' 9 0)) (example_event ''c'' 5 ''a'' 2 1)"

lemma example_env: "permutes_order (\<lambda>k xs. xs)" "scratch_ok empty_scratch"
  by (simp_all add: permutes_order_def scratch_ok_def empty_scratch_def)

lemma example_start_reachable: "reachable_coordinator example_start"
proof -
  have "isl (NewCheckpointPolicy [(''B'', 100)]) = False" by code_simp
  then obtain policy where p: "NewCheckpointPolicy [(''B'', 100)] = Inr policy" by (cases "NewCheckpointPolicy [(''B'', 100)]") simp_all
  have "TrimSpace ''legacy-v4.1'' \<noteq> []" by (simp add: TrimSpace_def is_space_def)
  then obtain c where c: "NewReplayCoordinator ''B3'' [(''a'', 2), (''b'', 3), (''c'', 5)] LegacyV41CostProfile policy = Inr c"
    by (simp add: NewReplayCoordinator_def NewReplayTrustView_def cost_Validate_def LegacyV41CostProfile_def)
  show ?thesis using coordinator_new[OF p c] by (simp add: example_start_def p c)
qed

lemma example_step_reachable:
  assumes "reachable_coordinator c"
  shows "reachable_coordinator (example_step c event)"
proof -
  obtain c' r where "replay_Process (\<lambda>k xs. xs) empty_scratch c event = Some (c', r)"
    using replay_Process_result[OF reachable_coordinator_ok[OF assms] example_env] by blast
  then show ?thesis using coordinator_process[OF assms example_env] by (simp add: example_step_def)
qed

lemma example_coordinator_reachable: "reachable_coordinator example_coordinator"
  unfolding example_coordinator_def by (intro example_step_reachable example_start_reachable)

lemma example_decision:
  "case replay_Process (\<lambda>k xs. xs) empty_scratch example_coordinator (example_event ''C'' 6 ''B'' 9 2) of
     Some (c, Inr d) \<Rightarrow> rd_Decision d = ReplayDecisionTrustMap \<and> rd_ChosenCost d = 200000 \<and> rd_DirectCost d = 18000000
   | _ \<Rightarrow> False"
  by code_simp

theorem replay_decision_optimal_witness:
  "\<exists>d. optimal_decision example_coordinator (example_event ''C'' 6 ''B'' 9 2) d \<and> rd_Decision d = ReplayDecisionTrustMap \<and>
     rd_ChosenCost d = 200000 \<and> rd_DirectCost d = 18000000"
proof -
  obtain c d where d: "replay_Process (\<lambda>k xs. xs) empty_scratch example_coordinator (example_event ''C'' 6 ''B'' 9 2) = Some (c, Inr d)"
    "rd_Decision d = ReplayDecisionTrustMap \<and> rd_ChosenCost d = 200000 \<and> rd_DirectCost d = 18000000"
    using example_decision by (auto split: option.split_asm prod.split_asm sum.split_asm)
  then show ?thesis using replay_decision_optimal[OF example_coordinator_reachable example_env, of "example_event ''C'' 6 ''B'' 9 2"] by auto
qed

theorem replay_restore_roundtrip_witness:
  "\<exists>c d. replay_Process (\<lambda>k xs. xs) empty_scratch example_coordinator (example_event ''C'' 6 ''B'' 9 2) = Some (c, Inr d) \<and>
     replay_Restore example_coordinator (example_event ''C'' 6 ''B'' 9 2) d = (c, Inr ())"
proof -
  obtain c d where d: "replay_Process (\<lambda>k xs. xs) empty_scratch example_coordinator (example_event ''C'' 6 ''B'' 9 2) = Some (c, Inr d)"
    using example_decision by (auto split: option.split_asm prod.split_asm sum.split_asm)
  from replay_restore_roundtrip[OF example_coordinator_reachable example_env d] d show ?thesis by blast
qed

end
