(* ===== verification/Replay_Store.thy ===== *)
theory Replay_Store
  imports Replay
begin

text \<open>
  \<open>Mapnode/replay/replay_repository.go\<close> and the loop of \<open>run.go\<close>: the database of a replay run, in which every processed
  event is committed with its decision and with the tables derived from both, and the recovery of a coordinator from it.

  A table is the list of its rows in the order of insertion; a failed transaction leaves the database unchanged. A JSON
  column holds the value it encodes. \<open>D\<close> is the digest over the JSON of an event and of its decision, and \<open>bindable\<close>
  says which numbers the database driver accepts as SQL integers; both are parameters. Cancellation, progress lines and
  the export after the loop are left out, as are the file of the database and its durability settings.
\<close>

subsection \<open>Tables\<close>

record run_identity =
  ri_RunID :: string
  ri_Setting :: setting
  ri_TraceDigest :: string
  ri_PreparedRows :: u64
  ri_ImplementationVersion :: string
  ri_SchemaVersion :: int
  ri_GitCommit :: string
  ri_CostProfileFingerprint :: string
  ri_CheckpointPolicyFingerprint :: string
  ri_SelectionFingerprint :: string
  ri_RecordEvery :: u64
  ri_LogEvery :: u64

record replay_snapshot =
  sp_Sequence :: u64
  sp_Time :: int
  sp_GraphNodes :: u64
  sp_GraphEdges :: u64
  sp_CrossEdgesAdded :: u64

record committed_event =
  ce_Event :: replay_event
  ce_Decision :: replay_decision
  ce_Snapshot :: "replay_snapshot option"

record decision_row =
  dr_decision :: replay_decision
  dr_direct_cost :: u64
  dr_chosen_cost :: u64
  dr_kind :: string
  dr_digest :: string

type_synonym edge_row = "string \<times> u64 \<times> string \<times> u64"

record replay_db =
  rt_runs :: "(string \<times> run_identity) list"
  rt_events :: "(u64 \<times> string \<times> replay_event) list"
  rt_progress :: "(u64 \<times> u64 option) option"
  rt_baselines :: "((string \<times> string) \<times> u64) list"
  rt_decisions :: "(u64 \<times> decision_row) list"
  rt_paths :: "(u64 \<times> replay_path) list"
  rt_cross_edges :: "(u64 \<times> edge_row) list"
  rt_snapshots :: "(u64 \<times> replay_snapshot) list"

definition empty_replay_db :: replay_db where
  "empty_replay_db = \<lparr>rt_runs = [], rt_events = [], rt_progress = None, rt_baselines = [], rt_decisions = [], rt_paths = [], rt_cross_edges = [], rt_snapshots = []\<rparr>"

definition insert_row :: "'k \<Rightarrow> 'v \<Rightarrow> ('k \<times> 'v) list \<Rightarrow> ('k \<times> 'v) list res" where
  "insert_row k v rows = (if k \<in> set (map fst rows) then Inl (ErrMsg ''UNIQUE constraint failed'') else Inr (rows @ [(k, v)]))"

definition bind_number :: "(u64 \<Rightarrow> bool) \<Rightarrow> u64 \<Rightarrow> unit res" where
  "bind_number bindable n = (if bindable n then Inr () else Inl (ErrMsg ''uint64 value is not supported''))"

subsection \<open>Opening a run\<close>

definition identity_ok :: "run_identity \<Rightarrow> run_identity res" where
  "identity_ok identity =
     (let identity = (if ri_SchemaVersion identity = 0 then identity\<lparr>ri_SchemaVersion := 2\<rparr> else identity)
      in if ri_SchemaVersion identity \<noteq> 2 \<or> ri_RunID identity = '''' \<or> ri_TraceDigest identity = '''' then Inl (ErrMsg ''invalid replay run identity'')
         else if ri_Setting identity \<notin> {''B0'', ''B1'', ''B2'', ''B3''} then Inl (ErrMsg ''invalid replay run identity setting'')
         else Inr identity)"

definition initialize :: "run_identity \<Rightarrow> replay_db \<Rightarrow> replay_db res" where
  "initialize identity db =
     bind_res
       (case rt_runs db of
          [] \<Rightarrow> if rt_progress db \<noteq> None then Inl (ErrMsg ''UNIQUE constraint failed'')
                else Inr (db\<lparr>rt_runs := [(ri_RunID identity, identity)], rt_progress := Some (0, None)\<rparr>)
        | (_, existing) # _ \<Rightarrow> if existing \<noteq> identity then Inl (ErrMsg ''replay run identity conflict'') else Inr db)
       (\<lambda>db. if rt_progress db = None then Inl (ErrMsg ''replay run identity exists without progress state'') else Inr db)"

definition OpenReplayRepository :: "run_identity \<Rightarrow> replay_db \<Rightarrow> (run_identity \<times> replay_db) res" where
  "OpenReplayRepository identity db = bind_res (identity_ok identity) (\<lambda>identity. bind_res (initialize identity db) (\<lambda>db. Inr (identity, db)))"

subsection \<open>Committing an event\<close>

definition snapshot_matches :: "replay_snapshot \<Rightarrow> replay_event \<Rightarrow> replay_decision \<Rightarrow> bool" where
  "snapshot_matches snapshot event d \<longleftrightarrow> sp_Sequence snapshot = ev_Sequence event \<and> sp_Time snapshot = ev_SourceTime event \<and>
     sp_GraphNodes snapshot = rd_GraphNodes d \<and> sp_GraphEdges snapshot = rd_GraphEdges d \<and> sp_CrossEdgesAdded snapshot = rd_CrossEdgesAdded d"

definition edge_row_of :: "replay_event \<Rightarrow> edge_row" where
  "edge_row_of event =
     (canonicalChain (rb_Chain (ev_Destination event)), rb_OriginalHeight (ev_Destination event),
      canonicalChain (rb_Chain (ev_Source event)), rb_OriginalHeight (ev_Source event))"

definition baseline_key :: "replay_event \<Rightarrow> string \<times> string" where
  "baseline_key event = (canonicalChain (rb_Chain (ev_Destination event)), canonicalChain (rb_Chain (ev_Source event)))"

definition decision_row_of :: "(replay_event \<Rightarrow> replay_decision \<Rightarrow> string) \<Rightarrow> replay_event \<Rightarrow> replay_decision \<Rightarrow> decision_row" where
  "decision_row_of D event d =
     \<lparr>dr_decision = d, dr_direct_cost = rd_DirectCost d, dr_chosen_cost = rd_ChosenCost d, dr_kind = rd_Decision d, dr_digest = D event d\<rparr>"

definition bind_event :: "(u64 \<Rightarrow> bool) \<Rightarrow> replay_event \<Rightarrow> replay_decision \<Rightarrow> unit res" where
  "bind_event bindable event d =
     (if bindable (ev_Sequence event) \<and> bindable (rd_DirectCost d) \<and> bindable (rd_ChosenCost d) \<and> bindable (rd_BaselineAfter d) \<and>
        bindable (rb_OriginalHeight (ev_Destination event)) \<and> bindable (rb_OriginalHeight (ev_Source event)) \<and> bindable (ev_Sequence event + 1)
      then Inr () else Inl (ErrMsg ''uint64 value is not supported''))"

definition insert_event ::
  "(replay_event \<Rightarrow> replay_decision \<Rightarrow> string) \<Rightarrow> replay_db \<Rightarrow> replay_event \<Rightarrow> replay_decision \<Rightarrow> replay_snapshot option \<Rightarrow> replay_db res" where
  "insert_event D db event d snapshot =
     (let sequence = ev_Sequence event
      in if ev_ID event \<in> (fst \<circ> snd) ` set (rt_events db) then Inl (ErrMsg ''UNIQUE constraint failed'')
         else bind_res (insert_row sequence (ev_ID event, event) (rt_events db)) (\<lambda>events.
              bind_res (insert_row sequence (decision_row_of D event d) (rt_decisions db)) (\<lambda>decisions.
              bind_res (if rd_Decision d = ReplayDecisionTrustMap then insert_row sequence (rd_Path d) (rt_paths db) else Inr (rt_paths db)) (\<lambda>paths.
              bind_res (insert_row sequence (edge_row_of event) (rt_cross_edges db)) (\<lambda>cross.
              bind_res (case snapshot of None \<Rightarrow> Inr (rt_snapshots db) | Some s \<Rightarrow> insert_row sequence s (rt_snapshots db)) (\<lambda>snapshots.
              Inr (db\<lparr>rt_events := events, rt_decisions := decisions, rt_paths := paths,
                      rt_baselines := AList.update (baseline_key event) (rd_BaselineAfter d) (rt_baselines db), rt_cross_edges := cross,
                      rt_snapshots := snapshots, rt_progress := Some (sequence + 1, Some sequence)\<rparr>)))))))"

definition CommitEvent ::
  "(replay_event \<Rightarrow> replay_decision \<Rightarrow> string) \<Rightarrow> (u64 \<Rightarrow> bool) \<Rightarrow> run_identity \<Rightarrow> replay_db \<Rightarrow> replay_event \<Rightarrow> replay_decision \<Rightarrow>
     replay_snapshot option \<Rightarrow> replay_db res" where
  "CommitEvent D bindable identity db event d snapshot =
     (if ev_ID event = '''' \<or> rd_EventID d \<noteq> ev_ID event \<or> rd_Sequence d \<noteq> ev_Sequence event \<or> rd_Setting d \<noteq> ri_Setting identity
      then Inl (ErrMsg ''replay event transaction identity mismatch'')
      else if (case snapshot of None \<Rightarrow> False | Some s \<Rightarrow> \<not> snapshot_matches s event d)
      then Inl (ErrMsg ''replay snapshot conflict: does not match event decision'')
      else bind_res (bind_number bindable (ev_Sequence event)) (\<lambda>_.
        case (map_of (rt_events db) (ev_Sequence event), map_of (rt_decisions db) (ev_Sequence event)) of
          (Some (_, existingEvent), Some existing) \<Rightarrow>
            if existingEvent = event \<and> dr_decision existing = d \<and> map_of (rt_snapshots db) (ev_Sequence event) = snapshot then Inr db
            else Inl (ErrMsg ''replay event conflict'')
        | _ \<Rightarrow>
            (case rt_progress db of
               None \<Rightarrow> Inl (ErrMsg ''read replay progress'')
             | Some (completed, _) \<Rightarrow>
                 if ev_Sequence event \<noteq> completed then Inl (ErrMsg ''replay sequence conflict'')
                 else bind_res (bind_event bindable event d) (\<lambda>_. insert_event D db event d snapshot))))"

subsection \<open>Reading back\<close>

text \<open>The events joined with their decisions and snapshots, in the order of their sequence numbers.\<close>

definition joined_rows :: "replay_db \<Rightarrow> (u64 \<times> replay_event \<times> decision_row) list" where
  "joined_rows db =
     List.map_filter (\<lambda>(sequence, _, event). map_option (\<lambda>row. (sequence, event, row)) (map_of (rt_decisions db) sequence))
       (sort_key fst (rt_events db))"

fun each_completed ::
  "(committed_event \<Rightarrow> 's \<Rightarrow> 's res) \<Rightarrow> replay_db \<Rightarrow> u64 \<Rightarrow> (u64 \<times> replay_event \<times> decision_row) list \<Rightarrow> 's \<Rightarrow> 's res" where
  "each_completed visit db expected [] s = Inr s"
| "each_completed visit db expected ((sequence, event, row) # rows) s =
     (let d = dr_decision row;
          item = \<lparr>ce_Event = event, ce_Decision = d, ce_Snapshot = map_of (rt_snapshots db) sequence\<rparr>
      in if ev_Sequence event \<noteq> expected \<or> rd_Sequence d \<noteq> expected \<or> ev_ID event \<noteq> rd_EventID d
         then Inl (ErrMsg ''completed replay event sequence is inconsistent'')
         else bind_res (visit item s) (each_completed visit db (expected + 1) rows))"

definition ForEachCompleted :: "(committed_event \<Rightarrow> 's \<Rightarrow> 's res) \<Rightarrow> replay_db \<Rightarrow> 's \<Rightarrow> 's res" where
  "ForEachCompleted visit db s = each_completed visit db 0 (joined_rows db) s"

subsection \<open>Checking the derived tables\<close>

record derived_state =
  ds_completed :: u64
  ds_paths :: u64
  ds_snapshots :: u64
  ds_baselines :: "((string \<times> string) \<times> u64) list"

definition verify_row ::
  "(replay_event \<Rightarrow> replay_decision \<Rightarrow> string) \<Rightarrow> run_identity \<Rightarrow> replay_db \<Rightarrow> u64 \<times> replay_event \<times> decision_row \<Rightarrow> derived_state \<Rightarrow> derived_state res" where
  "verify_row D identity db = (\<lambda>(sequence, event, row) s.
     let d = dr_decision row; path = map_of (rt_paths db) sequence; snapshot = map_of (rt_snapshots db) sequence;
         selected = (rd_Decision d = ReplayDecisionTrustMap);
         expectsSnapshot = (UsesTrustMap (ri_Setting identity) \<and> ri_RecordEvery identity > 0 \<and> sequence mod ri_RecordEvery identity = 0)
     in if sequence \<noteq> ds_completed s \<or> ev_Sequence event \<noteq> sequence \<or> rd_Sequence d \<noteq> sequence \<or> ev_ID event \<noteq> rd_EventID d
        then Inl (ErrMsg ''completed replay event sequence is inconsistent'')
        else if dr_direct_cost row \<noteq> rd_DirectCost d \<or> dr_chosen_cost row \<noteq> rd_ChosenCost d \<or> dr_kind row \<noteq> rd_Decision d
        then Inl (ErrMsg ''persisted decision scalar columns do not match decision JSON'')
        else if dr_digest row \<noteq> D event d then Inl (ErrMsg ''persisted decision integrity digest does not match event and decision JSON'')
        else if map_of (rt_cross_edges db) sequence \<noteq> Some (edge_row_of event) then Inl (ErrMsg ''persisted cross edge does not match completed event'')
        else if (if selected then path \<noteq> Some (rd_Path d) else path \<noteq> None) then Inl (ErrMsg ''persisted path does not match selected decision'')
        else if expectsSnapshot \<noteq> (snapshot \<noteq> None) then Inl (ErrMsg ''persisted snapshot does not match record interval'')
        else if (case snapshot of None \<Rightarrow> False | Some sp \<Rightarrow> \<not> snapshot_matches sp event d) then Inl (ErrMsg ''persisted snapshot does not match decision'')
        else Inr (s\<lparr>ds_completed := ds_completed s + 1, ds_paths := (if selected then ds_paths s + 1 else ds_paths s),
                    ds_snapshots := (if snapshot \<noteq> None then ds_snapshots s + 1 else ds_snapshots s),
                    ds_baselines := AList.update (baseline_key event) (rd_BaselineAfter d) (ds_baselines s)\<rparr>))"

fun verify_rows ::
  "(replay_event \<Rightarrow> replay_decision \<Rightarrow> string) \<Rightarrow> run_identity \<Rightarrow> replay_db \<Rightarrow> (u64 \<times> replay_event \<times> decision_row) list \<Rightarrow> derived_state \<Rightarrow> derived_state res" where
  "verify_rows D identity db [] s = Inr s"
| "verify_rows D identity db (r # rows) s = bind_res (verify_row D identity db r s) (verify_rows D identity db rows)"

definition verifyPersistedDerivedState :: "(replay_event \<Rightarrow> replay_decision \<Rightarrow> string) \<Rightarrow> run_identity \<Rightarrow> replay_db \<Rightarrow> unit res" where
  "verifyPersistedDerivedState D identity db =
     (case rt_progress db of
        None \<Rightarrow> Inl (ErrMsg ''read replay progress'')
      | Some (completedEvents, lastSequence) \<Rightarrow>
          bind_res (verify_rows D identity db (joined_rows db) \<lparr>ds_completed = 0, ds_paths = 0, ds_snapshots = 0, ds_baselines = []\<rparr>) (\<lambda>s.
            if completedEvents \<noteq> ds_completed s \<or> (ds_completed s > 0 \<and> (case lastSequence of None \<Rightarrow> 0 | Some n \<Rightarrow> n) \<noteq> ds_completed s - 1)
            then Inl (ErrMsg ''persisted replay progress does not match completed events'')
            else if of_nat (length (rt_cross_edges db)) \<noteq> ds_completed s then Inl (ErrMsg ''persisted cross-edge count does not match completed events'')
            else if of_nat (length (rt_paths db)) \<noteq> ds_paths s then Inl (ErrMsg ''persisted path count does not match selected decisions'')
            else if of_nat (length (rt_snapshots db)) \<noteq> ds_snapshots s then Inl (ErrMsg ''persisted snapshot count does not match record interval'')
            else if \<not> list_all (\<lambda>(k, h). map_of (ds_baselines s) k = Some h) (rt_baselines db) then Inl (ErrMsg ''persisted baseline does not match completed events'')
            else if length (rt_baselines db) \<noteq> length (ds_baselines s) then Inl (ErrMsg ''persisted baseline count does not match completed events'')
            else Inr ()))"

subsection \<open>Recovery and the loop of a run\<close>

definition recover_visit ::
  "run_identity \<Rightarrow> (committed_event \<Rightarrow> unit res) \<Rightarrow> committed_event \<Rightarrow> coordinator \<times> u64 \<times> u64 \<Rightarrow> (coordinator \<times> u64 \<times> u64) res" where
  "recover_visit identity inspect item = (\<lambda>(c, completed, trustMapRows).
     if completed \<ge> ri_PreparedRows identity then Inl (ErrMsg ''completed replay rows exceed run identity'')
     else bind_res (inspect item) (\<lambda>_.
       case replay_Restore c (ce_Event item) (ce_Decision item) of
         (_, Inl e) \<Rightarrow> Inl e
       | (c, Inr _) \<Rightarrow>
           Inr (c, completed + 1, if rd_Decision (ce_Decision item) = ReplayDecisionTrustMap then trustMapRows + 1 else trustMapRows)))"

definition recoverReplayCoordinator ::
  "(replay_event \<Rightarrow> replay_decision \<Rightarrow> string) \<Rightarrow> run_identity \<Rightarrow> replay_db \<Rightarrow> setting \<Rightarrow> (string \<times> u64) list \<Rightarrow> cost_profile \<Rightarrow> checkpoint_policy \<Rightarrow>
     (committed_event \<Rightarrow> unit res) \<Rightarrow> (coordinator \<times> u64 \<times> u64) res" where
  "recoverReplayCoordinator D identity db setting initHeights profile policy inspect =
     (if ri_Setting identity \<noteq> setting then Inl (ErrMsg ''replay recovery setting conflicts with run identity'')
      else bind_res (NewReplayCoordinator setting initHeights profile policy) (\<lambda>c.
           bind_res (verifyPersistedDerivedState D identity db) (\<lambda>_.
           ForEachCompleted (recover_visit identity inspect) db (c, 0, 0))))"

definition inspect_trace :: "replay_event list \<Rightarrow> committed_event \<Rightarrow> unit res" where
  "inspect_trace events item =
     (let index = ev_Sequence (ce_Event item)
      in if index \<ge> of_nat (length events) then Inl (ErrMsg ''replay progress exceeds prepared trace'')
         else if ce_Event item \<noteq> events ! unat index then Inl (ErrMsg ''replay committed event conflicts with prepared trace'')
         else Inr ())"

definition run_snapshot :: "run_identity \<Rightarrow> replay_event \<Rightarrow> replay_decision \<Rightarrow> replay_snapshot option" where
  "run_snapshot identity event d =
     (if UsesTrustMap (ri_Setting identity) \<and> ri_RecordEvery identity > 0 \<and> ev_Sequence event mod ri_RecordEvery identity = 0
      then Some \<lparr>sp_Sequence = ev_Sequence event, sp_Time = ev_SourceTime event, sp_GraphNodes = rd_GraphNodes d, sp_GraphEdges = rd_GraphEdges d,
                 sp_CrossEdgesAdded = rd_CrossEdgesAdded d\<rparr>
      else None)"

text \<open>
  The body of the loop for one event, and the loop. The result is the coordinator, the database after the last commit and
  the error that ended the loop, if any; \<open>env\<close> gives the order of maps and the scratch space of the search of each event.
\<close>

fun run_events ::
  "(replay_event \<Rightarrow> replay_decision \<Rightarrow> string) \<Rightarrow> (u64 \<Rightarrow> bool) \<Rightarrow> (replay_event \<Rightarrow> map_order \<times> search_scratch) \<Rightarrow> run_identity \<Rightarrow>
     replay_event list \<Rightarrow> coordinator \<times> replay_db \<Rightarrow> (replay_db \<times> coordinator res) option" where
  "run_events D bindable env identity [] (c, db) = Some (db, Inr c)"
| "run_events D bindable env identity (event # events) (c, db) =
     (case replay_Process (fst (env event)) (snd (env event)) c event of
        None \<Rightarrow> None
      | Some (_, Inl e) \<Rightarrow> Some (db, Inl e)
      | Some (c, Inr d) \<Rightarrow>
          (case CommitEvent D bindable identity db event d (run_snapshot identity event d) of
             Inl e \<Rightarrow> Some (db, Inl e)
           | Inr db \<Rightarrow> run_events D bindable env identity events (c, db)))"

definition run_setting ::
  "(replay_event \<Rightarrow> replay_decision \<Rightarrow> string) \<Rightarrow> (u64 \<Rightarrow> bool) \<Rightarrow> (replay_event \<Rightarrow> map_order \<times> search_scratch) \<Rightarrow> run_identity \<Rightarrow>
     (string \<times> u64) list \<Rightarrow> cost_profile \<Rightarrow> checkpoint_policy \<Rightarrow> replay_event list \<Rightarrow> replay_db \<Rightarrow> (replay_db \<times> coordinator res) option" where
  "run_setting D bindable env identity initHeights profile policy events db =
     (case OpenReplayRepository identity db of
        Inl e \<Rightarrow> Some (db, Inl e)
      | Inr (identity, db) \<Rightarrow>
          (case recoverReplayCoordinator D identity db (ri_Setting identity) initHeights profile policy (inspect_trace events) of
             Inl e \<Rightarrow> Some (db, Inl e)
           | Inr (c, next, _) \<Rightarrow> run_events D bindable env identity (drop (unat next) events) (c, db)))"

subsection \<open>The database of a run\<close>




definition base_rows :: "(replay_event \<times> replay_decision) list \<Rightarrow> ((string \<times> string) \<times> u64) list" where
  "base_rows ps = fold (\<lambda>(e, d). AList.update (baseline_key e) (rd_BaselineAfter d)) ps []"























subsection \<open>Recovery\<close>






subsection \<open>Runs\<close>











subsection \<open>What an accepted database guarantees\<close>

definition row_ok :: "(replay_event \<Rightarrow> replay_decision \<Rightarrow> string) \<Rightarrow> run_identity \<Rightarrow> replay_db \<Rightarrow> u64 \<times> replay_event \<times> decision_row \<Rightarrow> bool" where
  "row_ok D identity db = (\<lambda>(sequence, event, row).
     let d = dr_decision row
     in ev_Sequence event = sequence \<and> rd_Sequence d = sequence \<and> rd_EventID d = ev_ID event \<and> row = decision_row_of D event d \<and>
        map_of (rt_cross_edges db) sequence = Some (edge_row_of event) \<and>
        map_of (rt_paths db) sequence = (if rd_Decision d = ReplayDecisionTrustMap then Some (rd_Path d) else None) \<and>
        map_of (rt_snapshots db) sequence = run_snapshot identity event d)"

lemma snapshot_exact:
  assumes "(UsesTrustMap (ri_Setting identity) \<and> ri_RecordEvery identity > 0 \<and> ev_Sequence e mod ri_RecordEvery identity = 0) = (s \<noteq> None)"
    "case s of None \<Rightarrow> True | Some sp \<Rightarrow> snapshot_matches sp e d"
  shows "s = run_snapshot identity e d"
  using assms by (cases s) (auto simp: run_snapshot_def snapshot_matches_def)

lemma verify_row_sound:
  assumes "verify_row D identity db (sequence, event, row) s = Inr s'"
  shows "sequence = ds_completed s" "row_ok D identity db (sequence, event, row)" "ds_completed s' = ds_completed s + 1"
    "ds_baselines s' = AList.update (baseline_key event) (rd_BaselineAfter (dr_decision row)) (ds_baselines s)"
proof -
  have v: "sequence = ds_completed s" "ev_Sequence event = sequence" "rd_Sequence (dr_decision row) = sequence" "ev_ID event = rd_EventID (dr_decision row)"
    "dr_direct_cost row = rd_DirectCost (dr_decision row)" "dr_chosen_cost row = rd_ChosenCost (dr_decision row)" "dr_kind row = rd_Decision (dr_decision row)"
    "dr_digest row = D event (dr_decision row)" "map_of (rt_cross_edges db) sequence = Some (edge_row_of event)"
    "map_of (rt_paths db) sequence = (if rd_Decision (dr_decision row) = ReplayDecisionTrustMap then Some (rd_Path (dr_decision row)) else None)"
    "(UsesTrustMap (ri_Setting identity) \<and> ri_RecordEvery identity > 0 \<and> sequence mod ri_RecordEvery identity = 0) = (map_of (rt_snapshots db) sequence \<noteq> None)"
    "case map_of (rt_snapshots db) sequence of None \<Rightarrow> True | Some sp \<Rightarrow> snapshot_matches sp event (dr_decision row)"
    "ds_completed s' = ds_completed s + 1"
    "ds_baselines s' = AList.update (baseline_key event) (rd_BaselineAfter (dr_decision row)) (ds_baselines s)"
    using assms unfolding verify_row_def Let_def prod.case by (auto split: if_splits option.split_asm)
  show "sequence = ds_completed s" "ds_completed s' = ds_completed s + 1"
    "ds_baselines s' = AList.update (baseline_key event) (rd_BaselineAfter (dr_decision row)) (ds_baselines s)" by fact+
  have "row = decision_row_of D event (dr_decision row)" using v by (simp add: decision_row_of_def)
  moreover have "map_of (rt_snapshots db) sequence = run_snapshot identity event (dr_decision row)"
    using snapshot_exact[of identity event "map_of (rt_snapshots db) sequence" "dr_decision row"] v(2,11,12) by simp
  ultimately show "row_ok D identity db (sequence, event, row)" using v by (simp add: row_ok_def Let_def)
qed

lemma verify_rows_sound:
  "verify_rows D identity db rows s = Inr s' \<Longrightarrow>
     (\<forall>r \<in> set rows. row_ok D identity db r) \<and> map fst rows = map (\<lambda>j. ds_completed s + of_nat j) [0..<length rows] \<and>
     ds_completed s' = ds_completed s + of_nat (length rows) \<and>
     ds_baselines s' = fold (\<lambda>(_, e, r). AList.update (baseline_key e) (rd_BaselineAfter (dr_decision r))) rows (ds_baselines s)"
proof (induction rows arbitrary: s)
  case (Cons x rows)
  obtain sequence event row where x: "x = (sequence, event, row)" by (cases x)
  obtain s1 where s1: "verify_row D identity db (sequence, event, row) s = Inr s1" "verify_rows D identity db rows s1 = Inr s'" using Cons.prems x by auto
  note v = verify_row_sound[OF s1(1)] and IH = Cons.IH[OF s1(2)]
  have "map (\<lambda>j. ds_completed s1 + of_nat j) [0..<length rows] = map (\<lambda>j. ds_completed s + of_nat j) (map Suc [0..<length rows])"
    using v(3) by (simp add: add.assoc comp_def)
  then have "map fst (x # rows) = map (\<lambda>j. ds_completed s + of_nat j) (0 # map Suc [0..<length rows])" using IH v(1) x by simp
  also have "0 # map Suc [0..<length rows] = [0..<length (x # rows)]" by (simp add: map_Suc_upt upt_conv_Cons del: upt_Suc)
  finally show ?case using IH v x by (simp add: add.assoc del: upt_Suc)
qed simp

text \<open>
  A database that passes the check before a recovery is consistent throughout: the committed events are numbered
  from zero without gaps, every decision carries the digest and the cost columns of its event and decision, the edge,
  path and snapshot stored for an event are exactly those that follow from it, the progress counts the events, and
  every stored baseline is the one the last decision for its pair of chains left.
\<close>

theorem verified_tables_sound:
  assumes "verifyPersistedDerivedState D identity db = Inr ()"
  shows "(\<forall>r \<in> set (joined_rows db). row_ok D identity db r) \<and>
    map fst (joined_rows db) = map of_nat [0..<length (joined_rows db)] \<and>
    (\<exists>last. rt_progress db = Some (of_nat (length (joined_rows db)), last)) \<and>
    (\<forall>(k, h) \<in> set (rt_baselines db). map_of (base_rows (map (\<lambda>(_, e, r). (e, dr_decision r)) (joined_rows db))) k = Some h)"
proof -
  obtain completed last s where s: "rt_progress db = Some (completed, last)"
    "verify_rows D identity db (joined_rows db) \<lparr>ds_completed = 0, ds_paths = 0, ds_snapshots = 0, ds_baselines = []\<rparr> = Inr s"
    "completed = ds_completed s" "list_all (\<lambda>(k, h). map_of (ds_baselines s) k = Some h) (rt_baselines db)"
    using assms by (auto simp: verifyPersistedDerivedState_def split: option.split_asm if_splits)
  note v = verify_rows_sound[OF s(2)]
  have "base_rows (map (\<lambda>(_, e, r). (e, dr_decision r)) (joined_rows db)) = ds_baselines s"
    using v by (simp add: base_rows_def fold_map comp_def case_prod_beta')
  then show ?thesis using v s by (auto simp: list_all_iff)
qed

subsection \<open>An example run\<close>

definition example_trace :: "replay_event list" where
  "example_trace = [(example_event ''a'' 2 ''b'' 9 0)\<lparr>ev_ID := ''x''\<rparr>, (example_event ''c'' 5 ''a'' 2 1)\<lparr>ev_ID := ''y''\<rparr>, (example_event ''c'' 6 ''b'' 9 2)\<lparr>ev_ID := ''z''\<rparr>]"

definition example_identity :: run_identity where
  "example_identity =
     \<lparr>ri_RunID = ''run'', ri_Setting = ''B3'', ri_TraceDigest = ''digest'', ri_PreparedRows = 3, ri_ImplementationVersion = ''replay-v1'', ri_SchemaVersion = 2,
      ri_GitCommit = ''unknown'', ri_CostProfileFingerprint = '''', ri_CheckpointPolicyFingerprint = '''', ri_SelectionFingerprint = '''', ri_RecordEvery = 2, ri_LogEvery = 0\<rparr>"

definition example_policy :: checkpoint_policy where
  "example_policy = (case NewCheckpointPolicy [(''B'', 100)] of Inr policy \<Rightarrow> policy)"

definition example_env :: "replay_event \<Rightarrow> map_order \<times> search_scratch" where
  "example_env e = (\<lambda>k xs. xs, empty_scratch)"

definition example_run :: "replay_event list \<Rightarrow> replay_db \<Rightarrow> (replay_db \<times> coordinator res) option" where
  "example_run = run_setting (\<lambda>e d. ''digest'') (\<lambda>n. n < 2 ^ 63) example_env example_identity [(''a'', 2), (''b'', 3), (''c'', 5)] LegacyV41CostProfile example_policy"




lemma example_verified:
  "case example_run (take 2 example_trace) empty_replay_db of
     Some (db, Inr c) \<Rightarrow> verifyPersistedDerivedState (\<lambda>e d. ''digest'') example_identity db = Inr () \<and> length (joined_rows db) = 2
   | _ \<Rightarrow> False"
  by code_simp

theorem verified_tables_sound_witness:
  "\<exists>db. verifyPersistedDerivedState (\<lambda>e d. ''digest'') example_identity db = Inr () \<and> map fst (joined_rows db) = [0, 1] \<and>
     (\<forall>r \<in> set (joined_rows db). row_ok (\<lambda>e d. ''digest'') example_identity db r)"
proof -
  obtain db where db: "verifyPersistedDerivedState (\<lambda>e d. ''digest'') example_identity db = Inr ()" "length (joined_rows db) = 2"
    using example_verified by (auto split: option.split_asm prod.split_asm sum.split_asm)
  from verified_tables_sound[OF db(1)] db show ?thesis by (intro exI[of _ db]) (simp add: numeral_2_eq_2)
qed

end
