(* ===== verification/Domain.thy ===== *)
theory Domain
  imports Prelude
begin

text \<open>
  The domain values of \<open>internal/domain\<close>: chain identifiers and block heights (\<open>uint256\<close> values kept as
  32 bytes), dependencies, membership witnesses, and the two hashes the contracts share with the node.
\<close>

subsection \<open>Chain identifiers and heights\<close>

type_synonym chain_id = hash
type_synonym block_height = hash
type_synonym request_id = hash

definition uint256FromUint64 :: "u64 \<Rightarrow> hash" where
  "uint256FromUint64 v = ucast v"

text \<open>\<open>*big.Int\<close> is an optional integer: \<open>None\<close> is the nil pointer.\<close>

definition uint256FromBig :: "int option \<Rightarrow> hash res" where
  "uint256FromBig value =
     (case value of
        None \<Rightarrow> Inl ErrNilUint256
      | Some v \<Rightarrow>
          if v < 0 then Inl ErrNegativeUint256
          else if v \<ge> 2 ^ 256 then Inl ErrUint256Overflow
          else Inr (of_int v))"

definition chain_Validate :: "chain_id \<Rightarrow> unit res" where
  "chain_Validate cid = (if cid = 0 then Inl ErrZeroChainID else Inr ())"

definition NewChainID :: "u64 \<Rightarrow> chain_id res" where
  "NewChainID value =
     (let chainID = uint256FromUint64 value
      in bind_res (chain_Validate chainID) (\<lambda>_. Inr chainID))"

definition NewChainIDFromBig :: "int option \<Rightarrow> chain_id res" where
  "NewChainIDFromBig value =
     bind_res (uint256FromBig value) (\<lambda>chainID.
     bind_res (chain_Validate chainID) (\<lambda>_. Inr chainID))"

definition BigInt :: "hash \<Rightarrow> int" where
  "BigInt h = uint h"

definition NewBlockHeight :: "u64 \<Rightarrow> block_height res" where
  "NewBlockHeight value = Inr (uint256FromUint64 value)"

definition NewBlockHeightFromBig :: "int option \<Rightarrow> block_height res" where
  "NewBlockHeightFromBig value = uint256FromBig value"

subsection \<open>Dependencies and witnesses\<close>

record dependency =
  SourceChainID :: chain_id
  SourceHeight :: block_height
  SourceBlockHash :: hash
  SourceTrustRoot :: hash

definition dependency_Validate :: "dependency \<Rightarrow> unit res" where
  "dependency_Validate d =
     bind_res (chain_Validate (SourceChainID d)) (\<lambda>_.
     if SourceBlockHash d = 0 then Inl ErrZeroBlockHash else Inr ())"

definition NewDependency :: "chain_id \<Rightarrow> block_height \<Rightarrow> hash \<Rightarrow> hash \<Rightarrow> dependency res" where
  "NewDependency sourceChainID sourceHeight sourceBlockHash sourceTrustRoot =
     (let d = \<lparr>SourceChainID = sourceChainID, SourceHeight = sourceHeight,
               SourceBlockHash = sourceBlockHash, SourceTrustRoot = sourceTrustRoot\<rparr>
      in bind_res (dependency_Validate d) (\<lambda>_. Inr d))"

record membership_witness =
  leafIndex :: u32
  siblings :: "hash list"

definition witness_Validate :: "membership_witness \<Rightarrow> unit res" where
  "witness_Validate w = (if siblings w = [] then Inl ErrEmptyWitness else Inr ())"

definition NewMembershipWitness :: "u32 \<Rightarrow> hash list \<Rightarrow> membership_witness res" where
  "NewMembershipWitness i sibs =
     (let w = \<lparr>leafIndex = i, siblings = sibs\<rparr>
      in bind_res (witness_Validate w) (\<lambda>_. Inr w))"

subsection \<open>Hashes shared with the contracts\<close>

definition LeafHash :: "keccak \<Rightarrow> hash \<Rightarrow> hash \<Rightarrow> hash" where
  "LeafHash K sourceTrustRoot sourceBlockHash = K (bytes32 sourceTrustRoot @ bytes32 sourceBlockHash)"

definition DependencyKey_bytes :: "dependency \<Rightarrow> byte list" where
  "DependencyKey_bytes d =
     bytes32 (SourceChainID d) @ bytes32 (SourceHeight d) @
     bytes32 (SourceBlockHash d) @ bytes32 (SourceTrustRoot d)"

definition DependencyKey :: "keccak \<Rightarrow> dependency \<Rightarrow> hash" where
  "DependencyKey K d = K (DependencyKey_bytes d)"

subsection \<open>Lemmas\<close>

lemma bytes32_uint256FromUint64: "bytes32 (uint256FromUint64 v) = uint64_word v"
proof (rule nth_equalityI)
  fix i assume "i < length (bytes32 (uint256FromUint64 v))"
  then have i: "i < 32" by simp
  show "bytes32 (uint256FromUint64 v) ! i = uint64_word v ! i"
  proof (cases "i < 24")
    case True
    have "bit (ucast (drop_bit (8 * (31 - i)) (ucast v :: hash)) :: byte) k = bit (0 :: byte) k" for k
      using True by (auto simp: bit_ucast_iff bit_drop_bit_eq dest: bit_imp_le_length)
    then have "(ucast (drop_bit (8 * (31 - i)) (ucast v :: hash)) :: byte) = 0"
      by (intro bit_eqI) blast
    with True show ?thesis
      by (simp add: bytes32_def uint64_word_def uint256FromUint64_def nth_be_bytes nth_append)
  next
    case False
    then obtain j where j: "i = 24 + j" "j < 8" using i by (intro that[of "i - 24"]) auto
    have "(ucast (drop_bit (8 * (7 - j)) (ucast v :: hash)) :: byte) = ucast (drop_bit (8 * (7 - j)) v)"
      by (rule bit_eqI) (auto simp: bit_ucast_iff bit_drop_bit_eq dest: bit_imp_le_length)
    with j show ?thesis
      by (simp add: bytes32_def uint64_word_def uint256FromUint64_def nth_be_bytes nth_append)
  qed
qed (simp add: uint256FromUint64_def)

lemma uint256FromBig_Inr:
  "uint256FromBig value = Inr h \<longleftrightarrow> (\<exists>v. value = Some v \<and> 0 \<le> v \<and> v < 2 ^ 256 \<and> BigInt h = v)"
proof -
  have "of_int v = h \<longleftrightarrow> uint h = v" if "0 \<le> v" "v < 2 ^ 256" for v
  proof -
    have "uint (of_int v :: hash) = v"
      using that by (simp add: uint_word_of_int)
    then show ?thesis by (metis word_of_int_uint)
  qed
  then show ?thesis
    by (auto simp: uint256FromBig_def BigInt_def split: option.splits if_splits)
qed

lemma BigInt_bounds [simp]: "0 \<le> BigInt h" "BigInt h < 2 ^ 256"
  using unsigned_less[of h, where ?'a = int] by (simp_all add: BigInt_def)

lemma DependencyKey_bytes_inject:
  "DependencyKey_bytes d = DependencyKey_bytes d' \<longleftrightarrow> d = d'"
  by (cases d; cases d') (auto simp: DependencyKey_bytes_def)

lemma LeafHash_bytes_inject:
  "bytes32 r @ bytes32 b = bytes32 r' @ bytes32 b' \<longleftrightarrow> r = r' \<and> b = b'"
  by simp

end
