(* ===== verification/Merkle.thy ===== *)
theory Merkle
  imports Domain
begin

text \<open>
  The fixed-depth Merkle machinery of \<open>internal/proof\<close>: pair hashing, empty-subtree hashes, root
  reconstruction from a membership witness, recursive path verification, and the incremental frontier
  tree. A reference tree (\<open>merkle_root\<close>, \<open>merkle_path\<close>) states what the optimised routines compute.
\<close>

subsection \<open>merkle.go\<close>

definition MaxTreeDepth :: u8 where
  "MaxTreeDepth = 32"

definition HashPair :: "keccak \<Rightarrow> hash \<Rightarrow> hash \<Rightarrow> hash" where
  "HashPair K left right = K (bytes32 left @ bytes32 right)"

definition validateDepth :: "u8 \<Rightarrow> unit res" where
  "validateDepth depth =
     (if depth = 0 \<or> depth > MaxTreeDepth then Inl ErrInvalidTreeDepth else Inr ())"

fun zero_loop :: "keccak \<Rightarrow> nat list \<Rightarrow> hash list \<Rightarrow> hash list" where
  "zero_loop K [] zeros = zeros"
| "zero_loop K (level # levels) zeros =
     zero_loop K levels (zeros[level := HashPair K (zeros ! (level - 1)) (zeros ! (level - 1))])"

definition ZeroHashes :: "keccak \<Rightarrow> u8 \<Rightarrow> hash list res" where
  "ZeroHashes K depth =
     bind_res (validateDepth depth) (\<lambda>_.
     Inr (zero_loop K [1..<unat depth + 1] (replicate (unat depth + 1) 0)))"

fun root_loop :: "keccak \<Rightarrow> hash \<Rightarrow> u32 \<Rightarrow> hash list \<Rightarrow> hash" where
  "root_loop K root index [] = root"
| "root_loop K root index (sibling # sibs) =
     root_loop K (if index AND 1 = 0 then HashPair K root sibling else HashPair K sibling root)
       (drop_bit 1 index) sibs"

definition RootFromWitness :: "keccak \<Rightarrow> hash \<Rightarrow> u32 \<Rightarrow> hash list \<Rightarrow> u8 \<Rightarrow> hash res" where
  "RootFromWitness K leaf i sibs expectedDepth =
     bind_res (validateDepth expectedDepth) (\<lambda>_.
     if length sibs \<noteq> unat expectedDepth then Inl ErrInvalidSiblingCount
     else if (ucast i :: u64) \<ge> push_bit (unat expectedDepth) 1 then Inl ErrLeafIndexOutOfRange
     else Inr (root_loop K leaf i sibs))"

fun path_loop :: "keccak \<Rightarrow> hash \<Rightarrow> (hash \<times> membership_witness) list \<Rightarrow> u8 \<Rightarrow> hash res" where
  "path_loop K root [] depth = Inr root"
| "path_loop K root ((blockHash, w) # hops) depth =
     bind_res (RootFromWitness K (LeafHash K root blockHash) (leafIndex w) (siblings w) depth) (\<lambda>root'.
     path_loop K root' hops depth)"

definition VerifyPath ::
  "keccak \<Rightarrow> hash \<Rightarrow> hash list \<Rightarrow> membership_witness list \<Rightarrow> hash \<Rightarrow> u8 \<Rightarrow> unit res" where
  "VerifyPath K baseTrustRoot blockHashes witnesses expectedHomeRoot expectedDepth =
     bind_res (validateDepth expectedDepth) (\<lambda>_.
     if blockHashes = [] then Inl ErrEmptyPath
     else if length blockHashes \<noteq> length witnesses then Inl ErrPathLengthMismatch
     else bind_res (path_loop K baseTrustRoot (zip blockHashes witnesses) expectedDepth) (\<lambda>root.
       if root \<noteq> expectedHomeRoot then Inl ErrFinalRootMismatch else Inr ()))"

subsection \<open>incremental.go\<close>

record incremental_tree =
  it_depth :: u8
  it_capacity :: u64
  it_nextIndex :: u64
  it_frontier :: "hash list"
  it_zeros :: "hash list"
  it_root :: hash

definition NewIncrementalTree :: "keccak \<Rightarrow> u8 \<Rightarrow> incremental_tree res" where
  "NewIncrementalTree K depth =
     bind_res (ZeroHashes K depth) (\<lambda>zeros.
     Inr \<lparr>it_depth = depth, it_capacity = push_bit (unat depth) 1, it_nextIndex = 0,
          it_frontier = replicate (unat depth) 0, it_zeros = zeros, it_root = zeros ! unat depth\<rparr>)"

fun append_loop ::
  "keccak \<Rightarrow> hash list \<Rightarrow> nat list \<Rightarrow> u64 \<Rightarrow> hash \<Rightarrow> hash list \<Rightarrow> hash \<times> hash list" where
  "append_loop K zeros [] index node frontier = (node, frontier)"
| "append_loop K zeros (level # levels) index node frontier =
     (if index AND 1 = 0
      then append_loop K zeros levels (drop_bit 1 index) (HashPair K node (zeros ! level))
             (frontier[level := node])
      else append_loop K zeros levels (drop_bit 1 index) (HashPair K (frontier ! level) node) frontier)"

definition Append :: "keccak \<Rightarrow> incremental_tree \<Rightarrow> hash \<Rightarrow> incremental_tree res" where
  "Append K tree leaf =
     (if it_nextIndex tree \<ge> it_capacity tree then Inl ErrTreeFull
      else let (node, frontier) = append_loop K (it_zeros tree) [0..<unat (it_depth tree)]
                                    (it_nextIndex tree) leaf (it_frontier tree)
           in Inr (tree\<lparr>it_frontier := frontier, it_root := node,
                        it_nextIndex := it_nextIndex tree + 1\<rparr>))"

fun append_all :: "keccak \<Rightarrow> incremental_tree \<Rightarrow> hash list \<Rightarrow> incremental_tree res" where
  "append_all K tree [] = Inr tree"
| "append_all K tree (leaf # leaves) =
     bind_res (Append K tree leaf) (\<lambda>tree'. append_all K tree' leaves)"

subsection \<open>The reference tree\<close>

text \<open>A depth-\<open>d\<close> tree over a list of leaves, padded with zero leaves on the right.\<close>

fun merkle_root :: "keccak \<Rightarrow> nat \<Rightarrow> hash list \<Rightarrow> hash" where
  "merkle_root K 0 leaves = (case leaves of [] \<Rightarrow> 0 | l # _ \<Rightarrow> l)"
| "merkle_root K (Suc d) leaves =
     HashPair K (merkle_root K d (take (2 ^ d) leaves)) (merkle_root K d (drop (2 ^ d) leaves))"

text \<open>The siblings of leaf \<open>i\<close>, bottom up.\<close>

fun merkle_path :: "keccak \<Rightarrow> nat \<Rightarrow> nat \<Rightarrow> hash list \<Rightarrow> hash list" where
  "merkle_path K 0 i leaves = []"
| "merkle_path K (Suc d) i leaves =
     (if i < 2 ^ d
      then merkle_path K d i (take (2 ^ d) leaves) @ [merkle_root K d (drop (2 ^ d) leaves)]
      else merkle_path K d (i - 2 ^ d) (drop (2 ^ d) leaves) @ [merkle_root K d (take (2 ^ d) leaves)])"

definition leaf_at :: "hash list \<Rightarrow> nat \<Rightarrow> hash" where
  "leaf_at leaves i = (if i < length leaves then leaves ! i else 0)"

fun zero_hash :: "keccak \<Rightarrow> nat \<Rightarrow> hash" where
  "zero_hash K 0 = 0"
| "zero_hash K (Suc d) = HashPair K (zero_hash K d) (zero_hash K d)"

text \<open>The pairs a root reconstruction hashes, bottom up.\<close>

fun witness_pairs :: "keccak \<Rightarrow> hash \<Rightarrow> u32 \<Rightarrow> hash list \<Rightarrow> (hash \<times> hash) list" where
  "witness_pairs K root index [] = []"
| "witness_pairs K root index (sibling # sibs) =
     (let pair = if index AND 1 = 0 then (root, sibling) else (sibling, root)
      in pair # witness_pairs K (HashPair K (fst pair) (snd pair)) (drop_bit 1 index) sibs)"

text \<open>The pairs a whole path verification hashes, leaf hashes included.\<close>

fun path_pairs :: "keccak \<Rightarrow> hash \<Rightarrow> (hash \<times> membership_witness) list \<Rightarrow> (hash \<times> hash) list" where
  "path_pairs K root [] = []"
| "path_pairs K root ((blockHash, w) # hops) =
     (root, blockHash) # witness_pairs K (LeafHash K root blockHash) (leafIndex w) (siblings w) @
     path_pairs K (root_loop K (LeafHash K root blockHash) (leafIndex w) (siblings w)) hops"

text \<open>Two lists of hashed pairs collide where different pairs at one position have one hash.\<close>

definition pair_collision :: "keccak \<Rightarrow> (hash \<times> hash) list \<Rightarrow> (hash \<times> hash) list \<Rightarrow> bool" where
  "pair_collision K ps qs =
     list_ex (\<lambda>(p, q). p \<noteq> q \<and> HashPair K (fst p) (snd p) = HashPair K (fst q) (snd q)) (zip ps qs)"

subsection \<open>Depths, capacities and index bits\<close>

lemma validateDepth_Inr [simp]: "validateDepth depth = Inr u \<longleftrightarrow> 1 \<le> unat depth \<and> unat depth \<le> 32"
  by (auto simp: validateDepth_def MaxTreeDepth_def word_less_nat_alt word_unat_eq_iff)

lemma unat_capacity: "d \<le> 32 \<Longrightarrow> unat (push_bit d 1 :: u64) = 2 ^ d"
proof -
  assume "d \<le> 32"
  then have "(2::nat) ^ d < 2 ^ 64" by (intro power_strict_increasing) simp_all
  then show ?thesis
    by (subst unsigned_push_bit_eq) (simp add: push_bit_eq_mult take_bit_eq_mod)
qed

lemma even_index: "w AND 1 = 0 \<longleftrightarrow> even (unat w)" for w :: "'a::len word"
proof -
  have "even w \<longleftrightarrow> even (unat w)"
    by (metis bit_0 bit_unsigned_iff possible_bit_0)
  then show ?thesis by (simp add: and_one_eq flip: even_iff_mod_2_eq_zero)
qed

lemma unat_shift1: "unat (drop_bit (Suc 0) w) = unat w div 2"
  by (subst unat_drop_bit_eq) (simp add: drop_bit_eq_div)

lemma LeafHash_eq_HashPair: "LeafHash K root blockHash = HashPair K root blockHash"
  by (simp add: LeafHash_def HashPair_def)

lemma RootFromWitness_Inr:
  "RootFromWitness K leaf i sibs depth = Inr r \<longleftrightarrow>
     1 \<le> unat depth \<and> unat depth \<le> 32 \<and> length sibs = unat depth \<and>
     unat i < 2 ^ unat depth \<and> r = root_loop K leaf i sibs"
proof -
  have "(ucast i :: u64) \<ge> push_bit (unat depth) 1 \<longleftrightarrow> \<not> unat i < 2 ^ unat depth"
    if "unat depth \<le> 32"
  proof -
    have "unat (ucast i :: u64) = unat i"
      using unsigned_less[of i, where ?'a = nat] by (simp add: unsigned_ucast_eq take_bit_eq_mod)
    then show ?thesis
      using unat_capacity[OF that] by (simp only: word_le_nat_alt not_less)
  qed
  then show ?thesis by (auto simp: RootFromWitness_def split: if_splits)
qed

subsection \<open>Empty subtrees\<close>

lemma zero_loop_eq:
  assumes "1 \<le> k" "k \<le> n"
  shows "zero_loop K [k..<n] (map (zero_hash K) [0..<k] @ replicate (n - k) 0) = map (zero_hash K) [0..<n]"
  using assms
proof (induction "n - k" arbitrary: k)
  case 0
  then show ?case by simp
next
  case (Suc m)
  then have kn: "k < n" by simp
  have "(map (zero_hash K) [0..<k] @ replicate (n - k) 0)[k := zero_hash K k]
        = map (zero_hash K) [0..<Suc k] @ replicate (n - Suc k) 0"
    using kn Suc.prems(1) by (simp add: list_update_append Suc_diff_Suc[symmetric])
  moreover have "HashPair K (zero_hash K (k - 1)) (zero_hash K (k - 1)) = zero_hash K k"
    using Suc.prems(1) by (cases k) simp_all
  moreover have "(map (zero_hash K) [0..<k] @ replicate (n - k) 0) ! (k - 1) = zero_hash K (k - 1)"
    using Suc.prems(1) by (simp add: nth_append)
  ultimately have "zero_loop K [k..<n] (map (zero_hash K) [0..<k] @ replicate (n - k) 0)
      = zero_loop K [Suc k..<n] (map (zero_hash K) [0..<Suc k] @ replicate (n - Suc k) 0)"
    using kn by (simp only: upt_conv_Cons[OF kn] zero_loop.simps)
  also have "\<dots> = map (zero_hash K) [0..<n]"
    using Suc.hyps(1)[of "Suc k"] Suc.hyps(2) Suc.prems kn by simp
  finally show ?case .
qed

lemma ZeroHashes_Inr:
  "ZeroHashes K depth = Inr zeros \<longleftrightarrow>
     1 \<le> unat depth \<and> unat depth \<le> 32 \<and> zeros = map (zero_hash K) [0..<unat depth + 1]"
  using zero_loop_eq[of 1 "unat depth + 1" K] by (auto simp: ZeroHashes_def)

lemma merkle_root_Nil [simp]: "merkle_root K d [] = zero_hash K d"
  by (induction d) simp_all

subsection \<open>Reconstruction from a witness\<close>

lemma length_merkle_path [simp]: "length (merkle_path K d i leaves) = d"
  by (induction d arbitrary: i leaves) simp_all

lemma root_loop_snoc:
  "root_loop K leaf w (sibs @ [s]) =
     (let root = root_loop K leaf w sibs
      in if even (unat w div 2 ^ length sibs) then HashPair K root s else HashPair K s root)"
  by (induction sibs arbitrary: leaf w) (simp_all add: even_index unat_shift1 div_mult2_eq)

lemma leaf_at_take_drop:
  "i < n \<Longrightarrow> leaf_at (take n leaves) i = leaf_at leaves i"
  "n \<le> i \<Longrightarrow> leaf_at (drop n leaves) (i - n) = leaf_at leaves i"
  by (auto simp: leaf_at_def)

lemma root_loop_merkle_path:
  "unat w mod 2 ^ d = i \<Longrightarrow> root_loop K (leaf_at leaves i) w (merkle_path K d i leaves) = merkle_root K d leaves"
proof (induction d arbitrary: i leaves)
  case 0
  then show ?case by (auto simp: leaf_at_def split: list.split)
next
  case (Suc d)
  define m where "m = unat w div 2 ^ d"
  have i: "i = 2 ^ d * (m mod 2) + unat w mod 2 ^ d"
    using Suc.prems mod_mult2_eq[of "unat w" "2 ^ d" 2] by (simp add: m_def mult.commute)
  have low: "unat w mod 2 ^ d < 2 ^ d" by simp
  show ?case
  proof (cases "even m")
    case True
    then have "i = unat w mod 2 ^ d" using i by simp
    with True low Suc.IH[of i "take (2 ^ d) leaves"] show ?thesis
      by (simp add: root_loop_snoc leaf_at_take_drop m_def[symmetric])
  next
    case False
    then have "m mod 2 = 1" by presburger
    then have "unat w mod 2 ^ d = i - 2 ^ d" "2 ^ d \<le> i" using i by simp_all
    with False Suc.IH[of "i - 2 ^ d" "drop (2 ^ d) leaves"] show ?thesis
      by (simp add: root_loop_snoc leaf_at_take_drop m_def[symmetric])
  qed
qed

subsection \<open>Binding\<close>

lemma pair_collision_Cons [simp]:
  "pair_collision K (p # ps) (q # qs) \<longleftrightarrow>
     (p \<noteq> q \<and> HashPair K (fst p) (snd p) = HashPair K (fst q) (snd q)) \<or> pair_collision K ps qs"
  by (simp add: pair_collision_def)

lemma pair_collision_append:
  "length ps = length qs \<Longrightarrow>
   pair_collision K (ps @ ps') (qs @ qs') \<longleftrightarrow> pair_collision K ps qs \<or> pair_collision K ps' qs'"
  by (simp add: pair_collision_def)

lemma length_witness_pairs [simp]: "length (witness_pairs K r i sibs) = length sibs"
  by (induction sibs arbitrary: r i) (simp_all add: Let_def)

lemma root_loop_binding:
  assumes "length sibs = length sibs'" "root_loop K leaf i sibs = root_loop K leaf' i sibs'"
  shows "(leaf = leaf' \<and> sibs = sibs') \<or>
         pair_collision K (witness_pairs K leaf i sibs) (witness_pairs K leaf' i sibs')"
  using assms
proof (induction sibs sibs' arbitrary: leaf leaf' i rule: list_induct2)
  case Nil
  then show ?case by simp
next
  case (Cons s sibs s' sibs')
  show ?case
  proof (cases "i AND 1 = 0")
    case True
    with Cons.prems Cons.IH[of "HashPair K leaf s" "drop_bit 1 i" "HashPair K leaf' s'"]
    show ?thesis by (auto simp: Let_def)
  next
    case False
    with Cons.prems Cons.IH[of "HashPair K s leaf" "drop_bit 1 i" "HashPair K s' leaf'"]
    show ?thesis by (auto simp: Let_def)
  qed
qed

lemma path_loop_binding:
  assumes "list_all2 (\<lambda>(b, w) (b', w'). leafIndex w = leafIndex w') hops hops'"
    and "path_loop K root hops depth = Inr r" "path_loop K root' hops' depth = Inr r"
  shows "(root = root' \<and> hops = hops') \<or> pair_collision K (path_pairs K root hops) (path_pairs K root' hops')"
  using assms
proof (induction hops hops' arbitrary: root root' rule: list_all2_induct)
  case Nil
  then show ?case by simp
next
  case (Cons h hops h' hops')
  obtain b w b' w' where h: "h = (b, w)" "h' = (b', w')" by (metis surj_pair)
  let ?r = "root_loop K (LeafHash K root b) (leafIndex w) (siblings w)"
  let ?r' = "root_loop K (LeafHash K root' b') (leafIndex w') (siblings w')"
  from Cons.hyps(1) Cons.prems h
  have idx: "leafIndex w = leafIndex w'" and len: "length (siblings w) = length (siblings w')"
    and steps: "path_loop K ?r hops depth = Inr r" "path_loop K ?r' hops' depth = Inr r"
    by (auto simp: RootFromWitness_Inr)
  from Cons.IH[OF steps] show ?case
  proof
    assume "?r = ?r' \<and> hops = hops'"
    with root_loop_binding[OF len, of K "LeafHash K root b" "leafIndex w" "LeafHash K root' b'"] idx
    show ?thesis
      using len by (cases w; cases w') (auto simp: h LeafHash_eq_HashPair pair_collision_append)
  next
    assume "pair_collision K (path_pairs K ?r hops) (path_pairs K ?r' hops')"
    with len idx show ?thesis by (simp add: h pair_collision_append)
  qed
qed

subsection \<open>The incremental tree\<close>

text \<open>The subtree of level \<open>l\<close> that holds leaf number \<open>n\<close>.\<close>

definition node_at :: "keccak \<Rightarrow> nat \<Rightarrow> nat \<Rightarrow> hash list \<Rightarrow> hash" where
  "node_at K l n leaves = merkle_root K l (drop (n div 2 ^ l * 2 ^ l) leaves)"

text \<open>Where bit \<open>l\<close> of the leaf count is set, the frontier holds the complete left subtree of level \<open>l\<close>.\<close>

definition frontier_inv :: "keccak \<Rightarrow> nat \<Rightarrow> hash list \<Rightarrow> hash list \<Rightarrow> bool" where
  "frontier_inv K d leaves frontier \<longleftrightarrow>
     length frontier = d \<and>
     (\<forall>l<d. odd (length leaves div 2 ^ l) \<longrightarrow>
        frontier ! l = merkle_root K l (take (2 ^ l) (drop ((length leaves div 2 ^ l - 1) * 2 ^ l) leaves)))"

definition tree_inv :: "keccak \<Rightarrow> incremental_tree \<Rightarrow> hash list \<Rightarrow> bool" where
  "tree_inv K t leaves \<longleftrightarrow>
     1 \<le> unat (it_depth t) \<and> unat (it_depth t) \<le> 32 \<and>
     it_capacity t = push_bit (unat (it_depth t)) 1 \<and>
     length leaves \<le> 2 ^ unat (it_depth t) \<and>
     unat (it_nextIndex t) = length leaves \<and>
     it_zeros t = map (zero_hash K) [0..<unat (it_depth t) + 1] \<and>
     it_root t = merkle_root K (unat (it_depth t)) leaves \<and>
     frontier_inv K (unat (it_depth t)) leaves (it_frontier t)"

lemma div_pow_Suc: "n div 2 ^ Suc k = n div 2 ^ k div 2" for n :: nat
  by (simp only: power_Suc2 div_mult2_eq)

lemma half_start: "even m \<Longrightarrow> m div 2 * 2 ^ Suc k = m * 2 ^ k" for m :: nat
  by (auto elim!: evenE)

lemma half_start_odd: "odd m \<Longrightarrow> m div 2 * 2 ^ Suc k = (m - 1) * 2 ^ k" for m :: nat
  by (auto elim!: oddE)

lemma node_at_even:
  assumes "even (n div 2 ^ k)" "length leaves = Suc n"
  shows "node_at K (Suc k) n leaves = HashPair K (node_at K k n leaves) (zero_hash K k)"
proof -
  let ?s = "n div 2 ^ k * 2 ^ k"
  have "n div 2 ^ Suc k * 2 ^ Suc k = ?s"
    using half_start[OF assms(1)] by (simp only: div_pow_Suc)
  moreover have "length (drop ?s leaves) \<le> 2 ^ k"
  proof -
    have "n < ?s + 2 ^ k" using dividend_less_div_times[of "2 ^ k" n] by (simp add: add.commute)
    then show ?thesis using assms(2) by simp
  qed
  ultimately show ?thesis
    unfolding node_at_def merkle_root.simps by (simp only:) simp
qed

lemma node_at_odd:
  assumes "odd (n div 2 ^ k)" "length leaves = n"
  shows "node_at K (Suc k) n (leaves @ [leaf]) =
         HashPair K (merkle_root K k (take (2 ^ k) (drop ((n div 2 ^ k - 1) * 2 ^ k) leaves)))
           (node_at K k n (leaves @ [leaf]))"
proof -
  define m where "m = n div 2 ^ k"
  have s: "n div 2 ^ Suc k * 2 ^ Suc k = (m - 1) * 2 ^ k"
    using half_start_odd[OF assms(1), of k] by (simp only: m_def div_pow_Suc)
  have "m > 0" using assms(1) by (cases m) (simp_all add: m_def)
  then have shift: "(m - 1) * 2 ^ k + 2 ^ k = m * 2 ^ k"
    by (metis Suc_pred' add.commute mult_Suc)
  moreover have "m * 2 ^ k \<le> n" by (simp add: m_def)
  ultimately show ?thesis
    using assms(2) unfolding node_at_def merkle_root.simps s m_def[symmetric]
    by (simp add: add.commute)
qed

lemma append_loop_spec:
  assumes "length leaves = n" "frontier_inv K d leaves frontier" "k \<le> d"
    and "zeros = map (zero_hash K) [0..<d + 1]" "unat index = n div 2 ^ k"
  shows "append_loop K zeros [k..<d] index (node_at K k n (leaves @ [leaf])) frontier =
    (node_at K d n (leaves @ [leaf]),
     map (\<lambda>l. if k \<le> l \<and> even (n div 2 ^ l) then node_at K l n (leaves @ [leaf]) else frontier ! l) [0..<d])"
  using assms
proof (induction "d - k" arbitrary: k index frontier)
  case 0
  then have "k = d" by simp
  moreover have "map (\<lambda>l. if d \<le> l \<and> even (n div 2 ^ l) then node_at K l n (leaves @ [leaf]) else frontier ! l) [0..<d] = frontier"
    using 0 by (auto intro!: nth_equalityI simp: frontier_inv_def)
  ultimately show ?case by simp
next
  case (Suc x)
  then have kd: "k < d" by simp
  have idx: "unat (drop_bit 1 index) = n div 2 ^ Suc k"
    using Suc.prems(5) unat_shift1[of index] by (simp only: div_pow_Suc One_nat_def)
  let ?leaves = "leaves @ [leaf]"
  show ?case
  proof (cases "even (n div 2 ^ k)")
    case True
    let ?fr = "frontier[k := node_at K k n ?leaves]"
    have inv: "frontier_inv K d leaves ?fr"
      using Suc.prems(1,2) True kd by (auto simp: frontier_inv_def nth_list_update)
    have len: "length frontier = d" using Suc.prems(2) by (simp add: frontier_inv_def)
    have node: "node_at K (Suc k) n ?leaves = HashPair K (node_at K k n ?leaves) (zeros ! k)"
      using True Suc.prems(1,4) kd by (simp add: node_at_even nth_append)
    have "append_loop K zeros [k..<d] index (node_at K k n ?leaves) frontier
        = append_loop K zeros [Suc k..<d] (drop_bit 1 index) (node_at K (Suc k) n ?leaves) ?fr"
      using True Suc.prems(5) kd by (simp add: upt_conv_Cons even_index node)
    with Suc.hyps(1)[OF _ Suc.prems(1) inv _ Suc.prems(4) idx] Suc.hyps(2) kd True len
    show ?thesis by (auto simp: nth_list_update not_less_eq_eq le_Suc_eq)
  next
    case False
    have node: "node_at K (Suc k) n ?leaves = HashPair K (frontier ! k) (node_at K k n ?leaves)"
      using False Suc.prems(1,2) kd by (simp add: node_at_odd frontier_inv_def)
    have "append_loop K zeros [k..<d] index (node_at K k n ?leaves) frontier
        = append_loop K zeros [Suc k..<d] (drop_bit 1 index) (node_at K (Suc k) n ?leaves) frontier"
      using False Suc.prems(5) kd by (simp add: upt_conv_Cons even_index node)
    with Suc.hyps(1)[OF _ Suc.prems(1,2) _ Suc.prems(4) idx] Suc.hyps(2) kd False
    show ?thesis by (auto simp: le_Suc_eq Suc_le_eq)
  qed
qed

lemma frontier_inv_append:
  assumes "length leaves = n" "frontier_inv K d leaves frontier"
  shows "frontier_inv K d (leaves @ [leaf])
           (map (\<lambda>l. if even (n div 2 ^ l) then node_at K l n (leaves @ [leaf]) else frontier ! l) [0..<d])"
  unfolding frontier_inv_def
proof (intro conjI allI impI)
  fix l assume l: "l < d" and odd': "odd (length (leaves @ [leaf]) div 2 ^ l)"
  define m where "m = n div 2 ^ l"
  have succ: "Suc n div 2 ^ l = m \<or> Suc n div 2 ^ l = Suc m \<and> Suc n = Suc m * 2 ^ l"
  proof (cases "Suc (n mod 2 ^ l) = 2 ^ l")
    case True
    then have "Suc n = Suc m * 2 ^ l" using div_mult_mod_eq[of n "2 ^ l"] by (simp add: m_def)
    then show ?thesis by simp
  next
    case False
    then have "Suc n div 2 ^ l = m" by (simp add: div_Suc m_def mod_Suc)
    then show ?thesis by simp
  qed
  show "map (\<lambda>l. if even (n div 2 ^ l) then node_at K l n (leaves @ [leaf]) else frontier ! l) [0..<d] ! l =
    merkle_root K l (take (2 ^ l) (drop ((length (leaves @ [leaf]) div 2 ^ l - 1) * 2 ^ l) (leaves @ [leaf])))"
  proof (cases "even m")
    case True
    with succ odd' assms(1) have eq: "Suc n div 2 ^ l = Suc m" "Suc n = Suc m * 2 ^ l" by auto
    then have "length (drop (m * 2 ^ l) (leaves @ [leaf])) = 2 ^ l" using assms(1) by simp
    with True l eq assms(1) show ?thesis by (simp add: node_at_def m_def)
  next
    case False
    with succ odd' assms(1) have eq: "Suc n div 2 ^ l = m" by auto
    have "m > 0" using False by (cases m) simp_all
    then have "(m - 1) * 2 ^ l + 2 ^ l = m * 2 ^ l" by (metis Suc_pred' add.commute mult_Suc)
    moreover have "m * 2 ^ l \<le> n" by (simp add: m_def)
    ultimately have "take (2 ^ l) (drop ((m - 1) * 2 ^ l) (leaves @ [leaf])) = take (2 ^ l) (drop ((m - 1) * 2 ^ l) leaves)"
      using assms(1) by simp
    with False l eq assms(1) show ?thesis
      using assms(2) by (simp add: frontier_inv_def m_def[symmetric] del: take_append drop_append)
  qed
qed simp

lemma tree_inv_new:
  assumes "NewIncrementalTree K depth = Inr t"
  shows "tree_inv K t [] \<and> it_depth t = depth"
proof -
  have "(map (zero_hash K) [0..<unat depth] @ [zero_hash K (unat depth)]) ! unat depth = zero_hash K (unat depth)"
    by (simp add: nth_append)
  with assms show ?thesis
    by (auto simp: NewIncrementalTree_def ZeroHashes_Inr tree_inv_def frontier_inv_def simp del: upt_Suc)
qed

lemma append_loop_root:
  assumes "frontier_inv K d leaves frontier" "length leaves < 2 ^ d" "unat index = length leaves"
    and "zeros = map (zero_hash K) [0..<d + 1]"
  obtains frontier' where
    "append_loop K zeros [0..<d] index leaf frontier = (merkle_root K d (leaves @ [leaf]), frontier')"
    "frontier_inv K d (leaves @ [leaf]) frontier'"
proof -
  define n where "n = length leaves"
  have start: "node_at K 0 n (leaves @ [leaf]) = leaf" by (simp add: node_at_def n_def)
  have top: "node_at K d n (leaves @ [leaf]) = merkle_root K d (leaves @ [leaf])"
    using assms(2) by (simp add: node_at_def n_def)
  have "append_loop K zeros [0..<d] index leaf frontier =
     (merkle_root K d (leaves @ [leaf]),
      map (\<lambda>l. if even (n div 2 ^ l) then node_at K l n (leaves @ [leaf]) else frontier ! l) [0..<d])"
    using append_loop_spec[of leaves n K d frontier 0 zeros index leaf] assms
    by (simp add: start top n_def[symmetric] del: upt_Suc)
  then show ?thesis using frontier_inv_append[of leaves n K d frontier leaf] assms(1) n_def that by simp
qed

lemma capacity_small: "d \<le> 32 \<Longrightarrow> n < 2 ^ d \<Longrightarrow> n < 2 ^ 32" for n :: nat
  using power_increasing[of d 32 "2 :: nat"] by linarith

lemma unat_Suc_small: "unat i = n \<Longrightarrow> n < 2 ^ 32 \<Longrightarrow> unat (i + 1) = Suc n" for i :: u64
  by (simp add: unat_word_ariths)

lemma tree_inv_append:
  assumes "tree_inv K t leaves" "length leaves < 2 ^ unat (it_depth t)"
  shows "\<exists>t'. Append K t leaf = Inr t' \<and> tree_inv K t' (leaves @ [leaf]) \<and> it_depth t' = it_depth t"
proof -
  note inv = assms(1)[unfolded tree_inv_def]
  have d32: "unat (it_depth t) \<le> 32" and idx: "unat (it_nextIndex t) = length leaves" using inv by simp_all
  have cap: "\<not> it_nextIndex t \<ge> it_capacity t"
    using inv assms(2) unat_capacity[OF d32] by (simp add: word_le_nat_alt)
  have next_idx: "unat (it_nextIndex t + 1) = Suc (length leaves)"
    by (rule unat_Suc_small[OF idx capacity_small[OF d32 assms(2)]])
  obtain frontier' where
    "append_loop K (it_zeros t) [0..<unat (it_depth t)] (it_nextIndex t) leaf (it_frontier t) =
      (merkle_root K (unat (it_depth t)) (leaves @ [leaf]), frontier')"
    "frontier_inv K (unat (it_depth t)) (leaves @ [leaf]) frontier'"
    using append_loop_root[of K _ leaves "it_frontier t" "it_nextIndex t" "it_zeros t" leaf] inv assms(2) by blast
  then show ?thesis
    using cap inv next_idx assms(2) by (auto simp: Append_def tree_inv_def simp del: upt_Suc)
qed

lemma append_all_inv:
  assumes "tree_inv K t leaves" "length (leaves @ new) \<le> 2 ^ unat (it_depth t)"
  shows "\<exists>t'. append_all K t new = Inr t' \<and> tree_inv K t' (leaves @ new) \<and> it_depth t' = it_depth t"
  using assms
proof (induction new arbitrary: t leaves)
  case (Cons leaf new)
  then obtain t1 where "Append K t leaf = Inr t1" "tree_inv K t1 (leaves @ [leaf])" "it_depth t1 = it_depth t"
    using tree_inv_append[of K t leaves leaf] by auto
  with Cons.IH[of t1 "leaves @ [leaf]"] Cons.prems show ?case by simp
qed simp

lemma Append_full:
  assumes "tree_inv K t leaves" "length leaves = 2 ^ unat (it_depth t)"
  shows "Append K t leaf = Inl ErrTreeFull"
  using assms unat_capacity[of "unat (it_depth t)"]
  by (simp add: Append_def tree_inv_def word_le_nat_alt)

text \<open>
  An accumulator of leaves: a state that commits to a list of at most \<open>2\<^sup>d\<close> leaves by their Merkle root and
  accepts one more leaf while there is room. The tree of \<open>incremental.go\<close> is one, the block tree of the
  Gateway contract is another. Every leaf of an accumulator has a membership witness for its root.
\<close>

locale merkle_accumulator =
  fixes K :: keccak and depth :: u8 and inv :: "'s \<Rightarrow> hash list \<Rightarrow> bool" and root :: "'s \<Rightarrow> hash"
    and push :: "hash \<Rightarrow> 's \<Rightarrow> 's option"
  assumes inv_depth: "inv s leaves \<Longrightarrow> 1 \<le> unat depth \<and> unat depth \<le> 32"
    and inv_length: "inv s leaves \<Longrightarrow> length leaves \<le> 2 ^ unat depth"
    and inv_root: "inv s leaves \<Longrightarrow> leaves \<noteq> [] \<Longrightarrow> root s = merkle_root K (unat depth) leaves"
    and push_inv: "inv s leaves \<Longrightarrow> length leaves < 2 ^ unat depth \<Longrightarrow> \<exists>s'. push leaf s = Some s' \<and> inv s' (leaves @ [leaf])"
    and push_full: "inv s leaves \<Longrightarrow> length leaves = 2 ^ unat depth \<Longrightarrow> push leaf s = None"
begin

lemma push_Some: "inv s leaves \<Longrightarrow> push leaf s = Some s' \<Longrightarrow> length leaves < 2 ^ unat depth \<and> inv s' (leaves @ [leaf])"
  using push_inv[of s leaves leaf] push_full[of s leaves leaf] inv_length[of s leaves]
  by (cases "length leaves < 2 ^ unat depth") auto

lemma member_witness:
  assumes "inv s leaves" "i < length leaves"
  shows "RootFromWitness K (leaves ! i) (of_nat i) (merkle_path K (unat depth) i leaves) depth = Inr (root s)"
proof -
  note d = inv_depth[OF assms(1)] and len = inv_length[OF assms(1)]
  have i: "i < 2 ^ unat depth" using assms(2) len by linarith
  then have "unat (of_nat i :: u32) = i"
    using capacity_small[of "unat depth" i] d by (simp add: unat_of_nat)
  moreover have "root s = merkle_root K (unat depth) leaves" using inv_root[OF assms(1)] assms(2) by (cases leaves) simp_all
  ultimately show ?thesis
    using i len d assms(2) root_loop_merkle_path[of "of_nat i" "unat depth" i K leaves]
    by (simp add: RootFromWitness_Inr leaf_at_def)
qed

end

definition ok_option :: "'e + 'a \<Rightarrow> 'a option" where
  "ok_option r = (case r of Inl _ \<Rightarrow> None | Inr x \<Rightarrow> Some x)"

lemma ok_option_simps [simp]: "ok_option (Inl e) = None" "ok_option (Inr x) = Some x"
  by (simp_all add: ok_option_def)

interpretation go_tree: merkle_accumulator K depth "\<lambda>t leaves. tree_inv K t leaves \<and> it_depth t = depth" it_root
    "\<lambda>leaf t. ok_option (Append K t leaf)" for K depth
proof unfold_locales
  fix t leaves leaf
  assume "tree_inv K t leaves \<and> it_depth t = depth" "length leaves < 2 ^ unat depth"
  then show "\<exists>t'. ok_option (Append K t leaf) = Some t' \<and> tree_inv K t' (leaves @ [leaf]) \<and> it_depth t' = depth"
    using tree_inv_append[of K t leaves leaf] by auto
next
  fix t leaves leaf
  assume "tree_inv K t leaves \<and> it_depth t = depth" "length leaves = 2 ^ unat depth"
  then show "ok_option (Append K t leaf) = None"
    using Append_full[of K t leaves leaf] by auto
qed (auto simp: tree_inv_def)

lemma append_all_append:
  "append_all K t (xs @ ys) = bind_res (append_all K t xs) (\<lambda>t'. append_all K t' ys)"
  by (induction xs arbitrary: t) (simp_all add: bind_res_def split: sum.split)

lemma append_all_full:
  assumes "NewIncrementalTree K depth = Inr t" "length leaves > 2 ^ unat depth"
  shows "append_all K t leaves = Inl ErrTreeFull"
proof -
  define c where "c = (2::nat) ^ unat depth"
  obtain t' where t': "append_all K t (take c leaves) = Inr t'" "tree_inv K t' (take c leaves)" "it_depth t' = depth"
    using append_all_inv[of K t "[]" "take c leaves"] tree_inv_new[OF assms(1)] by (auto simp: c_def)
  obtain leaf rest where "drop c leaves = leaf # rest"
    using assms(2) by (cases "drop c leaves") (auto simp: c_def)
  moreover have "Append K t' leaf = Inl ErrTreeFull"
    using Append_full[of K t' "take c leaves" leaf] t' assms(2) by (simp add: c_def)
  ultimately have "append_all K t (take c leaves @ drop c leaves) = Inl ErrTreeFull"
    using t' unfolding append_all_append by simp
  then show ?thesis by simp
qed

lemma append_all_new:
  assumes "NewIncrementalTree K depth = Inr t" "append_all K t leaves = Inr t'"
  shows "tree_inv K t' leaves \<and> it_depth t' = depth"
proof -
  have "length leaves \<le> 2 ^ unat depth"
    using append_all_full[OF assms(1)] assms(2) by (metis not_le sum.distinct(1))
  then show ?thesis
    using append_all_inv[of K t "[]" leaves] tree_inv_new[OF assms(1)] assms(2) by auto
qed

subsection \<open>Properties\<close>

text \<open>
  C2. The incremental frontier tree computes the Merkle root of its leaves: starting from a new tree of any
  legal depth, appending a list of leaves either gives a tree whose root is the reference root of exactly
  these leaves and whose next index is their number, or, when there are more leaves than the capacity
  \<open>2\<^sup>d\<^sup>e\<^sup>p\<^sup>t\<^sup>h\<close>, fails with \<open>ErrTreeFull\<close>.
\<close>

theorem incremental_tree_root:
  assumes "NewIncrementalTree K depth = Inr t"
  shows "case append_all K t leaves of
           Inr t' \<Rightarrow> length leaves \<le> 2 ^ unat depth \<and> it_root t' = merkle_root K (unat depth) leaves \<and>
                     unat (it_nextIndex t') = length leaves
         | Inl e \<Rightarrow> e = ErrTreeFull \<and> length leaves > 2 ^ unat depth"
proof (cases "length leaves \<le> 2 ^ unat depth")
  case True
  then obtain t' where "append_all K t leaves = Inr t'" "tree_inv K t' leaves" "it_depth t' = depth"
    using append_all_inv[of K t "[]" leaves] tree_inv_new[OF assms] by auto
  with True show ?thesis by (simp add: tree_inv_def)
next
  case False
  then show ?thesis using append_all_full[OF assms] by simp
qed

theorem incremental_tree_root_witness:
  "\<exists>t. NewIncrementalTree demo_hash 2 = Inr t \<and>
     (case append_all demo_hash t [5, 6, 7] of
        Inr t' \<Rightarrow> it_root t' = merkle_root demo_hash 2 [5, 6, 7] \<and> it_root t' = 32121
      | Inl e \<Rightarrow> False)"
proof -
  obtain t where t: "NewIncrementalTree demo_hash 2 = Inr t"
    by (simp add: NewIncrementalTree_def ZeroHashes_def validateDepth_def MaxTreeDepth_def)
  have "merkle_root demo_hash 2 [5, 6, 7] = 32121"
    by (simp add: numeral_2_eq_2 HashPair_def)
  with t incremental_tree_root[OF t, of "[5, 6, 7]"] show ?thesis
    by (auto split: sum.splits)
qed

text \<open>
  C27. Membership witnesses are complete for the roots the tree publishes: for every leaf the incremental tree
  accepted, the bottom-up siblings of its position reconstruct, through \<open>RootFromWitness\<close>, exactly the root
  of the tree.
\<close>

theorem witness_reconstructs_tree_root:
  assumes "NewIncrementalTree K depth = Inr t" "append_all K t leaves = Inr t'" "i < length leaves"
  shows "RootFromWitness K (leaves ! i) (of_nat i) (merkle_path K (unat depth) i leaves) depth = Inr (it_root t')"
  by (rule go_tree.member_witness[OF append_all_new[OF assms(1,2)] assms(3)])

theorem witness_reconstructs_tree_root_witness:
  "\<exists>t t'. NewIncrementalTree demo_hash 2 = Inr t \<and> append_all demo_hash t [5, 6, 7] = Inr t' \<and>
     merkle_path demo_hash 2 1 [5, 6, 7] = [5, 968] \<and>
     RootFromWitness demo_hash 6 1 [5, 968] 2 = Inr (it_root t')"
proof -
  obtain t where t: "NewIncrementalTree demo_hash 2 = Inr t"
    by (simp add: NewIncrementalTree_def ZeroHashes_def validateDepth_def MaxTreeDepth_def)
  obtain t' where t': "append_all demo_hash t [5, 6, 7] = Inr t'"
    using append_all_inv[of demo_hash t "[]" "[5, 6, 7]"] tree_inv_new[OF t] by auto
  have path: "merkle_path demo_hash 2 1 [5, 6, 7] = [5, 968]"
    by (simp add: numeral_2_eq_2 HashPair_def)
  show ?thesis
    using t t' path witness_reconstructs_tree_root[OF t t', of 1] by auto
qed

text \<open>
  A membership witness binds its leaf: two witnesses for the same leaf index that reconstruct the same root
  have the same leaf and the same siblings, unless two different pairs hashed at the same level of the
  two reconstructions have the same hash, which the two executions exhibit.
\<close>

theorem witness_binds_leaf:
  assumes "RootFromWitness K leaf i sibs depth = Inr root" "RootFromWitness K leaf' i sibs' depth = Inr root"
  shows "(leaf = leaf' \<and> sibs = sibs') \<or>
         pair_collision K (witness_pairs K leaf i sibs) (witness_pairs K leaf' i sibs')"
  using assms by (intro root_loop_binding) (simp_all add: RootFromWitness_Inr)

theorem witness_binds_leaf_witness:
  "RootFromWitness demo_hash 6 1 [5, 968] 2 = Inr 32121 \<and>
   RootFromWitness demo_hash 5 1 [36, 968] 2 = Inr 32121 \<and>
   pair_collision demo_hash (witness_pairs demo_hash 6 1 [5, 968]) (witness_pairs demo_hash 5 1 [36, 968])"
proof -
  have a: "RootFromWitness demo_hash 6 1 [5, 968] 2 = Inr 32121"
    and b: "RootFromWitness demo_hash 5 1 [36, 968] 2 = Inr 32121"
    by (simp_all add: RootFromWitness_Inr HashPair_def even_index)
  from witness_binds_leaf[OF a b] a b show ?thesis by simp
qed

text \<open>
  C30. A path proof binds everything it proves: if two proofs of the same length with the same leaf indices are
  both accepted by \<open>VerifyPath\<close> against one home root, then they have the same base trust root, the same
  block hashes and the same witnesses, unless the two verifications hash two different pairs at the same
  position to the same value.
\<close>

theorem path_proof_binding:
  assumes "VerifyPath K base blocks ws home depth = Inr ()" "VerifyPath K base' blocks' ws' home depth = Inr ()"
    and "map leafIndex ws = map leafIndex ws'"
  shows "(base = base' \<and> blocks = blocks' \<and> ws = ws') \<or>
         pair_collision K (path_pairs K base (zip blocks ws)) (path_pairs K base' (zip blocks' ws'))"
proof -
  have len: "length blocks = length ws" "length blocks' = length ws'" "length ws = length ws'"
    and loops: "path_loop K base (zip blocks ws) depth = Inr home" "path_loop K base' (zip blocks' ws') depth = Inr home"
    using assms by (auto simp: VerifyPath_def dest: map_eq_imp_length_eq split: if_splits)
  have "list_all2 (\<lambda>(b, w) (b', w'). leafIndex w = leafIndex w') (zip blocks ws) (zip blocks' ws')"
  proof -
    have "leafIndex (ws ! i) = leafIndex (ws' ! i)" if "i < length ws" for i
      using assms(3) len that by (metis nth_map)
    with len show ?thesis by (auto simp: list_all2_conv_all_nth)
  qed
  from path_loop_binding[OF this loops] show ?thesis
    using len by (metis map_fst_zip map_snd_zip)
qed

theorem path_proof_binding_witness:
  "VerifyPath demo_hash 3 [4] [\<lparr>leafIndex = 0, siblings = [9]\<rparr>] 2328 1 = Inr () \<and>
   VerifyPath demo_hash 34 [3] [\<lparr>leafIndex = 0, siblings = [9]\<rparr>] 2328 1 = Inr () \<and>
   pair_collision demo_hash
     (path_pairs demo_hash 3 (zip [4] [\<lparr>leafIndex = 0, siblings = [9]\<rparr>]))
     (path_pairs demo_hash 34 (zip [3] [\<lparr>leafIndex = 0, siblings = [9]\<rparr>]))"
proof -
  have a: "VerifyPath demo_hash 3 [4] [\<lparr>leafIndex = 0, siblings = [9]\<rparr>] 2328 1 = Inr ()"
    and b: "VerifyPath demo_hash 34 [3] [\<lparr>leafIndex = 0, siblings = [9]\<rparr>] 2328 1 = Inr ()"
    by (simp_all add: VerifyPath_def validateDepth_def MaxTreeDepth_def RootFromWitness_def HashPair_def LeafHash_def)
  from path_proof_binding[OF a b] a b show ?thesis by simp
qed

end
