(* ===== verification/Commitment.thy ===== *)
theory Commitment
  imports Merkle
begin

text \<open>
  The contracts \<open>TrustRootCommitment.sol\<close> and \<open>PathProofVerifier.sol\<close>: the block-local incremental Merkle
  commitment of a Gateway and the recursive path verification against it. Contract storage is a record,
  a Solidity \<open>mapping\<close> a total function with zero default, a revert the error of the result, and the events
  a call emits are kept in order in \<open>emitted\<close>. The lemmas relate both contracts to \<open>internal/proof\<close>, their Go
  counterpart.
\<close>

subsection \<open>The execution environment\<close>

type_synonym u256 = "256 word"

text \<open>What a call reads of its block and its transaction: \<open>block.number\<close>, \<open>block.chainid\<close>, \<open>blockhash\<close>, \<open>address(this)\<close>, \<open>msg.sender\<close>.\<close>

record sol_env =
  block_number :: u256
  block_chainid :: u256
  blockhash :: "u256 \<Rightarrow> hash"
  this_address :: address
  msg_sender :: address

text \<open>
  The custom errors of the contracts, in the order \<open>TrustRootCommitment\<close>, \<open>PathProofVerifier\<close>, \<open>TrustMapGateway\<close>, and
  those of \<open>ExperimentalCostedDirectVerifier\<close>, which a direct verifier may revert with.
\<close>

datatype sol_error =
    InvalidCommitmentDepth | TreeFull
  | InvalidTreeDepth | EmptyPath | PathLengthMismatch | InvalidSiblingCount | LeafIndexOutOfRange
  | FinalRootMismatch
  | ZeroDirectVerifier | DirectVerifierMustBeContract | UnknownRequest | RequestAlreadyResolved
  | SourceBlockHashMismatch | InvalidSourceChainId | InvalidSourceBlockHash | RequestIdCollision
  | RequestInProgress
  | EmptyAuthorizedSigners | ZeroAuthorizedSigner | DuplicateAuthorizedSigner | InvalidSignatureCheckCount
  | SignatureChecksExceedSignerCount | TooManySignatureChecks | TooManyHashRounds | OnlyBinder | ZeroGateway
  | GatewayMustBeContract | GatewayVerifierQueryFailed | GatewayVerifierMismatch | GatewayAlreadyBound
  | OnlyGateway | InvalidProofSignatureCount | InvalidSignatureLength | InvalidSignature
  \<comment> \<open>\<open>Panic(0x11)\<close> of checked arithmetic, and a revert without data (malformed calldata)\<close>
  | ArithmeticPanic | EmptyRevert

datatype sol_event =
    TrustRootUpdated (tru_requestId: hash) (tru_leafIndex: u32) (tru_leaf: hash) (tru_old: hash) (tru_new: hash)
      (tru_isAnchor: bool)
  | VerificationRequested (vr_requestId: hash) (vr_requester: address) (vr_sourceChainId: u256)
      (vr_sourceHeight: u256) (vr_sourceBlockHash: hash) (vr_nonce: u256)
  | DirectVerificationSucceeded hash u256 u256 hash hash hash
  | PathVerificationSucceeded hash u256 u256 hash hash u256 hash
  | DependencyRecorded (dr_key: hash) (dr_requestId: hash) (dr_sourceChainId: u256) (dr_sourceHeight: u256)
      (dr_sourceBlockHash: hash) (dr_sourceTrustRoot: hash) (dr_leafIndex: u32)
  | RequestResolved (rr_requestId: hash) (rr_requester: address) (rr_key: hash) (rr_new: bool) (rr_homeTrustRoot: hash)

type_synonym 'a sol = "sol_error + 'a"

subsection \<open>TrustRootCommitment\<close>

record commitment =
  commitmentTreeDepth :: u8
  commitmentTreeCapacity :: u64
  currentTrustRoot :: hash
  activeTreeBlock :: u256
  currentLeafCount :: u64
  anchorRootForActiveBlock :: hash
  trustRootByUpdateBlock :: "u256 \<Rightarrow> hash"
  hasTrustRootUpdateAtBlock :: "u256 \<Rightarrow> bool"
  frontier :: "hash list"
  zeroSubtrees :: "hash list"
  emitted :: "sol_event list"

definition keccak_pair :: "keccak \<Rightarrow> hash \<Rightarrow> hash \<Rightarrow> hash" where
  "keccak_pair K left right = K (bytes32 left @ bytes32 right)"

fun zero_levels :: "keccak \<Rightarrow> nat list \<Rightarrow> hash list \<Rightarrow> hash list" where
  "zero_levels K [] zs = zs"
| "zero_levels K (level # levels) zs =
     zero_levels K levels (zs[level := keccak_pair K (zs ! (level - 1)) (zs ! (level - 1))])"

definition new_commitment :: "keccak \<Rightarrow> u8 \<Rightarrow> hash \<Rightarrow> commitment sol" where
  "new_commitment K depth initialTrustRoot =
     (if depth = 0 \<or> depth > 32 then Inl InvalidCommitmentDepth
      else Inr \<lparr>commitmentTreeDepth = depth, commitmentTreeCapacity = push_bit (unat depth) 1,
                currentTrustRoot = initialTrustRoot, activeTreeBlock = 0, currentLeafCount = 0,
                anchorRootForActiveBlock = 0, trustRootByUpdateBlock = (\<lambda>_. 0),
                hasTrustRootUpdateAtBlock = (\<lambda>_. False), frontier = replicate (unat depth) 0,
                zeroSubtrees = zero_levels K [1..<unat depth] (replicate (unat depth) 0), emitted = []\<rparr>)"

fun append_levels ::
  "keccak \<Rightarrow> hash list \<Rightarrow> nat list \<Rightarrow> u64 \<Rightarrow> hash \<Rightarrow> hash list \<Rightarrow> hash \<times> hash list" where
  "append_levels K zs [] index node fr = (node, fr)"
| "append_levels K zs (level # levels) index node fr =
     (if index AND 1 = 0
      then append_levels K zs levels (drop_bit 1 index) (keccak_pair K node (zs ! level)) (fr[level := node])
      else append_levels K zs levels (drop_bit 1 index) (keccak_pair K (fr ! level) node) fr)"

definition appendLeaf ::
  "keccak \<Rightarrow> sol_env \<Rightarrow> hash \<Rightarrow> hash \<Rightarrow> bool \<Rightarrow> 'a commitment_scheme \<Rightarrow> ('a commitment_scheme \<times> u32) sol" where
  "appendLeaf K env requestId leaf isAnchor s =
     (let count = currentLeafCount s
      in if count \<ge> commitmentTreeCapacity s then Inl TreeFull
         else let leafIndex = ucast count;
                  (node, fr) = append_levels K (zeroSubtrees s) [0..<unat (commitmentTreeDepth s)] count leaf (frontier s);
                  oldTrustRoot = currentTrustRoot s
              in Inr (s\<lparr>frontier := fr, currentTrustRoot := node, currentLeafCount := count + 1,
                        trustRootByUpdateBlock := (trustRootByUpdateBlock s)(block_number env := node),
                        hasTrustRootUpdateAtBlock := (hasTrustRootUpdateAtBlock s)(block_number env := True),
                        emitted := emitted s @ [TrustRootUpdated requestId leafIndex leaf oldTrustRoot node isAnchor]\<rparr>,
                      leafIndex))"

definition beginBlockTree ::
  "keccak \<Rightarrow> sol_env \<Rightarrow> hash \<Rightarrow> hash \<Rightarrow> 'a commitment_scheme \<Rightarrow> 'a commitment_scheme sol" where
  "beginBlockTree K env requestId anchorLeaf s =
     (let s1 = s\<lparr>frontier := foldl (\<lambda>fr level. fr[level := 0]) (frontier s) [0..<unat (commitmentTreeDepth s)],
                 activeTreeBlock := block_number env, currentLeafCount := 0\<rparr>
      in bind_res (appendLeaf K env requestId anchorLeaf True s1) (\<lambda>(s2, _).
         Inr (s2\<lparr>anchorRootForActiveBlock := currentTrustRoot s2\<rparr>)))"

subsection \<open>PathProofVerifier\<close>

record sol_witness =
  sol_leafIndex :: u32
  sol_siblings :: "hash list"

definition new_path_verifier :: "u8 \<Rightarrow> (u8 \<times> u64) sol" where
  "new_path_verifier depth =
     (if depth = 0 \<or> depth > 32 then Inl InvalidTreeDepth else Inr (depth, push_bit (unat depth) 1))"

definition paperLeaf :: "keccak \<Rightarrow> hash \<Rightarrow> hash \<Rightarrow> hash" where
  "paperLeaf K sourceTrustRoot sourceBlockHash = K (bytes32 sourceTrustRoot @ bytes32 sourceBlockHash)"

fun root_levels :: "keccak \<Rightarrow> sol_witness \<Rightarrow> nat list \<Rightarrow> u32 \<Rightarrow> hash \<Rightarrow> hash" where
  "root_levels K w [] index root = root"
| "root_levels K w (level # levels) index root =
     (let sibling = sol_siblings w ! level
      in root_levels K w levels (drop_bit 1 index)
           (if index AND 1 = 0 then keccak_pair K root sibling else keccak_pair K sibling root))"

definition computeRoot :: "keccak \<Rightarrow> u8 \<Rightarrow> u64 \<Rightarrow> hash \<Rightarrow> sol_witness \<Rightarrow> hash sol" where
  "computeRoot K pathTreeDepth pathTreeCapacity leaf w =
     (if length (sol_siblings w) \<noteq> unat pathTreeDepth then Inl InvalidSiblingCount
      else if (ucast (sol_leafIndex w) :: u64) \<ge> pathTreeCapacity then Inl LeafIndexOutOfRange
      else Inr (root_levels K w [0..<unat pathTreeDepth] (sol_leafIndex w) leaf))"

fun verify_hops :: "keccak \<Rightarrow> u8 \<Rightarrow> u64 \<Rightarrow> hash list \<Rightarrow> sol_witness list \<Rightarrow> nat list \<Rightarrow> hash \<Rightarrow> hash sol" where
  "verify_hops K d cap blockHashes ws [] finalRoot = Inr finalRoot"
| "verify_hops K d cap blockHashes ws (i # is) finalRoot =
     bind_res (computeRoot K d cap (paperLeaf K finalRoot (blockHashes ! i)) (ws ! i)) (\<lambda>finalRoot'.
     verify_hops K d cap blockHashes ws is finalRoot')"

definition sol_verifyPath ::
  "keccak \<Rightarrow> u8 \<Rightarrow> u64 \<Rightarrow> hash \<Rightarrow> hash \<Rightarrow> hash list \<Rightarrow> sol_witness list \<Rightarrow> hash sol" where
  "sol_verifyPath K pathTreeDepth pathTreeCapacity homeTrustRoot baseTrustRoot blockHashes ws =
     (let len = length blockHashes
      in if len = 0 then Inl EmptyPath
         else if len \<noteq> length ws then Inl PathLengthMismatch
         else bind_res (verify_hops K pathTreeDepth pathTreeCapacity blockHashes ws [0..<len] baseTrustRoot) (\<lambda>finalRoot.
           if finalRoot \<noteq> homeTrustRoot then Inl FinalRootMismatch else Inr finalRoot))"

definition sol_verifyPath_view ::
  "keccak \<Rightarrow> u8 \<Rightarrow> u64 \<Rightarrow> hash \<Rightarrow> hash \<Rightarrow> hash list \<Rightarrow> sol_witness list \<Rightarrow> bool sol" where
  "sol_verifyPath_view K pathTreeDepth pathTreeCapacity homeTrustRoot baseTrustRoot blockHashes ws =
     bind_res (sol_verifyPath K pathTreeDepth pathTreeCapacity homeTrustRoot baseTrustRoot blockHashes ws) (\<lambda>_. Inr True)"

subsection \<open>The contracts and internal/proof\<close>

lemma keccak_pair_eq [simp]: "keccak_pair K a b = HashPair K a b"
  by (simp add: keccak_pair_def HashPair_def)

lemma paperLeaf_eq [simp]: "paperLeaf K a b = LeafHash K a b"
  by (simp add: paperLeaf_def LeafHash_def)

lemma zero_levels_eq: "zero_levels K levels zs = zero_loop K levels zs"
  by (induction levels arbitrary: zs) simp_all

lemma append_levels_eq:
  assumes "\<forall>l \<in> set levels. zs ! l = zeros ! l"
  shows "append_levels K zs levels index node fr = append_loop K zeros levels index node fr"
  using assms by (induction levels arbitrary: index node fr) simp_all

lemma root_levels_eq:
  "k \<le> length (sol_siblings w) \<Longrightarrow>
     root_levels K w [k..<length (sol_siblings w)] index root = root_loop K root index (drop k (sol_siblings w))"
proof (induction "length (sol_siblings w) - k" arbitrary: k index root)
  case (Suc n)
  then have k: "k < length (sol_siblings w)" by simp
  have d: "drop k (sol_siblings w) = sol_siblings w ! k # drop (Suc k) (sol_siblings w)"
    using k by (rule Cons_nth_drop_Suc[symmetric])
  show ?case using Suc.hyps(1)[of "Suc k"] Suc.hyps(2) k
    by (simp add: upt_conv_Cons[OF k] d Let_def)
qed simp

text \<open>The Go form of a Solidity witness.\<close>

definition go_witness :: "sol_witness \<Rightarrow> membership_witness" where
  "go_witness w = \<lparr>leafIndex = sol_leafIndex w, siblings = sol_siblings w\<rparr>"

lemma go_witness_simps [simp]: "leafIndex (go_witness w) = sol_leafIndex w" "siblings (go_witness w) = sol_siblings w"
  by (simp_all add: go_witness_def)

lemma new_path_verifier_Inr:
  "new_path_verifier depth = Inr (d, cap) \<longleftrightarrow> 1 \<le> unat depth \<and> unat depth \<le> 32 \<and> d = depth \<and> cap = push_bit (unat depth) 1"
  by (auto simp: new_path_verifier_def word_less_nat_alt word_unat_eq_iff)

text \<open>The errors of the contract and those of the Go verifier, one for one.\<close>

fun go_verify_error :: "go_error \<Rightarrow> sol_error" where
  "go_verify_error ErrEmptyPath = EmptyPath"
| "go_verify_error ErrPathLengthMismatch = PathLengthMismatch"
| "go_verify_error ErrInvalidSiblingCount = InvalidSiblingCount"
| "go_verify_error ErrLeafIndexOutOfRange = LeafIndexOutOfRange"
| "go_verify_error ErrFinalRootMismatch = FinalRootMismatch"
| "go_verify_error ErrInvalidTreeDepth = InvalidTreeDepth"
| "go_verify_error _ = EmptyRevert"

lemma computeRoot_eq:
  assumes "1 \<le> unat d" "unat d \<le> 32"
  shows "computeRoot K d (push_bit (unat d) 1) leaf w =
    map_sum go_verify_error id (RootFromWitness K leaf (sol_leafIndex w) (sol_siblings w) d)"
proof -
  have depth: "validateDepth d = Inr ()" using assms by simp
  have "root_levels K w [0..<unat d] (sol_leafIndex w) leaf = root_loop K leaf (sol_leafIndex w) (sol_siblings w)"
    if "length (sol_siblings w) = unat d"
    using root_levels_eq[of 0 w K "sol_leafIndex w" leaf] that by simp
  then show ?thesis by (simp add: computeRoot_def RootFromWitness_def depth del: push_bit_of_1)
qed

lemma verify_hops_eq:
  assumes d: "1 \<le> unat d" "unat d \<le> 32" and len: "length blocks = length ws" and k: "k \<le> length blocks"
  shows "verify_hops K d (push_bit (unat d) 1) blocks ws [k..<length blocks] root =
    map_sum go_verify_error id (path_loop K root (zip (drop k blocks) (map go_witness (drop k ws))) d)"
  using k
proof (induction "length blocks - k" arbitrary: k root)
  case (Suc n)
  then have k: "k < length blocks" by simp
  have drops: "drop k blocks = blocks ! k # drop (Suc k) blocks" "drop k ws = ws ! k # drop (Suc k) ws"
    using k len by (simp_all add: Cons_nth_drop_Suc)
  show ?case
  proof (cases "RootFromWitness K (LeafHash K root (blocks ! k)) (sol_leafIndex (ws ! k)) (sol_siblings (ws ! k)) d")
    case (Inr r)
    then show ?thesis
      using Suc.hyps(1)[of "Suc k" r] Suc.hyps(2) k
      by (simp add: drops upt_conv_Cons[OF k] computeRoot_eq[OF d] del: push_bit_of_1)
  qed (simp add: drops upt_conv_Cons[OF k] computeRoot_eq[OF d] del: push_bit_of_1)
qed simp

lemma sol_verifyPath_eq:
  assumes "1 \<le> unat d" "unat d \<le> 32"
  shows "sol_verifyPath K d (push_bit (unat d) 1) home base blocks ws =
    map_sum go_verify_error (\<lambda>_. home) (VerifyPath K base blocks (map go_witness ws) home d)"
proof -
  have depth: "validateDepth d = Inr ()" using assms by simp
  show ?thesis
  proof (cases "length blocks = length ws")
    case True
    have hops: "verify_hops K d (push_bit (unat d) 1) blocks ws [0..<length blocks] base =
      map_sum go_verify_error id (path_loop K base (zip blocks (map go_witness ws)) d)"
      using verify_hops_eq[OF assms True, of 0 K base] by simp
    show ?thesis
      by (cases "path_loop K base (zip blocks (map go_witness ws)) d")
        (simp_all add: sol_verifyPath_def VerifyPath_def Let_def depth hops True[symmetric] del: push_bit_of_1)
  next
    case False
    then show ?thesis by (simp add: sol_verifyPath_def VerifyPath_def Let_def depth)
  qed
qed

subsection \<open>The block tree\<close>

text \<open>The leaves of the tree of the active block, as the \<open>TrustRootUpdated\<close> events report them: an anchor starts a new tree.\<close>

definition log_leaf :: "hash list \<Rightarrow> sol_event \<Rightarrow> hash list" where
  "log_leaf leaves e =
     (case e of TrustRootUpdated _ _ leaf _ _ isAnchor \<Rightarrow> if isAnchor then [leaf] else leaves @ [leaf] | _ \<Rightarrow> leaves)"

definition tree_leaves :: "sol_event list \<Rightarrow> hash list" where
  "tree_leaves es = foldl log_leaf [] es"

lemma tree_leaves_Nil [simp]: "tree_leaves [] = []"
  by (simp add: tree_leaves_def)

lemma tree_leaves_snoc [simp]: "tree_leaves (es @ [e]) = log_leaf (tree_leaves es) e"
  by (simp add: tree_leaves_def)

definition tree_shape :: "keccak \<Rightarrow> 'a commitment_scheme \<Rightarrow> bool" where
  "tree_shape K s \<longleftrightarrow>
     1 \<le> unat (commitmentTreeDepth s) \<and> unat (commitmentTreeDepth s) \<le> 32 \<and>
     commitmentTreeCapacity s = push_bit (unat (commitmentTreeDepth s)) 1 \<and>
     zeroSubtrees s = map (zero_hash K) [0..<unat (commitmentTreeDepth s)] \<and>
     length (frontier s) = unat (commitmentTreeDepth s)"

definition block_tree :: "keccak \<Rightarrow> 'a commitment_scheme \<Rightarrow> hash list \<Rightarrow> bool" where
  "block_tree K s leaves \<longleftrightarrow>
     tree_shape K s \<and> length leaves \<le> 2 ^ unat (commitmentTreeDepth s) \<and>
     unat (currentLeafCount s) = length leaves \<and>
     frontier_inv K (unat (commitmentTreeDepth s)) leaves (frontier s) \<and>
     (leaves \<noteq> [] \<longrightarrow> currentTrustRoot s = merkle_root K (unat (commitmentTreeDepth s)) leaves)"

lemma appendLeaf_room:
  assumes "block_tree K s leaves" "length leaves < 2 ^ unat (commitmentTreeDepth s)"
  obtains s' where "appendLeaf K env rid leaf anchor s = Inr (s', of_nat (length leaves))"
    "block_tree K s' (leaves @ [leaf])" "commitmentTreeDepth s' = commitmentTreeDepth s"
    "activeTreeBlock s' = activeTreeBlock s" "commitment.more s' = commitment.more s"
    "emitted s' = emitted s @ [TrustRootUpdated rid (of_nat (length leaves)) leaf (currentTrustRoot s) (currentTrustRoot s') anchor]"
proof -
  let ?d = "unat (commitmentTreeDepth s)"
  have shape: "1 \<le> ?d" "?d \<le> 32" "commitmentTreeCapacity s = push_bit ?d 1"
    "zeroSubtrees s = map (zero_hash K) [0..<?d]" and idx: "unat (currentLeafCount s) = length leaves"
    and fr: "frontier_inv K ?d leaves (frontier s)"
    using assms(1) by (simp_all add: block_tree_def tree_shape_def)
  have room: "\<not> currentLeafCount s \<ge> commitmentTreeCapacity s"
    using shape(3) idx assms(2) unat_capacity[OF shape(2)] by (simp add: word_le_nat_alt)
  have next_idx: "unat (currentLeafCount s + 1) = Suc (length leaves)"
    by (rule unat_Suc_small[OF idx capacity_small[OF shape(2) assms(2)]])
  have cast: "(ucast (currentLeafCount s) :: u32) = of_nat (length leaves)"
    using idx by (metis of_nat_unat)
  obtain fr' where
    loop: "append_loop K (map (zero_hash K) [0..<?d + 1]) [0..<?d] (currentLeafCount s) leaf (frontier s) =
      (merkle_root K ?d (leaves @ [leaf]), fr')" and fr': "frontier_inv K ?d (leaves @ [leaf]) fr'"
    using append_loop_root[OF fr assms(2) idx refl] by blast
  have levels: "append_levels K (zeroSubtrees s) [0..<?d] (currentLeafCount s) leaf (frontier s) = (merkle_root K ?d (leaves @ [leaf]), fr')"
    using loop append_levels_eq[of "[0..<?d]" "zeroSubtrees s" "map (zero_hash K) [0..<?d + 1]" K "currentLeafCount s" leaf "frontier s"]
    by (simp add: shape(4) nth_append del: upt_Suc)
  define s' where "s' = s\<lparr>frontier := fr', currentTrustRoot := merkle_root K ?d (leaves @ [leaf]),
    currentLeafCount := currentLeafCount s + 1,
    trustRootByUpdateBlock := (trustRootByUpdateBlock s)(block_number env := merkle_root K ?d (leaves @ [leaf])),
    hasTrustRootUpdateAtBlock := (hasTrustRootUpdateAtBlock s)(block_number env := True),
    emitted := emitted s @ [TrustRootUpdated rid (of_nat (length leaves)) leaf (currentTrustRoot s)
      (merkle_root K ?d (leaves @ [leaf])) anchor]\<rparr>"
  have "appendLeaf K env rid leaf anchor s = Inr (s', of_nat (length leaves))"
    using room by (simp add: appendLeaf_def Let_def levels cast s'_def)
  moreover have "length fr' = ?d" using fr' by (simp add: frontier_inv_def)
  then have "block_tree K s' (leaves @ [leaf])"
    using shape next_idx fr' assms(2) by (simp add: block_tree_def tree_shape_def s'_def)
  ultimately show ?thesis by (rule that[of s']) (simp_all add: s'_def)
qed

lemma appendLeaf_full:
  assumes "block_tree K s leaves" "length leaves = 2 ^ unat (commitmentTreeDepth s)"
  shows "appendLeaf K env rid leaf anchor s = Inl TreeFull"
  using assms unat_capacity[of "unat (commitmentTreeDepth s)"]
  by (simp add: appendLeaf_def Let_def block_tree_def tree_shape_def word_le_nat_alt)

lemma clear_frontier: "n = length fr \<Longrightarrow> foldl (\<lambda>fr level. fr[level := 0]) fr [0..<n] = replicate n 0"
proof -
  have "foldl (\<lambda>fr level. fr[level := 0]) fr [0..<k] = replicate k 0 @ drop k fr" if "k \<le> length fr" for k
    using that
  proof (induction k)
    case (Suc k)
    then have "drop k fr = fr ! k # drop (Suc k) fr" by (simp add: Cons_nth_drop_Suc)
    with Suc show ?case by (simp add: list_update_append replicate_append_same)
  qed simp
  then show "n = length fr \<Longrightarrow> ?thesis" by simp
qed

lemma new_commitment_tree:
  assumes "new_commitment K depth root = Inr s"
  shows "block_tree K s []" "emitted s = []" "commitmentTreeDepth s = depth" "1 \<le> unat depth" "unat depth \<le> 32"
proof -
  have d: "1 \<le> unat depth" "unat depth \<le> 32" using assms
    by (auto simp: new_commitment_def word_less_nat_alt word_unat_eq_iff split: if_splits)
  have "zero_levels K [1..<unat depth] (replicate (unat depth) 0) = map (zero_hash K) [0..<unat depth]"
    using zero_loop_eq[of 1 "unat depth" K] d by (simp add: zero_levels_eq replicate_Suc[symmetric] del: replicate_Suc)
  then show "block_tree K s []" "emitted s = []" "commitmentTreeDepth s = depth"
    using assms d by (auto simp: new_commitment_def block_tree_def tree_shape_def frontier_inv_def split: if_splits)
qed (use assms in \<open>auto simp: new_commitment_def word_less_nat_alt word_unat_eq_iff split: if_splits\<close>)

lemma beginBlockTree_ok:
  assumes "tree_shape K s"
  obtains s' where "beginBlockTree K env rid leaf s = Inr s'" "block_tree K s' [leaf]"
    "commitmentTreeDepth s' = commitmentTreeDepth s" "activeTreeBlock s' = block_number env"
    "commitment.more s' = commitment.more s"
    "emitted s' = emitted s @ [TrustRootUpdated rid 0 leaf (currentTrustRoot s) (currentTrustRoot s') True]"
proof -
  define s1 where "s1 = s\<lparr>frontier := foldl (\<lambda>fr level. fr[level := 0]) (frontier s) [0..<unat (commitmentTreeDepth s)],
    activeTreeBlock := block_number env, currentLeafCount := 0\<rparr>"
  have fr: "frontier s1 = replicate (unat (commitmentTreeDepth s)) 0"
    using assms clear_frontier[of "unat (commitmentTreeDepth s)" "frontier s"] by (simp add: s1_def tree_shape_def)
  have tree: "block_tree K s1 []" using assms fr by (simp add: s1_def block_tree_def tree_shape_def frontier_inv_def)
  obtain s2 where s2: "appendLeaf K env rid leaf True s1 = Inr (s2, 0)" "block_tree K s2 [leaf]"
    "commitmentTreeDepth s2 = commitmentTreeDepth s1" "activeTreeBlock s2 = activeTreeBlock s1"
    "commitment.more s2 = commitment.more s1"
    "emitted s2 = emitted s1 @ [TrustRootUpdated rid 0 leaf (currentTrustRoot s1) (currentTrustRoot s2) True]"
    by (rule appendLeaf_room[OF tree, of env rid leaf True]) simp_all
  define s' where "s' = s2\<lparr>anchorRootForActiveBlock := currentTrustRoot s2\<rparr>"
  have "beginBlockTree K env rid leaf s = Inr s'"
    using s2(1) by (simp add: beginBlockTree_def Let_def s1_def[symmetric] s'_def)
  moreover have "block_tree K s' [leaf]" using s2(2) by (simp add: s'_def block_tree_def tree_shape_def)
  ultimately show ?thesis by (rule that[of s']) (use s2(3-6) in \<open>simp_all add: s'_def s1_def\<close>)
qed

interpretation sol_tree: merkle_accumulator K depth "\<lambda>s leaves. block_tree K s leaves \<and> commitmentTreeDepth s = depth"
    currentTrustRoot "\<lambda>leaf s. map_option fst (ok_option (appendLeaf K env rid leaf anchor s))"
  for K depth env rid anchor
proof unfold_locales
  fix s :: "'a commitment_scheme" and leaves leaf
  assume a: "block_tree K s leaves \<and> commitmentTreeDepth s = depth" "length leaves < 2 ^ unat depth"
  then show "\<exists>s'. map_option fst (ok_option (appendLeaf K env rid leaf anchor s)) = Some s' \<and>
      block_tree K s' (leaves @ [leaf]) \<and> commitmentTreeDepth s' = depth"
    using appendLeaf_room[of K s leaves env rid leaf anchor] by fastforce
next
  fix s :: "'a commitment_scheme" and leaves leaf
  assume "block_tree K s leaves \<and> commitmentTreeDepth s = depth" "length leaves = 2 ^ unat depth"
  then show "map_option fst (ok_option (appendLeaf K env rid leaf anchor s)) = None"
    using appendLeaf_full[of K s leaves env rid leaf anchor] by simp
qed (auto simp: block_tree_def tree_shape_def)

end
