(* ===== verification/Evidence.thy ===== *)
theory Evidence
  imports Domain
begin

text \<open>
  Evidence of \<open>Mapnode/evidence\<close>: the locator of a log or observation, the content addresses computed
  from it, the request identifier of the Gateway contract, and the life cycle of an evidence record.
\<close>

subsection \<open>Locators and identifiers\<close>

type_synonym evidence_id = hash

record locator =
  loc_ChainID :: chain_id
  loc_ContractAddress :: address
  loc_BlockNumber :: block_height
  loc_BlockHash :: hash
  loc_TxHash :: hash
  loc_TxIndex :: u32
  loc_LogIndex :: u32
  loc_PayloadDigest :: hash

definition locator_Validate :: "locator \<Rightarrow> unit res" where
  "locator_Validate l =
     bind_res (chain_Validate (loc_ChainID l)) (\<lambda>_.
     if loc_ContractAddress l = 0 then Inl ErrZeroContractAddress
     else if loc_BlockHash l = 0 then Inl ErrZeroBlockHash
     else if loc_TxHash l = 0 then Inl ErrZeroTransactionHash
     else if loc_PayloadDigest l = 0 then Inl ErrZeroPayloadDigest
     else Inr ())"

text \<open>The eight ABI words of a locator.\<close>

definition locator_bytes :: "locator \<Rightarrow> byte list" where
  "locator_bytes l =
     bytes32 (loc_ChainID l) @ address_word (loc_ContractAddress l) @ bytes32 (loc_BlockNumber l) @
     bytes32 (loc_BlockHash l) @ bytes32 (loc_TxHash l) @ uint32_word (loc_TxIndex l) @
     uint32_word (loc_LogIndex l) @ bytes32 (loc_PayloadDigest l)"

definition ComputeID :: "keccak \<Rightarrow> locator \<Rightarrow> evidence_id res" where
  "ComputeID K l = bind_res (locator_Validate l) (\<lambda>_. Inr (K (locator_bytes l)))"

text \<open>An observation has no transaction coordinates; the code leaves words four to six zero.\<close>

definition synthetic_bytes :: "locator \<Rightarrow> byte list" where
  "synthetic_bytes l =
     bytes32 (loc_ChainID l) @ address_word (loc_ContractAddress l) @ bytes32 (loc_BlockNumber l) @
     bytes32 (loc_BlockHash l) @ replicate 96 0 @ bytes32 (loc_PayloadDigest l)"

definition ComputeSyntheticID :: "keccak \<Rightarrow> locator \<Rightarrow> evidence_id res" where
  "ComputeSyntheticID K l =
     bind_res (chain_Validate (loc_ChainID l)) (\<lambda>_.
     if loc_ContractAddress l = 0 \<or> loc_BlockHash l = 0 \<or> loc_PayloadDigest l = 0
     then Inl (ErrMsg ''synthetic evidence requires chain, contract, block hash, and payload digest'')
     else if loc_TxHash l \<noteq> 0 \<or> loc_TxIndex l \<noteq> 0 \<or> loc_LogIndex l \<noteq> 0
     then Inl (ErrMsg ''synthetic evidence must have zero transaction/log coordinates'')
     else Inr (K (synthetic_bytes l)))"

definition encodeUint256 :: "int option \<Rightarrow> hash res" where
  "encodeUint256 value =
     (case value of
        None \<Rightarrow> Inl ErrNilUint256
      | Some v \<Rightarrow>
          if v < 0 then Inl ErrNegativeUint256
          else if v \<ge> 2 ^ 256 then Inl ErrUint256Overflow
          else Inr (of_int v))"

definition gateway_request_bytes ::
  "chain_id \<Rightarrow> address \<Rightarrow> address \<Rightarrow> hash \<Rightarrow> chain_id \<Rightarrow> block_height \<Rightarrow> hash \<Rightarrow> byte list" where
  "gateway_request_bytes home gateway requester nonceWord source height blockHash =
     bytes32 home @ address_word gateway @ address_word requester @ bytes32 nonceWord @
     bytes32 source @ bytes32 height @ bytes32 blockHash"

definition ComputeGatewayRequestID ::
  "keccak \<Rightarrow> chain_id \<Rightarrow> address \<Rightarrow> address \<Rightarrow> int option \<Rightarrow> chain_id \<Rightarrow> block_height \<Rightarrow> hash \<Rightarrow> request_id res" where
  "ComputeGatewayRequestID K homeChainID gateway requester nonce sourceChainID sourceHeight sourceBlockHash =
     bind_res (chain_Validate homeChainID) (\<lambda>_.
     if gateway = 0 then Inl ErrZeroGateway
     else if requester = 0 then Inl ErrZeroRequester
     else bind_res (encodeUint256 nonce) (\<lambda>nonceWord.
     bind_res (chain_Validate sourceChainID) (\<lambda>_.
     if sourceBlockHash = 0 then Inl ErrZeroBlockHash
     else Inr (K (gateway_request_bytes homeChainID gateway requester nonceWord sourceChainID
                    sourceHeight sourceBlockHash)))))"

subsection \<open>The life cycle\<close>

text \<open>\<open>type State string\<close>: the five constants, and any other string.\<close>

datatype evidence_state = Candidate | Verified | Confirmed | Active | Invalid | OtherState string

record evidence_record =
  ev_ID :: evidence_id
  ev_Locator :: locator
  ev_State :: evidence_state
  ev_InvalidReason :: string
  ev_CreatedAt :: go_time
  ev_UpdatedAt :: go_time

definition AllStates :: "evidence_state list" where
  "AllStates = [Candidate, Verified, Confirmed, Active, Invalid]"

fun state_Validate :: "evidence_state \<Rightarrow> unit res" where
  "state_Validate (OtherState s) = Inl ErrInvalidState"
| "state_Validate _ = Inr ()"

definition legal_transition :: "evidence_state \<Rightarrow> evidence_state \<Rightarrow> bool" where
  "legal_transition from to \<longleftrightarrow>
     from = Candidate \<and> (to = Verified \<or> to = Invalid) \<or>
     from = Verified \<and> to = Confirmed \<or>
     from = Confirmed \<and> to = Active"

definition ValidateTransition :: "evidence_state \<Rightarrow> evidence_state \<Rightarrow> string \<Rightarrow> bool res" where
  "ValidateTransition from to reason =
     bind_res (state_Validate from) (\<lambda>_.
     bind_res (state_Validate to) (\<lambda>_.
     if from = to then Inr False
     else if \<not> legal_transition from to then Inl ErrInvalidTransition
     else if to = Invalid \<and> reason = [] then Inl ErrInvalidReasonRequired
     else Inr True))"

subsection \<open>Identifiers determine what they identify\<close>

lemma locator_bytes_inject [simp]: "locator_bytes l = locator_bytes l' \<longleftrightarrow> l = l'"
  by (cases l; cases l') (auto simp: locator_bytes_def)

lemma zero_words: "bytes32 0 @ uint32_word 0 @ uint32_word 0 = replicate 96 0"
proof -
  have zeros: "be_bytes n (0 :: 'a::len word) = replicate n 0" for n
    by (rule nth_equalityI) (simp_all add: nth_be_bytes)
  show ?thesis
    by (simp add: bytes32_def uint32_word_def zeros flip: replicate_add)
qed

text \<open>A synthetic identifier hashes the same eight words, three of which are zero.\<close>

lemma synthetic_bytes_locator:
  assumes "loc_TxHash l = 0" "loc_TxIndex l = 0" "loc_LogIndex l = 0"
  shows "synthetic_bytes l = locator_bytes l"
  using assms by (simp add: synthetic_bytes_def locator_bytes_def flip: zero_words)

lemma ComputeID_Inr:
  "ComputeID K l = Inr i \<longleftrightarrow> locator_Validate l = Inr () \<and> i = K (locator_bytes l)"
  by (auto simp: ComputeID_def)

lemma ComputeSyntheticID_Inr:
  assumes "ComputeSyntheticID K l = Inr i"
  shows "i = K (locator_bytes l)" "loc_TxHash l = 0"
  using assms by (auto simp: ComputeSyntheticID_def synthetic_bytes_locator split: if_splits)

lemma encodeUint256_Inr:
  assumes "encodeUint256 v = Inr w"
  shows "v = Some (uint w)"
  using assms by (auto simp: encodeUint256_def unsigned_of_int take_bit_eq_mod split: option.splits if_splits)

text \<open>
  C35. An evidence identifier determines the locator it was computed from, for log evidence
  (\<open>ComputeID\<close>) and for observations (\<open>ComputeSyntheticID\<close>) alike: two locators with one identifier are
  equal, unless their two encodings are a collision of the hash function. In particular an observation
  never has the identifier of a log.
\<close>

theorem evidence_id_binds_locator:
  assumes "ComputeID K l = Inr i \<or> ComputeSyntheticID K l = Inr i"
    and "ComputeID K l' = Inr i \<or> ComputeSyntheticID K l' = Inr i"
  shows "l = l' \<or> (locator_bytes l \<noteq> locator_bytes l' \<and> K (locator_bytes l) = K (locator_bytes l'))"
proof -
  have "i = K (locator_bytes l)" "i = K (locator_bytes l')"
    using assms by (auto simp: ComputeID_Inr dest: ComputeSyntheticID_Inr)
  then show ?thesis by auto
qed

definition demo_locator :: locator where
  "demo_locator = \<lparr>loc_ChainID = 1, loc_ContractAddress = 2, loc_BlockNumber = 3, loc_BlockHash = 4,
     loc_TxHash = 5, loc_TxIndex = 6, loc_LogIndex = 7, loc_PayloadDigest = 8\<rparr>"

text \<open>
  Under a hash that maps everything to one digest, a log and an observation have one identifier, and the theorem names
  the collision.
\<close>

theorem evidence_id_binds_locator_witness:
  "\<exists>l. ComputeID (\<lambda>_. 1) demo_locator = Inr 1 \<and> ComputeSyntheticID (\<lambda>_. 1) l = Inr 1 \<and> locator_bytes demo_locator \<noteq> locator_bytes l"
proof -
  let ?l = "demo_locator\<lparr>loc_TxHash := 0, loc_TxIndex := 0, loc_LogIndex := 0\<rparr>"
  have i: "ComputeID (\<lambda>_. 1) demo_locator = Inr 1" "ComputeSyntheticID (\<lambda>_. 1) ?l = Inr 1"
    by (simp_all add: ComputeID_Inr ComputeSyntheticID_def locator_Validate_def chain_Validate_def BigInt_def demo_locator_def)
  moreover have "demo_locator \<noteq> ?l" by (simp add: demo_locator_def)
  ultimately show ?thesis using evidence_id_binds_locator[of "\<lambda>_. 1" demo_locator 1 ?l] by blast
qed

text \<open>
  A Gateway request identifier determines the home chain, the Gateway, the requester, the nonce and
  the requested source block, unless the two encodings are a collision of the hash function.
\<close>

theorem gateway_request_id_binds:
  assumes "ComputeGatewayRequestID K home gw rq (Some n) src h bh = Inr i"
    and "ComputeGatewayRequestID K home' gw' rq' (Some n') src' h' bh' = Inr i"
  shows "(home, gw, rq, n, src, h, bh) = (home', gw', rq', n', src', h', bh') \<or>
    (let x = gateway_request_bytes home gw rq (of_int n) src h bh;
         y = gateway_request_bytes home' gw' rq' (of_int n') src' h' bh'
     in x \<noteq> y \<and> K x = K y)"
proof -
  obtain w where w: "encodeUint256 (Some n) = Inr w" "i = K (gateway_request_bytes home gw rq w src h bh)"
    using assms(1) by (auto simp: ComputeGatewayRequestID_def split: if_splits)
  obtain w' where w': "encodeUint256 (Some n') = Inr w'" "i = K (gateway_request_bytes home' gw' rq' w' src' h' bh')"
    using assms(2) by (auto simp: ComputeGatewayRequestID_def split: if_splits)
  have "n = uint w" "n' = uint w'" using encodeUint256_Inr w(1) w'(1) by blast+
  then show ?thesis using w(2) w'(2) by (auto simp: Let_def gateway_request_bytes_def)
qed

theorem gateway_request_id_binds_witness:
  "\<exists>i. ComputeGatewayRequestID demo_hash 1 2 3 (Some 4) 5 6 7 = Inr i \<and>
     (\<forall>n. n \<noteq> 4 \<longrightarrow> ComputeGatewayRequestID demo_hash 1 2 3 (Some n) 5 6 7 = Inr i \<longrightarrow>
        gateway_request_bytes 1 2 3 (of_int 4) 5 6 7 \<noteq> gateway_request_bytes 1 2 3 (of_int n) 5 6 7)"
proof -
  have "ComputeGatewayRequestID demo_hash 1 2 3 (Some 4) 5 6 7 =
      Inr (demo_hash (gateway_request_bytes 1 2 3 4 5 6 7))"
    by (simp add: ComputeGatewayRequestID_def chain_Validate_def encodeUint256_def)
  moreover have "gateway_request_bytes 1 2 3 (of_int 4) 5 6 7 \<noteq> gateway_request_bytes 1 2 3 (of_int n) 5 6 7"
    if "n \<noteq> 4" "ComputeGatewayRequestID demo_hash 1 2 3 (Some n) 5 6 7 =
      Inr (demo_hash (gateway_request_bytes 1 2 3 4 5 6 7))" for n
    using gateway_request_id_binds[OF calculation that(2)] that(1) by (auto simp: Let_def)
  ultimately show ?thesis by blast
qed

end
