(* ===== verification/TrustView.thy ===== *)
theory TrustView
  imports Evidence "HOL-Library.AList" "HOL-Library.Multiset"
begin

text \<open>
  The TrustView graph of \<open>Mapnode/trustview\<close>: content-addressed nodes and edges, the canonical view
  \<open>NewTrustView\<close> builds from them, snapshots, TrustRoot observations and verified dependencies.

  A Go map that the code enumerates is an association list (\<open>map_of\<close> looks up, \<open>AList.update\<close> inserts);
  the code sorts after every such enumeration, by keys that are distinct, so the enumeration order of
  the Go map does not matter. A \<open>*WitnessID\<close> is an optional hash and copying it is the identity.
\<close>

type_synonym node_id = hash
type_synonym edge_id = hash
type_synonym witness_id = hash
type_synonym snapshot_id = hash
type_synonym trust_root = hash

subsection \<open>Nodes and edges\<close>

record node_key =
  nk_ChainID :: chain_id
  nk_Height :: block_height
  nk_BlockHash :: hash

record trust_node =
  tn_ID :: node_id
  tn_Key :: node_key
  tn_Root :: trust_root
  tn_EvidenceID :: evidence_id

definition node_key_bytes :: "node_key \<Rightarrow> byte list" where
  "node_key_bytes key = bytes32 (nk_ChainID key) @ bytes32 (nk_Height key) @ bytes32 (nk_BlockHash key)"

definition NewTrustNode :: "keccak \<Rightarrow> node_key \<Rightarrow> trust_root \<Rightarrow> evidence_id \<Rightarrow> trust_node" where
  "NewTrustNode K key root evidenceID =
     \<lparr>tn_ID = K (node_key_bytes key), tn_Key = key, tn_Root = root, tn_EvidenceID = evidenceID\<rparr>"

definition node_Validate :: "keccak \<Rightarrow> trust_node \<Rightarrow> unit res" where
  "node_Validate K node =
     (case chain_Validate (nk_ChainID (tn_Key node)) of
        Inl _ \<Rightarrow> Inl ErrInvalidTrustNode
      | Inr _ \<Rightarrow>
          if nk_BlockHash (tn_Key node) = 0 \<or> tn_ID node = 0 then Inl ErrInvalidTrustNode
          else let want = NewTrustNode K (tn_Key node) (tn_Root node) (tn_EvidenceID node)
               in if tn_ID want \<noteq> tn_ID node then Inl ErrInvalidTrustNode else Inr ())"

record trust_edge =
  te_ID :: edge_id
  te_From :: node_id
  te_To :: node_id
  te_EvidenceID :: evidence_id
  te_LeafIndex :: u32
  te_WitnessID :: "witness_id option"
  te_PathStepCost :: u64

definition edge_bytes :: "node_id \<Rightarrow> node_id \<Rightarrow> evidence_id \<Rightarrow> u32 \<Rightarrow> byte list" where
  "edge_bytes from to evidenceID leaf = bytes32 from @ bytes32 to @ bytes32 evidenceID @ uint32_word leaf"

definition NewTrustEdge ::
  "keccak \<Rightarrow> node_id \<Rightarrow> node_id \<Rightarrow> evidence_id \<Rightarrow> u32 \<Rightarrow> witness_id option \<Rightarrow> u64 \<Rightarrow> trust_edge res" where
  "NewTrustEdge K from to evidenceID leaf witnessID pathStepCost =
     (if from = 0 \<or> to = 0 \<or> from = to \<or> evidenceID = 0 \<or> pathStepCost = 0
      then Inl ErrInvalidTrustEdge
      else Inr \<lparr>te_ID = K (edge_bytes from to evidenceID leaf), te_From = from, te_To = to,
                te_EvidenceID = evidenceID, te_LeafIndex = leaf, te_WitnessID = witnessID,
                te_PathStepCost = pathStepCost\<rparr>)"

definition edge_Validate :: "keccak \<Rightarrow> trust_edge \<Rightarrow> unit res" where
  "edge_Validate K edge =
     (case NewTrustEdge K (te_From edge) (te_To edge) (te_EvidenceID edge) (te_LeafIndex edge)
             (te_WitnessID edge) (te_PathStepCost edge) of
        Inl _ \<Rightarrow> Inl ErrInvalidTrustEdge
      | Inr want \<Rightarrow> if te_ID want \<noteq> te_ID edge then Inl ErrInvalidTrustEdge else Inr ())"

subsection \<open>Views\<close>

record trust_view =
  tv_Revision :: u64
  tv_Nodes :: "trust_node list"
  tv_Edges :: "trust_edge list"

fun view_nodes ::
  "keccak \<Rightarrow> trust_node list \<Rightarrow> (node_id \<times> trust_node) list \<Rightarrow> (node_key \<rightharpoonup> trust_node) \<Rightarrow>
     (node_id \<times> trust_node) list res" where
  "view_nodes K [] byID byKey = Inr byID"
| "view_nodes K (node # nodes) byID byKey =
     bind_res (node_Validate K node) (\<lambda>_.
     if (case byKey (tn_Key node) of None \<Rightarrow> False | Some previous \<Rightarrow> tn_Root previous \<noteq> tn_Root node)
     then Inl ErrTrustRootConflict
     else case map_of byID (tn_ID node) of
        Some previous \<Rightarrow>
          if tn_Key previous \<noteq> tn_Key node \<or> tn_Root previous \<noteq> tn_Root node \<or>
             tn_EvidenceID previous \<noteq> tn_EvidenceID node
          then Inl ErrTrustRootConflict
          else view_nodes K nodes byID byKey
      | None \<Rightarrow> view_nodes K nodes (AList.update (tn_ID node) node byID) (byKey(tn_Key node \<mapsto> node)))"

definition sameWitness :: "witness_id option \<Rightarrow> witness_id option \<Rightarrow> bool" where
  "sameWitness left right \<longleftrightarrow>
     left = None \<and> right = None \<or> left \<noteq> None \<and> right \<noteq> None \<and> the left = the right"

fun view_edges ::
  "keccak \<Rightarrow> (node_id \<times> trust_node) list \<Rightarrow> trust_edge list \<Rightarrow> (edge_id \<times> trust_edge) list \<Rightarrow>
     (edge_id \<times> trust_edge) list res" where
  "view_edges K byID [] uniqueEdges = Inr uniqueEdges"
| "view_edges K byID (edge # edges) uniqueEdges =
     bind_res (edge_Validate K edge) (\<lambda>_.
     case map_of byID (te_From edge) of
       None \<Rightarrow> Inl ErrDanglingTrustEdge
     | Some fromNode \<Rightarrow>
     (case map_of byID (te_To edge) of
       None \<Rightarrow> Inl ErrDanglingTrustEdge
     | Some toNode \<Rightarrow>
        if nk_ChainID (tn_Key fromNode) = nk_ChainID (tn_Key toNode) then Inl ErrInvalidTrustEdge
        else case map_of uniqueEdges (te_ID edge) of
          Some previous \<Rightarrow>
            if te_From previous \<noteq> te_From edge \<or> te_To previous \<noteq> te_To edge \<or>
               te_EvidenceID previous \<noteq> te_EvidenceID edge \<or> te_LeafIndex previous \<noteq> te_LeafIndex edge \<or>
               te_PathStepCost previous \<noteq> te_PathStepCost edge \<or>
               \<not> sameWitness (te_WitnessID previous) (te_WitnessID edge)
            then Inl ErrInvalidTrustEdge
            else view_edges K byID edges uniqueEdges
        | None \<Rightarrow> view_edges K byID edges (AList.update (te_ID edge) edge uniqueEdges)))"

definition NewTrustView :: "keccak \<Rightarrow> u64 \<Rightarrow> trust_node list \<Rightarrow> trust_edge list \<Rightarrow> trust_view res" where
  "NewTrustView K revision nodes edges =
     bind_res (view_nodes K nodes [] Map.empty) (\<lambda>byID.
     bind_res (view_edges K byID edges []) (\<lambda>uniqueEdges.
     Inr \<lparr>tv_Revision = revision, tv_Nodes = sort_key tn_ID (map snd byID),
          tv_Edges = sort_key te_ID (map snd uniqueEdges)\<rparr>))"

subsection \<open>Snapshots\<close>

record trust_view_snapshot =
  sn_ID :: snapshot_id
  sn_Revision :: u64
  sn_HomeChainID :: chain_id
  sn_HomeTrustRoot :: trust_root
  sn_StartNodeID :: node_id
  sn_TargetNodeID :: node_id
  sn_Sealed :: bool
  sn_Nodes :: "trust_node list"
  sn_Edges :: "trust_edge list"

definition snapshot_bytes :: "request_id \<Rightarrow> u64 \<Rightarrow> u64 \<Rightarrow> node_id \<Rightarrow> node_id \<Rightarrow> trust_root \<Rightarrow> byte list" where
  "snapshot_bytes requestID attempt revision start target root =
     bytes32 requestID @ uint64_word attempt @ uint64_word revision @
     bytes32 start @ bytes32 target @ bytes32 root"

definition ComputeSnapshotID ::
  "keccak \<Rightarrow> request_id \<Rightarrow> u64 \<Rightarrow> u64 \<Rightarrow> node_id \<Rightarrow> node_id \<Rightarrow> trust_root \<Rightarrow> snapshot_id" where
  "ComputeSnapshotID K requestID attempt revision start target expectedHomeRoot =
     K (snapshot_bytes requestID attempt revision start target expectedHomeRoot)"

record stored_witness =
  sw_ID :: witness_id
  sw_EvidenceID :: evidence_id
  sw_LeafIndex :: u32
  sw_Siblings :: "hash list"

definition witness_bytes :: "evidence_id \<Rightarrow> u32 \<Rightarrow> hash list \<Rightarrow> byte list" where
  "witness_bytes evidenceID leaf sibs = bytes32 evidenceID @ be_bytes 4 leaf @ concat (map bytes32 sibs)"

definition NewStoredWitness :: "keccak \<Rightarrow> evidence_id \<Rightarrow> u32 \<Rightarrow> hash list \<Rightarrow> stored_witness" where
  "NewStoredWitness K evidenceID leaf sibs =
     \<lparr>sw_ID = K (witness_bytes evidenceID leaf sibs), sw_EvidenceID = evidenceID,
      sw_LeafIndex = leaf, sw_Siblings = sibs\<rparr>"

subsection \<open>What a view holds\<close>

lemma node_Validate_ok:
  "node_Validate K n = Inr u \<longleftrightarrow>
     nk_ChainID (tn_Key n) \<noteq> 0 \<and> nk_BlockHash (tn_Key n) \<noteq> 0 \<and> tn_ID n \<noteq> 0 \<and>
     tn_ID n = K (node_key_bytes (tn_Key n))"
  by (auto simp: node_Validate_def chain_Validate_def NewTrustNode_def Let_def)

lemma edge_Validate_ok:
  "edge_Validate K e = Inr u \<longleftrightarrow>
     te_From e \<noteq> 0 \<and> te_To e \<noteq> 0 \<and> te_From e \<noteq> te_To e \<and> te_EvidenceID e \<noteq> 0 \<and> te_PathStepCost e \<noteq> 0 \<and>
     te_ID e = K (edge_bytes (te_From e) (te_To e) (te_EvidenceID e) (te_LeafIndex e))"
  by (auto simp: edge_Validate_def NewTrustEdge_def)

lemma sameWitness_iff [simp]: "sameWitness a b \<longleftrightarrow> a = b"
  by (cases a; cases b) (auto simp: sameWitness_def)

text \<open>Association lists that hold values under the key \<open>f\<close> gives them.\<close>

definition keyed :: "('v \<Rightarrow> 'k) \<Rightarrow> ('k \<times> 'v) list \<Rightarrow> bool" where
  "keyed f al \<longleftrightarrow> distinct (map fst al) \<and> (\<forall>(k, v) \<in> set al. k = f v)"

lemma keyed_Nil [simp]: "keyed f []"
  by (simp add: keyed_def)

lemma keyed_lookup: "keyed f al \<Longrightarrow> map_of al k = Some v \<longleftrightarrow> v \<in> snd ` set al \<and> f v = k"
  by (force simp: keyed_def)

lemma keyed_lookup_None: "keyed f al \<Longrightarrow> map_of al k = None \<longleftrightarrow> (\<forall>v \<in> snd ` set al. f v \<noteq> k)"
  using keyed_lookup[of f al k] by (cases "map_of al k") auto

lemma keyed_update:
  assumes "keyed f al" "map_of al (f v) = None"
  shows "keyed f (AList.update (f v) v al)" "snd ` set (AList.update (f v) v al) = insert v (snd ` set al)"
proof -
  have "AList.update (f v) v al = al @ [(f v, v)]"
    using assms(2) by (induction al) (auto split: if_splits)
  then show "keyed f (AList.update (f v) v al)" "snd ` set (AList.update (f v) v al) = insert v (snd ` set al)"
    using assms by (auto simp: keyed_def map_of_eq_None_iff)
qed

lemma keyed_distinct: "keyed f al \<Longrightarrow> distinct (map f (map snd al))"
proof -
  assume k: "keyed f al"
  then have eq: "map f (map snd al) = map fst al" by (auto simp: keyed_def)
  show ?thesis unfolding eq using k by (simp add: keyed_def)
qed

lemma inj_on_insert_new: "inj_on f N \<Longrightarrow> \<forall>m\<in>N. f m \<noteq> f n \<Longrightarrow> inj_on f (insert n N)"
  by (force simp: inj_on_insert)

text \<open>The inputs \<open>NewTrustView\<close> accepts: valid nodes and edges without two contents under one identifier.\<close>

definition nodes_consistent :: "keccak \<Rightarrow> trust_node set \<Rightarrow> bool" where
  "nodes_consistent K N \<longleftrightarrow> (\<forall>n\<in>N. node_Validate K n = Inr ()) \<and> inj_on tn_ID N"

definition edges_consistent :: "keccak \<Rightarrow> trust_node set \<Rightarrow> trust_edge set \<Rightarrow> bool" where
  "edges_consistent K N E \<longleftrightarrow>
     (\<forall>e\<in>E. edge_Validate K e = Inr () \<and>
        (\<exists>m\<in>N. \<exists>n\<in>N. tn_ID m = te_From e \<and> tn_ID n = te_To e \<and> nk_ChainID (tn_Key m) \<noteq> nk_ChainID (tn_Key n))) \<and>
     inj_on te_ID E"

lemma view_nodes_result:
  assumes "keyed tn_ID byID" "nodes_consistent K (snd ` set byID)"
    and "\<forall>k n. byKey k = Some n \<longleftrightarrow> n \<in> snd ` set byID \<and> tn_Key n = k"
  shows "(nodes_consistent K (snd ` set byID \<union> set nodes) \<longrightarrow>
      (\<exists>byID'. view_nodes K nodes byID byKey = Inr byID' \<and> keyed tn_ID byID' \<and>
           snd ` set byID' = snd ` set byID \<union> set nodes)) \<and>
    (\<not> nodes_consistent K (snd ` set byID \<union> set nodes) \<longrightarrow> (\<exists>err. view_nodes K nodes byID byKey = Inl err))"
  using assms
proof (induction nodes arbitrary: byID byKey)
  case (Cons n nodes)
  let ?N = "snd ` set byID"
  show ?case
  proof (cases "node_Validate K n")
    case (Inl e)
    then have "\<not> nodes_consistent K (?N \<union> set (n # nodes))" by (simp add: nodes_consistent_def)
    then show ?thesis using Inl by simp
  next
    case (Inr u)
    have key_id: "tn_ID m = tn_ID n" if "m \<in> ?N" "tn_Key m = tn_Key n" for m
      using Inr that Cons.prems(2) by (auto simp: nodes_consistent_def node_Validate_ok)
    show ?thesis
    proof (cases "map_of byID (tn_ID n)")
      case None
      then have new: "\<forall>m \<in> ?N. tn_ID m \<noteq> tn_ID n"
        using Cons.prems(1) by (simp add: keyed_lookup_None)
      have nokey: "byKey (tn_Key n) = None"
      proof (cases "byKey (tn_Key n)")
        case (Some m)
        then have "m \<in> ?N" "tn_Key m = tn_Key n" using Cons.prems(3) by auto
        then show ?thesis using key_id[of m] new by blast
      qed
      note up = keyed_update[OF Cons.prems(1) None]
      have con: "nodes_consistent K (insert n ?N)"
        using Cons.prems(2) new Inr inj_on_insert_new[of tn_ID ?N n] by (simp add: nodes_consistent_def)
      define byKey' where "byKey' = byKey(tn_Key n \<mapsto> n)"
      have "byKey' k = Some m \<longleftrightarrow> m \<in> insert n ?N \<and> tn_Key m = k" for k m
      proof (cases "k = tn_Key n")
        case True
        then have "m \<notin> ?N \<or> tn_Key m \<noteq> k" using new key_id[of m] by auto
        then show ?thesis using True by (auto simp: byKey'_def)
      next
        case False
        then show ?thesis using Cons.prems(3) by (auto simp: byKey'_def)
      qed
      then have keys: "\<forall>k m. byKey' k = Some m \<longleftrightarrow> m \<in> insert n ?N \<and> tn_Key m = k" by blast
      note IH = Cons.IH[of "AList.update (tn_ID n) n byID" byKey',
        unfolded up(2), OF up(1) con keys]
      have "view_nodes K (n # nodes) byID byKey = view_nodes K nodes (AList.update (tn_ID n) n byID) byKey'"
        using Inr None nokey by (simp add: byKey'_def)
      then show ?thesis using IH by simp
    next
      case (Some m)
      then have m: "m \<in> ?N" "tn_ID m = tn_ID n"
        using keyed_lookup[OF Cons.prems(1), of "tn_ID n" m] by simp_all
      show ?thesis
      proof (cases "m = n")
        case True
        then have "byKey (tn_Key n) = Some n" using Cons.prems(3) m(1) by simp
        moreover have "?N \<union> set (n # nodes) = ?N \<union> set nodes" using m True by auto
        ultimately show ?thesis
          using Cons.IH[OF Cons.prems] Inr Some True by simp
      next
        case False
        then have "tn_Key m \<noteq> tn_Key n \<or> tn_Root m \<noteq> tn_Root n \<or> tn_EvidenceID m \<noteq> tn_EvidenceID n"
          using m by (cases m; cases n) simp
        moreover have "\<not> nodes_consistent K (?N \<union> set (n # nodes))"
          unfolding nodes_consistent_def
          using inj_onD[of tn_ID "?N \<union> set (n # nodes)", OF _ m(2)] m(1) False by (meson UnI1 UnI2 list.set_intros(1))
        ultimately show ?thesis using Inr Some by simp
      qed
    qed
  qed
qed simp

lemma edge_endpoints_iff:
  assumes "keyed tn_ID byID"
  shows "(\<exists>m \<in> snd ` set byID. \<exists>n \<in> snd ` set byID.
      tn_ID m = from \<and> tn_ID n = to \<and> nk_ChainID (tn_Key m) \<noteq> nk_ChainID (tn_Key n)) \<longleftrightarrow>
    (\<exists>m n. map_of byID from = Some m \<and> map_of byID to = Some n \<and>
      nk_ChainID (tn_Key m) \<noteq> nk_ChainID (tn_Key n))"
  by (auto simp: keyed_lookup[OF assms] Bex_def)

lemma edges_consistent_insert:
  "edges_consistent K N (E \<union> insert e F) \<Longrightarrow> edges_consistent K N (E \<union> {e}) \<and> edges_consistent K N (E \<union> F)"
  unfolding edges_consistent_def by (auto intro: inj_on_subset)

lemma view_edges_result:
  assumes "keyed tn_ID byID" "keyed te_ID uniq" "edges_consistent K (snd ` set byID) (snd ` set uniq)"
  shows "(edges_consistent K (snd ` set byID) (snd ` set uniq \<union> set edges) \<longrightarrow>
      (\<exists>uniq'. view_edges K byID edges uniq = Inr uniq' \<and> keyed te_ID uniq' \<and>
           snd ` set uniq' = snd ` set uniq \<union> set edges)) \<and>
    (\<not> edges_consistent K (snd ` set byID) (snd ` set uniq \<union> set edges) \<longrightarrow>
      (\<exists>err. view_edges K byID edges uniq = Inl err))"
  using assms(2,3)
proof (induction edges arbitrary: uniq)
  case (Cons e edges)
  let ?N = "snd ` set byID" let ?E = "snd ` set uniq"
  let ?ends = "\<exists>m n. map_of byID (te_From e) = Some m \<and> map_of byID (te_To e) = Some n \<and>
    nk_ChainID (tn_Key m) \<noteq> nk_ChainID (tn_Key n)"
  show ?case
  proof (cases "edge_Validate K e = Inr () \<and> ?ends")
    case False
    then have "\<exists>err. view_edges K byID (e # edges) uniq = Inl err"
      by (cases "edge_Validate K e") (auto split: option.split)
    moreover have "\<not> edges_consistent K ?N (?E \<union> set (e # edges))"
      using False edge_endpoints_iff[OF assms(1)] unfolding edges_consistent_def by auto
    ultimately show ?thesis by simp
  next
    case True
    then obtain m n where ends: "edge_Validate K e = Inr ()" "map_of byID (te_From e) = Some m"
      "map_of byID (te_To e) = Some n" "nk_ChainID (tn_Key m) \<noteq> nk_ChainID (tn_Key n)" by blast
    show ?thesis
    proof (cases "map_of uniq (te_ID e)")
      case None
      then have new: "\<forall>e' \<in> ?E. te_ID e' \<noteq> te_ID e"
        using Cons.prems(1) by (simp add: keyed_lookup_None)
      note up = keyed_update[OF Cons.prems(1) None]
      have "edges_consistent K ?N (insert e ?E)"
        using Cons.prems(2) True edge_endpoints_iff[OF assms(1), of "te_From e" "te_To e"]
          inj_on_insert_new[OF _ new] unfolding edges_consistent_def by blast
      from Cons.IH[OF up(1) this[folded up(2)]] show ?thesis
        using None ends up(2) by simp
    next
      case (Some p)
      then have p: "p \<in> ?E" "te_ID p = te_ID e"
        using keyed_lookup[OF Cons.prems(1), of "te_ID e" p] by simp_all
      show ?thesis
      proof (cases "p = e")
        case True
        moreover have "?E \<union> set (e # edges) = ?E \<union> set edges" using p True by auto
        ultimately show ?thesis using Cons.IH[OF Cons.prems] Some ends by simp
      next
        case False
        then have "te_From p \<noteq> te_From e \<or> te_To p \<noteq> te_To e \<or> te_EvidenceID p \<noteq> te_EvidenceID e \<or>
          te_LeafIndex p \<noteq> te_LeafIndex e \<or> te_PathStepCost p \<noteq> te_PathStepCost e \<or>
          \<not> sameWitness (te_WitnessID p) (te_WitnessID e)"
          using p(2) by (cases p; cases e) auto
        moreover have "\<not> edges_consistent K ?N (?E \<union> set (e # edges))"
          unfolding edges_consistent_def
          using inj_onD[of te_ID "?E \<union> set (e # edges)", OF _ p(2)] p(1) False by (meson UnI1 UnI2 list.set_intros(1))
        ultimately show ?thesis using Some ends by simp
      qed
    qed
  qed
qed simp

text \<open>\<open>NewTrustView\<close> on every input: it fails on inconsistent ones and otherwise sorts the two sets.\<close>

lemma distinct_map_sort_key: "distinct (map f (sort_key f xs)) \<longleftrightarrow> distinct (map f xs)"
  by (rule mset_eq_imp_distinct_iff) simp

lemma NewTrustView_ok:
  assumes "nodes_consistent K (set nodes)" "edges_consistent K (set nodes) (set edges)"
  obtains v where "NewTrustView K revision nodes edges = Inr v" "tv_Revision v = revision"
    "set (tv_Nodes v) = set nodes" "set (tv_Edges v) = set edges"
    "sorted (map tn_ID (tv_Nodes v))" "distinct (map tn_ID (tv_Nodes v))"
    "sorted (map te_ID (tv_Edges v))" "distinct (map te_ID (tv_Edges v))"
proof -
  obtain byID where n: "view_nodes K nodes [] Map.empty = Inr byID" "keyed tn_ID byID" "snd ` set byID = set nodes"
    using view_nodes_result[of "[]" K Map.empty nodes] assms(1) by (auto simp: nodes_consistent_def)
  have "edges_consistent K (snd ` set byID) (snd ` set [])" by (simp add: edges_consistent_def)
  from view_edges_result[OF n(2) keyed_Nil this, of edges]
  obtain uniq where e: "view_edges K byID edges [] = Inr uniq" "keyed te_ID uniq" "snd ` set uniq = set edges"
    using assms(2) n(3) by auto
  show thesis
    by (rule that[of "\<lparr>tv_Revision = revision, tv_Nodes = sort_key tn_ID (map snd byID),
          tv_Edges = sort_key te_ID (map snd uniq)\<rparr>"])
      (use n e keyed_distinct[OF n(2)] keyed_distinct[OF e(2)] in \<open>simp_all add: NewTrustView_def distinct_map_sort_key\<close>)
qed

lemma NewTrustView_consistent:
  assumes "NewTrustView K revision nodes edges = Inr v"
  shows "nodes_consistent K (set nodes)" "edges_consistent K (set nodes) (set edges)"
proof -
  obtain byID uniq where n: "view_nodes K nodes [] Map.empty = Inr byID" "view_edges K byID edges [] = Inr uniq"
    using assms by (auto simp: NewTrustView_def)
  have empty: "nodes_consistent K (snd ` set [])" by (simp add: nodes_consistent_def)
  show "nodes_consistent K (set nodes)"
    using view_nodes_result[of "[]" K Map.empty nodes] n(1) empty by auto
  then have byID: "keyed tn_ID byID" "snd ` set byID = set nodes"
    using view_nodes_result[of "[]" K Map.empty nodes] n(1) empty by auto
  have "edges_consistent K (snd ` set byID) (snd ` set [])" by (simp add: edges_consistent_def)
  from view_edges_result[OF byID(1) keyed_Nil this, of edges] show "edges_consistent K (set nodes) (set edges)"
    using n(2) byID(2) by auto
qed

lemma NewTrustView_InrD:
  assumes "NewTrustView K revision nodes edges = Inr v"
  shows "nodes_consistent K (set nodes)" "edges_consistent K (set nodes) (set edges)"
    "tv_Revision v = revision" "set (tv_Nodes v) = set nodes" "set (tv_Edges v) = set edges"
    "sorted (map tn_ID (tv_Nodes v))" "distinct (map tn_ID (tv_Nodes v))"
    "sorted (map te_ID (tv_Edges v))" "distinct (map te_ID (tv_Edges v))"
  using NewTrustView_consistent[OF assms] NewTrustView_ok[of K nodes edges revision] assms
  by auto

lemma sorted_key_unique:
  assumes "set xs = set ys" "sorted (map f xs)" "distinct (map f xs)" "sorted (map f ys)" "distinct (map f ys)"
  shows "xs = ys"
  using assms map_sorted_distinct_set_unique[of f xs ys] by (simp add: distinct_map)

text \<open>A small view over two chains.\<close>

definition demo_node :: "chain_id \<Rightarrow> trust_node" where
  "demo_node c = NewTrustNode demo_hash \<lparr>nk_ChainID = c, nk_Height = 1, nk_BlockHash = 1\<rparr> 7 9"

definition demo_edge :: "chain_id \<Rightarrow> chain_id \<Rightarrow> trust_edge" where
  "demo_edge a b = projr (NewTrustEdge demo_hash (tn_ID (demo_node a)) (tn_ID (demo_node b)) 9 0 (Some 5) 3)"

lemma demo_node_simps:
  "tn_ID (demo_node c) = c + 31 * (1 + 31 * 32)" "nk_ChainID (tn_Key (demo_node c)) = c"
  "nk_BlockHash (tn_Key (demo_node c)) = 1" "nk_Height (tn_Key (demo_node c)) = 1"
  "tn_Root (demo_node c) = 7" "tn_EvidenceID (demo_node c) = 9"
  by (simp_all add: demo_node_def NewTrustNode_def node_key_bytes_def)

lemma demo_edge_eq:
  "demo_edge a b = \<lparr>te_ID = demo_hash (edge_bytes (tn_ID (demo_node a)) (tn_ID (demo_node b)) 9 0),
     te_From = tn_ID (demo_node a), te_To = tn_ID (demo_node b), te_EvidenceID = 9, te_LeafIndex = 0,
     te_WitnessID = Some 5, te_PathStepCost = 3\<rparr>"
  if "tn_ID (demo_node a) \<noteq> 0" "tn_ID (demo_node b) \<noteq> 0" "tn_ID (demo_node a) \<noteq> tn_ID (demo_node b)"
  using that by (simp add: demo_edge_def NewTrustEdge_def)

lemma demo_view_ok: "is_ok (NewTrustView demo_hash 1 [demo_node 2, demo_node 1, demo_node 2] [demo_edge 1 2])"
proof -
  have "node_Validate demo_hash (demo_node 1) = Inr ()" "node_Validate demo_hash (demo_node 2) = Inr ()"
    by (simp_all add: node_Validate_ok demo_node_simps node_key_bytes_def)
  then have "nodes_consistent demo_hash (set [demo_node 2, demo_node 1, demo_node 2])"
    by (simp add: nodes_consistent_def inj_on_def demo_node_simps)
  moreover have "edges_consistent demo_hash (set [demo_node 2, demo_node 1, demo_node 2]) (set [demo_edge 1 2])"
    by (auto simp: edges_consistent_def edge_Validate_ok demo_edge_eq demo_node_simps)
  ultimately show ?thesis
    using NewTrustView_ok[of demo_hash "[demo_node 2, demo_node 1, demo_node 2]" "[demo_edge 1 2]" 1]
    by (metis is_ok_simps(1))
qed

text \<open>
  C31. \<open>NewTrustView\<close> is canonical: two inputs with the same nodes and the same edges, in any order and
  with any repetitions, are both rejected or give the same view. Building a view again from its own
  nodes and edges therefore gives the view itself.
\<close>

theorem trust_view_canonical:
  assumes "NewTrustView K revision nodes edges = Inr v"
    and "set nodes' = set nodes" "set edges' = set edges"
  shows "NewTrustView K revision nodes' edges' = Inr v \<and>
    NewTrustView K revision (tv_Nodes v) (tv_Edges v) = Inr v"
proof -
  note v = NewTrustView_InrD[OF assms(1)]
  have same: "NewTrustView K revision ns es = Inr v" if eq: "set ns = set nodes" "set es = set edges" for ns es
  proof -
    obtain w where w: "NewTrustView K revision ns es = Inr w"
      using NewTrustView_ok[of K ns es revision] v(1,2) eq by metis
    note w' = NewTrustView_InrD[OF w]
    have "tv_Nodes w = tv_Nodes v" "tv_Edges w = tv_Edges v"
      using sorted_key_unique[where f=tn_ID, OF _ w'(6,7) v(6,7)] sorted_key_unique[where f=te_ID, OF _ w'(8,9) v(8,9)]
        v(4,5) w'(4,5) eq by simp_all
    then show ?thesis using w w'(3) v(3) by simp
  qed
  show ?thesis using same assms(2,3) v(4,5) by blast
qed

theorem trust_view_canonical_witness:
  "\<exists>v. NewTrustView demo_hash 1 [demo_node 2, demo_node 1, demo_node 2] [demo_edge 1 2] = Inr v \<and>
     NewTrustView demo_hash 1 [demo_node 1, demo_node 2] [demo_edge 1 2, demo_edge 1 2] = Inr v"
proof -
  have "is_ok (NewTrustView demo_hash 1 [demo_node 2, demo_node 1, demo_node 2] [demo_edge 1 2])"
    by (rule demo_view_ok)
  then obtain v where "NewTrustView demo_hash 1 [demo_node 2, demo_node 1, demo_node 2] [demo_edge 1 2] = Inr v"
    by (auto simp: is_ok_def split: sum.splits)
  then show ?thesis
    using trust_view_canonical[of demo_hash 1 "[demo_node 2, demo_node 1, demo_node 2]" "[demo_edge 1 2]" v
        "[demo_node 1, demo_node 2]" "[demo_edge 1 2, demo_edge 1 2]"] by auto
qed

text \<open>
  C32. Every view \<open>NewTrustView\<close> returns is well formed: it holds exactly the given nodes and edges, each
  once and in the order of the identifiers; identifiers are the hashes of what they identify; and every
  edge leads from a node of the view to a node of the view on a different chain, at a positive cost.
\<close>

theorem trust_view_wellformed:
  assumes "NewTrustView K revision nodes edges = Inr v"
  shows "tv_Revision v = revision \<and> set (tv_Nodes v) = set nodes \<and> set (tv_Edges v) = set edges \<and>
    sorted_wrt (\<lambda>m n. tn_ID m < tn_ID n) (tv_Nodes v) \<and> sorted_wrt (\<lambda>d e. te_ID d < te_ID e) (tv_Edges v) \<and>
    (\<forall>n \<in> set (tv_Nodes v). nk_ChainID (tn_Key n) \<noteq> 0 \<and> tn_ID n = K (node_key_bytes (tn_Key n))) \<and>
    (\<forall>e \<in> set (tv_Edges v).
       te_ID e = K (edge_bytes (te_From e) (te_To e) (te_EvidenceID e) (te_LeafIndex e)) \<and>
       te_PathStepCost e \<noteq> 0 \<and>
       (\<exists>m \<in> set (tv_Nodes v). \<exists>n \<in> set (tv_Nodes v). tn_ID m = te_From e \<and> tn_ID n = te_To e \<and>
          nk_ChainID (tn_Key m) \<noteq> nk_ChainID (tn_Key n)))"
proof -
  note v = NewTrustView_InrD[OF assms]
  have strict: "sorted_wrt (\<lambda>x y. f x < f y) xs" if "sorted (map f xs)" "distinct (map f xs)"
    for f :: "'a \<Rightarrow> hash" and xs
    using that strict_sorted_iff[of "map f xs"] by (simp add: sorted_wrt_map)
  have "\<forall>n \<in> set nodes. nk_ChainID (tn_Key n) \<noteq> 0 \<and> tn_ID n = K (node_key_bytes (tn_Key n))"
    using v(1) by (simp add: nodes_consistent_def node_Validate_ok)
  moreover have "\<forall>e \<in> set edges. te_ID e = K (edge_bytes (te_From e) (te_To e) (te_EvidenceID e) (te_LeafIndex e)) \<and>
      te_PathStepCost e \<noteq> 0 \<and>
      (\<exists>m \<in> set nodes. \<exists>n \<in> set nodes. tn_ID m = te_From e \<and> tn_ID n = te_To e \<and>
          nk_ChainID (tn_Key m) \<noteq> nk_ChainID (tn_Key n))"
    using v(2) unfolding edges_consistent_def edge_Validate_ok by blast
  ultimately show ?thesis
    unfolding v(4,5) using v(3) strict[OF v(6,7)] strict[OF v(8,9)] by blast
qed

theorem trust_view_wellformed_witness:
  "\<exists>v. NewTrustView demo_hash 1 [demo_node 2, demo_node 1, demo_node 2] [demo_edge 1 2] = Inr v \<and>
     tn_ID (hd (tv_Nodes v)) \<le> tn_ID (last (tv_Nodes v)) \<and>
     set (tv_Edges v) = {demo_edge 1 2}"
proof -
  obtain v where v: "NewTrustView demo_hash 1 [demo_node 2, demo_node 1, demo_node 2] [demo_edge 1 2] = Inr v"
    using demo_view_ok by (auto simp: is_ok_def split: sum.splits)
  note wf = trust_view_wellformed[OF v]
  have "tv_Nodes v \<noteq> []" using wf by auto
  then have "tn_ID (hd (tv_Nodes v)) \<le> tn_ID (last (tv_Nodes v))"
    using wf by (cases "tv_Nodes v") (auto simp: order.strict_implies_order)
  moreover have "set (tv_Edges v) = {demo_edge 1 2}" using wf by simp
  ultimately show ?thesis using v by blast
qed

end
