(* ===== verification/Observation.thy ===== *)
theory Observation
  imports TrustView
begin

text \<open>
  TrustRoot observations (\<open>trust_root_observation.go\<close>) and verified dependencies
  (\<open>verified_dependency.go\<close>): what a node has read from a Gateway with confirmations, the synthetic
  evidence and graph node made of it, and the binding of a \<open>DependencyRecorded\<close> event to its source block.
\<close>

subsection \<open>Observations\<close>

record observation_content =
  ob_ChainID :: chain_id
  ob_Height :: block_height
  ob_BlockHash :: hash
  ob_Gateway :: address
  ob_TrustRoot :: trust_root
  ob_GatewayCodeHash :: hash
  ob_RequiredConfirmations :: u64
  ob_ConfirmedHeadHeight :: block_height
  ob_ConfirmedHeadHash :: hash

record observation = observation_content +
  ob_ID :: hash
  ob_ObservedAt :: go_time

definition observation_Validate :: "'a observation_content_scheme \<Rightarrow> unit res" where
  "observation_Validate ob =
     bind_res (chain_Validate (ob_ChainID ob)) (\<lambda>_.
     if ob_BlockHash ob = 0 \<or> ob_Gateway ob = 0 \<or> ob_GatewayCodeHash ob = 0 \<or>
        ob_ConfirmedHeadHash ob = 0 \<or> ob_RequiredConfirmations ob = 0
     then Inl (ErrMsg ''TrustRootObservation requires block, Gateway, code hash, and confirmation evidence'')
     else if BigInt (ob_ConfirmedHeadHeight ob) < BigInt (ob_Height ob) + uint (ob_RequiredConfirmations ob)
     then Inl (ErrMsg ''TrustRootObservation block is not sufficiently confirmed'')
     else Inr ())"

definition observation_bytes :: "'a observation_content_scheme \<Rightarrow> byte list" where
  "observation_bytes ob =
     bytes32 (ob_ChainID ob) @ bytes32 (ob_Height ob) @ bytes32 (ob_BlockHash ob) @
     address_word (ob_Gateway ob) @ bytes32 (ob_TrustRoot ob) @ bytes32 (ob_GatewayCodeHash ob) @
     uint64_word (ob_RequiredConfirmations ob) @ bytes32 (ob_ConfirmedHeadHeight ob) @
     bytes32 (ob_ConfirmedHeadHash ob)"

definition observation_ComputeID :: "keccak \<Rightarrow> 'a observation_content_scheme \<Rightarrow> hash" where
  "observation_ComputeID K ob = K (observation_bytes ob)"

text \<open>The zero \<open>time.Time\<close> of an observation that has not been stamped.\<close>

definition zero_time :: go_time where
  "zero_time = 0"

definition NewTrustRootObservation :: "keccak \<Rightarrow> observation_content \<Rightarrow> observation res" where
  "NewTrustRootObservation K content =
     bind_res (observation_Validate content) (\<lambda>_.
     Inr (observation_content.extend content \<lparr>ob_ID = observation_ComputeID K content, ob_ObservedAt = zero_time\<rparr>))"

definition payload_domain :: string where
  "payload_domain = ''TrustMap/TrustRootObservation/v1'' @ [CHR 0x00]"

definition SyntheticEvidence :: "keccak \<Rightarrow> observation \<Rightarrow> evidence_record" where
  "SyntheticEvidence K ob =
     (let payload = K (string_bytes payload_domain @ bytes32 (observation_ComputeID K ob));
          loc = \<lparr>loc_ChainID = ob_ChainID ob, loc_ContractAddress = ob_Gateway ob,
                 loc_BlockNumber = ob_Height ob, loc_BlockHash = ob_BlockHash ob, loc_TxHash = 0,
                 loc_TxIndex = 0, loc_LogIndex = 0, loc_PayloadDigest = payload\<rparr>
      in \<lparr>ev_ID = (case ComputeSyntheticID K loc of Inl _ \<Rightarrow> 0 | Inr i \<Rightarrow> i), ev_Locator = loc,
          ev_State = Candidate, ev_InvalidReason = [], ev_CreatedAt = ob_ObservedAt ob,
          ev_UpdatedAt = ob_ObservedAt ob\<rparr>)"

definition observation_TrustNode :: "keccak \<Rightarrow> observation \<Rightarrow> trust_node" where
  "observation_TrustNode K ob =
     NewTrustNode K \<lparr>nk_ChainID = ob_ChainID ob, nk_Height = ob_Height ob, nk_BlockHash = ob_BlockHash ob\<rparr>
       (ob_TrustRoot ob) (ev_ID (SyntheticEvidence K ob))"

subsection \<open>Verified dependencies\<close>

record verified_dependency =
  vd_RequestID :: request_id
  vd_DependencyKey :: hash
  vd_SourceChainID :: chain_id
  vd_SourceHeight :: block_height
  vd_SourceBlockHash :: hash
  vd_SourceTrustRoot :: trust_root
  vd_LeafIndex :: u32
  vd_EvidenceID :: evidence_id

definition dependency_words :: "chain_id \<Rightarrow> block_height \<Rightarrow> hash \<Rightarrow> trust_root \<Rightarrow> byte list" where
  "dependency_words chainID height blockHash root =
     bytes32 chainID @ bytes32 height @ bytes32 blockHash @ bytes32 root"

definition ComputeDependencyKey :: "keccak \<Rightarrow> chain_id \<Rightarrow> block_height \<Rightarrow> hash \<Rightarrow> trust_root \<Rightarrow> hash" where
  "ComputeDependencyKey K chainID height blockHash root = K (dependency_words chainID height blockHash root)"

definition NewVerifiedDependency ::
  "keccak \<Rightarrow> request_id \<Rightarrow> chain_id \<Rightarrow> block_height \<Rightarrow> hash \<Rightarrow> trust_root \<Rightarrow> u32 \<Rightarrow> evidence_id \<Rightarrow>
     verified_dependency" where
  "NewVerifiedDependency K requestID chainID height blockHash root leaf evidenceID =
     \<lparr>vd_RequestID = requestID, vd_DependencyKey = ComputeDependencyKey K chainID height blockHash root,
      vd_SourceChainID = chainID, vd_SourceHeight = height, vd_SourceBlockHash = blockHash,
      vd_SourceTrustRoot = root, vd_LeafIndex = leaf, vd_EvidenceID = evidenceID\<rparr>"

definition payload_words :: "verified_dependency \<Rightarrow> byte list" where
  "payload_words d =
     bytes32 (vd_DependencyKey d) @ bytes32 (vd_RequestID d) @ bytes32 (vd_SourceChainID d) @
     bytes32 (vd_SourceHeight d) @ bytes32 (vd_SourceBlockHash d) @ bytes32 (vd_SourceTrustRoot d) @
     uint32_word (vd_LeafIndex d)"

definition ComputeDependencyRecordedPayloadDigest :: "keccak \<Rightarrow> verified_dependency \<Rightarrow> hash" where
  "ComputeDependencyRecordedPayloadDigest K d = K (payload_words d)"

definition verified_dependency_Validate :: "keccak \<Rightarrow> verified_dependency \<Rightarrow> trust_node \<Rightarrow> hash \<Rightarrow> unit res" where
  "verified_dependency_Validate K d target payloadDigest =
     (if vd_RequestID d = 0 \<or> vd_EvidenceID d = 0 then Inl ErrInvalidVerifiedDependency
      else case chain_Validate (vd_SourceChainID d) of
        Inl _ \<Rightarrow> Inl ErrInvalidVerifiedDependency
      | Inr _ \<Rightarrow>
          let wantKey = ComputeDependencyKey K (vd_SourceChainID d) (vd_SourceHeight d)
                          (vd_SourceBlockHash d) (vd_SourceTrustRoot d)
          in if vd_DependencyKey d \<noteq> wantKey \<or> vd_SourceChainID d \<noteq> nk_ChainID (tn_Key target) \<or>
                vd_SourceHeight d \<noteq> nk_Height (tn_Key target) \<or>
                vd_SourceBlockHash d \<noteq> nk_BlockHash (tn_Key target) \<or>
                vd_SourceTrustRoot d \<noteq> tn_Root target \<or>
                payloadDigest \<noteq> ComputeDependencyRecordedPayloadDigest K d
             then Inl ErrInvalidVerifiedDependency
             else Inr ())"

subsection \<open>Properties\<close>

lemma verified_dependency_Validate_ok:
  "verified_dependency_Validate K d n p = Inr u \<longleftrightarrow>
     vd_RequestID d \<noteq> 0 \<and> vd_EvidenceID d \<noteq> 0 \<and> vd_SourceChainID d \<noteq> 0 \<and>
     vd_DependencyKey d = K (dependency_words (nk_ChainID (tn_Key n)) (nk_Height (tn_Key n))
        (nk_BlockHash (tn_Key n)) (tn_Root n)) \<and>
     vd_SourceChainID d = nk_ChainID (tn_Key n) \<and> vd_SourceHeight d = nk_Height (tn_Key n) \<and>
     vd_SourceBlockHash d = nk_BlockHash (tn_Key n) \<and> vd_SourceTrustRoot d = tn_Root n \<and> p = K (payload_words d)"
  by (auto simp: verified_dependency_Validate_def chain_Validate_def Let_def ComputeDependencyKey_def
      ComputeDependencyRecordedPayloadDigest_def)

lemma observation_Validate_ok:
  "observation_Validate ob = Inr u \<longleftrightarrow>
     ob_ChainID ob \<noteq> 0 \<and> ob_BlockHash ob \<noteq> 0 \<and> ob_Gateway ob \<noteq> 0 \<and> ob_GatewayCodeHash ob \<noteq> 0 \<and>
     ob_ConfirmedHeadHash ob \<noteq> 0 \<and> ob_RequiredConfirmations ob \<noteq> 0 \<and>
     uint (ob_Height ob) + uint (ob_RequiredConfirmations ob) \<le> uint (ob_ConfirmedHeadHeight ob)"
  by (auto simp: observation_Validate_def chain_Validate_def BigInt_def split: if_splits)

text \<open>
  A payload digest determines the dependency it was validated for: when two dependencies pass
  \<open>Validate\<close> against nodes with one and the same event digest, they agree on the request, the leaf index
  and the dependency key, and the two nodes are the same block with the same TrustRoot, unless the two
  encodings are a collision of the hash function.
\<close>

theorem payload_digest_binds_dependency:
  assumes "verified_dependency_Validate K d n p = Inr ()" "verified_dependency_Validate K d' n' p = Inr ()"
  shows "(vd_RequestID d = vd_RequestID d' \<and> vd_LeafIndex d = vd_LeafIndex d' \<and>
      vd_DependencyKey d = vd_DependencyKey d' \<and> tn_Key n = tn_Key n' \<and> tn_Root n = tn_Root n') \<or>
    (payload_words d \<noteq> payload_words d' \<and> K (payload_words d) = K (payload_words d'))"
proof (cases "payload_words d = payload_words d'")
  case True
  then have "vd_RequestID d = vd_RequestID d'" "vd_LeafIndex d = vd_LeafIndex d'"
    "vd_DependencyKey d = vd_DependencyKey d'" "vd_SourceChainID d = vd_SourceChainID d'"
    "vd_SourceHeight d = vd_SourceHeight d'" "vd_SourceBlockHash d = vd_SourceBlockHash d'"
    "vd_SourceTrustRoot d = vd_SourceTrustRoot d'"
    by (simp_all add: payload_words_def)
  moreover from this have "tn_Key n = tn_Key n'"
    using assms by (intro node_key.equality) (simp_all add: verified_dependency_Validate_ok)
  ultimately show ?thesis using assms by (simp add: verified_dependency_Validate_ok)
qed (use assms in \<open>simp add: verified_dependency_Validate_ok\<close>)

definition demo_dependency :: verified_dependency where
  "demo_dependency = NewVerifiedDependency demo_hash 3 1 1 1 7 4 9"

theorem payload_digest_binds_dependency_witness:
  "let digest = ComputeDependencyRecordedPayloadDigest demo_hash demo_dependency;
       other = demo_dependency\<lparr>vd_EvidenceID := 10\<rparr>
   in verified_dependency_Validate demo_hash demo_dependency (demo_node 1) digest = Inr () \<and>
      verified_dependency_Validate demo_hash other (demo_node 1) digest = Inr () \<and>
      vd_RequestID demo_dependency = vd_RequestID other"
proof -
  let ?digest = "ComputeDependencyRecordedPayloadDigest demo_hash demo_dependency"
  have ok: "verified_dependency_Validate demo_hash demo_dependency (demo_node 1) ?digest = Inr ()"
    and ok': "verified_dependency_Validate demo_hash (demo_dependency\<lparr>vd_EvidenceID := 10\<rparr>) (demo_node 1) ?digest = Inr ()"
    and same: "payload_words demo_dependency = payload_words (demo_dependency\<lparr>vd_EvidenceID := 10\<rparr>)"
    by (simp_all add: verified_dependency_Validate_ok demo_dependency_def NewVerifiedDependency_def
        ComputeDependencyKey_def ComputeDependencyRecordedPayloadDigest_def demo_node_simps payload_words_def)
  show ?thesis
    using payload_digest_binds_dependency[OF ok ok'] same ok ok' unfolding Let_def by metis
qed

text \<open>
  C38. Every observation \<open>NewTrustRootObservation\<close> accepts is confirmed without wrap-around of the
  heights, carries the identifier of its content, and yields a graph node that passes validation
  (as long as the hashes involved are not the zero hash) whose evidence identifier is one
  \<open>ComputeSyntheticID\<close> computes.
\<close>

theorem observation_gives_valid_node:
  assumes "NewTrustRootObservation K content = Inr ob"
    and "tn_ID (observation_TrustNode K ob) \<noteq> 0" "loc_PayloadDigest (ev_Locator (SyntheticEvidence K ob)) \<noteq> 0"
  shows "uint (ob_Height ob) + uint (ob_RequiredConfirmations ob) \<le> uint (ob_ConfirmedHeadHeight ob) \<and>
    ob_ID ob = observation_ComputeID K ob \<and> observation_Validate ob = Inr () \<and>
    node_Validate K (observation_TrustNode K ob) = Inr () \<and>
    ComputeSyntheticID K (ev_Locator (SyntheticEvidence K ob)) = Inr (tn_EvidenceID (observation_TrustNode K ob))"
proof -
  have ob: "observation_Validate content = Inr ()"
    "ob = observation_content.extend content \<lparr>ob_ID = observation_ComputeID K content, ob_ObservedAt = zero_time\<rparr>"
    using assms(1) by (auto simp: NewTrustRootObservation_def)
  then have fields: "observation_Validate ob = Inr ()" "ob_ID ob = observation_ComputeID K ob"
    by (simp_all add: observation_Validate_ok observation_content.defs observation_ComputeID_def observation_bytes_def)
  have "node_Validate K (observation_TrustNode K ob) = Inr ()"
    using fields(1) assms(2)
    by (simp add: node_Validate_ok observation_Validate_ok observation_TrustNode_def NewTrustNode_def)
  moreover have "is_ok (ComputeSyntheticID K (ev_Locator (SyntheticEvidence K ob)))"
    using fields(1) assms(3)
    by (simp add: ComputeSyntheticID_def SyntheticEvidence_def chain_Validate_def observation_Validate_ok Let_def)
  moreover have "tn_EvidenceID (observation_TrustNode K ob) =
      (case ComputeSyntheticID K (ev_Locator (SyntheticEvidence K ob)) of Inl _ \<Rightarrow> 0 | Inr i \<Rightarrow> i)"
    by (simp add: observation_TrustNode_def NewTrustNode_def SyntheticEvidence_def Let_def)
  ultimately show ?thesis
    using fields by (auto simp: observation_Validate_ok is_ok_def split: sum.splits)
qed

definition demo_content :: observation_content where
  "demo_content = \<lparr>ob_ChainID = 1, ob_Height = 10, ob_BlockHash = 2, ob_Gateway = 3, ob_TrustRoot = 4,
     ob_GatewayCodeHash = 5, ob_RequiredConfirmations = 6, ob_ConfirmedHeadHeight = 16, ob_ConfirmedHeadHash = 7\<rparr>"

theorem observation_gives_valid_node_witness:
  "\<exists>ob. NewTrustRootObservation (\<lambda>bs. of_nat (length bs)) demo_content = Inr ob \<and>
     node_Validate (\<lambda>bs. of_nat (length bs)) (observation_TrustNode (\<lambda>bs. of_nat (length bs)) ob) = Inr ()"
proof -
  let ?K = "\<lambda>bs :: byte list. of_nat (length bs) :: hash"
  obtain ob where ob: "NewTrustRootObservation ?K demo_content = Inr ob"
    by (simp add: NewTrustRootObservation_def observation_Validate_def chain_Validate_def BigInt_def demo_content_def)
  have "tn_ID (observation_TrustNode ?K ob) \<noteq> 0" "loc_PayloadDigest (ev_Locator (SyntheticEvidence ?K ob)) \<noteq> 0"
    by (simp_all add: observation_TrustNode_def NewTrustNode_def node_key_bytes_def SyntheticEvidence_def
        payload_domain_def Let_def)
  then show ?thesis using observation_gives_valid_node[OF ob] ob by blast
qed

end
