(* ===== verification/Path_Search.thy ===== *)
theory Path_Search
  imports TrustView Go_Heap Best_First "HOL-Library.List_Lexorder" "HOL-Library.Product_Lexorder"
begin

text \<open>
  The graph searches of \<open>planner.go\<close> over a snapshot: \<open>directedReachability\<close> (breadth-first search) and
  \<open>shortestPath\<close> (Dijkstra's algorithm on a \<open>container/heap\<close> of candidates, ordered by cost, then number
  of hops, then edge identifiers). The first decides reachability; the second returns the least path in
  that order, and its loop ends after at most one iteration per edge and two more.
\<close>

subsection \<open>Adjacency and reachability\<close>

definition add_edge :: "(node_id \<Rightarrow> trust_edge list) \<Rightarrow> trust_edge \<Rightarrow> node_id \<Rightarrow> trust_edge list" where
  "add_edge m e = m(te_From e := m (te_From e) @ [e])"

definition adjacency :: "trust_edge list \<Rightarrow> node_id \<Rightarrow> trust_edge list" where
  "adjacency edges v = sort_key te_ID (foldl add_edge (\<lambda>_. []) edges v)"

fun bfs_push :: "trust_edge list \<Rightarrow> node_id set \<Rightarrow> node_id list \<Rightarrow> node_id set \<times> node_id list" where
  "bfs_push [] seen queue = (seen, queue)"
| "bfs_push (edge # es) seen queue =
     (if te_To edge \<notin> seen then bfs_push es (insert (te_To edge) seen) (queue @ [te_To edge])
      else bfs_push es seen queue)"

lemma foldl_add_edge: "foldl add_edge m edges v = m v @ filter (\<lambda>e. te_From e = v) edges"
  by (induction edges arbitrary: m) (auto simp: add_edge_def)

lemma adjacency_eq: "adjacency edges v = sort_key te_ID (filter (\<lambda>e. te_From e = v) edges)"
  by (simp add: adjacency_def foldl_add_edge)

lemma set_adjacency [simp]: "set (adjacency edges v) = {e \<in> set edges. te_From e = v}"
  by (auto simp: adjacency_eq)

lemma bfs_push_seen:
  "bfs_push es seen queue = (seen', queue') \<Longrightarrow>
     seen' = seen \<union> te_To ` set es \<and> (\<exists>new. queue' = queue @ new \<and> set new = te_To ` set es - seen)"
proof (induction es arbitrary: seen queue)
  case (Cons e es)
  show ?case
  proof (cases "te_To e \<in> seen")
    case True
    then show ?thesis using Cons by auto
  next
    case False
    then have "bfs_push es (insert (te_To e) seen) (queue @ [te_To e]) = (seen', queue')"
      using Cons.prems by simp
    from Cons.IH[OF this] obtain new where "seen' = insert (te_To e) seen \<union> te_To ` set es"
      "queue' = (queue @ [te_To e]) @ new" "set new = te_To ` set es - insert (te_To e) seen"
      by blast
    with False show ?thesis by (auto intro!: exI[of _ "te_To e # new"])
  qed
qed auto

function bfs :: "trust_edge list \<Rightarrow> node_id \<Rightarrow> node_id set \<Rightarrow> node_id list \<Rightarrow> bool" where
  "bfs edges target seen [] = False"
| "bfs edges target seen (current # queue) =
     (if current = target then True
      else case bfs_push (adjacency edges current) seen queue of
             (seen', queue') \<Rightarrow> bfs edges target seen' queue')"
  by pat_completeness auto

lemma bfs_decreases:
  assumes "bfs_push (adjacency edges v) seen queue = (seen', queue')"
  shows "card (te_To ` set edges - seen') < card (te_To ` set edges - seen) \<or>
    (seen' = seen \<and> queue' = queue)"
proof -
  obtain new where p: "seen' = seen \<union> te_To ` set (adjacency edges v)" "queue' = queue @ new"
    "set new = te_To ` set (adjacency edges v) - seen"
    using bfs_push_seen[OF assms] by blast
  show ?thesis
  proof (cases "new = []")
    case True
    then show ?thesis using p by auto
  next
    case False
    then have "te_To ` set (adjacency edges v) - seen \<noteq> {}" using p(3) by (metis set_empty)
    then obtain x where "x \<in> te_To ` set (adjacency edges v) - seen" by blast
    then have "x \<in> te_To ` set edges - seen" "x \<notin> te_To ` set edges - seen'" using p(1) by auto
    moreover have "te_To ` set edges - seen' \<subseteq> te_To ` set edges - seen" using p(1) by auto
    ultimately have "te_To ` set edges - seen' \<subset> te_To ` set edges - seen" by blast
    then show ?thesis by (simp add: psubset_card_mono)
  qed
qed

termination bfs
proof (relation "(\<lambda>(edges, _, seen, _). card (te_To ` set edges - seen)) <*mlex*>
    measure (\<lambda>(_, _, _, queue). length queue)", goal_cases)
  case 1
  show ?case by (simp add: wf_mlex)
next
  case (2 edges target seen current queue seen' queue')
  then have "bfs_push (adjacency edges current) seen queue = (seen', queue')" by simp
  from bfs_decreases[OF this] show ?case
    by (auto intro: mlex_less simp: mlex_prod_def)
qed

definition directedReachability :: "trust_view_snapshot \<Rightarrow> (node_id \<Rightarrow> trust_edge list) \<times> bool" where
  "directedReachability sn =
     (adjacency (sn_Edges sn),
      bfs (sn_Edges sn) (sn_TargetNodeID sn) {sn_StartNodeID sn} [sn_StartNodeID sn])"

text \<open>Reachability along the edges of a snapshot.\<close>

definition edge_rel :: "trust_edge list \<Rightarrow> (node_id \<times> node_id) set" where
  "edge_rel edges = {(te_From e, te_To e) | e. e \<in> set edges}"

definition bfs_inv :: "trust_edge list \<Rightarrow> node_id \<Rightarrow> node_id \<Rightarrow> node_id set \<Rightarrow> node_id list \<Rightarrow> bool" where
  "bfs_inv edges start target seen queue \<longleftrightarrow>
     start \<in> seen \<and> set queue \<subseteq> seen \<and> seen \<subseteq> (edge_rel edges)\<^sup>* `` {start} \<and>
     (\<forall>v \<in> seen - set queue. v \<noteq> target \<and> edge_rel edges `` {v} \<subseteq> seen)"

lemma bfs_correct:
  "bfs_inv edges start target seen queue \<Longrightarrow>
     bfs edges target seen queue \<longleftrightarrow> (start, target) \<in> (edge_rel edges)\<^sup>*"
proof (induction edges target seen queue rule: bfs.induct)
  case (1 edges target seen)
  then have closed: "edge_rel edges `` seen \<subseteq> seen" "start \<in> seen" "target \<notin> seen"
    by (auto simp: bfs_inv_def)
  then have "(edge_rel edges)\<^sup>* `` seen \<subseteq> seen" by (simp add: Image_closed_trancl)
  then show ?case using closed by auto
next
  case (2 edges target seen current queue)
  show ?case
  proof (cases "current = target")
    case True
    then show ?thesis using 2(2) by (auto simp: bfs_inv_def)
  next
    case False
    obtain seen' queue' where p: "bfs_push (adjacency edges current) seen queue = (seen', queue')" by fastforce
    from bfs_push_seen[OF p] obtain new where
      n: "seen' = seen \<union> te_To ` set (adjacency edges current)" "queue' = queue @ new"
      "set new = te_To ` set (adjacency edges current) - seen" by blast
    have succ: "te_To ` set (adjacency edges current) = edge_rel edges `` {current}"
      by (auto simp: edge_rel_def)
    have cur: "current \<in> seen" "(start, current) \<in> (edge_rel edges)\<^sup>*" using 2(2) by (auto simp: bfs_inv_def)
    then have "edge_rel edges `` {current} \<subseteq> (edge_rel edges)\<^sup>* `` {start}" by (auto intro: rtrancl_into_rtrancl)
    then have "bfs_inv edges start target seen' queue'"
      using 2(2) n False unfolding bfs_inv_def succ by auto
    then show ?thesis using 2(1)[OF False] p False by simp
  qed
qed

lemma directedReachability_correct:
  "snd (directedReachability sn) \<longleftrightarrow> (sn_StartNodeID sn, sn_TargetNodeID sn) \<in> (edge_rel (sn_Edges sn))\<^sup>*"
  unfolding directedReachability_def snd_conv by (rule bfs_correct) (auto simp: bfs_inv_def)

subsection \<open>Candidates and the shortest path\<close>

text \<open>The \<open>index\<close> field of a Go candidate records its heap position; nothing reads it.\<close>

record candidate =
  ca_node :: node_id
  ca_cost :: u64
  ca_path :: "trust_edge list"

definition bytes_Compare :: "hash \<Rightarrow> hash \<Rightarrow> int" where
  "bytes_Compare a b = (if a < b then -1 else if a = b then 0 else 1)"

fun comparePaths :: "trust_edge list \<Rightarrow> trust_edge list \<Rightarrow> int" where
  "comparePaths (l # left) (r # right) =
     (let compared = bytes_Compare (te_ID l) (te_ID r)
      in if compared \<noteq> 0 then compared else comparePaths left right)"
| "comparePaths _ _ = 0"

definition compareCandidate :: "candidate \<Rightarrow> candidate \<Rightarrow> int" where
  "compareCandidate left right =
     (if ca_cost left < ca_cost right then -1
      else if ca_cost left > ca_cost right then 1
      else if length (ca_path left) < length (ca_path right) then -1
      else if length (ca_path left) > length (ca_path right) then 1
      else let compared = comparePaths (ca_path left) (ca_path right)
           in if compared \<noteq> 0 then compared else bytes_Compare (ca_node left) (ca_node right))"

definition candidate_less :: "candidate \<Rightarrow> candidate \<Rightarrow> bool" where
  "candidate_less a b \<longleftrightarrow> compareCandidate a b < 0"

fun relax_edges ::
  "candidate \<Rightarrow> trust_edge list \<Rightarrow> candidate list \<Rightarrow> (node_id \<rightharpoonup> candidate) \<Rightarrow> bool \<Rightarrow>
     candidate list \<times> (node_id \<rightharpoonup> candidate) \<times> bool" where
  "relax_edges current [] queue best overflowed = (queue, best, overflowed)"
| "relax_edges current (edge # es) queue best overflowed =
     (if ca_cost current > MaxUint64 - te_PathStepCost edge
      then relax_edges current es queue best True
      else let next = \<lparr>ca_node = te_To edge, ca_cost = ca_cost current + te_PathStepCost edge,
                      ca_path = ca_path current @ [edge]\<rparr>
           in if (case best (ca_node next) of None \<Rightarrow> True | Some known \<Rightarrow> compareCandidate next known < 0)
              then relax_edges current es (heap_Push candidate_less queue next)
                     (best(ca_node next \<mapsto> next)) overflowed
              else relax_edges current es queue best overflowed)"

text \<open>The loop, with the number of iterations bounded by the first argument; \<open>None\<close> is reaching the bound.\<close>

fun shortest_loop ::
  "nat \<Rightarrow> node_id \<Rightarrow> (node_id \<Rightarrow> trust_edge list) \<Rightarrow> candidate list \<Rightarrow> (node_id \<rightharpoonup> candidate) \<Rightarrow> bool \<Rightarrow>
     (trust_edge list \<times> u64) res option" where
  "shortest_loop 0 target adj queue best overflowed = None"
| "shortest_loop (Suc n) target adj queue best overflowed =
     (if queue = []
      then Some (Inl (if overflowed then ErrPathCostOverflow
                      else ErrMsg ''directed path disappeared after reachability succeeded''))
      else case heap_Pop candidate_less queue of (current, queue') \<Rightarrow>
        (case best (ca_node current) of
           None \<Rightarrow> Some (Inl (Panic ''nil candidate''))
         | Some known \<Rightarrow>
             if compareCandidate current known \<noteq> 0
             then shortest_loop n target adj queue' best overflowed
             else if ca_node current = target then Some (Inr (ca_path current, ca_cost current))
             else case relax_edges current (adj (ca_node current)) queue' best overflowed of
               (queue'', best', overflowed') \<Rightarrow> shortest_loop n target adj queue'' best' overflowed'))"

definition shortestPath ::
  "trust_view_snapshot \<Rightarrow> (node_id \<Rightarrow> trust_edge list) \<Rightarrow> (trust_edge list \<times> u64) res option" where
  "shortestPath sn adj =
     (let start = \<lparr>ca_node = sn_StartNodeID sn, ca_cost = 0, ca_path = []\<rparr>
      in shortest_loop (length (sn_Edges sn) + 2) (sn_TargetNodeID sn) adj
           (heap_Init candidate_less [start]) [ca_node start \<mapsto> start] False)"

subsection \<open>The order of candidates\<close>

definition candidate_key :: "candidate \<Rightarrow> u64 \<times> nat \<times> hash list \<times> hash" where
  "candidate_key c = (ca_cost c, length (ca_path c), map te_ID (ca_path c), ca_node c)"

type_synonym label = "u64 \<times> trust_edge list"

definition label_key :: "label \<Rightarrow> u64 \<times> nat \<times> hash list" where
  "label_key l = (fst l, length (snd l), map te_ID (snd l))"

definition label_of :: "candidate \<Rightarrow> label" where
  "label_of c = (ca_cost c, ca_path c)"

definition extend_label :: "label \<Rightarrow> trust_edge \<Rightarrow> label option" where
  "extend_label l e =
     (if fst l > MaxUint64 - te_PathStepCost e then None else Some (fst l + te_PathStepCost e, snd l @ [e]))"

lemma comparePaths_cases:
  "length p = length q \<Longrightarrow>
     (comparePaths p q < 0 \<longleftrightarrow> map te_ID p < map te_ID q) \<and>
     (comparePaths p q = 0 \<longleftrightarrow> map te_ID p = map te_ID q)"
proof (induction p q rule: list_induct2)
  case (Cons x p y q)
  then show ?case by (auto simp: Let_def bytes_Compare_def)
qed simp

lemma compareCandidate_less: "compareCandidate a b < 0 \<longleftrightarrow> candidate_key a < candidate_key b"
  using comparePaths_cases[of "ca_path a" "ca_path b"]
  by (auto simp: compareCandidate_def candidate_key_def Let_def bytes_Compare_def)

lemma compareCandidate_zero: "compareCandidate a b = 0 \<longleftrightarrow> candidate_key a = candidate_key b"
  using comparePaths_cases[of "ca_path a" "ca_path b"]
  by (auto simp: compareCandidate_def candidate_key_def Let_def bytes_Compare_def)

lemma candidate_less_key: "candidate_less a b \<longleftrightarrow> candidate_key a < candidate_key b"
  by (simp add: candidate_less_def compareCandidate_less)

interpretation cq: weak_order candidate_less
  by unfold_locales (auto simp: candidate_less_key)

lemma candidate_key_label:
  "candidate_key a \<le> candidate_key b \<Longrightarrow> label_key (label_of a) \<le> label_key (label_of b)"
  by (auto simp: candidate_key_def label_key_def label_of_def)

lemma candidate_key_same_node:
  assumes "ca_node a = ca_node b"
  shows "candidate_key a < candidate_key b \<longleftrightarrow> label_key (label_of a) < label_key (label_of b)"
    and "candidate_key a = candidate_key b \<longleftrightarrow> label_key (label_of a) = label_key (label_of b)"
  using assms by (auto simp: candidate_key_def label_key_def label_of_def)

lemma list_le_append:
  "length xs = length ys \<Longrightarrow> xs \<le> ys \<Longrightarrow> xs @ zs \<le> ys @ zs" for xs ys zs :: "hash list"
  by (induction xs ys rule: list_induct2) auto

lemma extend_label_le: "extend_label a e = Some b \<Longrightarrow> label_key a \<le> label_key b"
  by (auto simp: extend_label_def label_key_def word_le_nat_alt unat_add_guarded split: if_splits)

lemma extend_label_mono:
  assumes "label_key a \<le> label_key b" "extend_label b e = Some b'"
  shows "\<exists>a'. extend_label a e = Some a' \<and> label_key a' \<le> label_key b'"
proof -
  have cost: "unat (fst a) \<le> unat (fst b)"
    using assms(1) by (auto simp: label_key_def word_less_nat_alt word_le_nat_alt)
  have ok: "\<not> fst b > MaxUint64 - te_PathStepCost e" "b' = (fst b + te_PathStepCost e, snd b @ [e])"
    using assms(2) by (auto simp: extend_label_def split: if_splits)
  then have ok': "\<not> fst a > MaxUint64 - te_PathStepCost e"
    using cost unfolding add_guard_iff by linarith
  have "label_key (fst a + te_PathStepCost e, snd a @ [e]) \<le> label_key b'"
    using assms(1) ok(2) unat_add_guarded[OF ok(1)] unat_add_guarded[OF ok']
      list_le_append[of "map te_ID (snd a)" "map te_ID (snd b)" "[te_ID e]"]
    by (auto simp: label_key_def word_less_nat_alt word_le_nat_alt)
  then show ?thesis using ok' by (simp add: extend_label_def)
qed

lemma finite_adjacency: "finite {v. adjacency edges v \<noteq> []}"
proof (rule finite_subset)
  show "{v. adjacency edges v \<noteq> []} \<subseteq> te_From ` set edges"
  proof
    fix v assume "v \<in> {v. adjacency edges v \<noteq> []}"
    then have "set (adjacency edges v) \<noteq> {}" by (simp del: set_adjacency)
    then show "v \<in> te_From ` set edges" by auto
  qed
qed simp

interpretation ps: best_first "\<lambda>a b. label_key a \<le> label_key b" start "(0, [])" "adjacency edges" te_To extend_label
  for start :: node_id and edges :: "trust_edge list"
  by unfold_locales (fact linear, erule order_trans, assumption, fact extend_label_le, fact extend_label_mono,
      fact finite_adjacency)

subsection \<open>The loop refines the abstract search\<close>

definition abs_queue :: "candidate list \<Rightarrow> (label \<times> node_id) multiset" where
  "abs_queue queue = image_mset (\<lambda>c. (label_of c, ca_node c)) (mset queue)"

definition abs_best :: "(node_id \<rightharpoonup> candidate) \<Rightarrow> (node_id \<rightharpoonup> label)" where
  "abs_best best v = map_option label_of (best v)"

definition best_ok :: "(node_id \<rightharpoonup> candidate) \<Rightarrow> bool" where
  "best_ok best \<longleftrightarrow> (\<forall>v c. best v = Some c \<longrightarrow> ca_node c = v)"

lemma abs_best_update: "abs_best (best(v \<mapsto> c)) = (abs_best best)(v \<mapsto> label_of c)"
  by (auto simp: abs_best_def)

lemma better_iff:
  assumes "best_ok best"
  shows "(case best (ca_node c) of None \<Rightarrow> True | Some known \<Rightarrow> compareCandidate c known < 0) \<longleftrightarrow>
    (case abs_best best (ca_node c) of None \<Rightarrow> True | Some d \<Rightarrow> \<not> label_key d \<le> label_key (label_of c))"
proof (cases "best (ca_node c)")
  case (Some k)
  then have "ca_node c = ca_node k" using assms by (simp add: best_ok_def)
  then show ?thesis
    using Some candidate_key_same_node(1)[of c k] by (simp add: abs_best_def compareCandidate_less not_le)
qed (simp add: abs_best_def)

lemma relax_edges_refines:
  assumes "relax_edges cur es queue best ov = (queue', best', ov')" "is_heap candidate_less queue" "best_ok best"
  shows "is_heap candidate_less queue' \<and> best_ok best' \<and>
    ps.relax_all (label_of cur) es (abs_best best, abs_queue queue) = (abs_best best', abs_queue queue') \<and>
    (ov' \<longleftrightarrow> ov \<or> (\<exists>e \<in> set es. extend_label (label_of cur) e = None))"
  using assms
proof (induction es arbitrary: queue best ov)
  case Nil
  then show ?case by auto
next
  case (Cons e es)
  let ?next = "\<lparr>ca_node = te_To e, ca_cost = ca_cost cur + te_PathStepCost e, ca_path = ca_path cur @ [e]\<rparr>"
  show ?case
  proof (cases "ca_cost cur > MaxUint64 - te_PathStepCost e")
    case True
    then have "extend_label (label_of cur) e = None" by (simp add: extend_label_def label_of_def)
    then show ?thesis using Cons.IH[of queue best True] Cons.prems True by simp
  next
    case False
    then have ext: "extend_label (label_of cur) e = Some (label_of ?next)"
      by (simp add: extend_label_def label_of_def)
    let ?better = "case best (te_To e) of None \<Rightarrow> True | Some known \<Rightarrow> compareCandidate ?next known < 0"
    have iff: "?better \<longleftrightarrow> (case abs_best best (te_To e) of None \<Rightarrow> True | Some d \<Rightarrow> \<not> label_key d \<le> label_key (label_of ?next))"
      using better_iff[OF Cons.prems(3), of ?next] by simp
    show ?thesis
    proof (cases ?better)
      case True
      have "relax_edges cur es (heap_Push candidate_less queue ?next) (best(te_To e \<mapsto> ?next)) ov = (queue', best', ov')"
        using Cons.prems(1) False True by (simp add: Let_def)
      moreover have "is_heap candidate_less (heap_Push candidate_less queue ?next)"
        using Cons.prems(2) by (rule cq.is_heap_Push)
      moreover have "best_ok (best(te_To e \<mapsto> ?next))" using Cons.prems(3) by (simp add: best_ok_def)
      ultimately have "is_heap candidate_less queue' \<and> best_ok best' \<and>
          ps.relax_all (label_of cur) es (abs_best (best(te_To e \<mapsto> ?next)), abs_queue (heap_Push candidate_less queue ?next)) =
            (abs_best best', abs_queue queue') \<and>
          (ov' \<longleftrightarrow> ov \<or> (\<exists>e \<in> set es. extend_label (label_of cur) e = None))"
        by (rule Cons.IH)
      moreover have "ps.relax (label_of cur) e (abs_best best, abs_queue queue) =
          (abs_best (best(te_To e \<mapsto> ?next)), abs_queue (heap_Push candidate_less queue ?next))"
        using True iff ext by (simp add: abs_best_update abs_queue_def cq.mset_heap_Push)
      ultimately show ?thesis using ext by simp
    next
      case nb: False
      have "relax_edges cur es queue best ov = (queue', best', ov')"
        using Cons.prems(1) False nb by (simp add: Let_def)
      then have "is_heap candidate_less queue' \<and> best_ok best' \<and>
          ps.relax_all (label_of cur) es (abs_best best, abs_queue queue) = (abs_best best', abs_queue queue') \<and>
          (ov' \<longleftrightarrow> ov \<or> (\<exists>e \<in> set es. extend_label (label_of cur) e = None))"
        using Cons.prems(2,3) by (rule Cons.IH)
      moreover have "ps.relax (label_of cur) e (abs_best best, abs_queue queue) = (abs_best best, abs_queue queue)"
        using nb iff ext by simp
      ultimately show ?thesis using ext by simp
    qed
  qed
qed

text \<open>
  The state of the loop between two iterations, with \<open>S\<close> the nodes already settled: none of them is the
  target, and without an overflow all their successors have been reached.
\<close>

definition loop_inv ::
  "trust_edge list \<Rightarrow> node_id \<Rightarrow> node_id \<Rightarrow> node_id set \<Rightarrow> candidate list \<Rightarrow> (node_id \<rightharpoonup> candidate) \<Rightarrow> bool \<Rightarrow> bool" where
  "loop_inv edges start target S queue best ov \<longleftrightarrow>
     is_heap candidate_less queue \<and> best_ok best \<and> target \<notin> S \<and>
     ps.search_inv start edges S (abs_best best) (abs_queue queue) \<and>
     (\<not> ov \<longrightarrow> (\<forall>v \<in> S. \<forall>e \<in> set (adjacency edges v). \<exists>l. ps.reaches start edges (te_To e) l))"

text \<open>What the loop may return.\<close>

fun search_result :: "trust_edge list \<Rightarrow> node_id \<Rightarrow> node_id \<Rightarrow> (trust_edge list \<times> u64) res \<Rightarrow> bool" where
  "search_result edges start target (Inr (path, cost)) \<longleftrightarrow>
     ps.reaches start edges target (cost, path) \<and>
     (\<forall>l. ps.reaches start edges target l \<longrightarrow> label_key (cost, path) \<le> label_key l)"
| "search_result edges start target (Inl e) \<longleftrightarrow>
     (\<forall>l. \<not> ps.reaches start edges target l) \<and>
     ((start, target) \<in> (edge_rel edges)\<^sup>* \<longrightarrow> e = ErrPathCostOverflow)"

lemma pop_abs:
  assumes "is_heap candidate_less queue" "queue \<noteq> []" "heap_Pop candidate_less queue = (c, queue')"
  shows "is_heap candidate_less queue'" "abs_queue queue = add_mset (label_of c, ca_node c) (abs_queue queue')"
    "\<And>x. x \<in># abs_queue queue' \<Longrightarrow> label_key (label_of c) \<le> label_key (fst x)"
proof -
  have ne: "mset queue \<noteq> {#}" using assms(2) by simp
  show "is_heap candidate_less queue'" using cq.hq.invar_pop[OF assms(1) ne assms(3)] .
  show "abs_queue queue = add_mset (label_of c, ca_node c) (abs_queue queue')"
    using cq.hq.elems_pop[OF assms(1) ne assms(3)] by (simp add: abs_queue_def)
  fix x assume "x \<in># abs_queue queue'"
  then obtain d where d: "d \<in># mset queue'" "x = (label_of d, ca_node d)" by (auto simp: abs_queue_def)
  have "\<not> candidate_less d c" using cq.hq.pop_min_rest[OF assms(1) ne assms(3) d(1)] .
  then show "label_key (label_of c) \<le> label_key (fst x)"
    using d(2) candidate_key_label[of c d] by (simp add: candidate_less_key not_less)
qed

lemma exhausted_result:
  assumes "loop_inv edges start target S [] best ov"
  shows "search_result edges start target
    (Inl (if ov then ErrPathCostOverflow else ErrMsg ''directed path disappeared after reachability succeeded''))"
proof -
  have inv: "ps.search_inv start edges S (abs_best best) {#}" and t: "target \<notin> S"
    and succ: "\<not> ov \<Longrightarrow> \<forall>v \<in> S. \<forall>e \<in> set (adjacency edges v). \<exists>l. ps.reaches start edges (te_To e) l"
    using assms by (simp_all add: loop_inv_def abs_queue_def)
  have unreached: "\<not> ps.reaches start edges target l" for l
    using ps.exhausted[OF inv, of target l] t by blast
  moreover have ov if r: "(start, target) \<in> (edge_rel edges)\<^sup>*"
  proof (rule ccontr)
    assume "\<not> ov"
    have "\<exists>l. ps.reaches start edges target l" using r
    proof (induction rule: rtrancl_induct)
      case base
      show ?case using ps.reaches_start by blast
    next
      case (step u v)
      then have "u \<in> S" using ps.exhausted[OF inv] by blast
      moreover obtain e where "e \<in> set (adjacency edges u)" "v = te_To e"
        using step.hyps(2) by (auto simp: edge_rel_def)
      ultimately show ?case using succ[OF \<open>\<not> ov\<close>] by blast
    qed
    then show False using unreached by blast
  qed
  ultimately show ?thesis by auto
qed

lemma loop_inv_relax:
  assumes inv: "loop_inv edges start target S queue best ov" and ne: "queue \<noteq> []"
    and pop: "heap_Pop candidate_less queue = (c, queue')"
    and known: "best (ca_node c) = Some k" "compareCandidate c k = 0" and t: "ca_node c \<noteq> target"
    and relax: "relax_edges c (adjacency edges (ca_node c)) queue' best ov = (queue'', best', ov')"
  shows "loop_inv edges start target (insert (ca_node c) S) queue'' best' ov' \<and>
    ps.potential edges (insert (ca_node c) S) (abs_queue queue'') < ps.potential edges S (abs_queue queue)"
proof -
  have parts: "is_heap candidate_less queue" "best_ok best" "target \<notin> S"
    "ps.search_inv start edges S (abs_best best) (abs_queue queue)"
    "\<not> ov \<longrightarrow> (\<forall>v \<in> S. \<forall>e \<in> set (adjacency edges v). \<exists>l. ps.reaches start edges (te_To e) l)"
    using inv by (simp_all add: loop_inv_def)
  note pop' = pop_abs[OF parts(1) ne pop]
  have "ca_node c = ca_node k" using parts(2) known(1) by (simp add: best_ok_def)
  then have fresh: "abs_best best (ca_node c) = Some (label_of k)" "label_key (label_of c) \<le> label_key (label_of k)"
    using known candidate_key_same_node(2)[of c k] by (simp_all add: abs_best_def compareCandidate_zero)
  note r = relax_edges_refines[OF relax pop'(1) parts(2)]
  note fp = ps.fresh_pop[OF parts(4)[unfolded pop'(2)] pop'(3) fresh]
  note fs = ps.fresh_step[OF parts(4)[unfolded pop'(2)] pop'(3) fresh, of "abs_best best'" "abs_queue queue''"]
  have "\<exists>l. ps.reaches start edges (te_To e) l" if "\<not> ov'" "e \<in> set (adjacency edges (ca_node c))" for e
    using r that ps.reaches_step[OF fp(2) that(2)] by (cases "extend_label (label_of c) e") auto
  then have succ: "\<not> ov' \<longrightarrow> (\<forall>v \<in> insert (ca_node c) S. \<forall>e \<in> set (adjacency edges v). \<exists>l. ps.reaches start edges (te_To e) l)"
    using parts(5) r by blast
  show ?thesis
    using fs r succ parts(3) t unfolding loop_inv_def pop'(2) by blast
qed

lemma shortest_loop_result:
  assumes "loop_inv edges start target S queue best ov" "ps.potential edges S (abs_queue queue) < n"
  shows "\<exists>r. shortest_loop n target (adjacency edges) queue best ov = Some r \<and> search_result edges start target r"
  using assms
proof (induction n arbitrary: S queue best ov)
  case (Suc n)
  show ?case
  proof (cases "queue = []")
    case True
    then show ?thesis using exhausted_result Suc.prems(1) by auto
  next
    case False
    obtain c queue' where pop: "heap_Pop candidate_less queue = (c, queue')" by fastforce
    have parts: "is_heap candidate_less queue" "best_ok best"
      "ps.search_inv start edges S (abs_best best) (abs_queue queue)"
      using Suc.prems(1) by (simp_all add: loop_inv_def)
    note pop' = pop_abs[OF parts(1) False pop]
    obtain b where b: "abs_best best (ca_node c) = Some b" "label_key b \<le> label_key (label_of c)"
      using parts(3) unfolding pop'(2) ps.search_inv_def ps.labels_ok_def by auto
    then obtain k where k: "best (ca_node c) = Some k" "b = label_of k" "ca_node k = ca_node c"
      using parts(2) by (auto simp: abs_best_def best_ok_def)
    show ?thesis
    proof (cases "compareCandidate c k = 0")
      case stale: False
      then have "\<not> label_key (label_of c) \<le> label_key b"
        using b(2) k candidate_key_same_node(2)[of c k] by (simp add: compareCandidate_zero)
      note st = ps.stale_step[OF parts(3)[unfolded pop'(2)] b(1) this]
      have "loop_inv edges start target S queue' best ov"
        using Suc.prems(1) pop'(1) st(1) by (simp add: loop_inv_def)
      moreover have "ps.potential edges S (abs_queue queue') < n"
        using st(2) Suc.prems(2) by (simp add: pop'(2))
      ultimately show ?thesis using Suc.IH False pop k stale by simp
    next
      case fresh: True
      then have le: "label_key (label_of c) \<le> label_key b"
        using k candidate_key_same_node(2)[of c k] by (simp add: compareCandidate_zero)
      note fp = ps.fresh_pop[OF parts(3)[unfolded pop'(2)] pop'(3) b(1) le]
      show ?thesis
      proof (cases "ca_node c = target")
        case True
        have "search_result edges start target (Inr (ca_path c, ca_cost c))"
          using fp(2,3) True by (simp add: label_of_def)
        then show ?thesis using False pop k fresh True by simp
      next
        case nt: False
        obtain queue'' best' ov' where
          relax: "relax_edges c (adjacency edges (ca_node c)) queue' best ov = (queue'', best', ov')"
          by (metis prod_cases3)
        note li = loop_inv_relax[OF Suc.prems(1) False pop k(1) fresh nt relax]
        then have "ps.potential edges (insert (ca_node c) S) (abs_queue queue'') < n"
          using Suc.prems(2) by linarith
        then have "\<exists>r. shortest_loop n target (adjacency edges) queue'' best' ov' = Some r \<and>
            search_result edges start target r"
          using Suc.IH li by blast
        then show ?thesis using False pop k fresh nt relax by simp
      qed
    qed
  qed
qed simp

lemma sum_length_adjacency: "(\<Sum>v \<in> {v. adjacency edges v \<noteq> []}. length (adjacency edges v)) \<le> length edges"
proof -
  have "(\<Sum>v \<in> V. length (filter (\<lambda>e. te_From e = v) edges)) \<le> length edges" if "finite V" for V
  proof (induction edges)
    case (Cons e edges)
    have "(\<Sum>v \<in> V. length (filter (\<lambda>e. te_From e = v) (e # edges))) =
      (\<Sum>v \<in> V. (if te_From e = v then 1 else 0) + length (filter (\<lambda>e. te_From e = v) edges))"
      by (rule sum.cong) auto
    also have "\<dots> = (if te_From e \<in> V then 1 else 0) + (\<Sum>v \<in> V. length (filter (\<lambda>e. te_From e = v) edges))"
      using that by (simp add: sum.distrib)
    finally show ?case using Cons by simp
  qed simp
  then show ?thesis using finite_adjacency[of edges] by (simp add: adjacency_eq)
qed

lemma shortestPath_result:
  "\<exists>r. shortestPath sn (adjacency (sn_Edges sn)) = Some r \<and>
     search_result (sn_Edges sn) (sn_StartNodeID sn) (sn_TargetNodeID sn) r"
proof -
  let ?start = "\<lparr>ca_node = sn_StartNodeID sn, ca_cost = 0, ca_path = []\<rparr>"
  have q: "abs_queue (heap_Init candidate_less [?start]) = {#((0, []), sn_StartNodeID sn)#}"
    by (simp add: abs_queue_def cq.mset_heap_Init label_of_def)
  have b: "abs_best [sn_StartNodeID sn \<mapsto> ?start] = [sn_StartNodeID sn \<mapsto> (0, [])]"
    by (auto simp: abs_best_def label_of_def)
  have "loop_inv (sn_Edges sn) (sn_StartNodeID sn) (sn_TargetNodeID sn) {} (heap_Init candidate_less [?start])
      [sn_StartNodeID sn \<mapsto> ?start] False"
    using ps.search_inv_init[of "sn_StartNodeID sn" "sn_Edges sn"]
    by (simp add: loop_inv_def q b cq.is_heap_Init best_ok_def)
  moreover have "ps.potential (sn_Edges sn) {} (abs_queue (heap_Init candidate_less [?start])) < length (sn_Edges sn) + 2"
    using sum_length_adjacency[of "sn_Edges sn"] by (simp add: ps.potential_def q)
  ultimately have "\<exists>r. shortest_loop (length (sn_Edges sn) + 2) (sn_TargetNodeID sn) (adjacency (sn_Edges sn))
      (heap_Init candidate_less [?start]) [sn_StartNodeID sn \<mapsto> ?start] False = Some r \<and>
      search_result (sn_Edges sn) (sn_StartNodeID sn) (sn_TargetNodeID sn) r"
    by (rule shortest_loop_result)
  then show ?thesis unfolding shortestPath_def Let_def candidate.simps .
qed

subsection \<open>Walks\<close>

fun walk :: "trust_edge list \<Rightarrow> node_id \<Rightarrow> trust_edge list \<Rightarrow> node_id \<Rightarrow> bool" where
  "walk edges s [] t \<longleftrightarrow> s = t"
| "walk edges s (e # p) t \<longleftrightarrow> e \<in> set edges \<and> te_From e = s \<and> walk edges (te_To e) p t"

definition path_cost :: "trust_edge list \<Rightarrow> nat" where
  "path_cost p = sum_list (map (unat \<circ> te_PathStepCost) p)"

lemma walk_append: "walk edges s (p @ q) t \<longleftrightarrow> (\<exists>m. walk edges s p m \<and> walk edges m q t)"
  by (induction p arbitrary: s) auto

lemma path_cost_simps [simp]: "path_cost [] = 0" "path_cost (p @ [e]) = path_cost p + unat (te_PathStepCost e)"
  by (simp_all add: path_cost_def)

lemma reaches_walk: "ps.reaches start edges v l \<Longrightarrow> walk edges start (snd l) v \<and> path_cost (snd l) = unat (fst l)"
proof (induction rule: ps.reaches.induct)
  case (reaches_step v a e b)
  then have "\<not> fst a > MaxUint64 - te_PathStepCost e" "b = (fst a + te_PathStepCost e, snd a @ [e])"
    by (auto simp: extend_label_def split: if_splits)
  then show ?case using reaches_step by (simp add: walk_append unat_add_guarded)
qed simp

lemma walk_reaches:
  assumes "walk edges start p v" "path_cost p < 2 ^ 64"
  shows "ps.reaches start edges v (of_nat (path_cost p), p)"
  using assms
proof (induction p arbitrary: v rule: rev_induct)
  case Nil
  then show ?case using ps.reaches_start by simp
next
  case (snoc e p)
  then have p: "walk edges start p (te_From e)" "e \<in> set (adjacency edges (te_From e))" "v = te_To e"
    by (auto simp: walk_append)
  have cost: "unat (of_nat (path_cost p) :: u64) = path_cost p"
    using snoc.prems(2) by (simp add: unat_of_nat)
  then have "\<not> (of_nat (path_cost p) > MaxUint64 - te_PathStepCost e)"
    using snoc.prems(2) unfolding add_guard_iff by simp
  then have "extend_label (of_nat (path_cost p), p) e = Some (of_nat (path_cost (p @ [e])), p @ [e])"
    by (simp add: extend_label_def)
  then show ?case
    using ps.reaches_step[OF _ p(2)] snoc.IH[OF p(1)] snoc.prems(2) p(3) by simp
qed

lemma walk_edge_rel: "(\<exists>p. walk edges s p t) \<longleftrightarrow> (s, t) \<in> (edge_rel edges)\<^sup>*"
proof
  assume "\<exists>p. walk edges s p t"
  then obtain p where "walk edges s p t" by blast
  then show "(s, t) \<in> (edge_rel edges)\<^sup>*"
    by (induction p arbitrary: s) (auto simp: edge_rel_def intro: converse_rtrancl_into_rtrancl)
next
  assume "(s, t) \<in> (edge_rel edges)\<^sup>*"
  then show "\<exists>p. walk edges s p t"
  proof (induction rule: converse_rtrancl_induct)
    case base
    then show ?case by (intro exI[of _ "[]"]) simp
  next
    case (step s u)
    then obtain e p where "e \<in> set edges" "te_From e = s" "te_To e = u" "walk edges u p t"
      by (auto simp: edge_rel_def)
    then show ?case by (intro exI[of _ "e # p"]) simp
  qed
qed

lemma shortestPath_cases:
  obtains (path) path cost where "shortestPath sn (adjacency (sn_Edges sn)) = Some (Inr (path, cost))"
      "walk (sn_Edges sn) (sn_StartNodeID sn) path (sn_TargetNodeID sn)" "path_cost path = unat cost"
      "\<And>q. walk (sn_Edges sn) (sn_StartNodeID sn) q (sn_TargetNodeID sn) \<Longrightarrow> path_cost q < 2 ^ 64 \<Longrightarrow>
         (path_cost path, length path, map te_ID path) \<le> (path_cost q, length q, map te_ID q)"
  | (err) e where "shortestPath sn (adjacency (sn_Edges sn)) = Some (Inl e)"
      "\<And>q. walk (sn_Edges sn) (sn_StartNodeID sn) q (sn_TargetNodeID sn) \<Longrightarrow> 2 ^ 64 \<le> path_cost q"
      "snd (directedReachability sn) \<Longrightarrow> e = ErrPathCostOverflow"
proof -
  let ?E = "sn_Edges sn" and ?s = "sn_StartNodeID sn" and ?t = "sn_TargetNodeID sn"
  obtain r where r: "shortestPath sn (adjacency ?E) = Some r" "search_result ?E ?s ?t r"
    using shortestPath_result by blast
  show thesis
  proof (cases r)
    case (Inl e)
    show thesis
    proof (rule err)
      show "shortestPath sn (adjacency ?E) = Some (Inl e)" using r Inl by simp
      show "2 ^ 64 \<le> path_cost q" if "walk ?E ?s q ?t" for q
        using walk_reaches[OF that] r(2) Inl by (cases "path_cost q < 2 ^ 64") auto
      show "snd (directedReachability sn) \<Longrightarrow> e = ErrPathCostOverflow"
        using r(2) Inl by (simp add: directedReachability_correct)
    qed
  next
    case (Inr pc)
    obtain path cost where pc: "pc = (path, cost)" by (cases pc)
    then have p: "ps.reaches ?s ?E ?t (cost, path)"
      "\<And>l. ps.reaches ?s ?E ?t l \<Longrightarrow> label_key (cost, path) \<le> label_key l"
      using r(2) Inr by auto
    note w = reaches_walk[OF p(1)]
    show thesis
    proof (rule path)
      show "shortestPath sn (adjacency ?E) = Some (Inr (path, cost))" using r Inr pc by simp
      show "walk ?E ?s path ?t" "path_cost path = unat cost" using w by simp_all
      fix q assume q: "walk ?E ?s q ?t" "path_cost q < 2 ^ 64"
      have "unat (of_nat (path_cost q) :: u64) = path_cost q" using q(2) by (simp add: unat_of_nat)
      then show "(path_cost path, length path, map te_ID path) \<le> (path_cost q, length q, map te_ID q)"
        using p(2)[OF walk_reaches[OF q]] w by (auto simp: label_key_def word_less_nat_alt word_le_nat_alt)
    qed
  qed
qed

text \<open>
  C1. \<open>shortestPath\<close> always returns. When it returns a path, the path is a walk from the start to the
  target of the snapshot, the cost is the sum of its step costs, and no walk whose cost fits a
  \<open>uint64\<close> comes before it in the order of cost, number of hops and edge identifiers. When it returns an
  error, every walk costs more than a \<open>uint64\<close> holds; if the target is reachable the error is
  \<open>ErrPathCostOverflow\<close>.
\<close>

theorem shortestPath_optimal:
  "(\<exists>path cost. shortestPath sn (fst (directedReachability sn)) = Some (Inr (path, cost)) \<and>
      walk (sn_Edges sn) (sn_StartNodeID sn) path (sn_TargetNodeID sn) \<and> path_cost path = unat cost \<and>
      (\<forall>q. walk (sn_Edges sn) (sn_StartNodeID sn) q (sn_TargetNodeID sn) \<and> path_cost q < 2 ^ 64 \<longrightarrow>
         (path_cost path, length path, map te_ID path) \<le> (path_cost q, length q, map te_ID q))) \<or>
   (\<exists>e. shortestPath sn (fst (directedReachability sn)) = Some (Inl e) \<and>
      (\<forall>q. walk (sn_Edges sn) (sn_StartNodeID sn) q (sn_TargetNodeID sn) \<longrightarrow> 2 ^ 64 \<le> path_cost q) \<and>
      (snd (directedReachability sn) \<longrightarrow> e = ErrPathCostOverflow))"
  unfolding directedReachability_def fst_conv
  by (rule shortestPath_cases[of sn]) (simp_all add: directedReachability_def)

definition demo_snapshot :: trust_view_snapshot where
  "demo_snapshot = \<lparr>sn_ID = ComputeSnapshotID demo_hash 11 1 1 (tn_ID (demo_node 1)) (tn_ID (demo_node 2)) 7,
     sn_Revision = 1, sn_HomeChainID = 1, sn_HomeTrustRoot = 7, sn_StartNodeID = tn_ID (demo_node 1),
     sn_TargetNodeID = tn_ID (demo_node 2), sn_Sealed = True, sn_Nodes = [demo_node 2, demo_node 1],
     sn_Edges = [demo_edge 1 2, demo_edge 2 1]\<rparr>"

theorem shortestPath_optimal_witness:
  "\<exists>path cost. shortestPath demo_snapshot (fst (directedReachability demo_snapshot)) = Some (Inr (path, cost)) \<and>
     unat cost \<le> 3"
proof -
  have w: "walk (sn_Edges demo_snapshot) (sn_StartNodeID demo_snapshot) [demo_edge 1 2] (sn_TargetNodeID demo_snapshot)"
    "path_cost [demo_edge 1 2] = 3"
    by (simp_all add: demo_snapshot_def demo_edge_eq demo_node_simps path_cost_def)
  then show ?thesis using shortestPath_optimal[of demo_snapshot] by fastforce
qed

text \<open>
  C34. \<open>directedReachability\<close> reports exactly whether some walk along the edges of the snapshot leads from
  its start to its target, and groups under every node exactly the edges that leave it, in the order of
  their identifiers.
\<close>

theorem directedReachability_exact:
  "(snd (directedReachability sn) \<longleftrightarrow> (\<exists>p. walk (sn_Edges sn) (sn_StartNodeID sn) p (sn_TargetNodeID sn))) \<and>
   set (fst (directedReachability sn) v) = {e \<in> set (sn_Edges sn). te_From e = v} \<and>
   sorted (map te_ID (fst (directedReachability sn) v))"
  by (simp add: directedReachability_correct walk_edge_rel)
    (simp add: directedReachability_def adjacency_eq)

end
