(* ===== verification/Registry.thy ===== *)
theory Registry
  imports Domain
begin

text \<open>
  \<open>Mapnode/registry\<close>: the chains a node knows, the one home chain it may sign and send transactions
  for, and the calibrated direct-verifier profile of that chain. A nil \<open>*Registry\<close> is \<open>None\<close>.
\<close>

subsection \<open>Profiles and chains\<close>

record direct_parameters =
  dv_ID :: string
  dv_AuthorizedSigners :: "address list"
  dv_SignatureChecks :: u32
  dv_HashRounds :: u32
  dv_MeasuredDirectCostGas :: u64

record deployment_profile =
  de_Configured :: direct_parameters
  de_Deployed :: direct_parameters
  de_Fingerprint :: hash

record chain =
  ch_Name :: string
  ch_ChainID :: chain_id
  ch_MapNodeID :: string
  ch_Home :: bool
  ch_SignerAuthority :: bool
  ch_TransactionAuthority :: bool
  ch_Profile :: deployment_profile

record direct_profile =
  dp_ID :: string
  dp_Fingerprint :: hash
  dp_DirectCost :: u64
  dp_Calibrated :: bool

record registry =
  rg_chains :: "chain_id \<rightharpoonup> chain"
  rg_home :: chain_id

text \<open>The reserved profile of \<open>internal/directprofile\<close>.\<close>

definition directprofile_ID :: string where
  "directprofile_ID = ''pow-spv-3m''"
definition AuthorizedSignerCount :: nat where
  "AuthorizedSignerCount = 3"
definition SignatureChecks :: u32 where
  "SignatureChecks = 3"
definition HashRounds :: u32 where
  "HashRounds = 4497"
definition MeasuredCostGas :: u64 where
  "MeasuredCostGas = 3000096"

subsection \<open>Building a registry\<close>

fun new_loop :: "chain list \<Rightarrow> registry \<Rightarrow> string set \<Rightarrow> nat \<Rightarrow> (registry \<times> nat) res" where
  "new_loop [] result mapNodes homeCount = Inr (result, homeCount)"
| "new_loop (chain # chs) result mapNodes homeCount =
     bind_res (chain_Validate (ch_ChainID chain)) (\<lambda>_.
     if TrimSpace (ch_Name chain) = [] \<or> TrimSpace (ch_MapNodeID chain) = []
     then Inl (ErrMsg ''every chain requires a name and MapNode ID'')
     else if TrimSpace (dv_ID (de_Configured (ch_Profile chain))) = [] \<or>
             TrimSpace (dv_ID (de_Deployed (ch_Profile chain))) = []
     then Inl (ErrMsg ''chain requires configured and deployed direct verifier profile IDs'')
     else if rg_chains result (ch_ChainID chain) \<noteq> None then Inl (ErrMsg ''duplicate chain ID'')
     else if ch_MapNodeID chain \<in> mapNodes then Inl (ErrMsg ''MapNode is assigned to more than one chain'')
     else if ch_Home chain \<noteq> ch_SignerAuthority chain \<or> ch_Home chain \<noteq> ch_TransactionAuthority chain
     then Inl (ErrMsg ''authority must be held exactly by the home MapNode'')
     else let homeCount' = (if ch_Home chain then homeCount + 1 else homeCount);
              home' = (if ch_Home chain then ch_ChainID chain else rg_home result)
          in new_loop chs
               \<lparr>rg_chains = (rg_chains result)(ch_ChainID chain \<mapsto> chain), rg_home = home'\<rparr>
               (insert (ch_MapNodeID chain) mapNodes) homeCount')"

definition registry_New :: "chain list \<Rightarrow> registry res" where
  "registry_New chs =
     (if chs = [] then Inl (ErrMsg ''registry must contain at least one chain'')
      else bind_res (new_loop chs \<lparr>rg_chains = Map.empty, rg_home = 0\<rparr> {} 0) (\<lambda>(result, homeCount).
        if homeCount \<noteq> 1 then Inl (ErrMsg ''registry requires exactly one home chain'') else Inr result))"

subsection \<open>Queries\<close>

definition registry_Chain :: "registry option \<Rightarrow> chain_id \<Rightarrow> chain option" where
  "registry_Chain reg cid = (case reg of None \<Rightarrow> None | Some r \<Rightarrow> rg_chains r cid)"

definition HomeChain :: "registry option \<Rightarrow> chain res" where
  "HomeChain reg =
     (case reg of
        None \<Rightarrow> Inl ErrHomeChainNotFound
      | Some r \<Rightarrow> (case registry_Chain (Some r) (rg_home r) of
                      None \<Rightarrow> Inl ErrHomeChainNotFound | Some c \<Rightarrow> Inr c))"

definition RequireTransactionAuthority :: "registry option \<Rightarrow> chain_id \<Rightarrow> unit res" where
  "RequireTransactionAuthority reg cid =
     (case registry_Chain reg cid of
        None \<Rightarrow> Inl ErrChainNotFound
      | Some c \<Rightarrow> if \<not> ch_Home c \<or> \<not> ch_TransactionAuthority c then Inl ErrNoTransactionAuthority else Inr ())"

definition RequireSignerAuthority :: "registry option \<Rightarrow> chain_id \<Rightarrow> unit res" where
  "RequireSignerAuthority reg cid =
     (case registry_Chain reg cid of
        None \<Rightarrow> Inl ErrChainNotFound
      | Some c \<Rightarrow> if \<not> ch_Home c \<or> \<not> ch_SignerAuthority c then Inl ErrNoSignerAuthority else Inr ())"

definition fingerprint_bytes :: "direct_parameters \<Rightarrow> byte list" where
  "fingerprint_bytes p =
     be_bytes 4 (of_nat (length (dv_ID p)) :: u32) @ string_bytes (dv_ID p) @
     be_bytes 4 (of_nat (length (dv_AuthorizedSigners p)) :: u32) @
     concat (map (be_bytes 20) (dv_AuthorizedSigners p)) @
     be_bytes 4 (dv_SignatureChecks p) @ be_bytes 4 (dv_HashRounds p) @ be_bytes 8 (dv_MeasuredDirectCostGas p)"

definition ComputeProfileFingerprint :: "keccak \<Rightarrow> direct_parameters \<Rightarrow> hash" where
  "ComputeProfileFingerprint K p = K (fingerprint_bytes p)"

definition sameParameters :: "direct_parameters \<Rightarrow> direct_parameters \<Rightarrow> bool" where
  "sameParameters left right \<longleftrightarrow>
     dv_ID left = dv_ID right \<and> dv_SignatureChecks left = dv_SignatureChecks right \<and>
     dv_HashRounds left = dv_HashRounds right \<and>
     dv_MeasuredDirectCostGas left = dv_MeasuredDirectCostGas right \<and>
     length (dv_AuthorizedSigners left) = length (dv_AuthorizedSigners right) \<and>
     list_all2 (=) (dv_AuthorizedSigners left) (dv_AuthorizedSigners right)"

fun signers_ok :: "address list \<Rightarrow> address set \<Rightarrow> bool" where
  "signers_ok [] seen = True"
| "signers_ok (signer # signers) seen =
     (if signer = 0 then False else if signer \<in> seen then False else signers_ok signers (insert signer seen))"

definition zero_profile :: direct_profile where
  "zero_profile = \<lparr>dp_ID = [], dp_Fingerprint = 0, dp_DirectCost = 0, dp_Calibrated = False\<rparr>"

definition DirectProfile :: "keccak \<Rightarrow> registry option \<Rightarrow> chain_id \<Rightarrow> direct_profile \<times> bool" where
  "DirectProfile K reg cid =
     (case registry_Chain reg cid of
        None \<Rightarrow> (zero_profile, False)
      | Some c \<Rightarrow>
        if \<not> ch_Home c \<or> \<not> ch_SignerAuthority c \<or> \<not> ch_TransactionAuthority c then (zero_profile, False)
        else
          let configured = de_Configured (ch_Profile c);
              status = \<lparr>dp_ID = dv_ID configured, dp_Fingerprint = de_Fingerprint (ch_Profile c),
                        dp_DirectCost = 0, dp_Calibrated = False\<rparr>;
              computed = ComputeProfileFingerprint K configured
          in if computed \<noteq> de_Fingerprint (ch_Profile c) \<or> \<not> sameParameters configured (de_Deployed (ch_Profile c))
             then (status, True)
             else if dv_ID configured \<noteq> directprofile_ID \<or>
                     length (dv_AuthorizedSigners configured) \<noteq> AuthorizedSignerCount \<or>
                     dv_SignatureChecks configured \<noteq> SignatureChecks \<or>
                     dv_HashRounds configured \<noteq> HashRounds \<or>
                     dv_MeasuredDirectCostGas configured \<noteq> MeasuredCostGas
             then (status, True)
             else if \<not> signers_ok (dv_AuthorizedSigners configured) {} then (status, True)
             else (status\<lparr>dp_Calibrated := True, dp_DirectCost := MeasuredCostGas\<rparr>, True))"

subsection \<open>One authority\<close>

definition authority_ok :: "chain \<Rightarrow> bool" where
  "authority_ok c \<longleftrightarrow> ch_Home c = ch_SignerAuthority c \<and> ch_Home c = ch_TransactionAuthority c"

lemma new_loop_result:
  assumes "new_loop chs r M n = Inr (r', n')"
  shows "(\<forall>i c. rg_chains r' i = Some c \<longleftrightarrow> rg_chains r i = Some c \<or> (c \<in> set chs \<and> ch_ChainID c = i)) \<and>
    list_all authority_ok chs \<and> n' = n + length (filter ch_Home chs) \<and>
    rg_home r' = (if filter ch_Home chs = [] then rg_home r else ch_ChainID (last (filter ch_Home chs)))"
  using assms
proof (induction chs arbitrary: r M n)
  case (Cons c chs)
  let ?n = "if ch_Home c then n + 1 else n"
  let ?r = "\<lparr>rg_chains = (rg_chains r)(ch_ChainID c \<mapsto> c),
    rg_home = (if ch_Home c then ch_ChainID c else rg_home r)\<rparr>"
  have step: "new_loop chs ?r (insert (ch_MapNodeID c) M) ?n = Inr (r', n')"
    and new: "rg_chains r (ch_ChainID c) = None" and ok: "authority_ok c"
    using Cons.prems by (auto simp: Let_def authority_ok_def split: if_splits)
  note IH = Cons.IH[OF step]
  have "rg_chains r' i = Some d \<longleftrightarrow> rg_chains r i = Some d \<or> (d \<in> set (c # chs) \<and> ch_ChainID d = i)" for i d
    using IH new by (cases "i = ch_ChainID c") auto
  then show ?case using IH ok by simp
qed simp

lemma registry_New_home:
  assumes "registry_New chs = Inr r"
  obtains h where "filter ch_Home chs = [h]" "rg_home r = ch_ChainID h" "h \<in> set chs" "list_all authority_ok chs"
    "\<And>i c. rg_chains r i = Some c \<longleftrightarrow> c \<in> set chs \<and> ch_ChainID c = i"
proof -
  have loop: "new_loop chs \<lparr>rg_chains = Map.empty, rg_home = 0\<rparr> {} 0 = Inr (r, 1)"
    using assms by (auto simp: registry_New_def split: if_splits)
  note res = new_loop_result[OF loop]
  then have "length (filter ch_Home chs) = 1" by simp
  then obtain h where h: "filter ch_Home chs = [h]" by (auto simp: length_Suc_conv)
  then have "h \<in> set (filter ch_Home chs)" by simp
  then have "h \<in> set chs" by simp
  then show thesis using that[of h] res h by simp
qed

lemma signers_ok_iff: "signers_ok ss seen \<longleftrightarrow> 0 \<notin> set ss \<and> distinct ss \<and> set ss \<inter> seen = {}"
  by (induction ss arbitrary: seen) auto

lemma sameParameters_iff: "sameParameters p q \<longleftrightarrow> p = q"
  by (cases p; cases q) (auto simp: sameParameters_def list.rel_eq)

text \<open>
  C39. A registry that \<open>New\<close> accepts has exactly one chain with authority: its home chain is one of the
  given chains, signer and transaction authority are granted for that chain and for no other, and only
  for it is there a direct profile.
\<close>

theorem registry_single_authority:
  assumes "registry_New chs = Inr r"
  shows "\<exists>h. HomeChain (Some r) = Inr h \<and> h \<in> set chs \<and> filter ch_Home chs = [h] \<and>
    (\<forall>cid. (RequireSignerAuthority (Some r) cid = Inr () \<longleftrightarrow> cid = ch_ChainID h) \<and>
           (RequireTransactionAuthority (Some r) cid = Inr () \<longleftrightarrow> cid = ch_ChainID h) \<and>
           (snd (DirectProfile K (Some r) cid) \<longleftrightarrow> cid = ch_ChainID h))"
proof -
  obtain h where h: "filter ch_Home chs = [h]" "rg_home r = ch_ChainID h" "h \<in> set chs" "list_all authority_ok chs"
    and chains: "\<And>i c. rg_chains r i = Some c \<longleftrightarrow> c \<in> set chs \<and> ch_ChainID c = i"
    using registry_New_home[OF assms] by blast
  have home: "rg_chains r (ch_ChainID h) = Some h" using chains h(3) by simp
  have auth: "ch_Home h" "ch_SignerAuthority h" "ch_TransactionAuthority h"
    using h by (auto simp: authority_ok_def list_all_iff dest: filter_eq_ConsD)
  have other: "\<not> ch_Home c" if "rg_chains r cid = Some c" "cid \<noteq> ch_ChainID h" for cid c
  proof
    assume "ch_Home c"
    then have "c \<in> set (filter ch_Home chs)" using chains that(1) by simp
    then show False using h(1) that chains by simp
  qed
  have "HomeChain (Some r) = Inr h" using home h(2) by (simp add: HomeChain_def registry_Chain_def)
  moreover have "RequireSignerAuthority (Some r) cid = Inr () \<longleftrightarrow> cid = ch_ChainID h"
    "RequireTransactionAuthority (Some r) cid = Inr () \<longleftrightarrow> cid = ch_ChainID h"
    "snd (DirectProfile K (Some r) cid) \<longleftrightarrow> cid = ch_ChainID h" for cid
    using home auth other[of cid]
    by (cases "cid = ch_ChainID h"; cases "rg_chains r cid";
        simp add: RequireSignerAuthority_def RequireTransactionAuthority_def DirectProfile_def
          registry_Chain_def Let_def)+
  ultimately show ?thesis using h(1,3) by blast
qed

definition demo_parameters :: direct_parameters where
  "demo_parameters = \<lparr>dv_ID = directprofile_ID, dv_AuthorizedSigners = [1, 2, 3], dv_SignatureChecks = 3,
     dv_HashRounds = 4497, dv_MeasuredDirectCostGas = 3000096\<rparr>"

definition demo_chain :: "bool \<Rightarrow> chain" where
  "demo_chain home = \<lparr>ch_Name = (if home then ''a'' else ''b''), ch_ChainID = (if home then 1 else 2),
     ch_MapNodeID = (if home then ''n1'' else ''n2''), ch_Home = home, ch_SignerAuthority = home,
     ch_TransactionAuthority = home, ch_Profile = \<lparr>de_Configured = demo_parameters, de_Deployed = demo_parameters,
       de_Fingerprint = 37\<rparr>\<rparr>"

lemma demo_registry: "\<exists>r. registry_New [demo_chain False, demo_chain True] = Inr r"
  by (simp add: registry_New_def demo_chain_def demo_parameters_def directprofile_ID_def chain_Validate_def
      TrimSpace_def is_space_def Let_def)

theorem registry_single_authority_witness:
  "\<exists>r. registry_New [demo_chain False, demo_chain True] = Inr r \<and>
     RequireSignerAuthority (Some r) 1 = Inr () \<and> RequireSignerAuthority (Some r) 2 \<noteq> Inr ()"
proof -
  obtain r where r: "registry_New [demo_chain False, demo_chain True] = Inr r" using demo_registry by blast
  from registry_single_authority[OF r, of demo_hash] show ?thesis
    using r by (auto simp: demo_chain_def)
qed

text \<open>
  A profile is calibrated only when everything the deployment fixes agrees: the configured and the
  deployed parameters are equal, the stored fingerprint is the hash of them, they are the reserved
  parameters, and the three authorized signers are distinct and non-zero. The direct cost is then the
  measured cost, and it is zero in every other case.
\<close>

theorem calibrated_profile_sound:
  "case DirectProfile K reg cid of (p, found) \<Rightarrow>
     if dp_Calibrated p
     then found \<and> (\<exists>c. registry_Chain reg cid = Some c \<and> ch_Home c \<and>
        de_Configured (ch_Profile c) = de_Deployed (ch_Profile c) \<and>
        dp_Fingerprint p = K (fingerprint_bytes (de_Configured (ch_Profile c))) \<and>
        dv_ID (de_Configured (ch_Profile c)) = directprofile_ID \<and>
        length (dv_AuthorizedSigners (de_Configured (ch_Profile c))) = 3 \<and>
        distinct (dv_AuthorizedSigners (de_Configured (ch_Profile c))) \<and>
        0 \<notin> set (dv_AuthorizedSigners (de_Configured (ch_Profile c)))) \<and>
        dp_DirectCost p = MeasuredCostGas
     else dp_DirectCost p = 0"
  by (auto simp: DirectProfile_def Let_def zero_profile_def sameParameters_iff signers_ok_iff
      ComputeProfileFingerprint_def AuthorizedSignerCount_def split: option.splits if_splits)

end
