(* ===== verification/Planner.thy ===== *)
theory Planner
  imports Path_Search Registry
begin

text \<open>
  \<open>Mapnode/planner\<close>: the plan of a verification request. \<open>Plan\<close> checks a sealed snapshot, decides between
  a path and a direct verification, and stores the decision under a content address. The repositories
  are arguments, as they are in the code: \<open>LoadTrustViewSnapshot\<close>, \<open>SavePlan\<close> and \<open>LoadPlan\<close> over an
  abstract store, and the direct profile of a chain. \<open>plan_repository\<close> is the contract of the last two.
\<close>

subsection \<open>Plans and their identifiers\<close>

type_synonym plan_id = hash

definition PathPlan :: string where "PathPlan = ''path''"
definition DirectPlan :: string where "DirectPlan = ''direct''"

definition UncalibratedProfile :: string where "UncalibratedProfile = ''uncalibrated_profile''"
definition NoPath :: string where "NoPath = ''no_path''"
definition PathCostExceedsDirect :: string where "PathCostExceedsDirect = ''path_cost_exceeds_direct''"
definition ProofMaterialMissing :: string where "ProofMaterialMissing = ''proof_material_missing''"

record planner_request =
  rq_ID :: request_id
  rq_Attempt :: u64
  rq_SnapshotID :: snapshot_id
  rq_HomeChainID :: chain_id

record plan =
  pl_ID :: plan_id
  pl_RequestID :: request_id
  pl_Attempt :: u64
  pl_SnapshotID :: snapshot_id
  pl_ProfileID :: string
  pl_ProfileFingerprint :: hash
  pl_Type :: string
  pl_HomeNodeID :: node_id
  pl_TargetNodeID :: node_id
  pl_Hops :: "edge_id list"
  pl_PathStepCost :: u64
  pl_PathCost :: "u64 option"
  pl_DirectCost :: "u64 option"
  pl_FallbackReason :: string
  pl_CreatedAt :: go_time

definition plan_domain :: string where
  "plan_domain = ''TrustMap/Planner/PlanID/v1''"

definition optional_word :: "u64 option \<Rightarrow> byte list" where
  "optional_word value =
     (case value of None \<Rightarrow> replicate 32 0 | Some v \<Rightarrow> 1 # replicate 23 0 @ be_bytes 8 v)"

definition plan_bytes :: "plan \<Rightarrow> byte list" where
  "plan_bytes p =
     length_prefixed (string_bytes plan_domain) @ bytes32 (pl_RequestID p) @ uint64_word (pl_Attempt p) @
     bytes32 (pl_SnapshotID p) @ length_prefixed (string_bytes (pl_ProfileID p)) @
     bytes32 (pl_ProfileFingerprint p) @ length_prefixed (string_bytes (pl_Type p)) @
     bytes32 (pl_HomeNodeID p) @ bytes32 (pl_TargetNodeID p) @
     uint64_word (of_nat (length (pl_Hops p))) @ concat (map bytes32 (pl_Hops p)) @
     uint64_word (pl_PathStepCost p) @ optional_word (pl_PathCost p) @ optional_word (pl_DirectCost p) @
     length_prefixed (string_bytes (pl_FallbackReason p))"

definition ComputePlanID :: "keccak \<Rightarrow> plan \<Rightarrow> plan_id" where
  "ComputePlanID K p = K (plan_bytes p)"

subsection \<open>Planning\<close>

definition findSnapshotNode :: "trust_view_snapshot \<Rightarrow> node_id \<Rightarrow> trust_node option" where
  "findSnapshotNode sn nid = find (\<lambda>node. tn_ID node = nid) (sn_Nodes sn)"

definition snapshotHasNode :: "trust_view_snapshot \<Rightarrow> node_id \<Rightarrow> bool" where
  "snapshotHasNode sn nid \<longleftrightarrow> findSnapshotNode sn nid \<noteq> None"

fun trustedPathStepCost :: "trust_edge list \<Rightarrow> u64 res" where
  "trustedPathStepCost [] = Inr 0"
| "trustedPathStepCost (e # es) =
     (if te_PathStepCost e = 0 then Inl ErrInconsistentPathStepCost
      else if \<exists>edge \<in> set es. te_PathStepCost edge \<noteq> te_PathStepCost e then Inl ErrInconsistentPathStepCost
      else Inr (te_PathStepCost e))"

definition persist ::
  "keccak \<Rightarrow> ('db \<Rightarrow> plan \<Rightarrow> 'db res) \<Rightarrow> ('db \<Rightarrow> plan_id \<Rightarrow> plan res) \<Rightarrow> 'db \<Rightarrow> plan \<Rightarrow> (plan \<times> 'db) res" where
  "persist K SavePlan LoadPlan db p =
     (let p' = p\<lparr>pl_ID := ComputePlanID K p\<rparr>
      in bind_res (SavePlan db p') (\<lambda>db'.
         bind_res (LoadPlan db' (pl_ID p')) (\<lambda>loaded. Inr (loaded, db'))))"

text \<open>The checks \<open>Plan\<close> makes before it decides: the snapshot is sealed, consistent and for this request.\<close>

definition check_snapshot :: "keccak \<Rightarrow> planner_request \<Rightarrow> trust_view_snapshot \<Rightarrow> unit res" where
  "check_snapshot K request sn =
     (if \<not> sn_Sealed sn then Inl ErrSnapshotUnsealed
      else if sn_ID sn \<noteq> rq_SnapshotID request \<or> sn_HomeChainID sn \<noteq> rq_HomeChainID request
      then Inl ErrSnapshotEndpoint
      else if ComputeSnapshotID K (rq_ID request) (rq_Attempt request) (sn_Revision sn) (sn_StartNodeID sn)
                (sn_TargetNodeID sn) (sn_HomeTrustRoot sn) \<noteq> sn_ID sn
      then Inl ErrSnapshotEndpoint
      else if sn_StartNodeID sn = sn_TargetNodeID sn then Inl ErrSnapshotEndpoint
      else if \<not> snapshotHasNode sn (sn_StartNodeID sn) \<or> \<not> snapshotHasNode sn (sn_TargetNodeID sn)
      then Inl ErrSnapshotEndpoint
      else bind_res (NewTrustView K (sn_Revision sn) (sn_Nodes sn) (sn_Edges sn)) (\<lambda>validatedView.
        if length (tv_Nodes validatedView) \<noteq> length (sn_Nodes sn) \<or>
           length (tv_Edges validatedView) \<noteq> length (sn_Edges sn)
        then Inl (ErrMsg ''TrustViewSnapshot contains duplicate nodes or edges'')
        else case findSnapshotNode sn (sn_StartNodeID sn) of
          None \<Rightarrow> Inl ErrSnapshotEndpoint
        | Some startNode \<Rightarrow>
            if nk_ChainID (tn_Key startNode) \<noteq> rq_HomeChainID request then Inl ErrSnapshotEndpoint
            else if tn_Root startNode \<noteq> sn_HomeTrustRoot sn then Inl ErrStaleSnapshot
            else Inr ()))"

text \<open>
  The decision: every field of the plan but its identifier. An integer division by zero is a panic, and
  so would be a search that runs out of iterations.
\<close>

definition initial_plan :: "direct_profile \<Rightarrow> go_time \<Rightarrow> planner_request \<Rightarrow> trust_view_snapshot \<Rightarrow> plan" where
  "initial_plan profile now request sn =
     \<lparr>pl_ID = 0, pl_RequestID = rq_ID request, pl_Attempt = rq_Attempt request, pl_SnapshotID = sn_ID sn,
      pl_ProfileID = dp_ID profile, pl_ProfileFingerprint = dp_Fingerprint profile, pl_Type = [],
      pl_HomeNodeID = sn_StartNodeID sn, pl_TargetNodeID = sn_TargetNodeID sn, pl_Hops = [],
      pl_PathStepCost = 0, pl_PathCost = None, pl_DirectCost = None, pl_FallbackReason = [],
      pl_CreatedAt = now\<rparr>"

definition decide_path :: "u64 \<Rightarrow> u64 \<Rightarrow> plan \<Rightarrow> trust_edge list \<Rightarrow> plan res" where
  "decide_path directCost pathStepCost plan path =
     (if pathStepCost = 0 then Inl (Panic ''integer divide by zero'')
      else if of_nat (length path) > MaxUint64 div pathStepCost then Inl ErrPathCostOverflow
      else let cost = of_nat (length path) * pathStepCost;
               plan = plan\<lparr>pl_Hops := map te_ID path, pl_PathStepCost := pathStepCost, pl_PathCost := Some cost\<rparr>
           in if cost > directCost
              then Inr (plan\<lparr>pl_Type := DirectPlan, pl_FallbackReason := PathCostExceedsDirect\<rparr>)
              else if \<exists>edge \<in> set path. te_WitnessID edge = None
              then Inr (plan\<lparr>pl_Type := DirectPlan, pl_FallbackReason := ProofMaterialMissing\<rparr>)
              else Inr (plan\<lparr>pl_Type := PathPlan\<rparr>))"

definition decide ::
  "(chain_id \<Rightarrow> direct_profile \<times> bool) \<Rightarrow> go_time \<Rightarrow> planner_request \<Rightarrow> trust_view_snapshot \<Rightarrow> plan res" where
  "decide profiles now request sn =
     (case profiles (rq_HomeChainID request) of (profile0, found) \<Rightarrow>
      let profile = (if found then profile0 else profile0\<lparr>dp_ID := ''unavailable''\<rparr>);
          plan = initial_plan profile now request sn
      in if \<not> dp_Calibrated profile
         then Inr (plan\<lparr>pl_Type := DirectPlan, pl_FallbackReason := UncalibratedProfile\<rparr>)
         else let plan = plan\<lparr>pl_DirectCost := Some (dp_DirectCost profile)\<rparr>
              in bind_res (trustedPathStepCost (sn_Edges sn)) (\<lambda>pathStepCost.
                 case directedReachability sn of (edges, reachable) \<Rightarrow>
                 if \<not> reachable
                 then Inr (plan\<lparr>pl_Type := DirectPlan, pl_FallbackReason := NoPath\<rparr>)
                 else case shortestPath sn edges of
                        None \<Rightarrow> Inl (Panic ''search bound'')
                      | Some (Inl err) \<Rightarrow> Inl err
                      | Some (Inr (path, _)) \<Rightarrow> decide_path (dp_DirectCost profile) pathStepCost plan path))"

definition Plan ::
  "keccak \<Rightarrow> ('db \<Rightarrow> snapshot_id \<Rightarrow> trust_view_snapshot res) \<Rightarrow> ('db \<Rightarrow> plan \<Rightarrow> 'db res) \<Rightarrow>
     ('db \<Rightarrow> plan_id \<Rightarrow> plan res) \<Rightarrow> (chain_id \<Rightarrow> direct_profile \<times> bool) \<Rightarrow> go_time \<Rightarrow> 'db \<Rightarrow>
     planner_request \<Rightarrow> (plan \<times> 'db) res" where
  "Plan K LoadTrustViewSnapshot SavePlan LoadPlan profiles now db request =
     bind_res (LoadTrustViewSnapshot db (rq_SnapshotID request)) (\<lambda>snapshot.
     bind_res (check_snapshot K request snapshot) (\<lambda>_.
     bind_res (decide profiles now request snapshot) (\<lambda>plan.
     persist K SavePlan LoadPlan db plan)))"

subsection \<open>The decision\<close>

lemma trustedPathStepCost_Inr:
  "trustedPathStepCost es = Inr c \<longleftrightarrow>
     (es = [] \<and> c = 0) \<or> (es \<noteq> [] \<and> c \<noteq> 0 \<and> (\<forall>e \<in> set es. te_PathStepCost e = c))"
  by (cases es) auto

lemma trustedPathStepCost_Inl: "trustedPathStepCost es = Inl err \<Longrightarrow> err = ErrInconsistentPathStepCost"
  by (cases es) (auto split: if_splits)

lemma walk_edges: "walk edges s p t \<Longrightarrow> set p \<subseteq> set edges"
  by (induction p arbitrary: s) auto

lemma path_cost_uniform: "\<forall>e \<in> set p. te_PathStepCost e = c \<Longrightarrow> path_cost p = length p * unat c"
  by (induction p) (simp_all add: path_cost_def)

text \<open>The guard before the multiplication never rejects a path whose cost fits.\<close>

lemma hop_cost:
  assumes "n * unat c < 2 ^ 64" "c \<noteq> 0"
  shows "\<not> (of_nat n > MaxUint64 div c)" "unat (of_nat n * c :: u64) = n * unat c"
proof -
  have c: "0 < unat c" using assms(2) by (simp add: unat_eq_0 zero_less_iff_neq_zero)
  then have "n \<le> n * unat c" by simp
  then have n: "n < 2 ^ 64" using assms(1) by linarith
  then have unat_n: "unat (of_nat n :: u64) = n" by (simp add: unat_of_nat)
  have "unat (MaxUint64 div c) = (2 ^ 64 - 1) div unat c"
    using unat_MaxUint64 by (simp add: unat_div)
  moreover have "n \<le> (2 ^ 64 - 1) div unat c"
    using assms(1) c by (simp add: less_eq_div_iff_mult_less_eq)
  ultimately show "\<not> (of_nat n > MaxUint64 div c)"
    using unat_n by (simp add: word_less_nat_alt)
  show "unat (of_nat n * c) = n * unat c"
    using assms(1) unat_n by (simp add: unat_word_ariths)
qed

text \<open>What the search finds when all steps cost the same.\<close>

lemma uniform_search:
  assumes cost: "\<forall>e \<in> set (sn_Edges sn). te_PathStepCost e = c" "c \<noteq> 0"
    and found: "shortestPath sn (adjacency (sn_Edges sn)) = Some (Inr (path, sum0))"
  shows "walk (sn_Edges sn) (sn_StartNodeID sn) path (sn_TargetNodeID sn)"
    and "path_cost path = length path * unat c" "length path * unat c < 2 ^ 64"
    and "\<And>q. walk (sn_Edges sn) (sn_StartNodeID sn) q (sn_TargetNodeID sn) \<Longrightarrow>
      (length path, map te_ID path) \<le> (length q, map te_ID q)"
proof -
  have uniform: "path_cost q = length q * unat c" if "walk (sn_Edges sn) (sn_StartNodeID sn) q (sn_TargetNodeID sn)" for q
    using walk_edges[OF that] cost(1) by (intro path_cost_uniform) blast
  have c: "0 < unat c" using cost(2) by (simp add: unat_eq_0 zero_less_iff_neq_zero)
  obtain w: "walk (sn_Edges sn) (sn_StartNodeID sn) path (sn_TargetNodeID sn)" and t: "path_cost path = unat sum0"
    and least: "\<And>q. walk (sn_Edges sn) (sn_StartNodeID sn) q (sn_TargetNodeID sn) \<Longrightarrow> path_cost q < 2 ^ 64 \<Longrightarrow>
         (path_cost path, length path, map te_ID path) \<le> (path_cost q, length q, map te_ID q)"
    by (rule shortestPath_cases[of sn]) (use found in auto)
  show "walk (sn_Edges sn) (sn_StartNodeID sn) path (sn_TargetNodeID sn)" by (rule w)
  show len: "path_cost path = length path * unat c" by (rule uniform[OF w])
  show lt: "length path * unat c < 2 ^ 64" using len t unsigned_less[of sum0, where 'a=nat] by simp
  fix q assume q: "walk (sn_Edges sn) (sn_StartNodeID sn) q (sn_TargetNodeID sn)"
  show "(length path, map te_ID path) \<le> (length q, map te_ID q)"
  proof (cases "path_cost q < 2 ^ 64")
    case True
    then show ?thesis using least[OF q True] uniform[OF q] len c by (auto simp: mult_less_cancel2)
  next
    case False
    then have "length path * unat c < length q * unat c" using lt uniform[OF q] by linarith
    then show ?thesis by simp
  qed
qed

text \<open>The plan one of the six ends of \<open>decide\<close> gives, and the two errors.\<close>

definition least_walk :: "trust_view_snapshot \<Rightarrow> trust_edge list \<Rightarrow> bool" where
  "least_walk sn path \<longleftrightarrow> walk (sn_Edges sn) (sn_StartNodeID sn) path (sn_TargetNodeID sn) \<and>
     (\<forall>q. walk (sn_Edges sn) (sn_StartNodeID sn) q (sn_TargetNodeID sn) \<longrightarrow>
        (length path, map te_ID path) \<le> (length q, map te_ID q))"

lemma decide_path_phase:
  assumes "trustedPathStepCost (sn_Edges sn) = Inr c" "sn_StartNodeID sn \<noteq> sn_TargetNodeID sn"
    and "snd (directedReachability sn)"
  shows "(shortestPath sn (fst (directedReachability sn)) = Some (Inl ErrPathCostOverflow) \<and>
      (\<forall>q. walk (sn_Edges sn) (sn_StartNodeID sn) q (sn_TargetNodeID sn) \<longrightarrow> 2 ^ 64 \<le> path_cost q)) \<or>
    (\<exists>path total0. shortestPath sn (fst (directedReachability sn)) = Some (Inr (path, total0)) \<and>
      least_walk sn path \<and> path \<noteq> [] \<and> c \<noteq> 0 \<and> (\<forall>e \<in> set (sn_Edges sn). te_PathStepCost e = c) \<and>
      path_cost path = length path * unat c \<and> length path * unat c < 2 ^ 64)"
proof (cases rule: shortestPath_cases[of sn])
  case (path path cost)
  then have ne: "path \<noteq> []" using assms(2) by auto
  then have "sn_Edges sn \<noteq> []" using walk_edges[OF path(2)] by (cases path) auto
  then have c: "\<forall>e \<in> set (sn_Edges sn). te_PathStepCost e = c" "c \<noteq> 0"
    using assms(1) by (auto simp: trustedPathStepCost_Inr)
  note u = uniform_search[OF c path(1)]
  then have "least_walk sn path" by (simp add: least_walk_def)
  then show ?thesis using path(1) u(2,3) c ne by (auto simp: directedReachability_def)
next
  case (err e)
  then show ?thesis using assms(3) by (auto simp: directedReachability_def)
qed

lemma decide_cases:
  assumes "sn_StartNodeID sn \<noteq> sn_TargetNodeID sn" "profiles (rq_HomeChainID rq) = (profile, found)"
  obtains
    (uncalibrated) p where "\<not> dp_Calibrated profile" "decide profiles now rq sn = Inr p"
      "pl_Type p = DirectPlan" "pl_FallbackReason p = UncalibratedProfile"
  | (cost) "dp_Calibrated profile" "trustedPathStepCost (sn_Edges sn) = Inl ErrInconsistentPathStepCost"
      "decide profiles now rq sn = Inl ErrInconsistentPathStepCost"
  | (no_path) p where "dp_Calibrated profile" "\<not> snd (directedReachability sn)"
      "decide profiles now rq sn = Inr p" "pl_Type p = DirectPlan" "pl_FallbackReason p = NoPath"
  | (overflow) "dp_Calibrated profile" "decide profiles now rq sn = Inl ErrPathCostOverflow"
      "\<And>q. walk (sn_Edges sn) (sn_StartNodeID sn) q (sn_TargetNodeID sn) \<Longrightarrow> 2 ^ 64 \<le> path_cost q"
  | (path) p path c where "dp_Calibrated profile" "least_walk sn path" "path \<noteq> []" "c \<noteq> 0"
      "\<forall>e \<in> set (sn_Edges sn). te_PathStepCost e = c"
      "path_cost path = length path * unat c" "length path * unat c < 2 ^ 64"
      "pl_FallbackReason p = []" "pl_DirectCost p = Some (dp_DirectCost profile)"
      "decide profiles now rq sn = decide_path (dp_DirectCost profile) c p path"
proof (cases "dp_Calibrated profile")
  let ?init = "initial_plan (if found then profile else profile\<lparr>dp_ID := ''unavailable''\<rparr>) now rq sn"
  case False
  then show thesis using assms(2)
    by (intro uncalibrated[of "?init\<lparr>pl_Type := DirectPlan, pl_FallbackReason := UncalibratedProfile\<rparr>"])
      (simp_all add: decide_def Let_def)
next
  let ?init = "initial_plan (if found then profile else profile\<lparr>dp_ID := ''unavailable''\<rparr>) now rq sn"
  case cal: True
  show thesis
  proof (cases "trustedPathStepCost (sn_Edges sn)")
    case (Inl e)
    then have "e = ErrInconsistentPathStepCost" by (rule trustedPathStepCost_Inl)
    then show thesis using Inl cal assms(2) by (intro cost) (simp_all add: decide_def Let_def)
  next
    case (Inr c)
    show thesis
    proof (cases "snd (directedReachability sn)")
      case False
      then show thesis using Inr cal assms(2)
        by (intro no_path[of "?init\<lparr>pl_DirectCost := Some (dp_DirectCost profile), pl_Type := DirectPlan,
              pl_FallbackReason := NoPath\<rparr>"]) (simp_all add: decide_def Let_def split_beta)
    next
      case True
      from decide_path_phase[OF Inr assms(1) True] show thesis
      proof
        assume "shortestPath sn (fst (directedReachability sn)) = Some (Inl ErrPathCostOverflow) \<and>
          (\<forall>q. walk (sn_Edges sn) (sn_StartNodeID sn) q (sn_TargetNodeID sn) \<longrightarrow> 2 ^ 64 \<le> path_cost q)"
        then show thesis using Inr cal True assms(2)
          by (intro overflow) (simp_all add: decide_def Let_def split_beta)
      next
        assume "\<exists>path total0. shortestPath sn (fst (directedReachability sn)) = Some (Inr (path, total0)) \<and>
          least_walk sn path \<and> path \<noteq> [] \<and> c \<noteq> 0 \<and> (\<forall>e \<in> set (sn_Edges sn). te_PathStepCost e = c) \<and>
          path_cost path = length path * unat c \<and> length path * unat c < 2 ^ 64"
        then obtain path total0 where p: "shortestPath sn (fst (directedReachability sn)) = Some (Inr (path, total0))"
          "least_walk sn path" "path \<noteq> []" "c \<noteq> 0" "\<forall>e \<in> set (sn_Edges sn). te_PathStepCost e = c"
          "path_cost path = length path * unat c" "length path * unat c < 2 ^ 64" by blast
        let ?p = "?init\<lparr>pl_DirectCost := Some (dp_DirectCost profile)\<rparr>"
        have "decide profiles now rq sn = decide_path (dp_DirectCost profile) c ?p path"
          using Inr cal True p(1) assms(2) by (simp add: decide_def Let_def split_beta)
        moreover have "pl_FallbackReason ?p = []" "pl_DirectCost ?p = Some (dp_DirectCost profile)"
          by (simp_all add: initial_plan_def)
        ultimately show thesis using path[OF cal p(2-7)] by blast
      qed
    qed
  qed
qed

lemma check_snapshot_endpoints: "check_snapshot K rq sn = Inr u \<Longrightarrow> sn_StartNodeID sn \<noteq> sn_TargetNodeID sn"
  by (auto simp: check_snapshot_def split: if_splits)

lemma decide_path_result:
  assumes "path_cost path = length path * unat c" "length path * unat c < 2 ^ 64" "c \<noteq> 0"
    and "pl_FallbackReason p = []"
  shows "\<exists>q. decide_path direct c p path = Inr q \<and> pl_Hops q = map te_ID path \<and> pl_PathStepCost q = c \<and>
    pl_PathCost q = Some (of_nat (path_cost path)) \<and> pl_DirectCost q = pl_DirectCost p \<and>
    (pl_Type q, pl_FallbackReason q) =
      (if path_cost path > unat direct then (DirectPlan, PathCostExceedsDirect)
       else if \<exists>e \<in> set path. te_WitnessID e = None then (DirectPlan, ProofMaterialMissing)
       else (PathPlan, []))"
proof -
  note h = hop_cost[OF assms(2,3)]
  have "of_nat (path_cost path) = (of_nat (length path) * c :: u64)"
    using h(2) assms(1) by (metis of_nat_unat ucast_id)
  moreover have "of_nat (length path) * c > direct \<longleftrightarrow> path_cost path > unat direct"
    using h(2) assms(1) by (simp add: word_less_nat_alt)
  ultimately show ?thesis using h(1) assms(3,4) by (auto simp: decide_path_def Let_def)
qed

lemma plan_strings [simp]:
  "PathPlan \<noteq> DirectPlan" "DirectPlan \<noteq> PathPlan" "PathPlan \<noteq> []" "DirectPlan \<noteq> []"
  "UncalibratedProfile \<noteq> NoPath" "UncalibratedProfile \<noteq> PathCostExceedsDirect" "UncalibratedProfile \<noteq> ProofMaterialMissing"
  "NoPath \<noteq> UncalibratedProfile" "NoPath \<noteq> PathCostExceedsDirect" "NoPath \<noteq> ProofMaterialMissing"
  "PathCostExceedsDirect \<noteq> UncalibratedProfile" "PathCostExceedsDirect \<noteq> NoPath" "PathCostExceedsDirect \<noteq> ProofMaterialMissing"
  "ProofMaterialMissing \<noteq> UncalibratedProfile" "ProofMaterialMissing \<noteq> NoPath" "ProofMaterialMissing \<noteq> PathCostExceedsDirect"
  "UncalibratedProfile \<noteq> []" "NoPath \<noteq> []" "PathCostExceedsDirect \<noteq> []" "ProofMaterialMissing \<noteq> []"
  by (simp_all add: PathPlan_def DirectPlan_def UncalibratedProfile_def NoPath_def PathCostExceedsDirect_def
      ProofMaterialMissing_def)

text \<open>A calibrated profile, a request for the two-chain snapshot, and the decision on it.\<close>

definition demo_profiles :: "chain_id \<Rightarrow> direct_profile \<times> bool" where
  "demo_profiles cid = (\<lparr>dp_ID = directprofile_ID, dp_Fingerprint = 37, dp_DirectCost = MeasuredCostGas,
     dp_Calibrated = True\<rparr>, True)"

definition demo_planner_request :: planner_request where
  "demo_planner_request = \<lparr>rq_ID = 11, rq_Attempt = 1, rq_SnapshotID = sn_ID demo_snapshot, rq_HomeChainID = 1\<rparr>"

lemma demo_edges:
  "te_From (demo_edge 1 2) = tn_ID (demo_node 1)" "te_To (demo_edge 1 2) = tn_ID (demo_node 2)"
  "te_From (demo_edge 2 1) = tn_ID (demo_node 2)" "te_To (demo_edge 2 1) = tn_ID (demo_node 1)"
  "te_PathStepCost (demo_edge 1 2) = 3" "te_PathStepCost (demo_edge 2 1) = 3"
  "te_WitnessID (demo_edge 1 2) = Some 5" "te_WitnessID (demo_edge 2 1) = Some 5"
  by (simp_all add: demo_edge_eq demo_node_simps)

lemma demo_walk:
  "walk (sn_Edges demo_snapshot) (sn_StartNodeID demo_snapshot) [demo_edge 1 2] (sn_TargetNodeID demo_snapshot)"
  by (simp add: demo_snapshot_def demo_edges)

lemma demo_decide: "\<exists>p. decide demo_profiles 0 demo_planner_request demo_snapshot = Inr p \<and> pl_Type p = PathPlan"
proof (rule decide_cases[of demo_snapshot demo_profiles demo_planner_request "fst (demo_profiles 1)" True 0])
  show "sn_StartNodeID demo_snapshot \<noteq> sn_TargetNodeID demo_snapshot"
    by (simp add: demo_snapshot_def demo_node_simps)
  show "demo_profiles (rq_HomeChainID demo_planner_request) = (fst (demo_profiles 1), True)"
    by (simp add: demo_profiles_def)
next
  assume "trustedPathStepCost (sn_Edges demo_snapshot) = Inl ErrInconsistentPathStepCost"
  then show ?thesis by (simp add: demo_snapshot_def demo_edges)
next
  assume "\<not> snd (directedReachability demo_snapshot)"
  then show ?thesis using demo_walk walk_edge_rel directedReachability_correct by blast
next
  assume "\<And>q. walk (sn_Edges demo_snapshot) (sn_StartNodeID demo_snapshot) q (sn_TargetNodeID demo_snapshot) \<Longrightarrow>
    2 ^ 64 \<le> path_cost q"
  from this[OF demo_walk] show ?thesis by (simp add: path_cost_def demo_edges)
next
  fix p path c
  assume p: "least_walk demo_snapshot path" "c \<noteq> 0" "\<forall>e \<in> set (sn_Edges demo_snapshot). te_PathStepCost e = c"
    "path_cost path = length path * unat c" "length path * unat c < 2 ^ 64" "pl_FallbackReason p = []"
    "decide demo_profiles 0 demo_planner_request demo_snapshot = decide_path (dp_DirectCost (fst (demo_profiles 1))) c p path"
  have "c = 3" using p(3) by (auto simp: demo_snapshot_def demo_edges)
  moreover have "(length path, map te_ID path) \<le> (length [demo_edge 1 2], map te_ID [demo_edge 1 2])"
    using p(1) demo_walk unfolding least_walk_def by blast
  then have "length path \<le> 1" by auto
  ultimately have "path_cost path \<le> 3" using p(4) by simp
  moreover have "\<forall>e \<in> set path. te_WitnessID e \<noteq> None"
    using p(1) walk_edges by (fastforce simp: least_walk_def demo_snapshot_def demo_edges)
  ultimately show ?thesis
    using decide_path_result[OF p(4,5,2,6), of "dp_DirectCost (fst (demo_profiles 1))"] p(7)
    by (auto simp: demo_profiles_def MeasuredCostGas_def split: if_splits)
qed (simp add: demo_profiles_def)

lemma demo_check: "check_snapshot demo_hash demo_planner_request demo_snapshot = Inr ()"
proof -
  have nodes: "nodes_consistent demo_hash (set (sn_Nodes demo_snapshot))"
    by (simp add: nodes_consistent_def inj_on_def node_Validate_ok demo_snapshot_def demo_node_simps node_key_bytes_def)
  have edges: "edges_consistent demo_hash (set (sn_Nodes demo_snapshot)) (set (sn_Edges demo_snapshot))"
    by (auto simp: edges_consistent_def edge_Validate_ok demo_snapshot_def demo_edge_eq demo_node_simps edge_bytes_def)
  obtain v where v: "NewTrustView demo_hash 1 (sn_Nodes demo_snapshot) (sn_Edges demo_snapshot) = Inr v"
    "set (tv_Nodes v) = set (sn_Nodes demo_snapshot)" "set (tv_Edges v) = set (sn_Edges demo_snapshot)"
    "distinct (map tn_ID (tv_Nodes v))" "distinct (map te_ID (tv_Edges v))"
    using NewTrustView_ok[OF nodes edges] by metis
  have "distinct (sn_Nodes demo_snapshot)" "distinct (sn_Edges demo_snapshot)"
    by (auto simp: demo_snapshot_def demo_edge_eq demo_node_simps dest: arg_cong[where f=tn_ID])
  then have "length (tv_Nodes v) = length (sn_Nodes demo_snapshot)" "length (tv_Edges v) = length (sn_Edges demo_snapshot)"
    using v by (metis distinct_card distinct_map)+
  moreover have "findSnapshotNode demo_snapshot (sn_StartNodeID demo_snapshot) = Some (demo_node 1)"
    "findSnapshotNode demo_snapshot (sn_TargetNodeID demo_snapshot) = Some (demo_node 2)"
    by (simp_all add: findSnapshotNode_def demo_snapshot_def demo_node_simps)
  moreover have "sn_Revision demo_snapshot = 1" by (simp add: demo_snapshot_def)
  ultimately show ?thesis using v(1) unfolding check_snapshot_def snapshotHasNode_def
    by (simp del: bind_res_eq_Inr) (simp add: demo_snapshot_def demo_planner_request_def demo_node_simps)
qed

text \<open>
  C3. A path plan is a cheapest proof path: when a checked snapshot is decided as \<open>PathPlan\<close>, the hops
  are the identifiers of the edges of a non-empty walk from the home node to the target, every hop has
  proof material, no walk has fewer hops (or as many hops and smaller identifiers), the recorded path
  cost is the cost of the walk, and it does not exceed the direct cost of the calibrated profile.
\<close>

theorem path_plan_optimal:
  assumes "check_snapshot K rq sn = Inr ()" "decide profiles now rq sn = Inr p" "pl_Type p = PathPlan"
  shows "\<exists>path. path \<noteq> [] \<and> walk (sn_Edges sn) (sn_StartNodeID sn) path (sn_TargetNodeID sn) \<and>
    pl_Hops p = map te_ID path \<and> (\<forall>e \<in> set path. te_WitnessID e \<noteq> None) \<and>
    (\<forall>q. walk (sn_Edges sn) (sn_StartNodeID sn) q (sn_TargetNodeID sn) \<longrightarrow>
       (length path, map te_ID path) \<le> (length q, map te_ID q)) \<and>
    dp_Calibrated (fst (profiles (rq_HomeChainID rq))) \<and>
    pl_PathCost p = Some (of_nat (path_cost path)) \<and> path_cost path \<le> unat (the (pl_DirectCost p)) \<and>
    pl_DirectCost p = Some (dp_DirectCost (fst (profiles (rq_HomeChainID rq))))"
proof -
  obtain profile found where prof: "profiles (rq_HomeChainID rq) = (profile, found)" by fastforce
  show ?thesis
  proof (rule decide_cases[where sn=sn and profiles=profiles and rq=rq and profile=profile and found=found and now=now])
    fix q path c
    assume c: "dp_Calibrated profile" "least_walk sn path" "path \<noteq> []" "c \<noteq> 0"
      "path_cost path = length path * unat c" "length path * unat c < 2 ^ 64" "pl_FallbackReason q = []"
      "pl_DirectCost q = Some (dp_DirectCost profile)"
      "decide profiles now rq sn = decide_path (dp_DirectCost profile) c q path"
    from decide_path_result[OF c(5,6,4,7), of "dp_DirectCost profile"] c assms(2,3)
    have "pl_Hops p = map te_ID path" "pl_PathCost p = Some (of_nat (path_cost path))"
      "pl_DirectCost p = Some (dp_DirectCost profile)" "path_cost path \<le> unat (dp_DirectCost profile)"
      "\<forall>e \<in> set path. te_WitnessID e \<noteq> None"
      by (auto split: if_splits)
    then show ?thesis using c(1-3) prof unfolding least_walk_def by (intro exI[of _ path]) simp
  qed (use assms prof check_snapshot_endpoints[OF assms(1)] in auto)
qed

theorem path_plan_optimal_witness:
  "check_snapshot demo_hash demo_planner_request demo_snapshot = Inr () \<and>
   (\<exists>p. decide demo_profiles 0 demo_planner_request demo_snapshot = Inr p \<and> pl_Hops p \<noteq> [] \<and>
      pl_DirectCost p = Some MeasuredCostGas)"
proof -
  obtain p where p: "decide demo_profiles 0 demo_planner_request demo_snapshot = Inr p" "pl_Type p = PathPlan"
    using demo_decide by blast
  from path_plan_optimal[OF demo_check p] show ?thesis
    using demo_check p by (auto simp: demo_profiles_def)
qed

text \<open>
  C26. A direct plan has a true reason: without a calibrated profile the reason says so; \<open>no_path\<close> is given
  only when no walk exists; \<open>path_cost_exceeds_direct\<close> only when every walk costs more than the direct
  verification; \<open>proof_material_missing\<close> only when the least walk has an edge without a witness. No other
  reason is given.
\<close>

theorem direct_plan_justified:
  assumes "check_snapshot K rq sn = Inr ()" "decide profiles now rq sn = Inr p" "pl_Type p \<noteq> PathPlan"
  shows "pl_Type p = DirectPlan \<and>
    (let profile = fst (profiles (rq_HomeChainID rq));
         walks = {q. walk (sn_Edges sn) (sn_StartNodeID sn) q (sn_TargetNodeID sn)}
     in if \<not> dp_Calibrated profile then pl_FallbackReason p = UncalibratedProfile
        else if walks = {} then pl_FallbackReason p = NoPath
        else if \<forall>q \<in> walks. path_cost q > unat (dp_DirectCost profile) then pl_FallbackReason p = PathCostExceedsDirect
        else pl_FallbackReason p = ProofMaterialMissing \<and>
          (\<exists>path \<in> walks. pl_Hops p = map te_ID path \<and> (\<exists>e \<in> set path. te_WitnessID e = None) \<and>
             (\<forall>q \<in> walks. (length path, map te_ID path) \<le> (length q, map te_ID q))))"
proof -
  obtain profile found where prof: "profiles (rq_HomeChainID rq) = (profile, found)" by fastforce
  show ?thesis
  proof (rule decide_cases[where sn=sn and profiles=profiles and rq=rq and profile=profile and found=found and now=now])
    fix q
    assume "dp_Calibrated profile" "\<not> snd (directedReachability sn)" "decide profiles now rq sn = Inr q"
      "pl_Type q = DirectPlan" "pl_FallbackReason q = NoPath"
    moreover from this have "{q. walk (sn_Edges sn) (sn_StartNodeID sn) q (sn_TargetNodeID sn)} = {}"
      using walk_edge_rel directedReachability_correct by blast
    ultimately show ?thesis using prof assms(2) by (simp add: Let_def)
  next
    fix q path c
    assume c: "dp_Calibrated profile" "least_walk sn path" "path \<noteq> []" "c \<noteq> 0"
      "\<forall>e \<in> set (sn_Edges sn). te_PathStepCost e = c"
      "path_cost path = length path * unat c" "length path * unat c < 2 ^ 64" "pl_FallbackReason q = []"
      "decide profiles now rq sn = decide_path (dp_DirectCost profile) c q path"
    have w: "walk (sn_Edges sn) (sn_StartNodeID sn) path (sn_TargetNodeID sn)"
      using c(2) by (simp add: least_walk_def)
    have least: "path_cost path \<le> path_cost q" if "walk (sn_Edges sn) (sn_StartNodeID sn) q (sn_TargetNodeID sn)" for q
    proof -
      have "length path \<le> length q" using c(2) that by (auto simp: least_walk_def)
      moreover have "path_cost q = length q * unat c" using walk_edges[OF that] c(5) by (intro path_cost_uniform) blast
      ultimately show ?thesis using c(6) by simp
    qed
    then have "(\<forall>q \<in> {q. walk (sn_Edges sn) (sn_StartNodeID sn) q (sn_TargetNodeID sn)}. path_cost q > d) \<longleftrightarrow>
        path_cost path > d" for d
      using w by (auto intro: less_le_trans)
    then show ?thesis
      using decide_path_result[OF c(6,7,4,8), of "dp_DirectCost profile"] c(1,2,9) assms(2,3) prof w
      by (auto simp: Let_def least_walk_def split: if_splits)
  qed (use assms prof check_snapshot_endpoints[OF assms(1)] in \<open>auto simp: Let_def\<close>)
qed

theorem direct_plan_justified_witness:
  "check_snapshot demo_hash demo_planner_request demo_snapshot = Inr () \<and>
   (\<exists>p. decide (\<lambda>_. (zero_profile, False)) 0 demo_planner_request demo_snapshot = Inr p \<and>
      pl_Type p = DirectPlan \<and> pl_FallbackReason p = UncalibratedProfile)"
proof -
  have "\<exists>p. decide (\<lambda>_. (zero_profile, False)) 0 demo_planner_request demo_snapshot = Inr p \<and> pl_Type p \<noteq> PathPlan"
    by (simp add: decide_def zero_profile_def Let_def)
  then obtain p where p: "decide (\<lambda>_. (zero_profile, False)) 0 demo_planner_request demo_snapshot = Inr p"
    "pl_Type p \<noteq> PathPlan" by blast
  from direct_plan_justified[OF demo_check p] show ?thesis
    using demo_check p(1) by (simp add: zero_profile_def Let_def)
qed

text \<open>
  Deciding never panics: between two different end nodes \<open>decide\<close> either returns a plan of one of the
  two types or one of two errors, \<open>ErrInconsistentPathStepCost\<close> when the steps of the snapshot do not have
  one non-zero cost, and \<open>ErrPathCostOverflow\<close> only when every path costs more than a \<open>uint64\<close> holds. The
  division by the step cost is never a division by zero and the search never runs out of iterations.
\<close>

theorem decide_errors:
  "sn_StartNodeID sn = sn_TargetNodeID sn \<or>
   (case decide profiles now rq sn of
      Inr p \<Rightarrow> pl_Type p \<in> {PathPlan, DirectPlan}
    | Inl e \<Rightarrow> dp_Calibrated (fst (profiles (rq_HomeChainID rq))) \<and>
        (e = ErrInconsistentPathStepCost \<and>
           {c. c \<noteq> 0 \<and> te_PathStepCost ` set (sn_Edges sn) \<subseteq> {c}} = {} \<or>
         e = ErrPathCostOverflow \<and>
           {q. walk (sn_Edges sn) (sn_StartNodeID sn) q (sn_TargetNodeID sn) \<and> path_cost q < 2 ^ 64} = {}))"
proof (cases "sn_StartNodeID sn = sn_TargetNodeID sn")
  case False
  obtain profile found where prof: "profiles (rq_HomeChainID rq) = (profile, found)" by fastforce
  have inconsistent: "{c. c \<noteq> 0 \<and> te_PathStepCost ` set es \<subseteq> {c}} = {}"
    if "trustedPathStepCost es = Inl e" for es e
    using that by (cases es) (auto split: if_splits)
  show ?thesis
  proof (rule decide_cases[where sn=sn and profiles=profiles and rq=rq and profile=profile and found=found and now=now])
    fix q path c
    assume c: "c \<noteq> 0" "path_cost path = length path * unat c" "length path * unat c < 2 ^ 64" "pl_FallbackReason q = []"
      "decide profiles now rq sn = decide_path (dp_DirectCost profile) c q path"
    from decide_path_result[OF c(2,3,1,4), of "dp_DirectCost profile"] show ?thesis
      using c(5) by (auto split: if_splits)
  next
    assume "decide profiles now rq sn = Inl ErrPathCostOverflow" "dp_Calibrated profile"
      and "\<And>q. walk (sn_Edges sn) (sn_StartNodeID sn) q (sn_TargetNodeID sn) \<Longrightarrow> 2 ^ 64 \<le> path_cost q"
    then show ?thesis using prof by (auto simp: not_less[symmetric])
  qed (use False prof inconsistent in auto)
qed simp

subsection \<open>Plan identifiers\<close>

lemma length_optional_word [simp]: "length (optional_word v) = 32"
  by (simp add: optional_word_def split: option.split)

lemma optional_word_inject [simp]: "optional_word v = optional_word w \<longleftrightarrow> v = w"
  by (auto simp: optional_word_def be_bytes_inject Cons_replicate_eq split: option.splits)
    (metis list.sel(1) replicate_Suc numeral_eq_Suc zero_neq_one)+

definition plan_lengths_ok :: "plan \<Rightarrow> bool" where
  "plan_lengths_ok p \<longleftrightarrow> length (pl_ProfileID p) < 2 ^ 32 \<and> length (pl_Type p) < 2 ^ 32 \<and>
     length (pl_FallbackReason p) < 2 ^ 32 \<and> length (pl_Hops p) < 2 ^ 64"

lemma plan_bytes_inject:
  assumes "plan_lengths_ok p" "plan_lengths_ok q" "plan_bytes p = plan_bytes q"
  shows "p = q\<lparr>pl_ID := pl_ID p, pl_CreatedAt := pl_CreatedAt p\<rparr>"
proof -
  have dom: "length (string_bytes plan_domain) < 2 ^ 32" by (simp add: plan_domain_def)
  note len = assms(1,2)[unfolded plan_lengths_ok_def]
  have "uint64_word (of_nat (length (pl_Hops p))) = uint64_word (of_nat (length (pl_Hops q)))"
    using assms(3) len by (simp add: plan_bytes_def length_prefixed_append_inject dom)
  then have "length (pl_Hops p) = length (pl_Hops q)"
    using len by (simp add: word_unat_eq_iff unat_of_nat)
  then have "pl_RequestID p = pl_RequestID q \<and> pl_Attempt p = pl_Attempt q \<and> pl_SnapshotID p = pl_SnapshotID q \<and>
    pl_ProfileID p = pl_ProfileID q \<and> pl_ProfileFingerprint p = pl_ProfileFingerprint q \<and> pl_Type p = pl_Type q \<and>
    pl_HomeNodeID p = pl_HomeNodeID q \<and> pl_TargetNodeID p = pl_TargetNodeID q \<and> pl_Hops p = pl_Hops q \<and>
    pl_PathStepCost p = pl_PathStepCost q \<and> pl_PathCost p = pl_PathCost q \<and> pl_DirectCost p = pl_DirectCost q \<and>
    pl_FallbackReason p = pl_FallbackReason q"
    using assms(3) len length_prefixed_append_inject[where x="[]" and y="[]"]
    by (simp add: plan_bytes_def length_prefixed_append_inject dom concat_bytes32_inject)
  then show ?thesis by (cases p; cases q) simp
qed

text \<open>
  A plan identifier determines the decision: two plans with one identifier agree on every field but
  the identifier and the creation time, unless the two encodings are a collision of the hash function.
  The encoding is unambiguous as long as the strings and the hop list fit the length fields.
\<close>

theorem plan_id_binds_decision:
  assumes "plan_lengths_ok p" "plan_lengths_ok q" "ComputePlanID K p = ComputePlanID K q"
  shows "p = q\<lparr>pl_ID := pl_ID p, pl_CreatedAt := pl_CreatedAt p\<rparr> \<or>
    (plan_bytes p \<noteq> plan_bytes q \<and> K (plan_bytes p) = K (plan_bytes q))"
  using plan_bytes_inject[OF assms(1,2)] assms(3) by (auto simp: ComputePlanID_def)

definition demo_plan :: plan where
  "demo_plan = (initial_plan zero_profile 5 demo_planner_request demo_snapshot)\<lparr>pl_Type := DirectPlan,
     pl_FallbackReason := NoPath\<rparr>"

text \<open>
  Under a hash that maps everything to one digest, two plans of different attempts have one identifier, and the theorem
  names the collision.
\<close>

theorem plan_id_binds_decision_witness:
  "ComputePlanID (\<lambda>_. 1) demo_plan = ComputePlanID (\<lambda>_. 1) (demo_plan\<lparr>pl_Attempt := 2\<rparr>) \<and>
     plan_bytes demo_plan \<noteq> plan_bytes (demo_plan\<lparr>pl_Attempt := 2\<rparr>)"
proof -
  let ?q = "demo_plan\<lparr>pl_Attempt := 2\<rparr>"
  have l: "plan_lengths_ok demo_plan" "plan_lengths_ok ?q"
    by (simp_all add: plan_lengths_ok_def demo_plan_def initial_plan_def zero_profile_def DirectPlan_def NoPath_def)
  have i: "ComputePlanID (\<lambda>_. 1) demo_plan = ComputePlanID (\<lambda>_. 1) ?q" by (simp add: ComputePlanID_def)
  have "pl_Attempt demo_plan = 1" by (simp add: demo_plan_def initial_plan_def demo_planner_request_def)
  then have "pl_Attempt demo_plan \<noteq> pl_Attempt (?q\<lparr>pl_ID := pl_ID demo_plan, pl_CreatedAt := pl_CreatedAt demo_plan\<rparr>)" by simp
  then have "demo_plan \<noteq> ?q\<lparr>pl_ID := pl_ID demo_plan, pl_CreatedAt := pl_CreatedAt demo_plan\<rparr>" by (rule contrapos_nn) (rule arg_cong)
  then show ?thesis using plan_id_binds_decision[OF l i] i by blast
qed

end
