(* ===== verification/PathProof.thy ===== *)
theory PathProof
  imports Planner Merkle
begin

text \<open>
  \<open>Mapnode/proof\<close>: the path proof of a plan. \<open>Build\<close> loads the plan, its sealed snapshot and the proof
  material of every hop, reverses them into verification order, verifies the result locally with
  \<open>VerifyPath\<close> and stores it under its content address. The repository interface of the package is a
  record of functions over an abstract store.
\<close>

subsection \<open>Path proofs\<close>

type_synonym path_proof_id = hash

record path_proof_hop =
  ph_PlanHopIndex :: nat
  ph_EdgeID :: edge_id
  ph_ToNodeID :: node_id
  ph_BlockHash :: hash
  ph_WitnessID :: witness_id

record path_proof =
  pp_ID :: path_proof_id
  pp_RequestID :: request_id
  pp_PlanID :: plan_id
  pp_SnapshotID :: snapshot_id
  pp_BaseTrustRoot :: trust_root
  pp_BlockHashes :: "hash list"
  pp_Witnesses :: "membership_witness list"
  pp_Hops :: "path_proof_hop list"
  pp_CreatedAt :: go_time

record path_proof_material =
  pm_PlanID :: plan_id
  pm_SnapshotID :: snapshot_id
  pm_PlanHopIndex :: nat
  pm_Edge :: trust_edge
  pm_FromNode :: trust_node
  pm_ToNode :: trust_node
  pm_Witness :: stored_witness

definition proof_domain :: string where
  "proof_domain = ''TrustMap/PathProof/ID/v1''"

definition proof_witness_bytes :: "membership_witness \<Rightarrow> byte list" where
  "proof_witness_bytes w =
     uint64_word (ucast (leafIndex w)) @ uint64_word (of_nat (length (siblings w))) @
     concat (map bytes32 (siblings w))"

definition proof_hop_bytes :: "path_proof_hop \<Rightarrow> byte list" where
  "proof_hop_bytes hop =
     uint64_word (of_nat (ph_PlanHopIndex hop)) @ bytes32 (ph_EdgeID hop) @ bytes32 (ph_ToNodeID hop) @
     bytes32 (ph_BlockHash hop) @ bytes32 (ph_WitnessID hop)"

definition path_proof_bytes :: "path_proof \<Rightarrow> byte list" where
  "path_proof_bytes v =
     length_prefixed (string_bytes proof_domain) @ bytes32 (pp_RequestID v) @ bytes32 (pp_PlanID v) @
     bytes32 (pp_SnapshotID v) @ bytes32 (pp_BaseTrustRoot v) @
     uint64_word (of_nat (length (pp_BlockHashes v))) @ concat (map bytes32 (pp_BlockHashes v)) @
     uint64_word (of_nat (length (pp_Witnesses v))) @ concat (map proof_witness_bytes (pp_Witnesses v)) @
     uint64_word (of_nat (length (pp_Hops v))) @ concat (map proof_hop_bytes (pp_Hops v))"

definition ComputePathProofID :: "keccak \<Rightarrow> path_proof \<Rightarrow> path_proof_id" where
  "ComputePathProofID K v = K (path_proof_bytes v)"

subsection \<open>Building a proof\<close>

record 'db proof_repository =
  LoadPathPlan :: "'db \<Rightarrow> plan_id \<Rightarrow> plan res"
  LoadTrustViewSnapshot :: "'db \<Rightarrow> snapshot_id \<Rightarrow> trust_view_snapshot res"
  LoadPathProofMaterial :: "'db \<Rightarrow> plan_id \<Rightarrow> snapshot_id \<Rightarrow> nat \<Rightarrow> edge_id \<Rightarrow> path_proof_material res"
  SavePathProof :: "'db \<Rightarrow> path_proof \<Rightarrow> 'db res"
  LoadPathProof :: "'db \<Rightarrow> path_proof_id \<Rightarrow> path_proof res"

record build_request =
  br_PlanID :: plan_id
  br_SourceBlockHash :: hash
  br_ExpectedHomeTrustRoot :: trust_root

definition findNode :: "trust_view_snapshot \<Rightarrow> node_id \<Rightarrow> trust_node option" where
  "findNode sn nid = find (\<lambda>node. tn_ID node = nid) (sn_Nodes sn)"

definition sameEdge :: "trust_edge \<Rightarrow> trust_edge \<Rightarrow> bool" where
  "sameEdge left right \<longleftrightarrow>
     te_ID left = te_ID right \<and> te_From left = te_From right \<and> te_To left = te_To right \<and>
     te_EvidenceID left = te_EvidenceID right \<and> te_LeafIndex left = te_LeafIndex right \<and>
     te_PathStepCost left = te_PathStepCost right \<and>
     (te_WitnessID left = None \<and> te_WitnessID right = None \<or>
      te_WitnessID left \<noteq> None \<and> te_WitnessID right \<noteq> None \<and> the (te_WitnessID left) = the (te_WitnessID right))"

definition validMaterial ::
  "keccak \<Rightarrow> plan \<Rightarrow> trust_view_snapshot \<Rightarrow> nat \<Rightarrow> edge_id \<Rightarrow> node_id \<Rightarrow> path_proof_material \<Rightarrow> bool" where
  "validMaterial K plan sn index edgeID expectedFrom m =
     (if pm_PlanID m \<noteq> pl_ID plan \<or> pm_SnapshotID m \<noteq> sn_ID sn \<or> pm_PlanHopIndex m \<noteq> index \<or>
         te_ID (pm_Edge m) \<noteq> edgeID \<or> te_From (pm_Edge m) \<noteq> expectedFrom \<or>
         tn_ID (pm_FromNode m) \<noteq> te_From (pm_Edge m) \<or> tn_ID (pm_ToNode m) \<noteq> te_To (pm_Edge m) \<or>
         te_EvidenceID (pm_Edge m) \<noteq> sw_EvidenceID (pm_Witness m) \<or>
         te_LeafIndex (pm_Edge m) \<noteq> sw_LeafIndex (pm_Witness m) \<or> te_WitnessID (pm_Edge m) = None \<or>
         the (te_WitnessID (pm_Edge m)) \<noteq> sw_ID (pm_Witness m) \<or>
         sw_ID (pm_Witness m) \<noteq> sw_ID (NewStoredWitness K (sw_EvidenceID (pm_Witness m))
                                   (sw_LeafIndex (pm_Witness m)) (sw_Siblings (pm_Witness m)))
      then False
      else case (findNode sn (tn_ID (pm_FromNode m)), findNode sn (tn_ID (pm_ToNode m))) of
        (Some from, Some to) \<Rightarrow>
          if from \<noteq> pm_FromNode m \<or> to \<noteq> pm_ToNode m then False
          else (case find (\<lambda>e. te_ID e = edgeID) (sn_Edges sn) of
                  None \<Rightarrow> False | Some e \<Rightarrow> sameEdge e (pm_Edge m))
      | _ \<Rightarrow> False)"

fun load_materials ::
  "keccak \<Rightarrow> 'db proof_repository \<Rightarrow> 'db \<Rightarrow> plan \<Rightarrow> trust_view_snapshot \<Rightarrow> nat \<Rightarrow> edge_id list \<Rightarrow> node_id \<Rightarrow>
     (path_proof_material list \<times> node_id) res" where
  "load_materials K repo db plan sn index [] expectedFrom = Inr ([], expectedFrom)"
| "load_materials K repo db plan sn index (edgeID # hops) expectedFrom =
     bind_res (LoadPathProofMaterial repo db (pl_ID plan) (sn_ID sn) index edgeID) (\<lambda>m.
     if \<not> validMaterial K plan sn index edgeID expectedFrom m then Inl ErrProofMaterialMissing
     else bind_res (load_materials K repo db plan sn (Suc index) hops (tn_ID (pm_ToNode m))) (\<lambda>(ms, last).
       Inr (m # ms, last)))"

text \<open>One iteration of the loop that reverses the materials into verification order.\<close>

definition add_hop :: "nat \<Rightarrow> path_proof_material \<Rightarrow> path_proof \<Rightarrow> path_proof res" where
  "add_hop planIndex m result =
     (case NewMembershipWitness (sw_LeafIndex (pm_Witness m)) (sw_Siblings (pm_Witness m)) of
        Inl _ \<Rightarrow> Inl ErrProofMaterialMissing
      | Inr w \<Rightarrow> Inr (result\<lparr>
          pp_BlockHashes := pp_BlockHashes result @ [nk_BlockHash (tn_Key (pm_ToNode m))],
          pp_Witnesses := pp_Witnesses result @ [w],
          pp_Hops := pp_Hops result @ [\<lparr>ph_PlanHopIndex = planIndex, ph_EdgeID = te_ID (pm_Edge m),
             ph_ToNodeID = tn_ID (pm_ToNode m), ph_BlockHash = nk_BlockHash (tn_Key (pm_ToNode m)),
             ph_WitnessID = sw_ID (pm_Witness m)\<rparr>]\<rparr>))"

fun add_hops :: "path_proof_material list \<Rightarrow> nat \<Rightarrow> path_proof \<Rightarrow> path_proof res" where
  "add_hops ms 0 result = Inr result"
| "add_hops ms (Suc planIndex) result =
     bind_res (add_hop planIndex (ms ! planIndex) result) (\<lambda>result'. add_hops ms planIndex result')"

definition samePathProof :: "path_proof \<Rightarrow> path_proof \<Rightarrow> bool" where
  "samePathProof left right =
     (if pp_ID left \<noteq> pp_ID right \<or> pp_RequestID left \<noteq> pp_RequestID right \<or> pp_PlanID left \<noteq> pp_PlanID right \<or>
         pp_SnapshotID left \<noteq> pp_SnapshotID right \<or> pp_BaseTrustRoot left \<noteq> pp_BaseTrustRoot right \<or>
         length (pp_BlockHashes left) \<noteq> length (pp_BlockHashes right) \<or>
         length (pp_Witnesses left) \<noteq> length (pp_Witnesses right) \<or> length (pp_Hops left) \<noteq> length (pp_Hops right)
      then False
      else \<forall>i \<in> set [0..<length (pp_BlockHashes left)].
        pp_BlockHashes left ! i = pp_BlockHashes right ! i \<and> pp_Hops left ! i = pp_Hops right ! i \<and>
        leafIndex (pp_Witnesses left ! i) = leafIndex (pp_Witnesses right ! i) \<and>
        siblings (pp_Witnesses left ! i) = siblings (pp_Witnesses right ! i))"

definition Build ::
  "keccak \<Rightarrow> 'db proof_repository \<Rightarrow> u8 \<Rightarrow> go_time \<Rightarrow> 'db \<Rightarrow> build_request \<Rightarrow> (path_proof \<times> 'db) res" where
  "Build K repo pathTreeDepth now db request =
     bind_res (LoadPathPlan repo db (br_PlanID request)) (\<lambda>plan.
     if pl_ID plan \<noteq> br_PlanID request \<or> pl_ID plan \<noteq> ComputePlanID K plan \<or> pl_Type plan \<noteq> PathPlan \<or>
        pl_Hops plan = []
     then Inl ErrProofMaterialMissing
     else bind_res (LoadTrustViewSnapshot repo db (pl_SnapshotID plan)) (\<lambda>sn.
     if sn_ID sn \<noteq> pl_SnapshotID plan \<or> \<not> sn_Sealed sn \<or> sn_StartNodeID sn \<noteq> pl_HomeNodeID plan \<or>
        sn_TargetNodeID sn \<noteq> pl_TargetNodeID plan
     then Inl ErrProofMaterialMissing
     else if sn_HomeTrustRoot sn \<noteq> br_ExpectedHomeTrustRoot request then Inl ErrStaleTrustViewSnapshot
     else case findNode sn (sn_TargetNodeID sn) of
       None \<Rightarrow> Inl ErrProofMaterialMissing
     | Some target \<Rightarrow>
     if nk_BlockHash (tn_Key target) \<noteq> br_SourceBlockHash request then Inl ErrSourceBlockHashMismatch
     else bind_res (load_materials K repo db plan sn 0 (pl_Hops plan) (sn_StartNodeID sn)) (\<lambda>(materials, expectedFrom).
     if expectedFrom \<noteq> sn_TargetNodeID sn then Inl ErrProofMaterialMissing
     else bind_res (add_hops materials (length materials)
            \<lparr>pp_ID = 0, pp_RequestID = pl_RequestID plan, pp_PlanID = pl_ID plan, pp_SnapshotID = sn_ID sn,
             pp_BaseTrustRoot = tn_Root target, pp_BlockHashes = [], pp_Witnesses = [], pp_Hops = [],
             pp_CreatedAt = now\<rparr>) (\<lambda>result.
     if hd (pp_BlockHashes result) \<noteq> br_SourceBlockHash request then Inl ErrSourceBlockHashMismatch
     else case VerifyPath K (pp_BaseTrustRoot result) (pp_BlockHashes result) (pp_Witnesses result)
                 (br_ExpectedHomeTrustRoot request) pathTreeDepth of
       Inl _ \<Rightarrow> Inl ErrProofMaterialMissing
     | Inr _ \<Rightarrow>
     let result = result\<lparr>pp_ID := ComputePathProofID K result\<rparr>
     in bind_res (SavePathProof repo db result) (\<lambda>db'.
        bind_res (LoadPathProof repo db' (pp_ID result)) (\<lambda>persisted.
        if pp_ID persisted \<noteq> ComputePathProofID K persisted \<or> \<not> samePathProof result persisted
        then Inl ErrPathProofIDMismatch
        else Inr (persisted, db')))))))"

subsection \<open>What a built proof proves\<close>

lemma sameEdge_iff [simp]: "sameEdge a b \<longleftrightarrow> a = b"
proof
  assume "sameEdge a b"
  then have "te_WitnessID a = te_WitnessID b"
    by (cases "te_WitnessID a"; cases "te_WitnessID b") (auto simp: sameEdge_def)
  with \<open>sameEdge a b\<close> show "a = b" by (simp add: sameEdge_def)
qed (auto simp: sameEdge_def)

lemma validMaterial_edge:
  assumes "validMaterial K plan sn i edgeID from m"
  shows "pm_Edge m \<in> set (sn_Edges sn)" "te_ID (pm_Edge m) = edgeID" "te_From (pm_Edge m) = from"
    "te_To (pm_Edge m) = tn_ID (pm_ToNode m)" "te_WitnessID (pm_Edge m) \<noteq> None"
proof -
  have "find (\<lambda>e. te_ID e = edgeID) (sn_Edges sn) = Some (pm_Edge m)"
    using assms by (auto simp: validMaterial_def split: if_splits option.splits)
  then show "pm_Edge m \<in> set (sn_Edges sn)" by (auto simp: find_Some_iff)
  show "te_ID (pm_Edge m) = edgeID" "te_From (pm_Edge m) = from"
    "te_To (pm_Edge m) = tn_ID (pm_ToNode m)" "te_WitnessID (pm_Edge m) \<noteq> None"
    using assms by (simp_all add: validMaterial_def split: if_splits)
qed

lemma load_materials_walk:
  assumes "load_materials K repo db plan sn i hops src = Inr (ms, to)"
  shows "walk (sn_Edges sn) src (map pm_Edge ms) to \<and> map (te_ID \<circ> pm_Edge) ms = hops \<and>
    (\<forall>m \<in> set ms. te_WitnessID (pm_Edge m) \<noteq> None)"
  using assms
proof (induction hops arbitrary: i src ms)
  case (Cons edgeID hops)
  then obtain m ms' where m: "validMaterial K plan sn i edgeID src m" "ms = m # ms'"
    "load_materials K repo db plan sn (Suc i) hops (tn_ID (pm_ToNode m)) = Inr (ms', to)"
    by (auto split: if_splits)
  show ?case using Cons.IH[OF m(3)] validMaterial_edge[OF m(1)] m(2) by simp
qed simp

lemma add_hops_result:
  assumes "add_hops ms n result = Inr r" "n \<le> length ms"
  shows "length (pp_BlockHashes r) = length (pp_BlockHashes result) + n \<and>
    length (pp_Witnesses r) = length (pp_Witnesses result) + n \<and>
    length (pp_Hops r) = length (pp_Hops result) + n \<and>
    map ph_EdgeID (pp_Hops r) = map ph_EdgeID (pp_Hops result) @ rev (map (te_ID \<circ> pm_Edge) (take n ms)) \<and>
    pp_BaseTrustRoot r = pp_BaseTrustRoot result \<and> pp_PlanID r = pp_PlanID result \<and>
    pp_SnapshotID r = pp_SnapshotID result \<and> pp_RequestID r = pp_RequestID result"
  using assms
proof (induction n arbitrary: result)
  case (Suc n)
  then obtain r' where r': "add_hop n (ms ! n) result = Inr r'" "add_hops ms n r' = Inr r" by auto
  note IH = Suc.IH[OF r'(2)]
  have "take (Suc n) ms = take n ms @ [ms ! n]" using Suc.prems(2) by (simp add: take_Suc_conv_app_nth)
  then show ?case using IH r'(1) Suc.prems(2) by (auto simp: add_hop_def split: sum.splits)
qed simp

lemma samePathProof_eq:
  assumes "samePathProof l r" "length (pp_Witnesses l) = length (pp_BlockHashes l)"
    "length (pp_Hops l) = length (pp_BlockHashes l)"
  shows "r = l\<lparr>pp_CreatedAt := pp_CreatedAt r\<rparr>"
proof -
  have "pp_BlockHashes r = pp_BlockHashes l" "pp_Hops r = pp_Hops l" "pp_Witnesses r = pp_Witnesses l"
    using assms by (auto simp: samePathProof_def intro!: nth_equalityI membership_witness.equality split: if_splits)
  moreover have "pp_ID r = pp_ID l" "pp_RequestID r = pp_RequestID l" "pp_PlanID r = pp_PlanID l"
    "pp_SnapshotID r = pp_SnapshotID l" "pp_BaseTrustRoot r = pp_BaseTrustRoot l"
    using assms(1) by (simp_all add: samePathProof_def split: if_splits)
  ultimately show ?thesis by simp
qed

lemma Build_InrE:
  assumes "Build K repo depth now db rq = Inr (p, db')"
  obtains plan sn ms r and target :: trust_node where
    "LoadPathPlan repo db (br_PlanID rq) = Inr plan" "pl_ID plan = br_PlanID rq" "pl_Hops plan \<noteq> []"
    "LoadTrustViewSnapshot repo db (pl_SnapshotID plan) = Inr sn" "sn_ID sn = pl_SnapshotID plan" "sn_Sealed sn"
    "sn_StartNodeID sn = pl_HomeNodeID plan" "sn_TargetNodeID sn = pl_TargetNodeID plan"
    "load_materials K repo db plan sn 0 (pl_Hops plan) (sn_StartNodeID sn) = Inr (ms, sn_TargetNodeID sn)"
    "add_hops ms (length ms)
            \<lparr>pp_ID = 0, pp_RequestID = pl_RequestID plan, pp_PlanID = pl_ID plan, pp_SnapshotID = sn_ID sn,
             pp_BaseTrustRoot = tn_Root target, pp_BlockHashes = [], pp_Witnesses = [], pp_Hops = [],
             pp_CreatedAt = now\<rparr> = Inr r"
    "hd (pp_BlockHashes r) = br_SourceBlockHash rq"
    "VerifyPath K (pp_BaseTrustRoot r) (pp_BlockHashes r) (pp_Witnesses r) (br_ExpectedHomeTrustRoot rq) depth = Inr ()"
    "pp_ID p = ComputePathProofID K p" "samePathProof (r\<lparr>pp_ID := ComputePathProofID K r\<rparr>) p"
proof -
  obtain plan where plan: "LoadPathPlan repo db (br_PlanID rq) = Inr plan"
    using assms by (auto simp: Build_def)
  then obtain sn where sn: "LoadTrustViewSnapshot repo db (pl_SnapshotID plan) = Inr sn"
    using assms by (auto simp: Build_def split: if_splits)
  obtain target where target: "findNode sn (sn_TargetNodeID sn) = Some target"
    using assms plan sn by (auto simp: Build_def split: if_splits option.splits)
  obtain ms where ms: "load_materials K repo db plan sn 0 (pl_Hops plan) (sn_StartNodeID sn) = Inr (ms, sn_TargetNodeID sn)"
    using assms plan sn target by (auto simp: Build_def split: if_splits)
  let ?init = "\<lparr>pp_ID = 0, pp_RequestID = pl_RequestID plan, pp_PlanID = pl_ID plan, pp_SnapshotID = sn_ID sn,
    pp_BaseTrustRoot = tn_Root target, pp_BlockHashes = [], pp_Witnesses = [], pp_Hops = [], pp_CreatedAt = now\<rparr>"
  obtain r where r: "add_hops ms (length ms) ?init = Inr r"
    using assms plan sn target ms by (auto simp: Build_def split: if_splits)
  show thesis
    by (rule that[OF plan _ _ sn _ _ _ _ ms r])
      (use assms plan sn target ms r in \<open>auto simp: Build_def Let_def split: if_splits sum.splits\<close>)
qed

lemma Build_stored:
  assumes "add_hops ms (length ms) p0 = Inr r" "pp_BlockHashes p0 = []" "pp_Witnesses p0 = []" "pp_Hops p0 = []"
    and "samePathProof (r\<lparr>pp_ID := ComputePathProofID K r\<rparr>) p"
  shows "pp_BaseTrustRoot p = pp_BaseTrustRoot r" "pp_BlockHashes p = pp_BlockHashes r"
    "pp_Witnesses p = pp_Witnesses r" "pp_Hops p = pp_Hops r" "pp_PlanID p = pp_PlanID r" "pp_SnapshotID p = pp_SnapshotID r"
    "pp_RequestID p = pp_RequestID r"
proof -
  have "p = (r\<lparr>pp_ID := ComputePathProofID K r\<rparr>)\<lparr>pp_CreatedAt := pp_CreatedAt p\<rparr>"
    using samePathProof_eq[OF assms(5)] add_hops_result[OF assms(1) order_refl] assms(2-4) by simp
  then show "pp_BaseTrustRoot p = pp_BaseTrustRoot r" "pp_BlockHashes p = pp_BlockHashes r"
    "pp_Witnesses p = pp_Witnesses r" "pp_Hops p = pp_Hops r" "pp_PlanID p = pp_PlanID r" "pp_SnapshotID p = pp_SnapshotID r"
    "pp_RequestID p = pp_RequestID r"
    by (metis path_proof.simps path_proof.surjective path_proof.update_convs)+
qed

lemma Build_accepted:
  assumes "Build K repo depth now db rq = Inr (p, db')"
  shows "VerifyPath K (pp_BaseTrustRoot p) (pp_BlockHashes p) (pp_Witnesses p) (br_ExpectedHomeTrustRoot rq) depth = Inr ()"
    "hd (pp_BlockHashes p) = br_SourceBlockHash rq"
proof -
  obtain ms r and plan :: plan and sn :: trust_view_snapshot and target :: trust_node where b:
    "add_hops ms (length ms)
            \<lparr>pp_ID = 0, pp_RequestID = pl_RequestID plan, pp_PlanID = pl_ID plan, pp_SnapshotID = sn_ID sn,
             pp_BaseTrustRoot = tn_Root target, pp_BlockHashes = [], pp_Witnesses = [], pp_Hops = [],
             pp_CreatedAt = now\<rparr> = Inr r"
    "hd (pp_BlockHashes r) = br_SourceBlockHash rq"
    "VerifyPath K (pp_BaseTrustRoot r) (pp_BlockHashes r) (pp_Witnesses r) (br_ExpectedHomeTrustRoot rq) depth = Inr ()"
    "samePathProof (r\<lparr>pp_ID := ComputePathProofID K r\<rparr>) p"
    by (rule Build_InrE[OF assms])
  note f = Build_stored[OF b(1) _ _ _ b(4)]
  show "VerifyPath K (pp_BaseTrustRoot p) (pp_BlockHashes p) (pp_Witnesses p) (br_ExpectedHomeTrustRoot rq) depth = Inr ()"
    "hd (pp_BlockHashes p) = br_SourceBlockHash rq"
    using b(2,3) f by simp_all
qed

text \<open>
  C18. Every proof \<open>Build\<close> returns is one the verifier accepts and follows the plan: \<open>VerifyPath\<close> accepts its
  block hashes and witnesses against the expected home TrustRoot, its first block hash is the requested
  source block, its identifier is the hash of its content, it is bound to the plan and the snapshot, and
  its hops are the planned edges in reverse, which form a walk of the sealed snapshot from the home node
  to the target with a witness at every edge.
\<close>

theorem build_sound:
  assumes "Build K repo depth now db rq = Inr (p, db')"
  shows "\<exists>plan sn path. LoadPathPlan repo db (br_PlanID rq) = Inr plan \<and>
    LoadTrustViewSnapshot repo db (pl_SnapshotID plan) = Inr sn \<and> sn_Sealed sn \<and>
    VerifyPath K (pp_BaseTrustRoot p) (pp_BlockHashes p) (pp_Witnesses p) (br_ExpectedHomeTrustRoot rq) depth = Inr () \<and>
    hd (pp_BlockHashes p) = br_SourceBlockHash rq \<and> pp_ID p = ComputePathProofID K p \<and>
    pp_PlanID p = br_PlanID rq \<and> pp_SnapshotID p = pl_SnapshotID plan \<and>
    walk (sn_Edges sn) (pl_HomeNodeID plan) path (pl_TargetNodeID plan) \<and> path \<noteq> [] \<and>
    map te_ID path = pl_Hops plan \<and> rev (map ph_EdgeID (pp_Hops p)) = pl_Hops plan \<and>
    (\<forall>e \<in> set path. te_WitnessID e \<noteq> None)"
proof -
  obtain plan sn ms r and target :: trust_node where b:
    "LoadPathPlan repo db (br_PlanID rq) = Inr plan" "pl_ID plan = br_PlanID rq" "pl_Hops plan \<noteq> []"
    "LoadTrustViewSnapshot repo db (pl_SnapshotID plan) = Inr sn" "sn_ID sn = pl_SnapshotID plan" "sn_Sealed sn"
    "sn_StartNodeID sn = pl_HomeNodeID plan" "sn_TargetNodeID sn = pl_TargetNodeID plan"
    "load_materials K repo db plan sn 0 (pl_Hops plan) (sn_StartNodeID sn) = Inr (ms, sn_TargetNodeID sn)"
    "add_hops ms (length ms)
            \<lparr>pp_ID = 0, pp_RequestID = pl_RequestID plan, pp_PlanID = pl_ID plan, pp_SnapshotID = sn_ID sn,
             pp_BaseTrustRoot = tn_Root target, pp_BlockHashes = [], pp_Witnesses = [], pp_Hops = [],
             pp_CreatedAt = now\<rparr> = Inr r"
    "hd (pp_BlockHashes r) = br_SourceBlockHash rq"
    "VerifyPath K (pp_BaseTrustRoot r) (pp_BlockHashes r) (pp_Witnesses r) (br_ExpectedHomeTrustRoot rq) depth = Inr ()"
    "pp_ID p = ComputePathProofID K p" "samePathProof (r\<lparr>pp_ID := ComputePathProofID K r\<rparr>) p"
    by (rule Build_InrE[OF assms])
  note w = load_materials_walk[OF b(9)]
  note h = add_hops_result[OF b(10) order_refl]
  note fields = Build_stored[OF b(10) _ _ _ b(14), simplified]
  have "map te_ID (map pm_Edge ms) = pl_Hops plan" using w by simp
  moreover from this have "map pm_Edge ms \<noteq> []" using b(3) by auto
  moreover have "rev (map ph_EdgeID (pp_Hops p)) = pl_Hops plan" using h w by (simp add: fields)
  ultimately show ?thesis
    using b w h by (intro exI[of _ plan] exI[of _ sn] exI[of _ "map pm_Edge ms"]) (simp add: fields)
qed

text \<open>A stored plan of one hop, and a repository that holds it with its proof material.\<close>

definition demo_witness :: stored_witness where
  "demo_witness = NewStoredWitness demo_hash 9 0 [9]"

definition demo_hop :: trust_edge where
  "demo_hop = (demo_edge 1 2)\<lparr>te_WitnessID := Some (sw_ID demo_witness)\<rparr>"

definition demo_proof_snapshot :: trust_view_snapshot where
  "demo_proof_snapshot = demo_snapshot\<lparr>sn_HomeTrustRoot := 2239, sn_Edges := [demo_hop]\<rparr>"

definition demo_path_plan :: plan where
  "demo_path_plan = (let p = demo_plan\<lparr>pl_Type := PathPlan, pl_Hops := [te_ID demo_hop]\<rparr>
     in p\<lparr>pl_ID := ComputePlanID demo_hash p\<rparr>)"

definition demo_repository :: "path_proof option proof_repository" where
  "demo_repository = \<lparr>LoadPathPlan = (\<lambda>db i. Inr demo_path_plan),
     LoadTrustViewSnapshot = (\<lambda>db i. Inr demo_proof_snapshot),
     LoadPathProofMaterial = (\<lambda>db p sn i e. Inr \<lparr>pm_PlanID = p, pm_SnapshotID = sn, pm_PlanHopIndex = i,
        pm_Edge = demo_hop, pm_FromNode = demo_node 1, pm_ToNode = demo_node 2, pm_Witness = demo_witness\<rparr>),
     SavePathProof = (\<lambda>db p. Inr (Some p)),
     LoadPathProof = (\<lambda>db i. case db of None \<Rightarrow> Inl ErrPathProofNotFound | Some p \<Rightarrow> Inr p)\<rparr>"

definition demo_build_request :: build_request where
  "demo_build_request = \<lparr>br_PlanID = pl_ID demo_path_plan, br_SourceBlockHash = 1, br_ExpectedHomeTrustRoot = 2239\<rparr>"

lemma demo_plan_fields:
  "pl_ID demo_path_plan = ComputePlanID demo_hash demo_path_plan" "pl_Type demo_path_plan = PathPlan"
  "pl_Hops demo_path_plan = [te_ID demo_hop]" "pl_SnapshotID demo_path_plan = sn_ID demo_proof_snapshot"
  "pl_HomeNodeID demo_path_plan = sn_StartNodeID demo_proof_snapshot"
  "pl_TargetNodeID demo_path_plan = sn_TargetNodeID demo_proof_snapshot"
  by (simp_all add: demo_path_plan_def Let_def ComputePlanID_def plan_bytes_def demo_plan_def initial_plan_def
      demo_proof_snapshot_def)

lemma demo_nodes_found:
  "findNode demo_proof_snapshot (tn_ID (demo_node 1)) = Some (demo_node 1)"
  "findNode demo_proof_snapshot (tn_ID (demo_node 2)) = Some (demo_node 2)"
  by (simp_all add: findNode_def demo_proof_snapshot_def demo_snapshot_def demo_node_simps)

lemma demo_snapshot_fields:
  "sn_Sealed demo_proof_snapshot" "sn_HomeTrustRoot demo_proof_snapshot = 2239"
  "sn_StartNodeID demo_proof_snapshot = tn_ID (demo_node 1)" "sn_TargetNodeID demo_proof_snapshot = tn_ID (demo_node 2)"
  "sn_Edges demo_proof_snapshot = [demo_hop]"
  by (simp_all add: demo_proof_snapshot_def demo_snapshot_def)

lemma demo_hop_fields:
  "te_From demo_hop = tn_ID (demo_node 1)" "te_To demo_hop = tn_ID (demo_node 2)" "te_EvidenceID demo_hop = 9"
  "te_LeafIndex demo_hop = 0" "te_WitnessID demo_hop = Some (sw_ID demo_witness)"
  by (simp_all add: demo_hop_def demo_edge_eq demo_node_simps)

lemma demo_witness_fields:
  "sw_EvidenceID demo_witness = 9" "sw_LeafIndex demo_witness = 0" "sw_Siblings demo_witness = [9]"
  "sw_ID (NewStoredWitness demo_hash 9 0 [9]) = sw_ID demo_witness"
  by (simp_all add: demo_witness_def NewStoredWitness_def)

lemma demo_materials:
  "load_materials demo_hash demo_repository None demo_path_plan demo_proof_snapshot 0 [te_ID demo_hop] (tn_ID (demo_node 1)) =
     Inr ([\<lparr>pm_PlanID = pl_ID demo_path_plan, pm_SnapshotID = sn_ID demo_proof_snapshot, pm_PlanHopIndex = 0,
        pm_Edge = demo_hop, pm_FromNode = demo_node 1, pm_ToNode = demo_node 2, pm_Witness = demo_witness\<rparr>],
       tn_ID (demo_node 2))"
  by (simp add: demo_repository_def validMaterial_def demo_nodes_found demo_snapshot_fields demo_hop_fields
      demo_witness_fields)

lemma demo_verify: "VerifyPath demo_hash 7 [1] [\<lparr>leafIndex = 0, siblings = [9]\<rparr>] 2239 1 = Inr ()"
  by (simp add: VerifyPath_def validateDepth_def MaxTreeDepth_def RootFromWitness_def HashPair_def LeafHash_def)

lemma demo_build: "is_ok (Build demo_hash demo_repository 1 0 None demo_build_request)"
proof -
  have repo: "LoadPathPlan demo_repository db i = Inr demo_path_plan"
    "LoadTrustViewSnapshot demo_repository db j = Inr demo_proof_snapshot"
    "SavePathProof demo_repository db p = Inr (Some p)" "LoadPathProof demo_repository (Some p) k = Inr p" for db i j k p
    by (simp_all add: demo_repository_def)
  show ?thesis
    by (simp add: Build_def repo demo_build_request_def demo_plan_fields demo_snapshot_fields demo_nodes_found
        demo_materials demo_node_simps(3,5) demo_verify add_hop_def NewMembershipWitness_def witness_Validate_def
        demo_witness_fields Let_def samePathProof_def ComputePathProofID_def path_proof_bytes_def
        del: load_materials.simps flip: demo_plan_fields(1))
qed

theorem build_sound_witness:
  "\<exists>p db. Build demo_hash demo_repository 1 0 None demo_build_request = Inr (p, db) \<and>
     VerifyPath demo_hash (pp_BaseTrustRoot p) (pp_BlockHashes p) (pp_Witnesses p) 2239 1 = Inr () \<and>
     hd (pp_BlockHashes p) = 1"
proof -
  obtain p db where b: "Build demo_hash demo_repository 1 0 None demo_build_request = Inr (p, db)"
    using demo_build by (auto simp: is_ok_def split: sum.splits)
  have "br_SourceBlockHash demo_build_request = 1" "br_ExpectedHomeTrustRoot demo_build_request = 2239"
    by (simp_all add: demo_build_request_def)
  then show ?thesis using build_sound[OF b] b by auto
qed

end
