(* ===== verification/Gateway.thy ===== *)
theory Gateway
  imports Commitment Evidence Observation PathProof
begin

text \<open>
  The contract \<open>TrustMapGateway.sol\<close>: requests, their verification by the direct verifier or by a path proof,
  and the atomic recording of the verified dependency in the block tree of \<open>Commitment\<close>. The record of its
  storage extends that of \<open>TrustRootCommitment\<close>, as the contract inherits it. The external call to the
  direct verifier is a function of the whole storage that may return a changed one: a verifier can call the
  Gateway back before it returns, and \<open>gateway_calls\<close> makes such re-entrant calls explicit.
\<close>

subsection \<open>Storage\<close>

record verification_request =
  req_requester :: address
  req_sourceChainId :: u256
  req_sourceHeight :: u256
  req_sourceBlockHash :: hash
  req_exists :: bool
  req_resolved :: bool
  req_processing :: bool

record gateway = commitment +
  pathTreeDepth :: u8
  pathTreeCapacity :: u64
  directVerifier :: address
  requests :: "hash \<Rightarrow> verification_request"
  requestNonce :: "address \<Rightarrow> u256"
  dependencyRecorded :: "hash \<Rightarrow> bool"

definition zero_request :: verification_request where
  "zero_request = \<lparr>req_requester = 0, req_sourceChainId = 0, req_sourceHeight = 0, req_sourceBlockHash = 0,
     req_exists = False, req_resolved = False, req_processing = False\<rparr>"

definition new_gateway :: "keccak \<Rightarrow> (address \<Rightarrow> bool) \<Rightarrow> u8 \<Rightarrow> address \<Rightarrow> hash \<Rightarrow> gateway sol" where
  "new_gateway K has_code depth verifier initialTrustRoot =
     bind_res (new_commitment K depth initialTrustRoot) (\<lambda>base.
     bind_res (new_path_verifier depth) (\<lambda>(d, cap).
     if verifier = 0 then Inl ZeroDirectVerifier
     else if \<not> has_code verifier then Inl DirectVerifierMustBeContract
     else Inr (commitment.extend base \<lparr>pathTreeDepth = d, pathTreeCapacity = cap, directVerifier = verifier,
       requests = (\<lambda>_. zero_request), requestNonce = (\<lambda>_. 0), dependencyRecorded = (\<lambda>_. False)\<rparr>)))"

subsection \<open>Requests\<close>

definition request_words :: "sol_env \<Rightarrow> address \<Rightarrow> u256 \<Rightarrow> u256 \<Rightarrow> u256 \<Rightarrow> hash \<Rightarrow> byte list" where
  "request_words env requester nonce sourceChainId sourceHeight sourceBlockHash =
     bytes32 (block_chainid env) @ address_word (this_address env) @ address_word requester @ bytes32 nonce @
     bytes32 sourceChainId @ bytes32 sourceHeight @ bytes32 sourceBlockHash"

definition computeRequestId :: "keccak \<Rightarrow> sol_env \<Rightarrow> address \<Rightarrow> u256 \<Rightarrow> u256 \<Rightarrow> u256 \<Rightarrow> hash \<Rightarrow> hash" where
  "computeRequestId K env requester nonce sourceChainId sourceHeight sourceBlockHash =
     K (request_words env requester nonce sourceChainId sourceHeight sourceBlockHash)"

definition computeDependencyKey :: "keccak \<Rightarrow> u256 \<Rightarrow> u256 \<Rightarrow> hash \<Rightarrow> hash \<Rightarrow> hash" where
  "computeDependencyKey K sourceChainId sourceHeight sourceBlockHash sourceTrustRoot =
     K (bytes32 sourceChainId @ bytes32 sourceHeight @ bytes32 sourceBlockHash @ bytes32 sourceTrustRoot)"

definition requestVerification ::
  "keccak \<Rightarrow> sol_env \<Rightarrow> u256 \<Rightarrow> u256 \<Rightarrow> hash \<Rightarrow> gateway \<Rightarrow> (gateway \<times> hash) sol" where
  "requestVerification K env sourceChainId sourceHeight sourceBlockHash s =
     (if sourceChainId = 0 then Inl InvalidSourceChainId
      else if sourceBlockHash = 0 then Inl InvalidSourceBlockHash
      else let sender = msg_sender env; nonce = requestNonce s sender
      in if nonce = - 1 then Inl ArithmeticPanic
      else let s1 = s\<lparr>requestNonce := (requestNonce s)(sender := nonce + 1)\<rparr>;
               requestId = computeRequestId K env sender nonce sourceChainId sourceHeight sourceBlockHash
      in if req_exists (requests s1 requestId) then Inl RequestIdCollision
      else Inr (s1\<lparr>requests := (requests s1)(requestId :=
                     \<lparr>req_requester = sender, req_sourceChainId = sourceChainId, req_sourceHeight = sourceHeight,
                      req_sourceBlockHash = sourceBlockHash, req_exists = True, req_resolved = False,
                      req_processing = False\<rparr>),
                   emitted := emitted s1 @ [VerificationRequested requestId sender sourceChainId sourceHeight
                     sourceBlockHash nonce]\<rparr>,
                requestId))"

definition requestResolved :: "gateway \<Rightarrow> hash \<Rightarrow> bool" where
  "requestResolved s requestId = req_resolved (requests s requestId)"

definition getRequest :: "gateway \<Rightarrow> hash \<Rightarrow> verification_request" where
  "getRequest s requestId = requests s requestId"

subsection \<open>Verification and recording\<close>

definition beginRequest :: "hash \<Rightarrow> gateway \<Rightarrow> gateway sol" where
  "beginRequest requestId s =
     (let request = requests s requestId
      in if \<not> req_exists request then Inl UnknownRequest
         else if req_resolved request then Inl RequestAlreadyResolved
         else if req_processing request then Inl RequestInProgress
         else Inr (s\<lparr>requests := (requests s)(requestId := request\<lparr>req_processing := True\<rparr>)\<rparr>))"

definition recordDependency ::
  "keccak \<Rightarrow> sol_env \<Rightarrow> hash \<Rightarrow> hash \<Rightarrow> hash \<Rightarrow> gateway \<Rightarrow> (gateway \<times> bool) sol" where
  "recordDependency K env requestId sourceTrustRoot dependencyKey s =
     (if dependencyRecorded s dependencyKey then Inr (s, False)
      else bind_res
        (if activeTreeBlock s \<noteq> block_number env
         then if block_number env = 0 then Inl ArithmeticPanic
              else beginBlockTree K env requestId
                     (paperLeaf K (currentTrustRoot s) (blockhash env (block_number env - 1))) s
         else Inr s) (\<lambda>s1.
      let request = requests s1 requestId;
          dependencyLeaf = paperLeaf K sourceTrustRoot (req_sourceBlockHash request)
      in bind_res (appendLeaf K env requestId dependencyLeaf False s1) (\<lambda>(s2, leafIndex).
         Inr (s2\<lparr>dependencyRecorded := (dependencyRecorded s2)(dependencyKey := True),
                 emitted := emitted s2 @ [DependencyRecorded dependencyKey requestId (req_sourceChainId request)
                   (req_sourceHeight request) (req_sourceBlockHash request) sourceTrustRoot leafIndex]\<rparr>, True))))"

definition resolveRequest :: "hash \<Rightarrow> hash \<Rightarrow> bool \<Rightarrow> gateway \<Rightarrow> gateway" where
  "resolveRequest requestId dependencyKey newDependency s =
     (let request = (requests s requestId)\<lparr>req_processing := False, req_resolved := True\<rparr>
      in s\<lparr>requests := (requests s)(requestId := request),
           emitted := emitted s @ [RequestResolved requestId (req_requester request) dependencyKey newDependency
             (currentTrustRoot s)]\<rparr>)"

type_synonym verifier_call = "gateway \<Rightarrow> u256 \<Rightarrow> u256 \<Rightarrow> hash \<Rightarrow> byte list \<Rightarrow> (gateway \<times> hash) sol"

definition verifyDirectAndRecord ::
  "keccak \<Rightarrow> verifier_call \<Rightarrow> sol_env \<Rightarrow> hash \<Rightarrow> byte list \<Rightarrow> gateway \<Rightarrow> (gateway \<times> hash \<times> bool) sol" where
  "verifyDirectAndRecord K verify env requestId proof s =
     bind_res (beginRequest requestId s) (\<lambda>s1.
     let request = requests s1 requestId
     in bind_res (verify s1 (req_sourceChainId request) (req_sourceHeight request) (req_sourceBlockHash request) proof)
       (\<lambda>(s2, sourceTrustRoot).
     let request = requests s2 requestId;
         dependencyKey = computeDependencyKey K (req_sourceChainId request) (req_sourceHeight request)
                           (req_sourceBlockHash request) sourceTrustRoot;
         s3 = s2\<lparr>emitted := emitted s2 @ [DirectVerificationSucceeded requestId (req_sourceChainId request)
                   (req_sourceHeight request) (req_sourceBlockHash request) sourceTrustRoot dependencyKey]\<rparr>
     in bind_res (recordDependency K env requestId sourceTrustRoot dependencyKey s3) (\<lambda>(s4, newDependency).
        Inr (resolveRequest requestId dependencyKey newDependency s4, dependencyKey, newDependency))))"

definition verifyPathAndRecord ::
  "keccak \<Rightarrow> sol_env \<Rightarrow> hash \<Rightarrow> hash \<Rightarrow> hash list \<Rightarrow> sol_witness list \<Rightarrow> gateway \<Rightarrow> (gateway \<times> hash \<times> bool) sol" where
  "verifyPathAndRecord K env requestId baseTrustRoot blockHashes witnesses s =
     bind_res (beginRequest requestId s) (\<lambda>s1.
     let request = requests s1 requestId
     in if blockHashes = [] then Inl EmptyPath
        else if hd blockHashes \<noteq> req_sourceBlockHash request then Inl SourceBlockHashMismatch
        else bind_res (sol_verifyPath K (pathTreeDepth s1) (pathTreeCapacity s1) (currentTrustRoot s1) baseTrustRoot
                         blockHashes witnesses) (\<lambda>_.
        let dependencyKey = computeDependencyKey K (req_sourceChainId request) (req_sourceHeight request)
                              (req_sourceBlockHash request) baseTrustRoot;
            s2 = s1\<lparr>emitted := emitted s1 @ [PathVerificationSucceeded requestId (req_sourceChainId request)
                      (req_sourceHeight request) (req_sourceBlockHash request) baseTrustRoot
                      (of_nat (length blockHashes)) dependencyKey]\<rparr>
        in bind_res (recordDependency K env requestId baseTrustRoot dependencyKey s2) (\<lambda>(s3, newDependency).
           Inr (resolveRequest requestId dependencyKey newDependency s3, dependencyKey, newDependency))))"

subsection \<open>Executions\<close>

text \<open>
  The storages a sequence of calls leads to. Nothing but the contract's own code writes its storage, so an
  external verifier changes it only by calling the Gateway back: the rule for a direct verification asks
  that of the verifier. A call that reverts leaves the storage as it was and is no step.
\<close>

inductive gateway_calls :: "keccak \<Rightarrow> gateway \<Rightarrow> gateway \<Rightarrow> bool" for K where
  none: "gateway_calls K s s"
| request: "gateway_calls K s s1 \<Longrightarrow> requestVerification K env c h b s1 = Inr (s2, rid) \<Longrightarrow> gateway_calls K s s2"
| path: "gateway_calls K s s1 \<Longrightarrow> verifyPathAndRecord K env rid base blocks ws s1 = Inr (s2, r) \<Longrightarrow> gateway_calls K s s2"
| direct: "gateway_calls K s s1 \<Longrightarrow> verifyDirectAndRecord K verify env rid pf s1 = Inr (s2, r) \<Longrightarrow>
    (\<And>t c h b p t' root. verify t c h b p = Inr (t', root) \<Longrightarrow> gateway_calls K t t') \<Longrightarrow> gateway_calls K s s2"

subsection \<open>What the log says\<close>

definition dep_keys :: "sol_event list \<Rightarrow> hash list" where
  "dep_keys es = map dr_key (filter is_DependencyRecorded es)"

definition resolved_ids :: "sol_event list \<Rightarrow> hash list" where
  "resolved_ids es = map rr_requestId (filter is_RequestResolved es)"

definition requested_ids :: "sol_event list \<Rightarrow> hash list" where
  "requested_ids es = map vr_requestId (filter is_VerificationRequested es)"

lemma log_append [simp]:
  "dep_keys (es @ fs) = dep_keys es @ dep_keys fs" "resolved_ids (es @ fs) = resolved_ids es @ resolved_ids fs"
  "requested_ids (es @ fs) = requested_ids es @ requested_ids fs"
  by (simp_all add: dep_keys_def resolved_ids_def requested_ids_def)

lemma log_Nil [simp]: "dep_keys [] = []" "resolved_ids [] = []" "requested_ids [] = []"
  by (simp_all add: dep_keys_def resolved_ids_def requested_ids_def)

lemma log_Cons [simp]:
  "dep_keys (e # es) = (if is_DependencyRecorded e then dr_key e # dep_keys es else dep_keys es)"
  "resolved_ids (e # es) = (if is_RequestResolved e then rr_requestId e # resolved_ids es else resolved_ids es)"
  "requested_ids (e # es) = (if is_VerificationRequested e then vr_requestId e # requested_ids es else requested_ids es)"
  by (simp_all add: dep_keys_def resolved_ids_def requested_ids_def)

lemma log_leaf_simps [simp]:
  "log_leaf ls (TrustRootUpdated r i leaf old new anchor) = (if anchor then [leaf] else ls @ [leaf])"
  "log_leaf ls (VerificationRequested r a c h b n) = ls"
  "log_leaf ls (DirectVerificationSucceeded r c h b t k) = ls"
  "log_leaf ls (PathVerificationSucceeded r c h b t l k) = ls"
  "log_leaf ls (DependencyRecorded k r c h b t i) = ls"
  "log_leaf ls (RequestResolved r a k f t) = ls"
  by (simp_all add: log_leaf_def)

lemma tree_leaves_snoc2 [simp]: "tree_leaves (es @ [e, f]) = log_leaf (log_leaf (tree_leaves es) e) f"
  by (simp add: tree_leaves_def)

lemma gateway_more:
  assumes "commitment.more s = commitment.more t"
  shows "requests s = requests t" "requestNonce s = requestNonce t" "dependencyRecorded s = dependencyRecorded t"
    "pathTreeDepth s = pathTreeDepth t" "pathTreeCapacity s = pathTreeCapacity t" "directVerifier s = directVerifier t"
  using assms by (cases s; cases t; simp)+

text \<open>The dependencies of the tree of the active block, and where its leaves hold them.\<close>

definition log_dep :: "sol_event list \<Rightarrow> sol_event \<Rightarrow> sol_event list" where
  "log_dep ds e =
     (case e of TrustRootUpdated _ _ _ _ _ isAnchor \<Rightarrow> if isAnchor then [] else ds
      | DependencyRecorded _ _ _ _ _ _ _ \<Rightarrow> ds @ [e] | _ \<Rightarrow> ds)"

definition tree_deps :: "sol_event list \<Rightarrow> sol_event list" where
  "tree_deps es = foldl log_dep [] es"

lemma log_dep_simps [simp]:
  "log_dep ds (TrustRootUpdated r i leaf old new anchor) = (if anchor then [] else ds)"
  "log_dep ds (VerificationRequested r a c h b n) = ds"
  "log_dep ds (DirectVerificationSucceeded r c h b t k) = ds"
  "log_dep ds (PathVerificationSucceeded r c h b t l k) = ds"
  "log_dep ds (DependencyRecorded k r c h b t i) = ds @ [DependencyRecorded k r c h b t i]"
  "log_dep ds (RequestResolved r a k f t) = ds"
  by (simp_all add: log_dep_def)

lemma tree_deps_snoc [simp]:
  "tree_deps [] = []" "tree_deps (es @ [e]) = log_dep (tree_deps es) e"
  "tree_deps (es @ [e, f]) = log_dep (log_dep (tree_deps es) e) f"
  by (simp_all add: tree_deps_def)

definition dep_in_tree :: "keccak \<Rightarrow> hash list \<Rightarrow> sol_event \<Rightarrow> bool" where
  "dep_in_tree K leaves e \<longleftrightarrow>
     (\<exists>i < length leaves. dr_leafIndex e = of_nat i \<and> leaves ! i = LeafHash K (dr_sourceTrustRoot e) (dr_sourceBlockHash e))"

lemma dep_in_tree_append: "dep_in_tree K leaves e \<Longrightarrow> dep_in_tree K (leaves @ [leaf]) e"
  unfolding dep_in_tree_def by (auto simp: nth_append intro: less_SucI)

lemma dep_in_tree_new [simp]: "dep_in_tree K (leaves @ [LeafHash K root b]) (DependencyRecorded k r c h b root (of_nat (length leaves)))"
  unfolding dep_in_tree_def by (intro exI[of _ "length leaves"]) simp

text \<open>The effect of recording: nothing for a known key, otherwise one more leaf in the tree of the current block.\<close>

definition log_tree :: "keccak \<Rightarrow> gateway \<Rightarrow> bool" where
  "log_tree K s \<longleftrightarrow> block_tree K s (tree_leaves (emitted s)) \<and>
     (\<forall>e \<in> set (tree_deps (emitted s)). is_DependencyRecorded e \<and> dep_in_tree K (tree_leaves (emitted s)) e)"

lemma prepare_tree:
  assumes "log_tree K s"
    and "(if activeTreeBlock s \<noteq> block_number env
         then if block_number env = 0 then Inl ArithmeticPanic
              else beginBlockTree K env rid (paperLeaf K (currentTrustRoot s) (blockhash env (block_number env - 1))) s
         else Inr s) = Inr s1"
  obtains es where "log_tree K s1" "commitmentTreeDepth s1 = commitmentTreeDepth s" "commitment.more s1 = commitment.more s"
    "emitted s1 = emitted s @ es" "dep_keys es = []" "resolved_ids es = []" "requested_ids es = []"
    "activeTreeBlock s1 = block_number env"
    "activeTreeBlock s \<noteq> block_number env \<Longrightarrow>
       tree_leaves (emitted s1) = [LeafHash K (currentTrustRoot s) (blockhash env (block_number env - 1))]"
    "activeTreeBlock s = block_number env \<Longrightarrow> s1 = s"
proof (cases "activeTreeBlock s = block_number env")
  case True
  with assms show ?thesis by (intro that[of "[]"]) auto
next
  case False
  let ?leaf = "LeafHash K (currentTrustRoot s) (blockhash env (block_number env - 1))"
  have begun: "beginBlockTree K env rid ?leaf s = Inr s1"
    using assms(2) False by (simp split: if_splits)
  have shape: "tree_shape K s" using assms(1) by (simp add: log_tree_def block_tree_def)
  obtain s' where "beginBlockTree K env rid ?leaf s = Inr s'" "block_tree K s' [?leaf]"
    "commitmentTreeDepth s' = commitmentTreeDepth s" "activeTreeBlock s' = block_number env"
    "commitment.more s' = commitment.more s"
    "emitted s' = emitted s @ [TrustRootUpdated rid 0 ?leaf (currentTrustRoot s) (currentTrustRoot s') True]"
    by (rule beginBlockTree_ok[OF shape])
  with begun False show ?thesis
    by (intro that[of "[TrustRootUpdated rid 0 ?leaf (currentTrustRoot s) (currentTrustRoot s') True]"])
      (simp_all add: log_tree_def)
qed

lemma recordDependency_effect:
  assumes "log_tree K s" "recordDependency K env rid root key s = Inr (s', new)"
  obtains es where "log_tree K s'" "commitmentTreeDepth s' = commitmentTreeDepth s"
    "emitted s' = emitted s @ es" "dep_keys es = (if new then [key] else [])" "resolved_ids es = []" "requested_ids es = []"
    "new \<longleftrightarrow> \<not> dependencyRecorded s key"
    "requests s' = requests s" "requestNonce s' = requestNonce s" "pathTreeDepth s' = pathTreeDepth s"
    "pathTreeCapacity s' = pathTreeCapacity s" "directVerifier s' = directVerifier s"
    "dependencyRecorded s' = (dependencyRecorded s)(key := True)"
    "new \<Longrightarrow> \<exists>ds i. tree_deps (emitted s') = ds @ [DependencyRecorded key rid (req_sourceChainId (requests s rid)) (req_sourceHeight (requests s rid)) (req_sourceBlockHash (requests s rid)) root i]"
proof (cases "dependencyRecorded s key")
  case True
  with assms show ?thesis by (intro that[of "[]"]) (auto simp: recordDependency_def fun_upd_idem)
next
  case False
  let ?rq = "requests s rid"
  let ?leaf = "LeafHash K root (req_sourceBlockHash ?rq)"
  obtain s1 where s1: "(if activeTreeBlock s \<noteq> block_number env
         then if block_number env = 0 then Inl ArithmeticPanic
              else beginBlockTree K env rid (paperLeaf K (currentTrustRoot s) (blockhash env (block_number env - 1))) s
         else Inr s) = Inr s1"
    and rest: "(let request = requests s1 rid; dependencyLeaf = paperLeaf K root (req_sourceBlockHash request)
      in bind_res (appendLeaf K env rid dependencyLeaf False s1) (\<lambda>(s2, leafIndex).
         Inr (s2\<lparr>dependencyRecorded := (dependencyRecorded s2)(key := True),
                 emitted := emitted s2 @ [DependencyRecorded key rid (req_sourceChainId request)
                   (req_sourceHeight request) (req_sourceBlockHash request) root leafIndex]\<rparr>, True))) = Inr (s', new)"
    using assms(2) False unfolding recordDependency_def by (simp only: if_False bind_res_eq_Inr) blast
  obtain es where p: "log_tree K s1" "commitmentTreeDepth s1 = commitmentTreeDepth s" "commitment.more s1 = commitment.more s"
    "emitted s1 = emitted s @ es" "dep_keys es = []" "resolved_ids es = []" "requested_ids es = []"
    using prepare_tree[OF assms(1) s1] by metis
  note more = gateway_more[OF p(3)]
  let ?ls = "tree_leaves (emitted s1)"
  have tree: "block_tree K s1 ?ls" using p(1) by (simp add: log_tree_def)
  have "length ?ls \<noteq> 2 ^ unat (commitmentTreeDepth s1)"
    using rest appendLeaf_full[OF tree] by (auto simp: Let_def)
  then have room: "length ?ls < 2 ^ unat (commitmentTreeDepth s1)" using tree by (simp add: block_tree_def)
  obtain s2 where s2: "appendLeaf K env rid ?leaf False s1 = Inr (s2, of_nat (length ?ls))" "block_tree K s2 (?ls @ [?leaf])"
    "commitmentTreeDepth s2 = commitmentTreeDepth s1" "commitment.more s2 = commitment.more s1"
    "emitted s2 = emitted s1 @ [TrustRootUpdated rid (of_nat (length ?ls)) ?leaf (currentTrustRoot s1) (currentTrustRoot s2) False]"
    by (rule appendLeaf_room[OF tree room, of env rid ?leaf False])
  let ?ev = "DependencyRecorded key rid (req_sourceChainId ?rq) (req_sourceHeight ?rq) (req_sourceBlockHash ?rq) root (of_nat (length ?ls))"
  have s': "s' = s2\<lparr>dependencyRecorded := (dependencyRecorded s2)(key := True), emitted := emitted s2 @ [?ev]\<rparr>" and new: "new"
    using rest s2(1) by (simp_all add: Let_def more)
  note more2 = gateway_more[OF s2(4)]
  have "block_tree K s' (?ls @ [?leaf])" using s2(2) by (simp add: s' block_tree_def tree_shape_def)
  moreover have "tree_leaves (emitted s') = ?ls @ [?leaf]" by (simp add: s' s2(5))
  moreover have "tree_deps (emitted s') = tree_deps (emitted s1) @ [?ev]" by (simp add: s' s2(5))
  moreover have "is_DependencyRecorded e \<and> dep_in_tree K (?ls @ [?leaf]) e" if "e \<in> set (tree_deps (emitted s1))" for e
    using p(1) that dep_in_tree_append[of K ?ls e ?leaf] by (simp add: log_tree_def)
  ultimately have "log_tree K s'" "\<exists>ds i. tree_deps (emitted s') = ds @ [DependencyRecorded key rid (req_sourceChainId ?rq) (req_sourceHeight ?rq) (req_sourceBlockHash ?rq) root i]"
    by (simp_all add: log_tree_def)
  then show ?thesis
    using new False p s2 by (intro that[of "es @ [TrustRootUpdated rid (of_nat (length ?ls)) ?leaf (currentTrustRoot s1) (currentTrustRoot s2) False, ?ev]"])
      (simp_all add: s' more more2)
qed

subsection \<open>The invariant of the storage\<close>

definition gateway_inv :: "keccak \<Rightarrow> gateway \<Rightarrow> bool" where
  "gateway_inv K s \<longleftrightarrow>
     log_tree K s \<and> pathTreeDepth s = commitmentTreeDepth s \<and> pathTreeCapacity s = commitmentTreeCapacity s \<and>
     (\<forall>k. dependencyRecorded s k \<longleftrightarrow> k \<in> set (dep_keys (emitted s))) \<and> distinct (dep_keys (emitted s)) \<and>
     (\<forall>i. req_exists (requests s i) \<longleftrightarrow> i \<in> set (requested_ids (emitted s))) \<and> distinct (requested_ids (emitted s)) \<and>
     (\<forall>i. req_resolved (requests s i) \<longleftrightarrow> i \<in> set (resolved_ids (emitted s))) \<and> distinct (resolved_ids (emitted s)) \<and>
     (\<forall>i. req_resolved (requests s i) \<longrightarrow> req_exists (requests s i) \<and> \<not> req_processing (requests s i)) \<and>
     (\<forall>i. req_processing (requests s i) \<longrightarrow> req_exists (requests s i))"

text \<open>How a later storage differs: the log grows, requests in progress and resolved requests do not change, and no request changes its content.\<close>

definition same_content :: "verification_request \<Rightarrow> verification_request \<Rightarrow> bool" where
  "same_content r r' \<longleftrightarrow> req_requester r' = req_requester r \<and> req_sourceChainId r' = req_sourceChainId r \<and>
     req_sourceHeight r' = req_sourceHeight r \<and> req_sourceBlockHash r' = req_sourceBlockHash r \<and> req_exists r'"

definition later :: "gateway \<Rightarrow> gateway \<Rightarrow> bool" where
  "later s s' \<longleftrightarrow>
     (\<exists>es. emitted s' = emitted s @ es) \<and> commitmentTreeDepth s' = commitmentTreeDepth s \<and> directVerifier s' = directVerifier s \<and>
     (\<forall>i. req_processing (requests s' i) \<longleftrightarrow> req_processing (requests s i)) \<and>
     (\<forall>i. req_processing (requests s i) \<or> req_resolved (requests s i) \<longrightarrow> requests s' i = requests s i) \<and>
     (\<forall>i. req_exists (requests s i) \<longrightarrow> same_content (requests s i) (requests s' i)) \<and>
     (\<forall>k. dependencyRecorded s k \<longrightarrow> dependencyRecorded s' k)"

lemma later_refl [simp]: "later s s"
  by (simp add: later_def same_content_def)

lemma later_trans:
  assumes "later s t" "later t u"
  shows "later s u"
proof -
  have "same_content (requests s i) (requests u i)" if "req_exists (requests s i)" for i
    using assms that unfolding later_def same_content_def by simp
  moreover have "requests u i = requests s i" if "req_processing (requests s i) \<or> req_resolved (requests s i)" for i
    using assms that unfolding later_def by metis
  ultimately show ?thesis using assms unfolding later_def by (metis append.assoc)
qed

lemma block_tree_cong:
  fixes s s' :: gateway
  assumes "commitment.truncate s = (commitment.truncate s')\<lparr>emitted := emitted s\<rparr>"
  shows "block_tree K s leaves = block_tree K s' leaves"
  using assms by (cases s; cases s') (simp add: block_tree_def tree_shape_def commitment.truncate_def)

lemma log_tree_neutral:
  assumes "log_tree K s" "tree_leaves es = tree_leaves (emitted s)" "tree_deps es = tree_deps (emitted s)"
  shows "log_tree K (s\<lparr>emitted := es\<rparr>)"
  using assms block_tree_cong[of "s\<lparr>emitted := es\<rparr>" s K] by (simp add: log_tree_def commitment.truncate_def)

lemma log_tree_gateway_fields [simp]:
  "log_tree K (s\<lparr>requests := r\<rparr>) = log_tree K s" "log_tree K (s\<lparr>requestNonce := n\<rparr>) = log_tree K s"
  "log_tree K (s\<lparr>dependencyRecorded := d\<rparr>) = log_tree K s"
  by (simp_all add: log_tree_def block_tree_def tree_shape_def)

lemma new_gateway_inv:
  assumes "new_gateway K has_code depth verifier root = Inr s"
  shows "gateway_inv K s" "commitmentTreeDepth s = depth" "emitted s = []" "\<not> req_processing (requests s i)"
proof -
  obtain base d cap where b: "new_commitment K depth root = Inr base" "new_path_verifier depth = Inr (d, cap)"
    "s = commitment.extend base \<lparr>pathTreeDepth = d, pathTreeCapacity = cap, directVerifier = verifier,
       requests = (\<lambda>_. zero_request), requestNonce = (\<lambda>_. 0), dependencyRecorded = (\<lambda>_. False)\<rparr>"
    using assms by (auto simp: new_gateway_def split: if_splits)
  note n = new_commitment_tree[OF b(1)]
  have "block_tree K s []" using n(1) by (simp add: b(3) commitment.extend_def block_tree_def tree_shape_def)
  then show "gateway_inv K s" "commitmentTreeDepth s = depth" "emitted s = []" "\<not> req_processing (requests s i)"
    using n b(2) by (simp_all add: gateway_inv_def log_tree_def b(3) commitment.extend_def zero_request_def
        new_path_verifier_Inr block_tree_def tree_shape_def)
qed

lemma requestVerification_inv:
  assumes "gateway_inv K s" "requestVerification K env c h b s = Inr (s', rid)"
  shows "gateway_inv K s'" "later s s'"
proof -
  let ?nonce = "requestNonce s (msg_sender env)"
  let ?ev = "VerificationRequested rid (msg_sender env) c h b ?nonce"
  let ?rq = "\<lparr>req_requester = msg_sender env, req_sourceChainId = c, req_sourceHeight = h, req_sourceBlockHash = b,
    req_exists = True, req_resolved = False, req_processing = False\<rparr>"
  have fresh: "\<not> req_exists (requests s rid)"
    and s': "s' = s\<lparr>requestNonce := (requestNonce s)(msg_sender env := ?nonce + 1),
      requests := (requests s)(rid := ?rq), emitted := emitted s @ [?ev]\<rparr>"
    using assms(2) by (auto simp: requestVerification_def Let_def split: if_splits)
  have tree: "log_tree K s'" using assms(1) unfolding s'
    by (intro log_tree_neutral) (simp_all add: gateway_inv_def)
  show "gateway_inv K s'" using assms(1) fresh tree unfolding gateway_inv_def by (auto simp: s')
  show "later s s'" using assms(1) fresh unfolding gateway_inv_def later_def same_content_def by (auto simp: s')
qed

lemma beginRequest_Inr:
  "beginRequest rid s = Inr s1 \<longleftrightarrow>
     req_exists (requests s rid) \<and> \<not> req_resolved (requests s rid) \<and> \<not> req_processing (requests s rid) \<and>
     s1 = s\<lparr>requests := (requests s)(rid := (requests s rid)\<lparr>req_processing := True\<rparr>)\<rparr>"
  by (auto simp: beginRequest_def Let_def)

lemma beginRequest_inv:
  assumes "gateway_inv K s" "beginRequest rid s = Inr s1"
  shows "gateway_inv K s1"
  using assms unfolding gateway_inv_def by (auto simp: beginRequest_Inr)

text \<open>Recording and resolving, the common end of both verifications, from a storage \<open>t\<close> in which the request is in progress.\<close>

definition neutral :: "sol_event \<Rightarrow> bool" where
  "neutral e \<longleftrightarrow> is_DirectVerificationSucceeded e \<or> is_PathVerificationSucceeded e"

lemma neutral_log:
  assumes "neutral e"
  shows "\<not> is_DependencyRecorded e" "\<not> is_RequestResolved e" "\<not> is_VerificationRequested e" "log_leaf ls e = ls" "log_dep ds e = ds"
  using assms by (cases e; simp add: neutral_def)+

lemma finish_inv:
  assumes inv: "gateway_inv K t" and proc: "req_processing (requests t rid)" and ev: "neutral e"
    and rec: "recordDependency K env rid root key (t\<lparr>emitted := emitted t @ [e]\<rparr>) = Inr (t', new)"
  shows "gateway_inv K (resolveRequest rid key new t')"
    and "\<exists>es. emitted (resolveRequest rid key new t') = emitted t @ es"
    and "requests (resolveRequest rid key new t') = (requests t)(rid := (requests t rid)\<lparr>req_processing := False, req_resolved := True\<rparr>)"
    and "dependencyRecorded (resolveRequest rid key new t') = (dependencyRecorded t)(key := True)"
    and "commitmentTreeDepth (resolveRequest rid key new t') = commitmentTreeDepth t"
    and "directVerifier (resolveRequest rid key new t') = directVerifier t"
    and "currentTrustRoot (resolveRequest rid key new t') = currentTrustRoot t'"
    and "new \<longleftrightarrow> \<not> dependencyRecorded t key"
    and "new \<Longrightarrow> \<exists>ds i. tree_deps (emitted (resolveRequest rid key new t')) = ds @ [DependencyRecorded key rid (req_sourceChainId (requests t rid)) (req_sourceHeight (requests t rid)) (req_sourceBlockHash (requests t rid)) root i]"
proof -
  note nl = neutral_log[OF ev]
  let ?u = "t\<lparr>emitted := emitted t @ [e]\<rparr>"
  have "log_tree K ?u" using inv nl(4,5) by (intro log_tree_neutral) (simp_all add: gateway_inv_def)
  then obtain es where r: "log_tree K t'" "commitmentTreeDepth t' = commitmentTreeDepth t"
    "emitted t' = emitted t @ [e] @ es" "dep_keys es = (if new then [key] else [])" "resolved_ids es = []" "requested_ids es = []"
    "new \<longleftrightarrow> \<not> dependencyRecorded t key" "requests t' = requests t" "requestNonce t' = requestNonce t"
    "pathTreeDepth t' = pathTreeDepth t" "pathTreeCapacity t' = pathTreeCapacity t" "directVerifier t' = directVerifier t"
    "dependencyRecorded t' = (dependencyRecorded t)(key := True)"
    "new \<Longrightarrow> \<exists>ds i. tree_deps (emitted t') = ds @ [DependencyRecorded key rid (req_sourceChainId (requests t rid)) (req_sourceHeight (requests t rid)) (req_sourceBlockHash (requests t rid)) root i]"
    by (rule recordDependency_effect[OF _ rec]) simp
  define s' where "s' = resolveRequest rid key new t'"
  let ?ev = "RequestResolved rid (req_requester (requests t rid)) key new (currentTrustRoot t')"
  have s': "s' = t'\<lparr>requests := (requests t)(rid := (requests t rid)\<lparr>req_processing := False, req_resolved := True\<rparr>),
    emitted := emitted t' @ [?ev]\<rparr>"
    by (simp add: s'_def resolveRequest_def Let_def r(8))
  have tree: "log_tree K s'" unfolding s' by (intro log_tree_neutral) (simp_all add: r(1))
  have cap: "commitmentTreeCapacity t' = commitmentTreeCapacity t"
    using r(1,2) inv by (simp add: log_tree_def block_tree_def tree_shape_def gateway_inv_def)
  have logs: "dep_keys (emitted s') = dep_keys (emitted t) @ (if new then [key] else [])"
    "resolved_ids (emitted s') = resolved_ids (emitted t) @ [rid]" "requested_ids (emitted s') = requested_ids (emitted t)"
    using r(3-6) nl(1-3) by (simp_all add: s')
  have rest: "pathTreeDepth s' = commitmentTreeDepth s'" "pathTreeCapacity s' = commitmentTreeCapacity s'"
    using inv r(2,10,11) cap by (simp_all add: s' gateway_inv_def)
  have deps: "(\<forall>k. dependencyRecorded s' k \<longleftrightarrow> k \<in> set (dep_keys (emitted s'))) \<and> distinct (dep_keys (emitted s'))"
    using inv r(7,13) unfolding logs gateway_inv_def by (auto simp: s')
  have reqs: "(\<forall>i. req_exists (requests s' i) \<longleftrightarrow> i \<in> set (requested_ids (emitted s'))) \<and> distinct (requested_ids (emitted s'))"
    using inv unfolding logs gateway_inv_def by (simp add: s')
  have res: "(\<forall>i. req_resolved (requests s' i) \<longleftrightarrow> i \<in> set (resolved_ids (emitted s'))) \<and> distinct (resolved_ids (emitted s'))"
    using inv proc unfolding logs gateway_inv_def by (auto simp: s')
  have flags: "(\<forall>i. req_resolved (requests s' i) \<longrightarrow> req_exists (requests s' i) \<and> \<not> req_processing (requests s' i)) \<and>
     (\<forall>i. req_processing (requests s' i) \<longrightarrow> req_exists (requests s' i))"
    using inv proc unfolding gateway_inv_def by (auto simp: s')
  show "gateway_inv K (resolveRequest rid key new t')"
    using tree rest deps reqs res flags unfolding gateway_inv_def s'_def by blast
  show "\<exists>es. emitted (resolveRequest rid key new t') = emitted t @ es"
    and "requests (resolveRequest rid key new t') = (requests t)(rid := (requests t rid)\<lparr>req_processing := False, req_resolved := True\<rparr>)"
    and "dependencyRecorded (resolveRequest rid key new t') = (dependencyRecorded t)(key := True)"
    and "commitmentTreeDepth (resolveRequest rid key new t') = commitmentTreeDepth t"
    and "directVerifier (resolveRequest rid key new t') = directVerifier t"
    and "currentTrustRoot (resolveRequest rid key new t') = currentTrustRoot t'"
    and "new \<longleftrightarrow> \<not> dependencyRecorded t key"
    unfolding s'_def[symmetric] using r by (simp_all add: s')
  show "\<exists>ds i. tree_deps (emitted (resolveRequest rid key new t')) = ds @ [DependencyRecorded key rid (req_sourceChainId (requests t rid)) (req_sourceHeight (requests t rid)) (req_sourceBlockHash (requests t rid)) root i]"
    if new using r(14)[OF that] unfolding s'_def[symmetric] by (simp add: s')
qed

lemma finish_later:
  assumes "later s1 t" "beginRequest rid s = Inr s1"
    and "\<exists>es. emitted s' = emitted t @ es" "dependencyRecorded s' = (dependencyRecorded t)(key := True)"
    and "requests s' = (requests t)(rid := (requests t rid)\<lparr>req_processing := False, req_resolved := True\<rparr>)"
    and "commitmentTreeDepth s' = commitmentTreeDepth t" "directVerifier s' = directVerifier t"
  shows "later s s'"
proof -
  have b: "req_exists (requests s rid)" "\<not> req_resolved (requests s rid)" "\<not> req_processing (requests s rid)"
    "s1 = s\<lparr>requests := (requests s)(rid := (requests s rid)\<lparr>req_processing := True\<rparr>)\<rparr>"
    using assms(2) by (simp_all add: beginRequest_Inr)
  have l: "emitted s1 = emitted s" "\<And>i. i \<noteq> rid \<Longrightarrow> requests s1 i = requests s i"
    "requests s1 rid = (requests s rid)\<lparr>req_processing := True\<rparr>" "dependencyRecorded s1 = dependencyRecorded s"
    "commitmentTreeDepth s1 = commitmentTreeDepth s" "directVerifier s1 = directVerifier s"
    by (simp_all add: b(4))
  have rid: "requests t rid = requests s1 rid" using assms(1) l(3) unfolding later_def by simp
  have "\<exists>es. emitted s' = emitted s @ es" using assms(1,3) l(1) unfolding later_def by (metis append.assoc)
  moreover have "\<forall>i. req_processing (requests s' i) \<longleftrightarrow> req_processing (requests s i)"
    using assms(1,5) l(2) b(3) unfolding later_def by simp
  moreover have "\<forall>i. req_processing (requests s i) \<or> req_resolved (requests s i) \<longrightarrow> requests s' i = requests s i"
    using assms(1,5) l(2) b(2,3) unfolding later_def by auto
  moreover have "same_content (requests s i) (requests s' i)" if "req_exists (requests s i)" for i
    using assms(1,5) l(2,3) b(1) rid that unfolding later_def same_content_def by (cases "i = rid") simp_all
  ultimately show ?thesis using assms(1,4,6,7) l(4-6) unfolding later_def by simp
qed

lemma verifyPathAndRecord_InrE:
  assumes "verifyPathAndRecord K env rid base blocks ws s = Inr (s', key, new)"
  obtains s1 t' where "beginRequest rid s = Inr s1" "blocks \<noteq> []" "hd blocks = req_sourceBlockHash (requests s rid)"
    "sol_verifyPath K (pathTreeDepth s) (pathTreeCapacity s) (currentTrustRoot s) base blocks ws = Inr (currentTrustRoot s)"
    "key = computeDependencyKey K (req_sourceChainId (requests s rid)) (req_sourceHeight (requests s rid))
       (req_sourceBlockHash (requests s rid)) base"
    "recordDependency K env rid base key (s1\<lparr>emitted := emitted s1 @ [PathVerificationSucceeded rid
       (req_sourceChainId (requests s rid)) (req_sourceHeight (requests s rid)) (req_sourceBlockHash (requests s rid)) base
       (of_nat (length blocks)) key]\<rparr>) = Inr (t', new)"
    "s' = resolveRequest rid key new t'"
proof -
  obtain s1 where s1: "beginRequest rid s = Inr s1" using assms by (auto simp: verifyPathAndRecord_def)
  have f: "req_sourceChainId (requests s1 rid) = req_sourceChainId (requests s rid)"
    "req_sourceHeight (requests s1 rid) = req_sourceHeight (requests s rid)"
    "req_sourceBlockHash (requests s1 rid) = req_sourceBlockHash (requests s rid)"
    "pathTreeDepth s1 = pathTreeDepth s" "pathTreeCapacity s1 = pathTreeCapacity s" "currentTrustRoot s1 = currentTrustRoot s"
    using s1 by (auto simp: beginRequest_Inr)
  obtain r where "blocks \<noteq> []" "hd blocks = req_sourceBlockHash (requests s rid)"
    and v: "sol_verifyPath K (pathTreeDepth s) (pathTreeCapacity s) (currentTrustRoot s) base blocks ws = Inr r"
    using assms s1 by (auto simp: verifyPathAndRecord_def Let_def f split: if_splits)
  moreover from v have "r = currentTrustRoot s" by (auto simp: sol_verifyPath_def Let_def split: if_splits)
  ultimately show ?thesis
    using assms s1 by (auto simp: verifyPathAndRecord_def Let_def f intro: that split: if_splits)
qed

lemma verifyDirectAndRecord_InrE:
  assumes "verifyDirectAndRecord K verify env rid pf s = Inr (s', key, new)"
  obtains s1 t root t' where "beginRequest rid s = Inr s1"
    "verify s1 (req_sourceChainId (requests s rid)) (req_sourceHeight (requests s rid)) (req_sourceBlockHash (requests s rid)) pf = Inr (t, root)"
    "key = computeDependencyKey K (req_sourceChainId (requests t rid)) (req_sourceHeight (requests t rid))
       (req_sourceBlockHash (requests t rid)) root"
    "recordDependency K env rid root key (t\<lparr>emitted := emitted t @ [DirectVerificationSucceeded rid
       (req_sourceChainId (requests t rid)) (req_sourceHeight (requests t rid)) (req_sourceBlockHash (requests t rid)) root key]\<rparr>)
       = Inr (t', new)"
    "s' = resolveRequest rid key new t'"
proof -
  obtain s1 where s1: "beginRequest rid s = Inr s1" using assms by (auto simp: verifyDirectAndRecord_def)
  have "req_sourceChainId (requests s1 rid) = req_sourceChainId (requests s rid)"
    "req_sourceHeight (requests s1 rid) = req_sourceHeight (requests s rid)"
    "req_sourceBlockHash (requests s1 rid) = req_sourceBlockHash (requests s rid)"
    using s1 by (auto simp: beginRequest_Inr)
  then show ?thesis using assms s1 by (auto simp: verifyDirectAndRecord_def Let_def intro: that)
qed

lemma gateway_calls_inv:
  assumes "gateway_calls K s s'" "gateway_inv K s"
  shows "gateway_inv K s' \<and> later s s'"
  using assms
proof (induction rule: gateway_calls.induct)
  case (request s s1 env c h b s2 rid)
  then show ?case using requestVerification_inv[of K s1 env c h b s2 rid] later_trans by blast
next
  case (path s s1 env rid base blocks ws s2 r)
  obtain key new where r: "r = (key, new)" by force
  obtain u t' where p: "beginRequest rid s1 = Inr u"
    "recordDependency K env rid base key (u\<lparr>emitted := emitted u @ [PathVerificationSucceeded rid
       (req_sourceChainId (requests s1 rid)) (req_sourceHeight (requests s1 rid)) (req_sourceBlockHash (requests s1 rid)) base
       (of_nat (length blocks)) key]\<rparr>) = Inr (t', new)" "s2 = resolveRequest rid key new t'"
    by (rule verifyPathAndRecord_InrE[OF path.hyps(2)[unfolded r]])
  have inv: "gateway_inv K u" using path.IH path.prems beginRequest_inv[OF _ p(1)] by blast
  have proc: "req_processing (requests u rid)" using p(1) by (auto simp: beginRequest_Inr)
  note f = finish_inv[OF inv proc _ p(2)]
  have "later s1 s2" unfolding p(3)
    by (rule finish_later[OF later_refl p(1) f(2,4,3,5,6)]) (simp_all add: neutral_def)
  then show ?case using f(1) path.IH path.prems later_trans unfolding p(3) by (auto simp: neutral_def)
next
  case (direct s s1 verify env rid pf s2 r)
  obtain key new where r: "r = (key, new)" by force
  obtain u t root t' where p: "beginRequest rid s1 = Inr u"
    "verify u (req_sourceChainId (requests s1 rid)) (req_sourceHeight (requests s1 rid)) (req_sourceBlockHash (requests s1 rid)) pf = Inr (t, root)"
    "recordDependency K env rid root key (t\<lparr>emitted := emitted t @ [DirectVerificationSucceeded rid
       (req_sourceChainId (requests t rid)) (req_sourceHeight (requests t rid)) (req_sourceBlockHash (requests t rid)) root key]\<rparr>)
       = Inr (t', new)" "s2 = resolveRequest rid key new t'"
    by (rule verifyDirectAndRecord_InrE[OF direct.hyps(2)[unfolded r]])
  have "gateway_inv K u" using direct.IH(1) direct.prems beginRequest_inv[OF _ p(1)] by blast
  then have inv: "gateway_inv K t" and mid: "later u t" using direct.IH(2)[OF p(2)] by blast+
  have proc: "req_processing (requests t rid)" using p(1) mid by (auto simp: beginRequest_Inr later_def)
  note f = finish_inv[OF inv proc _ p(3)]
  have "later s1 s2" unfolding p(4)
    by (rule finish_later[OF mid p(1) f(2,4,3,5,6)]) (simp_all add: neutral_def)
  then show ?case using f(1) direct.IH(1) direct.prems later_trans unfolding p(4) by (auto simp: neutral_def)
qed simp

subsection \<open>Properties\<close>

lemma reachable_inv:
  assumes "new_gateway K has_code depth verifier root = Inr s0" "gateway_calls K s0 s"
  shows "gateway_inv K s" "commitmentTreeDepth s = depth" "\<not> req_processing (requests s i)"
    "1 \<le> unat depth" "unat depth \<le> 32"
    "block_tree K s (tree_leaves (emitted s)) \<and> commitmentTreeDepth s = depth"
proof -
  note n = new_gateway_inv[OF assms(1)]
  note c = gateway_calls_inv[OF assms(2) n(1)]
  show inv: "gateway_inv K s" and d: "commitmentTreeDepth s = depth" and "\<not> req_processing (requests s i)"
    using c n(2,4) by (simp_all add: later_def)
  then show "1 \<le> unat depth" "unat depth \<le> 32" "block_tree K s (tree_leaves (emitted s)) \<and> commitmentTreeDepth s = depth"
    using c by (auto simp: gateway_inv_def log_tree_def block_tree_def tree_shape_def)
qed

lemma one_hop:
  "RootFromWitness K (LeafHash K base b) i sibs depth = Inr home \<Longrightarrow>
     VerifyPath K base [b] [\<lparr>leafIndex = i, siblings = sibs\<rparr>] home depth = Inr ()"
  by (auto simp: VerifyPath_def RootFromWitness_def validateDepth_def split: if_splits)

text \<open>
  C4. The Gateway commits to exactly the leaves it reports: in every storage reachable from a constructor,
  however direct and path verifications, re-entrant ones included, and requests follow each other, the
  \<open>TrustRootUpdated\<close> events since the last anchor list the leaves of the active tree, in order, \<open>currentTrustRoot\<close>
  is their Merkle root once there is a leaf, and their number is \<open>currentLeafCount\<close> and within the capacity.
\<close>

theorem gateway_root_commits_log:
  assumes "new_gateway K has_code depth verifier root = Inr s0" "gateway_calls K s0 s"
  shows "unat (currentLeafCount s) = length (tree_leaves (emitted s)) \<and>
    length (tree_leaves (emitted s)) \<le> 2 ^ unat depth \<and>
    (tree_leaves (emitted s) = [] \<or> currentTrustRoot s = merkle_root K (unat depth) (tree_leaves (emitted s)))"
  using reachable_inv(6)[OF assms] by (auto simp: block_tree_def)

text \<open>
  C22. What the Gateway recorded can be proved to it: every dependency recorded in the active tree of a reachable
  storage, by a direct or by a path verification, has a one-hop path proof, with the leaf index its
  \<open>DependencyRecorded\<close> event reports, that the Go verifier accepts against the current TrustRoot.
\<close>

theorem recorded_dependency_provable:
  assumes "new_gateway K has_code depth verifier root = Inr s0" "gateway_calls K s0 s" "e \<in> set (tree_deps (emitted s))"
  shows "is_DependencyRecorded e \<and> (\<exists>w. leafIndex w = dr_leafIndex e \<and>
    VerifyPath K (dr_sourceTrustRoot e) [dr_sourceBlockHash e] [w] (currentTrustRoot s) depth = Inr ())"
proof -
  note r = reachable_inv[OF assms(1,2)]
  have e: "is_DependencyRecorded e" "dep_in_tree K (tree_leaves (emitted s)) e"
    using r(1) assms(3) by (simp_all add: gateway_inv_def log_tree_def)
  then obtain i where i: "i < length (tree_leaves (emitted s))" "dr_leafIndex e = of_nat i"
    "tree_leaves (emitted s) ! i = LeafHash K (dr_sourceTrustRoot e) (dr_sourceBlockHash e)"
    by (auto simp: dep_in_tree_def)
  then have "RootFromWitness K (LeafHash K (dr_sourceTrustRoot e) (dr_sourceBlockHash e)) (dr_leafIndex e)
      (merkle_path K (unat depth) i (tree_leaves (emitted s))) depth = Inr (currentTrustRoot s)"
    using sol_tree.member_witness[OF r(6) i(1)] by simp
  from one_hop[OF this] e(1) show ?thesis by force
qed

text \<open>
  C19. Requests are resolved at most once and dependencies recorded at most once: in every reachable storage no
  request is in progress, the requests marked resolved are exactly those with a \<open>RequestResolved\<close> event, each has
  one such event and was requested before, the recorded dependency keys are exactly those with a
  \<open>DependencyRecorded\<close> event, each with one, and a further verification of a resolved request reverts.
\<close>

theorem gateway_resolves_once:
  assumes "new_gateway K has_code depth verifier root = Inr s0" "gateway_calls K s0 s"
  shows "distinct (resolved_ids (emitted s)) \<and> {i. requestResolved s i} = set (resolved_ids (emitted s)) \<and>
    set (resolved_ids (emitted s)) \<subseteq> set (requested_ids (emitted s)) \<and> distinct (requested_ids (emitted s)) \<and>
    distinct (dep_keys (emitted s)) \<and> {k. dependencyRecorded s k} = set (dep_keys (emitted s)) \<and>
    {i. req_processing (getRequest s i)} = {} \<and>
    (\<forall>i \<in> set (resolved_ids (emitted s)). verifyDirectAndRecord K verify env i pf s = Inl RequestAlreadyResolved \<and>
       verifyPathAndRecord K env i base blocks ws s = Inl RequestAlreadyResolved)"
proof -
  note r = reachable_inv[OF assms]
  have i: "distinct (resolved_ids (emitted s))" "\<And>i. req_resolved (requests s i) \<longleftrightarrow> i \<in> set (resolved_ids (emitted s))"
    "\<And>i. req_exists (requests s i) \<longleftrightarrow> i \<in> set (requested_ids (emitted s))" "distinct (requested_ids (emitted s))"
    "distinct (dep_keys (emitted s))" "\<And>k. dependencyRecorded s k \<longleftrightarrow> k \<in> set (dep_keys (emitted s))"
    "\<And>i. req_resolved (requests s i) \<Longrightarrow> req_exists (requests s i)"
    using r(1) unfolding gateway_inv_def by blast+
  have "beginRequest i s = Inl RequestAlreadyResolved" if "i \<in> set (resolved_ids (emitted s))" for i
    using i(2,7)[of i] that by (simp add: beginRequest_def Let_def)
  then have rev: "\<forall>i \<in> set (resolved_ids (emitted s)). verifyDirectAndRecord K verify env i pf s = Inl RequestAlreadyResolved \<and>
       verifyPathAndRecord K env i base blocks ws s = Inl RequestAlreadyResolved"
    by (simp add: verifyDirectAndRecord_def verifyPathAndRecord_def)
  have "{i. requestResolved s i} = set (resolved_ids (emitted s))" "{k. dependencyRecorded s k} = set (dep_keys (emitted s))"
    "{i. req_processing (getRequest s i)} = {}"
    using i(2,6) r(3) by (simp_all add: requestResolved_def getRequest_def set_eq_iff)
  moreover have "set (resolved_ids (emitted s)) \<subseteq> set (requested_ids (emitted s))"
    using i(2,3,7) by blast
  ultimately show ?thesis using i(1,4,5) rev by blast
qed

text \<open>
  C20. Re-entrancy does not break a verification in progress: from the storage in which \<open>_beginRequest\<close> has marked
  a request, no sequence of calls a malicious verifier makes, to any depth, changes that request, resolves it,
  or starts it again; each attempt to verify it reverts with \<open>RequestInProgress\<close>.
\<close>

theorem gateway_reentrancy_safe:
  assumes "new_gateway K has_code depth verifier root = Inr s0" "gateway_calls K s0 s"
    and "beginRequest i s = Inr t" "gateway_calls K t t'"
  shows "getRequest t' i = getRequest t i \<and> i \<notin> set (resolved_ids (emitted t')) \<and>
    verifyDirectAndRecord K verify env i pf t' = Inl RequestInProgress \<and>
    verifyPathAndRecord K env i base blocks ws t' = Inl RequestInProgress"
proof -
  have inv: "gateway_inv K t" by (rule beginRequest_inv[OF reachable_inv(1)[OF assms(1,2)] assms(3)])
  have t: "req_processing (requests t i)" "req_exists (requests t i)" "\<not> req_resolved (requests t i)"
    using assms(3) by (auto simp: beginRequest_Inr)
  have c: "gateway_inv K t'" "requests t' i = requests t i"
    using gateway_calls_inv[OF assms(4) inv] t(1) by (auto simp: later_def)
  have "i \<notin> set (resolved_ids (emitted t'))" using c t(3) unfolding gateway_inv_def by metis
  moreover have "beginRequest i t' = Inl RequestInProgress" using t by (simp add: beginRequest_def Let_def c(2))
  ultimately show ?thesis
    by (simp add: getRequest_def c(2) verifyDirectAndRecord_def verifyPathAndRecord_def)
qed

text \<open>Recording succeeds exactly when the key is known or the tree of the block has room.\<close>

definition has_room :: "sol_env \<Rightarrow> gateway \<Rightarrow> bool" where
  "has_room env s \<longleftrightarrow>
     (if activeTreeBlock s = block_number env then unat (currentLeafCount s) < 2 ^ unat (commitmentTreeDepth s)
      else block_number env \<noteq> 0)"

lemma recordDependency_ok:
  assumes "log_tree K s"
  shows "is_ok (recordDependency K env rid root key s) \<longleftrightarrow> dependencyRecorded s key \<or> has_room env s"
proof -
  define r where "r = (if activeTreeBlock s \<noteq> block_number env
         then if block_number env = 0 then Inl ArithmeticPanic
              else beginBlockTree K env rid (paperLeaf K (currentTrustRoot s) (blockhash env (block_number env - 1))) s
         else Inr s)"
  have shape: "tree_shape K s" "1 \<le> unat (commitmentTreeDepth s)"
    and cnt: "unat (currentLeafCount s) = length (tree_leaves (emitted s))"
    using assms by (simp_all add: log_tree_def block_tree_def tree_shape_def)
  have append: "is_ok (appendLeaf K env rid leaf False t) \<longleftrightarrow>
      length (tree_leaves (emitted t)) < 2 ^ unat (commitmentTreeDepth t)" if "log_tree K t" for t leaf
  proof -
    have tree: "block_tree K t (tree_leaves (emitted t))" using that by (simp add: log_tree_def)
    show ?thesis
    proof (cases "length (tree_leaves (emitted t)) < 2 ^ unat (commitmentTreeDepth t)")
      case True
      obtain t' where "appendLeaf K env rid leaf False t = Inr t'" by (rule appendLeaf_room[OF tree True])
      with True show ?thesis by simp
    next
      case False
      then show ?thesis using appendLeaf_full[OF tree, of env rid leaf False] tree by (simp add: block_tree_def)
    qed
  qed
  have "is_ok (recordDependency K env rid root key s) \<longleftrightarrow> dependencyRecorded s key \<or>
    (\<exists>s1. r = Inr s1 \<and> is_ok (appendLeaf K env rid (paperLeaf K root (req_sourceBlockHash (requests s1 rid))) False s1))"
    by (cases r) (auto simp: recordDependency_def r_def[symmetric] Let_def is_ok_def split: sum.splits if_splits)
  also have "\<dots> \<longleftrightarrow> dependencyRecorded s key \<or> has_room env s"
  proof (cases "activeTreeBlock s = block_number env")
    case True
    then show ?thesis using append[OF assms] cnt by (simp add: r_def has_room_def)
  next
    case False
    have small: "1 < (2::nat) ^ unat (commitmentTreeDepth s)" using shape(2) by (intro one_less_power) simp_all
    show ?thesis
    proof (cases "block_number env = 0")
      case True
      with False show ?thesis by (simp add: r_def has_room_def)
    next
      case nz: False
      let ?leaf = "LeafHash K (currentTrustRoot s) (blockhash env (block_number env - 1))"
      have r: "r = beginBlockTree K env rid ?leaf s" using False nz by (simp add: r_def)
      obtain s1 where s1: "r = Inr s1" unfolding r by (rule beginBlockTree_ok[OF shape(1)])
      have "log_tree K s1 \<and> commitmentTreeDepth s1 = commitmentTreeDepth s \<and> tree_leaves (emitted s1) = [?leaf]"
        by (rule prepare_tree[OF assms s1[unfolded r_def]]) (use False in simp)
      with s1 show ?thesis using append[of s1] small nz False by (simp add: has_room_def)
    qed
  qed
  finally show ?thesis .
qed

lemma is_ok_bind: "is_ok (bind_res r f) \<longleftrightarrow> (\<exists>x. r = Inr x \<and> is_ok (f x))"
  by (cases r) auto

text \<open>
  C9. The contract accepts exactly the path proofs the Go verifier accepts: in a reachable storage,
  \<open>verifyPathAndRecord\<close> succeeds if and only if the request is known and neither resolved nor in progress, the proof
  starts at its source block, \<open>VerifyPath\<close> of \<open>internal/proof\<close> accepts the proof against the current TrustRoot, and the
  dependency is already recorded or the tree of the block has room.
\<close>

theorem path_call_accepts_iff:
  assumes "new_gateway K has_code depth verifier root = Inr s0" "gateway_calls K s0 s"
  shows "is_ok (verifyPathAndRecord K env i base blocks ws s) \<longleftrightarrow>
    req_exists (getRequest s i) \<and> \<not> requestResolved s i \<and> hd blocks = req_sourceBlockHash (getRequest s i) \<and>
    VerifyPath K base blocks (map go_witness ws) (currentTrustRoot s) depth = Inr () \<and>
    (dependencyRecorded s (computeDependencyKey K (req_sourceChainId (getRequest s i)) (req_sourceHeight (getRequest s i))
       (req_sourceBlockHash (getRequest s i)) base) \<or> has_room env s)"
proof -
  note r = reachable_inv[OF assms]
  have dims: "pathTreeDepth s = depth" "pathTreeCapacity s = push_bit (unat depth) 1" "log_tree K s"
    using r(1,2,6) by (simp_all add: gateway_inv_def block_tree_def tree_shape_def)
  have verify: "is_ok (sol_verifyPath K depth (push_bit (unat depth) 1) home base blocks ws) \<longleftrightarrow>
    VerifyPath K base blocks (map go_witness ws) home depth = Inr ()" for home
    unfolding sol_verifyPath_eq[OF r(4,5)] by (cases "VerifyPath K base blocks (map go_witness ws) home depth") auto
  show ?thesis
  proof (cases "req_exists (requests s i) \<and> \<not> req_resolved (requests s i)")
    case False
    then show ?thesis by (auto simp: verifyPathAndRecord_def beginRequest_def Let_def getRequest_def requestResolved_def)
  next
    case True
    let ?rq = "(requests s i)\<lparr>req_processing := True\<rparr>"
    let ?s1 = "s\<lparr>requests := (requests s)(i := ?rq)\<rparr>"
    let ?key = "computeDependencyKey K (req_sourceChainId ?rq) (req_sourceHeight ?rq) (req_sourceBlockHash ?rq) base"
    let ?s2 = "?s1\<lparr>emitted := emitted s @ [PathVerificationSucceeded i (req_sourceChainId ?rq) (req_sourceHeight ?rq)
      (req_sourceBlockHash ?rq) base (of_nat (length blocks)) ?key]\<rparr>"
    have begun: "beginRequest i s = Inr ?s1" using True r(3)[of i] by (simp add: beginRequest_Inr)
    have "log_tree K ?s2" by (rule log_tree_neutral) (simp_all add: dims(3))
    then have rec: "is_ok (recordDependency K env i base ?key ?s2) \<longleftrightarrow> dependencyRecorded s ?key \<or> has_room env s"
      using recordDependency_ok by (simp add: has_room_def)
    have "is_ok (verifyPathAndRecord K env i base blocks ws s) \<longleftrightarrow>
      blocks \<noteq> [] \<and> hd blocks = req_sourceBlockHash ?rq \<and>
      is_ok (sol_verifyPath K depth (push_bit (unat depth) 1) (currentTrustRoot s) base blocks ws) \<and>
      is_ok (recordDependency K env i base ?key ?s2)"
      by (simp add: verifyPathAndRecord_def begun Let_def dims is_ok_bind del: push_bit_of_1)
        (auto simp: is_ok_def split: sum.splits)
    also have "\<dots> \<longleftrightarrow> hd blocks = req_sourceBlockHash ?rq \<and>
      VerifyPath K base blocks (map go_witness ws) (currentTrustRoot s) depth = Inr () \<and>
      (dependencyRecorded s ?key \<or> has_room env s)"
      using rec verify by (auto simp: VerifyPath_def)
    finally show ?thesis using True by (simp add: getRequest_def requestResolved_def)
  qed
qed

text \<open>
  C36. The contract and the node compute the same identifiers: the identifier \<open>requestVerification\<close> returns is the one
  \<open>ComputeGatewayRequestID\<close> computes from the emitted fields, and the dependency key of the contract is both
  \<open>DependencyKey\<close> of \<open>internal/domain\<close> and \<open>ComputeDependencyKey\<close> of the indexer.
\<close>

theorem gateway_ids_agree:
  assumes "requestVerification K env c h b s = Inr (s', rid)"
    and "block_chainid env \<noteq> 0" "this_address env \<noteq> 0" "msg_sender env \<noteq> 0"
  shows "last (emitted s') = VerificationRequested rid (msg_sender env) c h b (requestNonce s (msg_sender env)) \<and>
    ComputeGatewayRequestID K (block_chainid env) (this_address env) (msg_sender env)
      (Some (uint (requestNonce s (msg_sender env)))) c h b = Inr rid \<and>
    computeDependencyKey K c h b root = DependencyKey K \<lparr>SourceChainID = c, SourceHeight = h, SourceBlockHash = b, SourceTrustRoot = root\<rparr> \<and>
    computeDependencyKey K c h b root = ComputeDependencyKey K c h b root"
proof -
  let ?nonce = "requestNonce s (msg_sender env)"
  have "c \<noteq> 0" "b \<noteq> 0" and rid: "rid = K (request_words env (msg_sender env) ?nonce c h b)"
    and "last (emitted s') = VerificationRequested rid (msg_sender env) c h b ?nonce"
    using assms(1) by (auto simp: requestVerification_def Let_def computeRequestId_def split: if_splits)
  moreover have "encodeUint256 (Some (uint ?nonce)) = Inr ?nonce"
    using uint_lt2p[of ?nonce] by (simp add: encodeUint256_def)
  ultimately show ?thesis
    using assms(2-4) by (simp add: ComputeGatewayRequestID_def chain_Validate_def request_words_def gateway_request_bytes_def
        computeDependencyKey_def DependencyKey_def DependencyKey_bytes_def ComputeDependencyKey_def dependency_words_def)
qed

definition sol_witness_of :: "membership_witness \<Rightarrow> sol_witness" where
  "sol_witness_of w = \<lparr>sol_leafIndex = leafIndex w, sol_siblings = siblings w\<rparr>"

lemma go_sol_witness [simp]: "map go_witness (map sol_witness_of ws) = ws"
  by (induction ws) (simp_all add: go_witness_def sol_witness_of_def)

lemma path_call_ok:
  assumes r: "new_gateway K has_code depth verifier root = Inr s0" "gateway_calls K s0 s"
    and rq: "req_exists (requests s i)" "\<not> req_resolved (requests s i)"
    and v: "hd blocks = req_sourceBlockHash (requests s i)" "VerifyPath K base blocks (map go_witness ws) (currentTrustRoot s) depth = Inr ()"
    and room: "has_room env s"
  obtains s' key new where "verifyPathAndRecord K env i base blocks ws s = Inr (s', key, new)"
    "requestResolved s' i" "dependencyRecorded s' key" "new \<longleftrightarrow> \<not> dependencyRecorded s key" "new \<Longrightarrow> tree_deps (emitted s') \<noteq> []"
proof -
  note n = reachable_inv[OF r]
  have dims: "pathTreeDepth s = depth" "pathTreeCapacity s = push_bit (unat depth) 1" "log_tree K s"
    using n(1,2,6) by (simp_all add: gateway_inv_def block_tree_def tree_shape_def)
  let ?s1 = "s\<lparr>requests := (requests s)(i := (requests s i)\<lparr>req_processing := True\<rparr>)\<rparr>"
  have begun: "beginRequest i s = Inr ?s1" using rq n(3)[of i] by (simp add: beginRequest_Inr)
  have ne: "blocks \<noteq> []" using v(2) by (auto simp: VerifyPath_def)
  let ?key = "computeDependencyKey K (req_sourceChainId (requests s i)) (req_sourceHeight (requests s i)) (req_sourceBlockHash (requests s i)) base"
  let ?e = "PathVerificationSucceeded i (req_sourceChainId (requests s i)) (req_sourceHeight (requests s i))
      (req_sourceBlockHash (requests s i)) base (of_nat (length blocks)) ?key"
  let ?s2 = "?s1\<lparr>emitted := emitted ?s1 @ [?e]\<rparr>"
  have "log_tree K ?s2" by (rule log_tree_neutral) (simp_all add: dims(3))
  then have "is_ok (recordDependency K env i base ?key ?s2)"
    using room recordDependency_ok[of K ?s2] by (simp add: has_room_def)
  then obtain t' new where rec: "recordDependency K env i base ?key ?s2 = Inr (t', new)"
    by (auto simp: is_ok_def split: sum.splits)
  have run: "verifyPathAndRecord K env i base blocks ws s = Inr (resolveRequest i ?key new t', ?key, new)"
    using v ne by (simp add: verifyPathAndRecord_def begun Let_def dims sol_verifyPath_eq[OF n(4,5)] rec[simplified]
        del: push_bit_of_1 bind_res_eq_Inr)
  have "gateway_inv K ?s1" by (rule beginRequest_inv[OF n(1) begun])
  note f = finish_inv[OF this _ _ rec]
  show ?thesis using f(3,4,8,9) by (intro that[OF run]) (auto simp: requestResolved_def neutral_def)
qed

text \<open>
  C6. A proof the node built goes through: if \<open>Build\<close> returned a path proof for a request the Gateway knows and has
  not resolved, for its source block and against the TrustRoot the Gateway still has, then submitting it, in
  Solidity form, with \<open>verifyPathAndRecord\<close> succeeds, resolves the request and records the dependency, as long as the tree
  of the block has room.
\<close>

theorem built_proof_resolves_request:
  assumes "new_gateway K has_code depth verifier root = Inr s0" "gateway_calls K s0 s"
    and "Build K repo depth now db rq = Inr (p, db')"
    and "req_exists (getRequest s i)" "\<not> requestResolved s i" "req_sourceBlockHash (getRequest s i) = br_SourceBlockHash rq"
    and "currentTrustRoot s = br_ExpectedHomeTrustRoot rq" "has_room env s"
  shows "\<exists>s' key new. verifyPathAndRecord K env i (pp_BaseTrustRoot p) (pp_BlockHashes p) (map sol_witness_of (pp_Witnesses p)) s =
    Inr (s', key, new) \<and> requestResolved s' i \<and> dependencyRecorded s' key"
proof -
  note b = Build_accepted[OF assms(3)]
  have req: "req_exists (requests s i)" "\<not> req_resolved (requests s i)" "hd (pp_BlockHashes p) = req_sourceBlockHash (requests s i)"
    using assms(4-6) b(2) by (simp_all add: getRequest_def requestResolved_def)
  have "VerifyPath K (pp_BaseTrustRoot p) (pp_BlockHashes p) (map go_witness (map sol_witness_of (pp_Witnesses p)))
      (currentTrustRoot s) depth = Inr ()"
    using b(1) assms(7) by (simp only: go_sol_witness)
  then show ?thesis by (rule path_call_ok[OF assms(1,2) req(1,2,3) _ assms(8)]) blast
qed

subsection \<open>A concrete run\<close>

definition demo_env :: sol_env where
  "demo_env = \<lparr>block_number = 1, block_chainid = 1, blockhash = (\<lambda>_. 9), this_address = 1, msg_sender = 2\<rparr>"

lemma demo_requested:
  obtains s0 s rid where "new_gateway demo_hash (\<lambda>_. True) 1 5 2239 = Inr s0"
    "requestVerification demo_hash demo_env 2 3 1 s0 = Inr (s, rid)" "gateway_calls demo_hash s0 s"
    "req_exists (requests s rid)" "\<not> req_resolved (requests s rid)" "req_sourceBlockHash (requests s rid) = 1"
    "currentTrustRoot s = 2239" "has_room demo_env s" "dependencyRecorded s = (\<lambda>_. False)"
    "requestNonce s 2 = 1" "rid = computeRequestId demo_hash demo_env 2 0 2 3 1" "requests s = (\<lambda>_. zero_request)(rid := requests s rid)"
proof -
  obtain s0 where s0: "new_gateway demo_hash (\<lambda>_. True) 1 5 2239 = Inr s0" "requests s0 = (\<lambda>_. zero_request)"
    "requestNonce s0 = (\<lambda>_. 0)" "currentTrustRoot s0 = 2239" "activeTreeBlock s0 = 0" "dependencyRecorded s0 = (\<lambda>_. False)"
    by (simp add: new_gateway_def new_commitment_def new_path_verifier_def commitment.extend_def)
  obtain s rid where s: "requestVerification demo_hash demo_env 2 3 1 s0 = Inr (s, rid)"
    "req_exists (requests s rid)" "\<not> req_resolved (requests s rid)" "req_sourceBlockHash (requests s rid) = 1"
    "currentTrustRoot s = 2239" "activeTreeBlock s = 0" "dependencyRecorded s = (\<lambda>_. False)"
    "requestNonce s 2 = 1" "rid = computeRequestId demo_hash demo_env 2 0 2 3 1" "requests s = (\<lambda>_. zero_request)(rid := requests s rid)"
    using s0(2-6) by (simp add: requestVerification_def Let_def zero_request_def demo_env_def)
  then show ?thesis
    using gateway_calls.request[OF gateway_calls.none s(1)] s0(1) has_room_def[of demo_env s]
    by (intro that[of s0 s rid]) (simp_all add: demo_env_def)
qed

lemma demo_resolved:
  obtains s0 s rid s' key where "new_gateway demo_hash (\<lambda>_. True) 1 5 2239 = Inr s0" "gateway_calls demo_hash s0 s"
    "verifyPathAndRecord demo_hash demo_env rid 7 [1] [\<lparr>sol_leafIndex = 0, sol_siblings = [9]\<rparr>] s = Inr (s', key, True)"
    "gateway_calls demo_hash s0 s'" "requestResolved s' rid" "tree_deps (emitted s') \<noteq> []"
    "beginRequest rid s = Inr (s\<lparr>requests := (requests s)(rid := (requests s rid)\<lparr>req_processing := True\<rparr>)\<rparr>)"
proof -
  obtain s0 s rid where d: "new_gateway demo_hash (\<lambda>_. True) 1 5 2239 = Inr s0" "gateway_calls demo_hash s0 s"
    "req_exists (requests s rid)" "\<not> req_resolved (requests s rid)" "req_sourceBlockHash (requests s rid) = 1"
    "currentTrustRoot s = 2239" "has_room demo_env s" "dependencyRecorded s = (\<lambda>_. False)"
    by (rule demo_requested)
  have v: "VerifyPath demo_hash 7 [1] (map go_witness [\<lparr>sol_leafIndex = 0, sol_siblings = [9]\<rparr>]) (currentTrustRoot s) 1 = Inr ()"
    using demo_verify d(6) by (simp add: go_witness_def)
  obtain s' key new where r: "verifyPathAndRecord demo_hash demo_env rid 7 [1] [\<lparr>sol_leafIndex = 0, sol_siblings = [9]\<rparr>] s = Inr (s', key, new)"
    "requestResolved s' rid" "new" "tree_deps (emitted s') \<noteq> []"
    by (rule path_call_ok[OF d(1-4) _ v d(7)]) (use d(5,8) in simp_all)
  have "beginRequest rid s = Inr (s\<lparr>requests := (requests s)(rid := (requests s rid)\<lparr>req_processing := True\<rparr>)\<rparr>)"
    using d(3,4) reachable_inv(3)[OF d(1,2), of rid] by (simp add: beginRequest_Inr)
  then show ?thesis using r d(1,2) gateway_calls.path[OF d(2) r(1)] by (intro that[of s0 s rid s' key]) simp_all
qed


theorem gateway_root_commits_log_witness:
  "\<exists>s0 s. new_gateway demo_hash (\<lambda>_. True) 1 5 2239 = Inr s0 \<and> gateway_calls demo_hash s0 s \<and>
     currentTrustRoot s = merkle_root demo_hash 1 (tree_leaves (emitted s))"
proof -
  obtain s0 s rid s' key where d: "new_gateway demo_hash (\<lambda>_. True) 1 5 2239 = Inr s0" "gateway_calls demo_hash s0 s'"
    "tree_deps (emitted s') \<noteq> []"
    by (rule demo_resolved)
  obtain e where "e \<in> set (tree_deps (emitted s'))" using d(3) by (cases "tree_deps (emitted s')") auto
  then have "tree_leaves (emitted s') \<noteq> []"
    using reachable_inv(1)[OF d(1,2)] by (auto simp: gateway_inv_def log_tree_def dep_in_tree_def)
  then show ?thesis using gateway_root_commits_log[OF d(1,2)] d(1,2) by auto
qed

theorem recorded_dependency_provable_witness:
  "\<exists>s0 s e w. new_gateway demo_hash (\<lambda>_. True) 1 5 2239 = Inr s0 \<and> gateway_calls demo_hash s0 s \<and>
     e \<in> set (tree_deps (emitted s)) \<and>
     VerifyPath demo_hash (dr_sourceTrustRoot e) [dr_sourceBlockHash e] [w] (currentTrustRoot s) 1 = Inr ()"
proof -
  obtain s0 s rid s' key where d: "new_gateway demo_hash (\<lambda>_. True) 1 5 2239 = Inr s0" "gateway_calls demo_hash s0 s'"
    "tree_deps (emitted s') \<noteq> []"
    by (rule demo_resolved)
  obtain e where e: "e \<in> set (tree_deps (emitted s'))" using d(3) by (cases "tree_deps (emitted s')") auto
  show ?thesis using recorded_dependency_provable[OF d(1,2) e] d(1,2) e by blast
qed

theorem gateway_resolves_once_witness:
  "\<exists>s0 s i. new_gateway demo_hash (\<lambda>_. True) 1 5 2239 = Inr s0 \<and> gateway_calls demo_hash s0 s \<and>
     i \<in> set (resolved_ids (emitted s)) \<and> distinct (resolved_ids (emitted s)) \<and>
     verifyPathAndRecord demo_hash demo_env i 7 [1] [\<lparr>sol_leafIndex = 0, sol_siblings = [9]\<rparr>] s = Inl RequestAlreadyResolved"
proof -
  obtain s0 s rid s' key where d: "new_gateway demo_hash (\<lambda>_. True) 1 5 2239 = Inr s0" "gateway_calls demo_hash s0 s'"
    "requestResolved s' rid"
    by (rule demo_resolved)
  note g = gateway_resolves_once[OF d(1,2), of "\<lambda>s _ _ _ _. Inr (s, 0)" demo_env "[]" 7 "[1]" "[\<lparr>sol_leafIndex = 0, sol_siblings = [9]\<rparr>]"]
  then have "rid \<in> set (resolved_ids (emitted s'))" using d(3) by blast
  with g d(1,2) show ?thesis by blast
qed

text \<open>While a request is in progress, the verifier makes another request of its own, and then tries to verify the first one.\<close>

theorem gateway_reentrancy_safe_witness:
  "\<exists>s0 s i t t' j. new_gateway demo_hash (\<lambda>_. True) 1 5 2239 = Inr s0 \<and> gateway_calls demo_hash s0 s \<and>
     beginRequest i s = Inr t \<and> requestVerification demo_hash demo_env 2 3 1 t = Inr (t', j) \<and> j \<noteq> i \<and> getRequest t' i = getRequest t i \<and>
     verifyPathAndRecord demo_hash demo_env i 7 [1] [\<lparr>sol_leafIndex = 0, sol_siblings = [9]\<rparr>] t' = Inl RequestInProgress"
proof -
  obtain s0 s rid where d: "new_gateway demo_hash (\<lambda>_. True) 1 5 2239 = Inr s0" "gateway_calls demo_hash s0 s"
    "req_exists (requests s rid)" "\<not> req_resolved (requests s rid)" "requestNonce s 2 = 1" "rid = computeRequestId demo_hash demo_env 2 0 2 3 1"
    "requests s = (\<lambda>_. zero_request)(rid := requests s rid)"
    by (rule demo_requested)
  let ?t = "s\<lparr>requests := (requests s)(rid := (requests s rid)\<lparr>req_processing := True\<rparr>)\<rparr>"
  let ?j = "computeRequestId demo_hash demo_env 2 1 2 3 1"
  have t: "beginRequest rid s = Inr ?t" using d(3,4) reachable_inv(3)[OF d(1,2), of rid] by (simp add: beginRequest_Inr)
  have j: "?j \<noteq> rid" by (simp add: d(6) computeRequestId_def request_words_def)
  have "\<not> req_exists (requests s ?j)" using j fun_cong[OF d(7), of ?j] by (simp add: zero_request_def)
  moreover have "msg_sender demo_env = 2" by (simp add: demo_env_def)
  ultimately obtain t' where r: "requestVerification demo_hash demo_env 2 3 1 ?t = Inr (t', ?j)"
    using j d(5) by (simp add: requestVerification_def Let_def)
  show ?thesis
    using gateway_reentrancy_safe[OF d(1,2) t gateway_calls.request[OF gateway_calls.none r]] d(1,2) t r j by blast
qed

theorem path_call_accepts_iff_witness:
  "\<exists>s0 s i. new_gateway demo_hash (\<lambda>_. True) 1 5 2239 = Inr s0 \<and> gateway_calls demo_hash s0 s \<and>
     is_ok (verifyPathAndRecord demo_hash demo_env i 7 [1] [\<lparr>sol_leafIndex = 0, sol_siblings = [9]\<rparr>] s) \<and>
     VerifyPath demo_hash 7 [1] [\<lparr>leafIndex = 0, siblings = [9]\<rparr>] (currentTrustRoot s) 1 = Inr () \<and>
     \<not> requestResolved s i"
proof -
  obtain s0 s rid s' key where d: "new_gateway demo_hash (\<lambda>_. True) 1 5 2239 = Inr s0" "gateway_calls demo_hash s0 s"
    "verifyPathAndRecord demo_hash demo_env rid 7 [1] [\<lparr>sol_leafIndex = 0, sol_siblings = [9]\<rparr>] s = Inr (s', key, True)"
    by (rule demo_resolved)
  then have ok: "is_ok (verifyPathAndRecord demo_hash demo_env rid 7 [1] [\<lparr>sol_leafIndex = 0, sol_siblings = [9]\<rparr>] s)" by simp
  show ?thesis using path_call_accepts_iff[OF d(1,2), THEN iffD1, OF ok] ok d(1,2) by (auto simp: go_witness_def)
qed

theorem gateway_ids_agree_witness:
  "\<exists>s0 s rid. requestVerification demo_hash demo_env 2 3 1 s0 = Inr (s, rid) \<and>
     ComputeGatewayRequestID demo_hash 1 1 2 (Some (uint (requestNonce s0 2))) 2 3 1 = Inr rid"
proof -
  obtain s0 s rid where "requestVerification demo_hash demo_env 2 3 1 s0 = Inr (s, rid)" by (rule demo_requested)
  with gateway_ids_agree[OF this] show ?thesis by (auto simp: demo_env_def)
qed

theorem built_proof_resolves_request_witness:
  "\<exists>s0 s i p db s' key new. new_gateway demo_hash (\<lambda>_. True) 1 5 2239 = Inr s0 \<and> gateway_calls demo_hash s0 s \<and>
     Build demo_hash demo_repository 1 0 None demo_build_request = Inr (p, db) \<and>
     verifyPathAndRecord demo_hash demo_env i (pp_BaseTrustRoot p) (pp_BlockHashes p) (map sol_witness_of (pp_Witnesses p)) s
       = Inr (s', key, new) \<and> requestResolved s' i"
proof -
  obtain s0 s rid where d: "new_gateway demo_hash (\<lambda>_. True) 1 5 2239 = Inr s0" "gateway_calls demo_hash s0 s"
    "req_exists (requests s rid)" "\<not> req_resolved (requests s rid)" "req_sourceBlockHash (requests s rid) = 1"
    "currentTrustRoot s = 2239" "has_room demo_env s"
    by (rule demo_requested)
  obtain p db where b: "Build demo_hash demo_repository 1 0 None demo_build_request = Inr (p, db)"
    using demo_build by (auto simp: is_ok_def split: sum.splits)
  have rq: "req_exists (getRequest s rid)" "\<not> requestResolved s rid"
    "req_sourceBlockHash (getRequest s rid) = br_SourceBlockHash demo_build_request"
    "currentTrustRoot s = br_ExpectedHomeTrustRoot demo_build_request"
    using d(3-6) by (simp_all add: demo_build_request_def getRequest_def requestResolved_def)
  show ?thesis using built_proof_resolves_request[OF d(1,2) b rq d(7)] d(1,2) b by blast
qed

end
