(* ===== verification/ChainABI.thy ===== *)
theory ChainABI
  imports Commitment Domain
begin

text \<open>
  \<open>Mapnode/chainabi\<close>: the checked ABI surface between the node and the contracts. The parsers of the Gateway events
  and the decoders of call results work on the topics and data of a log and on the bytes of a result;
  \<open>sol_log\<close> is how Solidity lays out the events the contracts declare. \<open>events_roundtrip\<close> relates the two.
\<close>

subsection \<open>Words\<close>

text \<open>\<open>common.BytesToHash\<close> and \<open>common.BytesToAddress\<close> keep the last bytes of a longer slice, as \<open>of_nat\<close> does.\<close>

definition BytesToHash :: "byte list \<Rightarrow> hash" where
  "BytesToHash bs = of_nat (be_val bs)"

definition BytesToAddress :: "byte list \<Rightarrow> address" where
  "BytesToAddress bs = of_nat (be_val bs)"

definition word_at :: "byte list \<Rightarrow> nat \<Rightarrow> byte list" where
  "word_at data index = take 32 (drop (index * 32) data)"

definition wordUint32 :: "byte list \<Rightarrow> u32 res" where
  "wordUint32 value =
     (if \<exists>item \<in> set (take 28 value). item \<noteq> 0 then Inl (ErrMsg ''ABI uint32 overflows'')
      else Inr (of_nat (be_val (drop 28 value))))"

definition topicUint32 :: "hash \<Rightarrow> u32 res" where
  "topicUint32 value = wordUint32 (bytes32 value)"

definition wordBool :: "byte list \<Rightarrow> bool res" where
  "wordBool value =
     (case wordUint32 value of
        Inl _ \<Rightarrow> Inl (ErrMsg ''ABI bool is not canonical'')
      | Inr parsed \<Rightarrow> if parsed > 1 then Inl (ErrMsg ''ABI bool is not canonical'') else Inr (parsed = 1))"

definition topicAddress :: "hash \<Rightarrow> address res" where
  "topicAddress value =
     (if \<exists>item \<in> set (take 12 (bytes32 value)). item \<noteq> 0 then Inl (ErrMsg ''indexed address is not canonical'')
      else Inr (BytesToAddress (drop 12 (bytes32 value))))"

subsection \<open>Results of contract calls\<close>

definition currentTrustRootSelector :: "byte list" where
  "currentTrustRootSelector = [0x78, 0x9a, 0xea, 0x64]"

definition EncodeCurrentTrustRootCall :: "byte list" where
  "EncodeCurrentTrustRootCall = currentTrustRootSelector"

definition DecodeCurrentTrustRootResult :: "byte list \<Rightarrow> hash res" where
  "DecodeCurrentTrustRootResult encoded =
     (if length encoded \<noteq> 32 then Inl (ErrMsg ''currentTrustRoot result must be one ABI word'')
      else Inr (BytesToHash encoded))"

definition DecodeHashResult :: "byte list \<Rightarrow> hash res" where
  "DecodeHashResult encoded =
     (if length encoded \<noteq> 32 then Inl (ErrMsg ''hash result must be one ABI word'') else Inr (BytesToHash encoded))"

definition DecodeBoolResult :: "byte list \<Rightarrow> bool res" where
  "DecodeBoolResult encoded =
     (if length encoded \<noteq> 32 then Inl (ErrMsg ''bool result must be one ABI word'')
      else if \<exists>value \<in> set (take 31 encoded). value \<noteq> 0 then Inl (ErrMsg ''bool result is not canonical'')
      else if encoded ! 31 = 0 then Inr False
      else if encoded ! 31 = 1 then Inr True
      else Inl (ErrMsg ''bool result is not canonical''))"

definition DecodeAddressResult :: "byte list \<Rightarrow> address res" where
  "DecodeAddressResult encoded =
     (if length encoded \<noteq> 32 then Inl (ErrMsg ''address result must be one ABI word'')
      else if \<exists>value \<in> set (take 12 encoded). value \<noteq> 0 then Inl (ErrMsg ''address result is not canonical'')
      else Inr (BytesToAddress (drop 12 encoded)))"

definition DecodeUint32Result :: "byte list \<Rightarrow> u32 res" where
  "DecodeUint32Result encoded =
     (if length encoded \<noteq> 32 then Inl (ErrMsg ''uint32 result must be one ABI word'')
      else if \<exists>value \<in> set (take 28 encoded). value \<noteq> 0 then Inl (ErrMsg ''uint32 result overflows'')
      else Inr (push_bit 24 (ucast (encoded ! 28)) OR push_bit 16 (ucast (encoded ! 29)) OR
                push_bit 8 (ucast (encoded ! 30)) OR ucast (encoded ! 31)))"

definition DecodeUint256Result :: "byte list \<Rightarrow> int res" where
  "DecodeUint256Result encoded =
     (if length encoded \<noteq> 32 then Inl (ErrMsg ''uint256 result must be one ABI word'') else Inr (int (be_val encoded)))"

subsection \<open>Events\<close>

definition VerificationRequestedTopic :: hash where
  "VerificationRequestedTopic = 0x6e4486cba7e09fd23bd6d6edc0fc893ff7f02d9266d863047e298f7b132ee71a"

definition TrustRootUpdatedTopic :: hash where
  "TrustRootUpdatedTopic = 0xa2f90931b38050126801af291616bf523773603805893f350031b8b3cdf182a2"

definition DependencyRecordedTopic :: hash where
  "DependencyRecordedTopic = 0x26fe4056692e22cb6515b58329b35b50d71b7605c18b7bcaf3bacdf8297245f5"

definition RequestResolvedTopic :: hash where
  "RequestResolvedTopic = 0x9e14f05723283ecafaae8f806553da1d3df582379f2502195bc237b3902da290"

definition DirectVerificationSucceededTopic :: hash where
  "DirectVerificationSucceededTopic = 0xf823b7a644bb08196389f4340810ad3d39e780aa8e99daf540a4622416ab28ba"

definition PathVerificationSucceededTopic :: hash where
  "PathVerificationSucceededTopic = 0x068d0b8a6ae7f5a6b9ec3c158eb348081e3e4ce74b6d9d5294584f3bf6ec103f"

text \<open>\<open>types.Log\<close> of the Ethereum library.\<close>

record eth_log =
  lg_Address :: address
  lg_Topics :: "hash list"
  lg_Data :: "byte list"
  lg_BlockNumber :: u64
  lg_TxHash :: hash
  lg_TxIndex :: u64
  lg_BlockHash :: hash
  lg_Index :: u64
  lg_Removed :: bool

record verification_succeeded =
  vs_RequestID :: request_id
  vs_SourceChainID :: chain_id
  vs_SourceHeight :: block_height
  vs_SourceBlockHash :: hash
  vs_SourceTrustRoot :: hash
  vs_DependencyKey :: hash
  vs_Path :: bool
  vs_HopCount :: "int option"

record verification_requested =
  vq_RequestID :: request_id
  vq_Requester :: address
  vq_SourceChainID :: chain_id
  vq_SourceHeight :: block_height
  vq_SourceBlockHash :: hash
  vq_RequesterNonce :: hash

record trust_root_updated =
  tu_RequestID :: request_id
  tu_LeafIndex :: u32
  tu_Leaf :: hash
  tu_OldTrustRoot :: hash
  tu_NewTrustRoot :: hash
  tu_IsAnchor :: bool

record dependency_recorded =
  de_DependencyKey :: hash
  de_RequestID :: request_id
  de_SourceChainID :: chain_id
  de_SourceHeight :: block_height
  de_SourceBlockHash :: hash
  de_SourceTrustRoot :: hash
  de_LeafIndex :: u32

record request_resolved =
  re_RequestID :: request_id
  re_Requester :: address
  re_DependencyKey :: hash
  re_NewDependency :: bool
  re_HomeTrustRoot :: hash

definition requireEvent :: "eth_log \<Rightarrow> hash \<Rightarrow> nat \<Rightarrow> nat \<Rightarrow> unit res" where
  "requireEvent l topic topics words =
     (if length (lg_Topics l) \<noteq> topics \<or> length (lg_Data l) \<noteq> words * 32 \<or> lg_Topics l ! 0 \<noteq> topic
      then Inl (ErrMsg ''invalid Gateway event layout'') else Inr ())"

definition ParseVerificationRequested :: "eth_log \<Rightarrow> verification_requested res" where
  "ParseVerificationRequested l =
     bind_res (requireEvent l VerificationRequestedTopic 4 3) (\<lambda>_.
     bind_res (NewChainIDFromBig (Some (BigInt (lg_Topics l ! 3)))) (\<lambda>chainID.
     bind_res (topicAddress (lg_Topics l ! 2)) (\<lambda>requester.
     bind_res (NewBlockHeightFromBig (Some (int (be_val (word_at (lg_Data l) 0))))) (\<lambda>height.
     Inr \<lparr>vq_RequestID = lg_Topics l ! 1, vq_Requester = requester, vq_SourceChainID = chainID, vq_SourceHeight = height,
          vq_SourceBlockHash = BytesToHash (word_at (lg_Data l) 1), vq_RequesterNonce = BytesToHash (word_at (lg_Data l) 2)\<rparr>))))"

definition ParseTrustRootUpdated :: "eth_log \<Rightarrow> trust_root_updated res" where
  "ParseTrustRootUpdated l =
     bind_res (requireEvent l TrustRootUpdatedTopic 3 4) (\<lambda>_.
     bind_res (topicUint32 (lg_Topics l ! 2)) (\<lambda>leafIndex.
     bind_res (wordBool (word_at (lg_Data l) 3)) (\<lambda>isAnchor.
     Inr \<lparr>tu_RequestID = lg_Topics l ! 1, tu_LeafIndex = leafIndex, tu_Leaf = BytesToHash (word_at (lg_Data l) 0),
          tu_OldTrustRoot = BytesToHash (word_at (lg_Data l) 1), tu_NewTrustRoot = BytesToHash (word_at (lg_Data l) 2),
          tu_IsAnchor = isAnchor\<rparr>)))"

definition ParseDependencyRecorded :: "eth_log \<Rightarrow> dependency_recorded res" where
  "ParseDependencyRecorded l =
     bind_res (requireEvent l DependencyRecordedTopic 4 4) (\<lambda>_.
     bind_res (NewChainIDFromBig (Some (BigInt (lg_Topics l ! 3)))) (\<lambda>chainID.
     bind_res (NewBlockHeightFromBig (Some (int (be_val (word_at (lg_Data l) 0))))) (\<lambda>height.
     bind_res (wordUint32 (word_at (lg_Data l) 3)) (\<lambda>leafIndex.
     Inr \<lparr>de_DependencyKey = lg_Topics l ! 1, de_RequestID = lg_Topics l ! 2, de_SourceChainID = chainID,
          de_SourceHeight = height, de_SourceBlockHash = BytesToHash (word_at (lg_Data l) 1),
          de_SourceTrustRoot = BytesToHash (word_at (lg_Data l) 2), de_LeafIndex = leafIndex\<rparr>))))"

definition ParseRequestResolved :: "eth_log \<Rightarrow> request_resolved res" where
  "ParseRequestResolved l =
     bind_res (requireEvent l RequestResolvedTopic 4 2) (\<lambda>_.
     bind_res (topicAddress (lg_Topics l ! 2)) (\<lambda>requester.
     bind_res (wordBool (word_at (lg_Data l) 0)) (\<lambda>newDependency.
     Inr \<lparr>re_RequestID = lg_Topics l ! 1, re_Requester = requester, re_DependencyKey = lg_Topics l ! 3,
          re_NewDependency = newDependency, re_HomeTrustRoot = BytesToHash (word_at (lg_Data l) 1)\<rparr>)))"

definition succeeded_fields :: "eth_log \<Rightarrow> nat \<Rightarrow> bool \<Rightarrow> verification_succeeded res" where
  "succeeded_fields l words path =
     bind_res (requireEvent l (lg_Topics l ! 0) 3 words) (\<lambda>_.
     bind_res (NewChainIDFromBig (Some (BigInt (lg_Topics l ! 2)))) (\<lambda>chainID.
     bind_res (NewBlockHeightFromBig (Some (int (be_val (word_at (lg_Data l) 0))))) (\<lambda>height.
     let result = \<lparr>vs_RequestID = lg_Topics l ! 1, vs_SourceChainID = chainID, vs_SourceHeight = height,
           vs_SourceBlockHash = BytesToHash (word_at (lg_Data l) 1), vs_SourceTrustRoot = BytesToHash (word_at (lg_Data l) 2),
           vs_DependencyKey = BytesToHash (word_at (lg_Data l) (words - 1)), vs_Path = path, vs_HopCount = None\<rparr>
     in if path
        then let hopCount = int (be_val (word_at (lg_Data l) 3))
             in if hopCount = 0 then Inl (ErrMsg ''path verification hop count must be positive'')
                else Inr (result\<lparr>vs_HopCount := Some hopCount\<rparr>)
        else Inr result)))"

definition ParseVerificationSucceeded :: "eth_log \<Rightarrow> verification_succeeded res" where
  "ParseVerificationSucceeded l =
     (if length (lg_Topics l) > 0 \<and> lg_Topics l ! 0 = DirectVerificationSucceededTopic then succeeded_fields l 4 False
      else if length (lg_Topics l) > 0 \<and> lg_Topics l ! 0 = PathVerificationSucceededTopic then succeeded_fields l 5 True
      else Inl (ErrMsg ''unsupported verification success event''))"

subsection \<open>The layout of the events\<close>

text \<open>
  The log Solidity writes for an event: the hash of its signature and the indexed arguments are the topics, the
  other arguments are the words of the data. An address, a \<open>uint32\<close> and a \<open>bool\<close> are padded to a word on the left.
\<close>

definition address_topic :: "address \<Rightarrow> hash" where
  "address_topic a = ucast a"

definition bool_word :: "bool \<Rightarrow> byte list" where
  "bool_word b = uint32_word (if b then 1 else 0)"

definition event_signature :: "sol_event \<Rightarrow> string" where
  "event_signature ev = (case ev of
     TrustRootUpdated _ _ _ _ _ _ \<Rightarrow> ''TrustRootUpdated(bytes32,uint32,bytes32,bytes32,bytes32,bool)''
   | VerificationRequested _ _ _ _ _ _ \<Rightarrow> ''VerificationRequested(bytes32,address,uint256,uint256,bytes32,uint256)''
   | DirectVerificationSucceeded _ _ _ _ _ _ \<Rightarrow> ''DirectVerificationSucceeded(bytes32,uint256,uint256,bytes32,bytes32,bytes32)''
   | PathVerificationSucceeded _ _ _ _ _ _ _ \<Rightarrow> ''PathVerificationSucceeded(bytes32,uint256,uint256,bytes32,bytes32,uint256,bytes32)''
   | DependencyRecorded _ _ _ _ _ _ _ \<Rightarrow> ''DependencyRecorded(bytes32,bytes32,uint256,uint256,bytes32,bytes32,uint32)''
   | RequestResolved _ _ _ _ _ \<Rightarrow> ''RequestResolved(bytes32,address,bytes32,bool,bytes32)'')"

definition event_topics :: "sol_event \<Rightarrow> hash list" where
  "event_topics ev = (case ev of
     TrustRootUpdated rid i leaf old new anchor \<Rightarrow> [rid, ucast i]
   | VerificationRequested rid who cid height bh nonce \<Rightarrow> [rid, address_topic who, cid]
   | DirectVerificationSucceeded rid cid height bh root key \<Rightarrow> [rid, cid]
   | PathVerificationSucceeded rid cid height bh root hops key \<Rightarrow> [rid, cid]
   | DependencyRecorded key rid cid height bh root i \<Rightarrow> [key, rid, cid]
   | RequestResolved rid who key new root \<Rightarrow> [rid, address_topic who, key])"

definition event_data :: "sol_event \<Rightarrow> byte list" where
  "event_data ev = (case ev of
     TrustRootUpdated rid i leaf old new anchor \<Rightarrow> bytes32 leaf @ bytes32 old @ bytes32 new @ bool_word anchor
   | VerificationRequested rid who cid height bh nonce \<Rightarrow> bytes32 height @ bytes32 bh @ bytes32 nonce
   | DirectVerificationSucceeded rid cid height bh root key \<Rightarrow> bytes32 height @ bytes32 bh @ bytes32 root @ bytes32 key
   | PathVerificationSucceeded rid cid height bh root hops key \<Rightarrow>
       bytes32 height @ bytes32 bh @ bytes32 root @ bytes32 hops @ bytes32 key
   | DependencyRecorded key rid cid height bh root i \<Rightarrow> bytes32 height @ bytes32 bh @ bytes32 root @ uint32_word i
   | RequestResolved rid who key new root \<Rightarrow> bool_word new @ bytes32 root)"

definition is_log_of :: "keccak \<Rightarrow> eth_log \<Rightarrow> sol_event \<Rightarrow> bool" where
  "is_log_of K l ev \<longleftrightarrow> lg_Topics l = K (string_bytes (event_signature ev)) # event_topics ev \<and> lg_Data l = event_data ev"

text \<open>The topic constants of the node are the hashes of the signatures; this is how the Keccak-256 of the library behaves.\<close>

definition gateway_topics :: "keccak \<Rightarrow> bool" where
  "gateway_topics K \<longleftrightarrow>
     K (string_bytes ''TrustRootUpdated(bytes32,uint32,bytes32,bytes32,bytes32,bool)'') = TrustRootUpdatedTopic \<and>
     K (string_bytes ''VerificationRequested(bytes32,address,uint256,uint256,bytes32,uint256)'') = VerificationRequestedTopic \<and>
     K (string_bytes ''DirectVerificationSucceeded(bytes32,uint256,uint256,bytes32,bytes32,bytes32)'') = DirectVerificationSucceededTopic \<and>
     K (string_bytes ''PathVerificationSucceeded(bytes32,uint256,uint256,bytes32,bytes32,uint256,bytes32)'') = PathVerificationSucceededTopic \<and>
     K (string_bytes ''DependencyRecorded(bytes32,bytes32,uint256,uint256,bytes32,bytes32,uint32)'') = DependencyRecordedTopic \<and>
     K (string_bytes ''RequestResolved(bytes32,address,bytes32,bool,bytes32)'') = RequestResolvedTopic"

subsection \<open>Decoding words\<close>

lemma be_val_inject:
  assumes "length xs = length ys" "be_val xs = be_val ys"
  shows "xs = ys"
  using assms
proof (induction xs ys rule: list_induct2)
  case (Cons x xs y ys)
  define m where "m = (256 :: nat) ^ length ys"
  have lt: "be_val xs < m" "be_val ys < m"
    using be_val_less[of xs] be_val_less[of ys] Cons.hyps by (simp_all add: m_def)
  have eq: "unat x * m + be_val xs = unat y * m + be_val ys" using Cons.prems Cons.hyps by (simp add: m_def)
  have split: "(a * m + p) div m = a" "(a * m + p) mod m = p" if "p < m" for a p using that by simp_all
  have "unat x = unat y \<and> be_val xs = be_val ys"
    using split[OF lt(1), of "unat x"] split[OF lt(2), of "unat y"] eq by simp
  then show ?case using Cons.IH by (simp add: word_unat_eq_iff)
qed simp

lemma be_bytes_be_val:
  assumes "length bs = n" "8 * n \<le> LENGTH('a::len)"
  shows "be_bytes n (of_nat (be_val bs) :: 'a word) = bs"
proof (rule be_val_inject)
  have le: "be_val bs < 2 ^ (8 * n)" using be_val_less[of bs] assms(1) by (simp add: power_mult)
  also have "\<dots> \<le> 2 ^ LENGTH('a)" using assms(2) by (intro power_increasing) simp_all
  finally have "unat (of_nat (be_val bs) :: 'a word) = be_val bs" by (simp add: unat_of_nat)
  then show "be_val (be_bytes n (of_nat (be_val bs) :: 'a word)) = be_val bs"
    using le by (simp add: be_val_be_bytes power_mult)
qed (simp add: assms(1))

lemma BytesToHash_bytes32 [simp]: "BytesToHash (bytes32 h) = h"
  by (simp add: BytesToHash_def bytes32_def be_val_be_bytes_full)

lemma bytes32_BytesToHash: "length bs = 32 \<Longrightarrow> bytes32 (BytesToHash bs) = bs"
  by (simp add: BytesToHash_def bytes32_def be_bytes_be_val)

lemma be_val_bytes32 [simp]: "be_val (bytes32 h) = unat h"
  by (simp add: bytes32_def be_val_be_bytes_full)

lemma zeros_iff: "(\<forall>x \<in> set xs. x = 0) \<longleftrightarrow> xs = replicate (length xs) (0 :: byte)"
  by (auto simp: replicate_eqI simp del: set_replicate) (metis in_set_replicate)

lemma wordUint32_iff:
  assumes "length w = 32"
  shows "wordUint32 w = Inr i \<longleftrightarrow> w = uint32_word i"
proof -
  have split: "w = take 28 w @ drop 28 w" by simp
  have low: "be_bytes 4 (of_nat (be_val (drop 28 w)) :: u32) = drop 28 w" using assms by (intro be_bytes_be_val) simp_all
  have z: "(\<exists>item \<in> set (take 28 w). item \<noteq> 0) \<longleftrightarrow> take 28 w \<noteq> replicate 28 0"
    using zeros_iff[of "take 28 w"] assms by auto
  show ?thesis
  proof
    assume "wordUint32 w = Inr i"
    then have "take 28 w = replicate 28 0" "i = of_nat (be_val (drop 28 w))"
      using z by (auto simp: wordUint32_def split: if_splits)
    then show "w = uint32_word i" using split low by (simp add: uint32_word_def)
  next
    assume w: "w = uint32_word i"
    then have "take 28 w = replicate 28 0" "drop 28 w = be_bytes 4 i" by (simp_all add: uint32_word_def)
    then show "wordUint32 w = Inr i" using z by (auto simp: wordUint32_def be_val_be_bytes_full split: if_splits)
  qed
qed

lemma wordBool_iff:
  assumes "length w = 32"
  shows "wordBool w = Inr b \<longleftrightarrow> w = bool_word b"
proof -
  have small: "i > 1 \<or> i = 0 \<or> i = 1" for i :: u32
    by (simp add: word_less_nat_alt word_unat_eq_iff) arith
  show ?thesis
  proof
    assume "wordBool w = Inr b"
    then obtain i where "wordUint32 w = Inr i" "\<not> i > 1" "b = (i = 1)"
      by (auto simp: wordBool_def split: sum.splits if_splits)
    then show "w = bool_word b" using wordUint32_iff[OF assms, of i] small[of i] by (auto simp: bool_word_def)
  next
    assume "w = bool_word b"
    then have "wordUint32 w = Inr (if b then 1 else 0)" using wordUint32_iff[OF assms] by (simp add: bool_word_def)
    then show "wordBool w = Inr b" by (simp add: wordBool_def)
  qed
qed

lemma take_bit_unat_256:
  fixes w :: "'w::len word"
  assumes "LENGTH('w) \<le> 256"
  shows "take_bit 256 (unat w) = unat w"
proof -
  have "unat w < 2 ^ LENGTH('w)" by simp
  also have "\<dots> \<le> 2 ^ 256" using assms by (intro power_increasing) simp_all
  finally show ?thesis by (simp add: take_bit_nat_eq_self)
qed

lemma bytes32_ucast:
  "bytes32 (ucast (i :: u32)) = uint32_word i" "bytes32 (ucast (a :: address)) = address_word a"
proof -
  show "bytes32 (ucast i) = uint32_word i" "bytes32 (ucast a) = address_word a"
    by (rule be_val_inject; simp add: uint32_word_def address_word_def be_val_zeros be_val_be_bytes_full unsigned_ucast_eq take_bit_unat_256)+
qed

lemma topicUint32_iff: "topicUint32 t = Inr i \<longleftrightarrow> t = ucast i"
  using words_inject(1)[of t "ucast i"] by (simp add: topicUint32_def wordUint32_iff bytes32_ucast)

lemma topicAddress_iff: "topicAddress t = Inr a \<longleftrightarrow> t = address_topic a"
proof -
  let ?w = "bytes32 t"
  have low: "be_bytes 20 (BytesToAddress (drop 12 ?w)) = drop 12 ?w"
    unfolding BytesToAddress_def by (intro be_bytes_be_val) simp_all
  have z: "(\<exists>item \<in> set (take 12 ?w). item \<noteq> 0) \<longleftrightarrow> take 12 ?w \<noteq> replicate 12 0"
    using zeros_iff[of "take 12 ?w"] by auto
  have "topicAddress t = Inr a \<longleftrightarrow> ?w = address_word a"
  proof
    assume "topicAddress t = Inr a"
    then have "take 12 ?w = replicate 12 0" "a = BytesToAddress (drop 12 ?w)"
      using z by (auto simp: topicAddress_def split: if_splits)
    then show "?w = address_word a" using low append_take_drop_id[of 12 ?w] by (simp add: address_word_def)
  next
    assume "?w = address_word a"
    then have "take 12 ?w = replicate 12 0" "drop 12 ?w = be_bytes 20 a" by (simp_all add: address_word_def)
    then show "topicAddress t = Inr a"
      using z by (auto simp: topicAddress_def BytesToAddress_def be_val_be_bytes_full split: if_splits)
  qed
  then show ?thesis using words_inject(1)[of t "ucast a"] by (simp add: address_topic_def bytes32_ucast)
qed

lemma NewChainIDFromBig_iff: "NewChainIDFromBig (Some (BigInt h)) = Inr c \<longleftrightarrow> c = h \<and> h \<noteq> 0"
proof -
  have "uint h < 2 ^ 256" using uint_lt2p[of h] by simp
  then show ?thesis by (auto simp: NewChainIDFromBig_def uint256FromBig_def BigInt_def chain_Validate_def split: if_splits)
qed

lemma NewBlockHeightFromBig_iff:
  assumes "length w = 32"
  shows "NewBlockHeightFromBig (Some (int (be_val w))) = Inr h \<longleftrightarrow> h = BytesToHash w"
proof -
  have "be_val w < 256 ^ 32" using be_val_less[of w] assms by simp
  then have "int (be_val w) < int (256 ^ 32)" by (simp only: of_nat_less_iff)
  then have "int (be_val w) < 2 ^ 256" by simp
  then show ?thesis by (auto simp: NewBlockHeightFromBig_def uint256FromBig_def BytesToHash_def)
qed

lemma length_word_at: "(i + 1) * 32 \<le> length data \<Longrightarrow> length (word_at data i) = 32"
  by (simp add: word_at_def)

lemma word_at_Suc: "word_at data (Suc i) = word_at (drop 32 data) i"
  by (simp add: word_at_def add.commute)

text \<open>Data of the right length is the concatenation of the words read from it.\<close>

lemma data_words:
  assumes "length data = length ws * 32" "\<forall>w \<in> set ws. length w = 32"
  shows "data = concat ws \<longleftrightarrow> (\<forall>i < length ws. word_at data i = ws ! i)"
  using assms
proof (induction ws arbitrary: data)
  case (Cons w ws)
  have "data = w @ concat ws \<longleftrightarrow> take 32 data = w \<and> drop 32 data = concat ws"
    using Cons.prems by (metis append_eq_conv_conj list.set_intros(1))
  also have "\<dots> \<longleftrightarrow> word_at data 0 = w \<and> (\<forall>i < length ws. word_at data (Suc i) = ws ! i)"
    using Cons by (simp add: word_at_Suc) (simp add: word_at_def)
  also have "\<dots> \<longleftrightarrow> (\<forall>i < length (w # ws). word_at data i = (w # ws) ! i)"
    by (auto simp: less_Suc_eq_0_disj)
  finally show ?case by simp
qed simp

lemma data_two: "length data = 64 \<Longrightarrow> length a = 32 \<Longrightarrow> length b = 32 \<Longrightarrow>
    data = a @ b \<longleftrightarrow> word_at data 0 = a \<and> word_at data 1 = b"
  using data_words[of data "[a, b]"] by (auto simp: less_Suc_eq_0_disj)

lemma data_three: "length data = 96 \<Longrightarrow> length a = 32 \<Longrightarrow> length b = 32 \<Longrightarrow> length c = 32 \<Longrightarrow>
    data = a @ b @ c \<longleftrightarrow> word_at data 0 = a \<and> word_at data 1 = b \<and> word_at data 2 = c"
  using data_words[of data "[a, b, c]"] by (auto simp: less_Suc_eq_0_disj numeral_2_eq_2)

lemma data_four: "length data = 128 \<Longrightarrow> length a = 32 \<Longrightarrow> length b = 32 \<Longrightarrow> length c = 32 \<Longrightarrow> length d = 32 \<Longrightarrow>
    data = a @ b @ c @ d \<longleftrightarrow> word_at data 0 = a \<and> word_at data 1 = b \<and> word_at data 2 = c \<and> word_at data 3 = d"
  using data_words[of data "[a, b, c, d]"] by (auto simp: less_Suc_eq_0_disj numeral_2_eq_2 numeral_3_eq_3)

lemma data_five: "length data = 160 \<Longrightarrow> length a = 32 \<Longrightarrow> length b = 32 \<Longrightarrow> length c = 32 \<Longrightarrow> length d = 32 \<Longrightarrow> length e = 32 \<Longrightarrow>
    data = a @ b @ c @ d @ e \<longleftrightarrow>
      word_at data 0 = a \<and> word_at data 1 = b \<and> word_at data 2 = c \<and> word_at data 3 = d \<and> word_at data 4 = e"
  using data_words[of data "[a, b, c, d, e]"] by (auto simp: less_Suc_eq_0_disj numeral_2_eq_2 numeral_3_eq_3 eval_nat_numeral)

lemma BytesToHash_iff: "length w = 32 \<Longrightarrow> BytesToHash w = h \<longleftrightarrow> w = bytes32 h"
  using bytes32_BytesToHash[of w] by auto

subsection \<open>The parsers accept exactly the logs of the events\<close>

lemma topics_three: "length ts = 3 \<Longrightarrow> ts = [a, b, c] \<longleftrightarrow> ts ! 0 = a \<and> ts ! 1 = b \<and> ts ! 2 = c"
  by (cases ts rule: list.exhaust; auto simp: eval_nat_numeral length_Suc_conv)

lemma topics_four: "length ts = 4 \<Longrightarrow> ts = [a, b, c, d] \<longleftrightarrow> ts ! 0 = a \<and> ts ! 1 = b \<and> ts ! 2 = c \<and> ts ! 3 = d"
  by (cases ts rule: list.exhaust; auto simp: eval_nat_numeral length_Suc_conv)

lemma requireEvent_Inr: "requireEvent l t n k = Inr u \<longleftrightarrow> length (lg_Topics l) = n \<and> length (lg_Data l) = k * 32 \<and> lg_Topics l ! 0 = t"
  by (simp add: requireEvent_def)

lemmas event_layout = is_log_of_def event_signature_def event_topics_def event_data_def gateway_topics_def

lemma length_bool_word [simp]: "length (bool_word b) = 32"
  by (simp add: bool_word_def)

lemma log_length:
  assumes "is_log_of K l ev"
  shows "length (lg_Topics l) = Suc (length (event_topics ev))" "length (lg_Data l) = length (event_data ev)"
    "lg_Topics l ! 0 = K (string_bytes (event_signature ev))"
  using assms by (simp_all add: is_log_of_def)

lemma ParseTrustRootUpdated_iff:
  assumes "gateway_topics K"
  shows "ParseTrustRootUpdated l = Inr v \<longleftrightarrow> is_log_of K l (TrustRootUpdated (tu_RequestID v) (tu_LeafIndex v) (tu_Leaf v)
    (tu_OldTrustRoot v) (tu_NewTrustRoot v) (tu_IsAnchor v))" (is "?P \<longleftrightarrow> ?L")
proof (cases "requireEvent l TrustRootUpdatedTopic 3 4")
  case (Inl e)
  then show ?thesis using assms log_length[of K l "TrustRootUpdated (tu_RequestID v) (tu_LeafIndex v) (tu_Leaf v)
    (tu_OldTrustRoot v) (tu_NewTrustRoot v) (tu_IsAnchor v)"]
    by (auto simp: ParseTrustRootUpdated_def requireEvent_def event_layout split: if_splits)
next
  case (Inr u)
  then have len: "length (lg_Topics l) = 3" "length (lg_Data l) = 128" "lg_Topics l ! 0 = TrustRootUpdatedTopic"
    by (simp_all add: requireEvent_Inr)
  have w: "length (word_at (lg_Data l) i) = 32" if "i < 4" for i using len(2) that by (simp add: length_word_at)
  have "?L \<longleftrightarrow> lg_Topics l ! 1 = tu_RequestID v \<and> lg_Topics l ! 2 = ucast (tu_LeafIndex v) \<and>
      word_at (lg_Data l) 0 = bytes32 (tu_Leaf v) \<and> word_at (lg_Data l) 1 = bytes32 (tu_OldTrustRoot v) \<and>
      word_at (lg_Data l) 2 = bytes32 (tu_NewTrustRoot v) \<and> word_at (lg_Data l) 3 = bool_word (tu_IsAnchor v)"
    using assms len by (simp add: event_layout topics_three data_four)
  also have "\<dots> \<longleftrightarrow> ?P"
    using Inr w by (cases v) (auto simp: ParseTrustRootUpdated_def topicUint32_iff wordBool_iff BytesToHash_iff)
  finally show ?thesis by simp
qed

lemma ParseVerificationRequested_iff:
  assumes "gateway_topics K"
  shows "ParseVerificationRequested l = Inr v \<longleftrightarrow> is_log_of K l (VerificationRequested (vq_RequestID v) (vq_Requester v)
    (vq_SourceChainID v) (vq_SourceHeight v) (vq_SourceBlockHash v) (vq_RequesterNonce v)) \<and> vq_SourceChainID v \<noteq> 0"
    (is "?P \<longleftrightarrow> ?L \<and> _")
proof (cases "requireEvent l VerificationRequestedTopic 4 3")
  case (Inl e)
  then show ?thesis using assms log_length[of K l "VerificationRequested (vq_RequestID v) (vq_Requester v)
    (vq_SourceChainID v) (vq_SourceHeight v) (vq_SourceBlockHash v) (vq_RequesterNonce v)"]
    by (auto simp: ParseVerificationRequested_def requireEvent_def event_layout split: if_splits)
next
  case (Inr u)
  then have len: "length (lg_Topics l) = 4" "length (lg_Data l) = 96" "lg_Topics l ! 0 = VerificationRequestedTopic"
    by (simp_all add: requireEvent_Inr)
  have w: "length (word_at (lg_Data l) i) = 32" if "i < 3" for i using len(2) that by (simp add: length_word_at)
  have "?L \<longleftrightarrow> lg_Topics l ! 1 = vq_RequestID v \<and> lg_Topics l ! 2 = address_topic (vq_Requester v) \<and>
      lg_Topics l ! 3 = vq_SourceChainID v \<and> word_at (lg_Data l) 0 = bytes32 (vq_SourceHeight v) \<and>
      word_at (lg_Data l) 1 = bytes32 (vq_SourceBlockHash v) \<and> word_at (lg_Data l) 2 = bytes32 (vq_RequesterNonce v)"
    using assms len by (simp add: event_layout topics_four data_three)
  then show ?thesis
    using Inr w by (cases v) (auto simp: ParseVerificationRequested_def topicAddress_iff NewChainIDFromBig_iff NewBlockHeightFromBig_iff BytesToHash_iff)
qed

lemma ParseDependencyRecorded_iff:
  assumes "gateway_topics K"
  shows "ParseDependencyRecorded l = Inr v \<longleftrightarrow> is_log_of K l (DependencyRecorded (de_DependencyKey v) (de_RequestID v)
    (de_SourceChainID v) (de_SourceHeight v) (de_SourceBlockHash v) (de_SourceTrustRoot v) (de_LeafIndex v)) \<and> de_SourceChainID v \<noteq> 0"
    (is "?P \<longleftrightarrow> ?L \<and> _")
proof (cases "requireEvent l DependencyRecordedTopic 4 4")
  case (Inl e)
  then show ?thesis using assms log_length[of K l "DependencyRecorded (de_DependencyKey v) (de_RequestID v)
    (de_SourceChainID v) (de_SourceHeight v) (de_SourceBlockHash v) (de_SourceTrustRoot v) (de_LeafIndex v)"]
    by (auto simp: ParseDependencyRecorded_def requireEvent_def event_layout split: if_splits)
next
  case (Inr u)
  then have len: "length (lg_Topics l) = 4" "length (lg_Data l) = 128" "lg_Topics l ! 0 = DependencyRecordedTopic"
    by (simp_all add: requireEvent_Inr)
  have w: "length (word_at (lg_Data l) i) = 32" if "i < 4" for i using len(2) that by (simp add: length_word_at)
  have "?L \<longleftrightarrow> lg_Topics l ! 1 = de_DependencyKey v \<and> lg_Topics l ! 2 = de_RequestID v \<and>
      lg_Topics l ! 3 = de_SourceChainID v \<and> word_at (lg_Data l) 0 = bytes32 (de_SourceHeight v) \<and>
      word_at (lg_Data l) 1 = bytes32 (de_SourceBlockHash v) \<and> word_at (lg_Data l) 2 = bytes32 (de_SourceTrustRoot v) \<and>
      word_at (lg_Data l) 3 = uint32_word (de_LeafIndex v)"
    using assms len by (simp add: event_layout topics_four data_four)
  then show ?thesis
    using Inr w by (cases v) (auto simp: ParseDependencyRecorded_def wordUint32_iff NewChainIDFromBig_iff NewBlockHeightFromBig_iff BytesToHash_iff)
qed

lemma ParseRequestResolved_iff:
  assumes "gateway_topics K"
  shows "ParseRequestResolved l = Inr v \<longleftrightarrow> is_log_of K l (RequestResolved (re_RequestID v) (re_Requester v)
    (re_DependencyKey v) (re_NewDependency v) (re_HomeTrustRoot v))" (is "?P \<longleftrightarrow> ?L")
proof (cases "requireEvent l RequestResolvedTopic 4 2")
  case (Inl e)
  then show ?thesis using assms log_length[of K l "RequestResolved (re_RequestID v) (re_Requester v)
    (re_DependencyKey v) (re_NewDependency v) (re_HomeTrustRoot v)"]
    by (auto simp: ParseRequestResolved_def requireEvent_def event_layout split: if_splits)
next
  case (Inr u)
  then have len: "length (lg_Topics l) = 4" "length (lg_Data l) = 64" "lg_Topics l ! 0 = RequestResolvedTopic"
    by (simp_all add: requireEvent_Inr)
  have w: "length (word_at (lg_Data l) i) = 32" if "i < 2" for i using len(2) that by (simp add: length_word_at)
  have "?L \<longleftrightarrow> lg_Topics l ! 1 = re_RequestID v \<and> lg_Topics l ! 2 = address_topic (re_Requester v) \<and>
      lg_Topics l ! 3 = re_DependencyKey v \<and> word_at (lg_Data l) 0 = bool_word (re_NewDependency v) \<and>
      word_at (lg_Data l) 1 = bytes32 (re_HomeTrustRoot v)"
    using assms len by (simp add: event_layout topics_four data_two)
  then show ?thesis
    using Inr w by (cases v) (auto simp: ParseRequestResolved_def topicAddress_iff wordBool_iff BytesToHash_iff)
qed

text \<open>The event a parsed \<open>VerificationSucceeded\<close> stands for.\<close>

definition succeeded_event :: "verification_succeeded \<Rightarrow> sol_event" where
  "succeeded_event v =
     (case vs_HopCount v of
        None \<Rightarrow> DirectVerificationSucceeded (vs_RequestID v) (vs_SourceChainID v) (vs_SourceHeight v) (vs_SourceBlockHash v)
          (vs_SourceTrustRoot v) (vs_DependencyKey v)
      | Some n \<Rightarrow> PathVerificationSucceeded (vs_RequestID v) (vs_SourceChainID v) (vs_SourceHeight v) (vs_SourceBlockHash v)
          (vs_SourceTrustRoot v) (of_int n) (vs_DependencyKey v))"

definition hop_count_ok :: "verification_succeeded \<Rightarrow> bool" where
  "hop_count_ok v \<longleftrightarrow> (case vs_HopCount v of None \<Rightarrow> \<not> vs_Path v | Some n \<Rightarrow> vs_Path v \<and> 0 < n \<and> n < 2 ^ 256)"

lemma hop_count_iff:
  assumes "length w = 32"
  shows "be_val w \<noteq> 0 \<and> n = int (be_val w) \<longleftrightarrow> w = bytes32 (of_int n) \<and> 0 < n \<and> n < 2 ^ 256"
proof -
  have "be_val w < 256 ^ 32" using be_val_less[of w] assms by simp
  then have "int (be_val w) < int (256 ^ 32)" by (simp only: of_nat_less_iff)
  then have lt: "int (be_val w) < 2 ^ 256" by simp
  show ?thesis
  proof
    assume "be_val w \<noteq> 0 \<and> n = int (be_val w)"
    then show "w = bytes32 (of_int n) \<and> 0 < n \<and> n < 2 ^ 256"
      using lt bytes32_BytesToHash[OF assms] by (simp add: BytesToHash_def)
  next
    assume a: "w = bytes32 (of_int n) \<and> 0 < n \<and> n < 2 ^ 256"
    then have "int (be_val w) = uint (of_int n :: hash)" by simp
    also have "\<dots> = n" using a by (simp add: uint_word_of_int_eq take_bit_int_eq_self)
    finally have e: "int (be_val w) = n" .
    then have "be_val w \<noteq> 0" using conjunct1[OF conjunct2[OF a]] by linarith
    with e show "be_val w \<noteq> 0 \<and> n = int (be_val w)" by blast
  qed
qed

lemma distinct_success_topics: "PathVerificationSucceededTopic \<noteq> DirectVerificationSucceededTopic"
  by (simp add: PathVerificationSucceededTopic_def DirectVerificationSucceededTopic_def)

lemma ParseVerificationSucceeded_direct:
  assumes "gateway_topics K" "vs_HopCount v = None"
  shows "ParseVerificationSucceeded l = Inr v \<longleftrightarrow> is_log_of K l (succeeded_event v) \<and> vs_SourceChainID v \<noteq> 0 \<and> \<not> vs_Path v"
proof (cases "length (lg_Topics l) = 3 \<and> length (lg_Data l) = 128 \<and> lg_Topics l ! 0 = DirectVerificationSucceededTopic")
  case True
  then have w: "length (word_at (lg_Data l) i) = 32" if "i < 4" for i using that by (simp add: length_word_at)
  have "is_log_of K l (succeeded_event v) \<longleftrightarrow> lg_Topics l ! 1 = vs_RequestID v \<and> lg_Topics l ! 2 = vs_SourceChainID v \<and>
      word_at (lg_Data l) 0 = bytes32 (vs_SourceHeight v) \<and> word_at (lg_Data l) 1 = bytes32 (vs_SourceBlockHash v) \<and>
      word_at (lg_Data l) 2 = bytes32 (vs_SourceTrustRoot v) \<and> word_at (lg_Data l) 3 = bytes32 (vs_DependencyKey v)"
    using assms True by (simp add: event_layout succeeded_event_def topics_three data_four)
  moreover have "ParseVerificationSucceeded l = succeeded_fields l 4 False" using True by (simp add: ParseVerificationSucceeded_def)
  ultimately show ?thesis using True w assms(2)
    by (cases v) (auto simp: succeeded_fields_def requireEvent_def NewChainIDFromBig_iff NewBlockHeightFromBig_iff BytesToHash_iff)
next
  case False
  have "\<not> is_log_of K l (succeeded_event v)"
    using False assms by (auto simp: event_layout succeeded_event_def)
  moreover have "ParseVerificationSucceeded l \<noteq> Inr v"
    using False assms(2)
    by (cases v) (auto simp: ParseVerificationSucceeded_def succeeded_fields_def requireEvent_def Let_def split: if_splits)
  ultimately show ?thesis by simp
qed

lemma ParseVerificationSucceeded_path:
  assumes "gateway_topics K" "vs_HopCount v = Some n"
  shows "ParseVerificationSucceeded l = Inr v \<longleftrightarrow>
    is_log_of K l (succeeded_event v) \<and> vs_SourceChainID v \<noteq> 0 \<and> vs_Path v \<and> 0 < n \<and> n < 2 ^ 256"
proof (cases "length (lg_Topics l) = 3 \<and> length (lg_Data l) = 160 \<and> lg_Topics l ! 0 = PathVerificationSucceededTopic")
  case True
  then have w: "length (word_at (lg_Data l) i) = 32" if "i < 5" for i using that by (simp add: length_word_at)
  have "is_log_of K l (succeeded_event v) \<longleftrightarrow> lg_Topics l ! 1 = vs_RequestID v \<and> lg_Topics l ! 2 = vs_SourceChainID v \<and>
      word_at (lg_Data l) 0 = bytes32 (vs_SourceHeight v) \<and> word_at (lg_Data l) 1 = bytes32 (vs_SourceBlockHash v) \<and>
      word_at (lg_Data l) 2 = bytes32 (vs_SourceTrustRoot v) \<and> word_at (lg_Data l) 3 = bytes32 (of_int n) \<and>
      word_at (lg_Data l) 4 = bytes32 (vs_DependencyKey v)"
    using assms True by (simp add: event_layout succeeded_event_def topics_three data_five)
  moreover have "ParseVerificationSucceeded l = Inr v \<longleftrightarrow> lg_Topics l ! 1 = vs_RequestID v \<and> lg_Topics l ! 2 = vs_SourceChainID v \<and>
      vs_SourceChainID v \<noteq> 0 \<and> vs_Path v \<and>
      word_at (lg_Data l) 0 = bytes32 (vs_SourceHeight v) \<and> word_at (lg_Data l) 1 = bytes32 (vs_SourceBlockHash v) \<and>
      word_at (lg_Data l) 2 = bytes32 (vs_SourceTrustRoot v) \<and> word_at (lg_Data l) 4 = bytes32 (vs_DependencyKey v) \<and>
      be_val (word_at (lg_Data l) 3) \<noteq> 0 \<and> n = int (be_val (word_at (lg_Data l) 3))"
    using True w assms(2) distinct_success_topics
    by (cases v) (auto simp: ParseVerificationSucceeded_def succeeded_fields_def requireEvent_def NewChainIDFromBig_iff
        NewBlockHeightFromBig_iff BytesToHash_iff Let_def)
  ultimately show ?thesis using hop_count_iff[OF w[of 3], of n] by auto
next
  case False
  have "\<not> is_log_of K l (succeeded_event v)"
    using False assms by (auto simp: event_layout succeeded_event_def)
  moreover have "ParseVerificationSucceeded l \<noteq> Inr v"
    using False assms(2)
    by (cases v) (auto simp: ParseVerificationSucceeded_def succeeded_fields_def requireEvent_def Let_def split: if_splits)
  ultimately show ?thesis by simp
qed

lemma ParseVerificationSucceeded_iff:
  assumes "gateway_topics K"
  shows "ParseVerificationSucceeded l = Inr v \<longleftrightarrow> is_log_of K l (succeeded_event v) \<and> vs_SourceChainID v \<noteq> 0 \<and> hop_count_ok v"
  using ParseVerificationSucceeded_direct[OF assms, of v l] ParseVerificationSucceeded_path[OF assms, of v _ l]
  by (cases "vs_HopCount v") (auto simp: hop_count_ok_def)

text \<open>
  C40. The five event parsers of the node and the event declarations of the Gateway agree in both directions: a
  parser returns a value exactly when the log is the one Solidity writes for the event with those arguments, with
  a non-zero source chain, and, for a path verification, a positive hop count. So nothing of an event is lost, two events
  never parse alike, and no non-canonical encoding (a padded address, an overlong \<open>uint32\<close>, a \<open>bool\<close> other than
  zero and one, trailing data) is accepted.
\<close>

theorem events_roundtrip:
  assumes "gateway_topics K"
  shows "(ParseVerificationRequested l = Inr a \<longleftrightarrow> vq_SourceChainID a \<noteq> 0 \<and> is_log_of K l (VerificationRequested (vq_RequestID a)
      (vq_Requester a) (vq_SourceChainID a) (vq_SourceHeight a) (vq_SourceBlockHash a) (vq_RequesterNonce a))) \<and>
    (ParseTrustRootUpdated l = Inr b \<longleftrightarrow> is_log_of K l (TrustRootUpdated (tu_RequestID b) (tu_LeafIndex b) (tu_Leaf b)
      (tu_OldTrustRoot b) (tu_NewTrustRoot b) (tu_IsAnchor b))) \<and>
    (ParseDependencyRecorded l = Inr c \<longleftrightarrow> de_SourceChainID c \<noteq> 0 \<and> is_log_of K l (DependencyRecorded (de_DependencyKey c)
      (de_RequestID c) (de_SourceChainID c) (de_SourceHeight c) (de_SourceBlockHash c) (de_SourceTrustRoot c) (de_LeafIndex c))) \<and>
    (ParseRequestResolved l = Inr d \<longleftrightarrow> is_log_of K l (RequestResolved (re_RequestID d) (re_Requester d) (re_DependencyKey d)
      (re_NewDependency d) (re_HomeTrustRoot d))) \<and>
    (ParseVerificationSucceeded l = Inr e \<longleftrightarrow> vs_SourceChainID e \<noteq> 0 \<and> hop_count_ok e \<and> is_log_of K l (succeeded_event e))"
  using ParseVerificationRequested_iff[OF assms] ParseTrustRootUpdated_iff[OF assms] ParseDependencyRecorded_iff[OF assms]
    ParseRequestResolved_iff[OF assms] ParseVerificationSucceeded_iff[OF assms] by metis

text \<open>A hash with the six topics of the Gateway, for applications to concrete logs.\<close>

definition topic_hash :: keccak where
  "topic_hash bs =
     (if bs = string_bytes ''TrustRootUpdated(bytes32,uint32,bytes32,bytes32,bytes32,bool)'' then TrustRootUpdatedTopic
      else if bs = string_bytes ''VerificationRequested(bytes32,address,uint256,uint256,bytes32,uint256)'' then VerificationRequestedTopic
      else if bs = string_bytes ''DirectVerificationSucceeded(bytes32,uint256,uint256,bytes32,bytes32,bytes32)'' then DirectVerificationSucceededTopic
      else if bs = string_bytes ''PathVerificationSucceeded(bytes32,uint256,uint256,bytes32,bytes32,uint256,bytes32)'' then PathVerificationSucceededTopic
      else if bs = string_bytes ''DependencyRecorded(bytes32,bytes32,uint256,uint256,bytes32,bytes32,uint32)'' then DependencyRecordedTopic
      else if bs = string_bytes ''RequestResolved(bytes32,address,bytes32,bool,bytes32)'' then RequestResolvedTopic
      else demo_hash bs)"

lemma gateway_topics_topic_hash: "gateway_topics topic_hash"
  by (simp add: gateway_topics_def topic_hash_def)

definition log_of :: "keccak \<Rightarrow> sol_event \<Rightarrow> eth_log" where
  "log_of K ev = \<lparr>lg_Address = 1, lg_Topics = K (string_bytes (event_signature ev)) # event_topics ev, lg_Data = event_data ev,
     lg_BlockNumber = 1, lg_TxHash = 1, lg_TxIndex = 0, lg_BlockHash = 1, lg_Index = 0, lg_Removed = False\<rparr>"

theorem events_roundtrip_witness:
  "gateway_topics topic_hash \<and> ParseRequestResolved (log_of topic_hash (RequestResolved 1 2 3 True 4)) =
     Inr \<lparr>re_RequestID = 1, re_Requester = 2, re_DependencyKey = 3, re_NewDependency = True, re_HomeTrustRoot = 4\<rparr>"
proof -
  have "is_log_of topic_hash (log_of topic_hash (RequestResolved 1 2 3 True 4)) (RequestResolved 1 2 3 True 4)"
    by (simp add: is_log_of_def log_of_def)
  then show ?thesis
    using events_roundtrip[OF gateway_topics_topic_hash, of "log_of topic_hash (RequestResolved 1 2 3 True 4)" _ _ _
      "\<lparr>re_RequestID = 1, re_Requester = 2, re_DependencyKey = 3, re_NewDependency = True, re_HomeTrustRoot = 4\<rparr>"]
      gateway_topics_topic_hash by simp
qed

end
