(* ===== verification/Coordinator.thy ===== *)
theory Coordinator
  imports PathProof
begin

text \<open>
  \<open>Mapnode/coordinator\<close>: the durable state machine of a verification request. \<open>Process\<close> drives a request from the
  state it was stored in to a state in which the executor can act, through the services it is composed of.
  A service is a function on the store that returns the store it leaves behind together with its result, so
  what an operation wrote before it failed stays visible. The unbounded loop of \<open>Process\<close> has a bound here;
  \<open>process_returns\<close> proves that the bound is never reached.
\<close>

subsection \<open>Requests and their states\<close>

datatype request_state =
  Observed | EvidenceReady | Planned | ProofReady | Rejected | Retryable | Replanned | DirectFallback
  | OtherRequestState string

record request =
  rs_ID :: request_id
  rs_HomeChainID :: chain_id
  rs_Gateway :: address
  rs_Requester :: address
  rs_Nonce :: hash
  rs_SourceChainID :: chain_id
  rs_SourceHeight :: block_height
  rs_SourceBlockHash :: hash
  rs_State :: request_state
  rs_Reason :: string
  rs_CreatedAt :: go_time
  rs_UpdatedAt :: go_time

record transition_metadata =
  tm_At :: go_time
  tm_Reason :: string

definition AllRequestStates :: "request_state list" where
  "AllRequestStates = [Observed, EvidenceReady, Planned, ProofReady, Rejected, Retryable, Replanned, DirectFallback]"

fun request_state_Validate :: "request_state \<Rightarrow> unit res" where
  "request_state_Validate (OtherRequestState s) = Inl ErrInvalidRequestState"
| "request_state_Validate _ = Inr ()"

definition legal_request_transition :: "request_state \<Rightarrow> request_state \<Rightarrow> bool" where
  "legal_request_transition from to \<longleftrightarrow>
     from = Observed \<and> (to = EvidenceReady \<or> to = Rejected) \<or>
     from = EvidenceReady \<and> to = Planned \<or>
     from = Planned \<and> (to = ProofReady \<or> to = Retryable) \<or>
     from = ProofReady \<and> to = Retryable \<or>
     from = DirectFallback \<and> to = Retryable \<or>
     from = Retryable \<and> (to = Replanned \<or> to = DirectFallback) \<or>
     from = Replanned \<and> to = ProofReady"

definition ValidateRequestTransition :: "request_state \<Rightarrow> request_state \<Rightarrow> bool res" where
  "ValidateRequestTransition from to =
     bind_res (request_state_Validate from) (\<lambda>_.
     bind_res (request_state_Validate to) (\<lambda>_.
     if from = to then Inr False
     else if \<not> legal_request_transition from to then Inl ErrInvalidRequestTransition
     else Inr True))"

subsection \<open>Process\<close>

record work =
  wk_Request :: request
  wk_Attempt :: u64
  wk_SnapshotID :: snapshot_id
  wk_ExpectedHomeTrustRoot :: trust_root

text \<open>A \<open>Result\<close>: \<open>None\<close> is the zero plan or proof of the Go struct.\<close>

record coord_result =
  cr_Request :: request
  cr_Plan :: "plan option"
  cr_PathProof :: "path_proof option"

record 'db services =
  svc_Observe :: "'db \<Rightarrow> request \<Rightarrow> 'db \<times> (request \<times> bool) res"
  svc_Load :: "'db \<Rightarrow> request_id \<Rightarrow> request res"
  svc_Transition :: "'db \<Rightarrow> request_id \<Rightarrow> request_state \<Rightarrow> request_state \<Rightarrow> transition_metadata \<Rightarrow> 'db \<times> (request \<times> bool) res"
  svc_RequireEvidenceReady :: "'db \<Rightarrow> request \<Rightarrow> unit res"
  svc_Plan :: "'db \<Rightarrow> planner_request \<Rightarrow> 'db \<times> plan res"
  svc_LoadCurrentPlan :: "'db \<Rightarrow> request_id \<Rightarrow> plan res"
  svc_Build :: "'db \<Rightarrow> build_request \<Rightarrow> 'db \<times> path_proof res"
  svc_ErrorText :: "go_error \<Rightarrow> string"

definition sameRequestIdentityForResume :: "request \<Rightarrow> request \<Rightarrow> bool" where
  "sameRequestIdentityForResume left right \<longleftrightarrow>
     rs_ID left = rs_ID right \<and> rs_HomeChainID left = rs_HomeChainID right \<and> rs_Gateway left = rs_Gateway right \<and>
     rs_Requester left = rs_Requester right \<and> rs_Nonce left = rs_Nonce right \<and>
     rs_SourceChainID left = rs_SourceChainID right \<and> rs_SourceHeight left = rs_SourceHeight right \<and>
     rs_SourceBlockHash left = rs_SourceBlockHash right"

definition validateWorkPlan :: "keccak \<Rightarrow> work \<Rightarrow> plan \<Rightarrow> unit res" where
  "validateWorkPlan K work plan =
     (if pl_RequestID plan \<noteq> rs_ID (wk_Request work) \<or> pl_Attempt plan \<noteq> wk_Attempt work \<or>
         pl_SnapshotID plan \<noteq> wk_SnapshotID work \<or> pl_ID plan \<noteq> ComputePlanID K plan
      then Inl (ErrMsg ''persisted plan does not bind coordinator work'') else Inr ())"

definition no_metadata :: transition_metadata where
  "no_metadata = \<lparr>tm_At = 0, tm_Reason = []\<rparr>"

text \<open>One iteration of the loop either returns or goes on with a result.\<close>

datatype loop_exit = Return coord_result | Again coord_result

definition build_request_for :: "work \<Rightarrow> coord_result \<Rightarrow> plan \<Rightarrow> build_request" where
  "build_request_for work result plan =
     \<lparr>br_PlanID = pl_ID plan, br_SourceBlockHash = rs_SourceBlockHash (cr_Request result),
      br_ExpectedHomeTrustRoot = wk_ExpectedHomeTrustRoot work\<rparr>"

definition planner_request_for :: "work \<Rightarrow> coord_result \<Rightarrow> planner_request" where
  "planner_request_for work result =
     \<lparr>rq_ID = rs_ID (cr_Request result), rq_Attempt = wk_Attempt work, rq_SnapshotID = wk_SnapshotID work,
      rq_HomeChainID = rs_HomeChainID (cr_Request result)\<rparr>"

definition process_step :: "keccak \<Rightarrow> 'db services \<Rightarrow> work \<Rightarrow> 'db \<Rightarrow> coord_result \<Rightarrow> 'db \<times> loop_exit res" where
  "process_step K svc work db result =
     (let rid = rs_ID (cr_Request result)
      in case rs_State (cr_Request result) of
        Rejected \<Rightarrow>
          (case svc_LoadCurrentPlan svc db rid of
             Inl e \<Rightarrow> if e = ErrPlanNotFound then (db, Inr (Return result)) else (db, Inl e)
           | Inr plan \<Rightarrow> (db, Inr (Return (result\<lparr>cr_Plan := Some plan\<rparr>))))
      | DirectFallback \<Rightarrow>
          bind_op (db, svc_LoadCurrentPlan svc db rid) (\<lambda>db plan.
          bind_op (db, validateWorkPlan K work plan) (\<lambda>db _.
          if pl_Type plan \<noteq> DirectPlan \<or> pl_FallbackReason plan = []
          then (db, Inl (ErrMsg ''DirectFallback request lacks a valid durable DirectPlan''))
          else (db, Inr (Return (result\<lparr>cr_Plan := Some plan\<rparr>)))))
      | ProofReady \<Rightarrow>
          bind_op (db, svc_LoadCurrentPlan svc db rid) (\<lambda>db plan.
          bind_op (db, validateWorkPlan K work plan) (\<lambda>db _.
          if pl_Type plan \<noteq> PathPlan then (db, Inl (ErrMsg ''ProofReady request lacks a durable PathPlan''))
          else bind_op (svc_Build svc db (build_request_for work result plan)) (\<lambda>db proofValue.
            (db, Inr (Return (result\<lparr>cr_Plan := Some plan, cr_PathProof := Some proofValue\<rparr>))))))
      | Observed \<Rightarrow>
          (case svc_RequireEvidenceReady svc db (cr_Request result) of
             Inl gateErr \<Rightarrow>
               if gateErr = ErrInvalidObservation
               then bind_op (svc_Transition svc db rid Observed Rejected
                      \<lparr>tm_At = 0, tm_Reason = svc_ErrorText svc gateErr\<rparr>) (\<lambda>db (rq, _).
                    (db, Inr (Again (result\<lparr>cr_Request := rq\<rparr>))))
               else (db, Inl gateErr)
           | Inr _ \<Rightarrow>
               bind_op (svc_Transition svc db rid Observed EvidenceReady no_metadata) (\<lambda>db (rq, _).
               (db, Inr (Again (result\<lparr>cr_Request := rq\<rparr>)))))
      | EvidenceReady \<Rightarrow>
          bind_op (case svc_LoadCurrentPlan svc db rid of
                     Inl e \<Rightarrow> if e = ErrPlanNotFound then svc_Plan svc db (planner_request_for work result) else (db, Inl e)
                   | Inr plan \<Rightarrow> (db, Inr plan)) (\<lambda>db plan.
          bind_op (db, validateWorkPlan K work plan) (\<lambda>db _.
          bind_op (svc_Transition svc db rid EvidenceReady Planned no_metadata) (\<lambda>db (rq, _).
          (db, Inr (Again (result\<lparr>cr_Plan := Some plan, cr_Request := rq\<rparr>))))))
      | Planned \<Rightarrow>
          bind_op (db, svc_LoadCurrentPlan svc db rid) (\<lambda>db plan.
          bind_op (db, validateWorkPlan K work plan) (\<lambda>db _.
          if pl_Type plan = DirectPlan then (db, Inr (Return (result\<lparr>cr_Plan := Some plan\<rparr>)))
          else bind_op (svc_Build svc db (build_request_for work result plan)) (\<lambda>db proofValue.
            bind_op (svc_Transition svc db rid Planned ProofReady no_metadata) (\<lambda>db (rq, _).
            (db, Inr (Return (result\<lparr>cr_Plan := Some plan, cr_PathProof := Some proofValue, cr_Request := rq\<rparr>)))))))
      | Retryable \<Rightarrow>
          bind_op (svc_Plan svc db (planner_request_for work result)) (\<lambda>db plan.
          bind_op (db, validateWorkPlan K work plan) (\<lambda>db _.
          bind_op (if pl_Type plan = DirectPlan
                   then svc_Transition svc db rid Retryable DirectFallback \<lparr>tm_At = 0, tm_Reason = pl_FallbackReason plan\<rparr>
                   else svc_Transition svc db rid Retryable Replanned no_metadata) (\<lambda>db (rq, _).
          (db, Inr (Again (result\<lparr>cr_Plan := Some plan, cr_Request := rq\<rparr>))))))
      | Replanned \<Rightarrow>
          bind_op (db, svc_LoadCurrentPlan svc db rid) (\<lambda>db plan.
          if pl_Type plan \<noteq> PathPlan then (db, Inl (ErrMsg ''Replanned request has no path plan''))
          else bind_op (db, validateWorkPlan K work plan) (\<lambda>db _.
          bind_op (svc_Build svc db (build_request_for work result plan)) (\<lambda>db proofValue.
          bind_op (svc_Transition svc db rid Replanned ProofReady no_metadata) (\<lambda>db (rq, _).
          (db, Inr (Return (result\<lparr>cr_Plan := Some plan, cr_PathProof := Some proofValue, cr_Request := rq\<rparr>)))))))
      | OtherRequestState _ \<Rightarrow> (db, Inl ErrInvalidRequestState))"

fun process_loop :: "nat \<Rightarrow> keccak \<Rightarrow> 'db services \<Rightarrow> work \<Rightarrow> 'db \<Rightarrow> coord_result \<Rightarrow> ('db \<times> coord_result res) option" where
  "process_loop 0 K svc work db result = None"
| "process_loop (Suc n) K svc work db result =
     (case process_step K svc work db result of
        (db, Inl e) \<Rightarrow> Some (db, Inl e)
      | (db, Inr (Return r)) \<Rightarrow> Some (db, Inr r)
      | (db, Inr (Again r)) \<Rightarrow> process_loop n K svc work db r)"

definition process_entry :: "'db services \<Rightarrow> work \<Rightarrow> 'db \<Rightarrow> 'db \<times> request res" where
  "process_entry svc work db =
     (let rq = wk_Request work
      in if rs_ID rq = 0 \<or> \<not> is_ok (request_state_Validate (rs_State rq)) \<or> wk_SnapshotID work = 0 \<or> rs_SourceBlockHash rq = 0
         then (db, Inl ErrInvalidObservation)
         else if rs_State rq = Observed
         then bind_op (svc_Observe svc db rq) (\<lambda>db (request, _). (db, Inr request))
         else bind_op (db, svc_Load svc db (rs_ID rq)) (\<lambda>db request.
           if \<not> sameRequestIdentityForResume request rq then (db, Inl ErrInvalidObservation) else (db, Inr request)))"

text \<open>
  Three iterations are enough: the longest run starts at \<open>Observed\<close>, goes on to \<open>EvidenceReady\<close> and returns from \<open>Planned\<close>.
\<close>

definition process_bound :: nat where
  "process_bound = 3"

definition Process :: "keccak \<Rightarrow> 'db services \<Rightarrow> work \<Rightarrow> 'db \<Rightarrow> ('db \<times> coord_result res) option" where
  "Process K svc work db =
     (case process_entry svc work db of
        (db, Inl e) \<Rightarrow> Some (db, Inl e)
      | (db, Inr request) \<Rightarrow>
          process_loop process_bound K svc work db \<lparr>cr_Request = request, cr_Plan = None, cr_PathProof = None\<rparr>)"

subsection \<open>The contract of the services\<close>

text \<open>
  What \<open>Process\<close> relies on: a transition that succeeds leaves the request in the state asked for, every operation on
  requests keeps the identity of the stored request, and planning and building do not touch requests.
\<close>

locale request_services =
  fixes svc :: "'db services"
  assumes load_id: "svc_Load svc db rid = Inr rq \<Longrightarrow> rs_ID rq = rid"
    and observe_load: "svc_Observe svc db rq = (db', Inr (rq', c)) \<Longrightarrow>
      svc_Load svc db' (rs_ID rq) = Inr rq' \<and> sameRequestIdentityForResume rq' rq"
    and transition_state: "svc_Transition svc db rid f t m = (db', Inr (rq', c)) \<Longrightarrow> rs_State rq' = t"
    and transition_load: "svc_Transition svc db rid f t m = (db', Inr (rq', c)) \<Longrightarrow>
      svc_Load svc db' rid = Inr rq' \<and> (\<exists>rq. svc_Load svc db rid = Inr rq \<and> sameRequestIdentityForResume rq' rq)"
    and plan_frame: "svc_Plan svc db prq = (db', r) \<Longrightarrow> svc_Load svc db' rid = svc_Load svc db rid"
    and build_frame: "svc_Build svc db brq = (db', r') \<Longrightarrow> svc_Load svc db' rid = svc_Load svc db rid"

lemma same_identity_refl [simp]: "sameRequestIdentityForResume r r"
  by (simp add: sameRequestIdentityForResume_def)

lemma same_identity_trans:
  "sameRequestIdentityForResume a b \<Longrightarrow> sameRequestIdentityForResume b c \<Longrightarrow> sameRequestIdentityForResume a c"
  by (simp add: sameRequestIdentityForResume_def)

lemma same_identity_sym: "sameRequestIdentityForResume a b \<Longrightarrow> sameRequestIdentityForResume b a"
  by (simp add: sameRequestIdentityForResume_def)

definition need :: "request_state \<Rightarrow> nat" where
  "need st = (case st of Observed \<Rightarrow> 3 | EvidenceReady \<Rightarrow> 2 | Retryable \<Rightarrow> 2 | _ \<Rightarrow> 1)"

text \<open>The request of the result is the stored one, and it is the request of the work.\<close>

definition holds_request :: "'db services \<Rightarrow> work \<Rightarrow> 'db \<Rightarrow> request \<Rightarrow> bool" where
  "holds_request svc work db rq \<longleftrightarrow> svc_Load svc db (rs_ID rq) = Inr rq \<and> sameRequestIdentityForResume rq (wk_Request work)"

text \<open>The plan is bound to the work; a proof is one that was built for it.\<close>

definition bound_plan :: "keccak \<Rightarrow> work \<Rightarrow> plan option \<Rightarrow> bool" where
  "bound_plan K work po \<longleftrightarrow> (\<exists>plan. po = Some plan \<and> validateWorkPlan K work plan = Inr ())"

definition built_proof :: "'db services \<Rightarrow> work \<Rightarrow> plan option \<Rightarrow> path_proof option \<Rightarrow> bool" where
  "built_proof svc work po pp \<longleftrightarrow> (\<exists>plan p db db'. po = Some plan \<and> pp = Some p \<and>
     svc_Build svc db \<lparr>br_PlanID = pl_ID plan, br_SourceBlockHash = rs_SourceBlockHash (wk_Request work),
       br_ExpectedHomeTrustRoot = wk_ExpectedHomeTrustRoot work\<rparr> = (db', Inr p))"

definition final_result :: "keccak \<Rightarrow> 'db services \<Rightarrow> work \<Rightarrow> coord_result \<Rightarrow> bool" where
  "final_result K svc work r \<longleftrightarrow>
     (case rs_State (cr_Request r) of
        ProofReady \<Rightarrow> bound_plan K work (cr_Plan r) \<and> built_proof svc work (cr_Plan r) (cr_PathProof r)
      | DirectFallback \<Rightarrow> bound_plan K work (cr_Plan r) \<and> pl_Type (the (cr_Plan r)) = DirectPlan \<and>
          pl_FallbackReason (the (cr_Plan r)) \<noteq> [] \<and> cr_PathProof r = None
      | Planned \<Rightarrow> bound_plan K work (cr_Plan r) \<and> pl_Type (the (cr_Plan r)) = DirectPlan \<and> cr_PathProof r = None
      | Rejected \<Rightarrow> cr_PathProof r = None
      | _ \<Rightarrow> False)"

context request_services
begin

lemma transition_holds:
  assumes "svc_Transition svc db rid f t m = (db', Inr (rq', c))" "holds_request svc work db rq" "rid = rs_ID rq"
  shows "holds_request svc work db' rq'" "rs_State rq' = t"
proof -
  note l = transition_load[OF assms(1)]
  then have "rs_ID rq' = rid" using load_id by blast
  with l assms(2,3) show "holds_request svc work db' rq'"
    by (auto simp: holds_request_def intro: same_identity_trans)
qed (rule transition_state[OF assms(1)])

lemma plan_holds: "svc_Plan svc db prq = (db', r) \<Longrightarrow> holds_request svc work db rq \<Longrightarrow> holds_request svc work db' rq"
  by (simp add: holds_request_def plan_frame)

lemma build_holds: "svc_Build svc db brq = (db', r) \<Longrightarrow> holds_request svc work db rq \<Longrightarrow> holds_request svc work db' rq"
  by (simp add: holds_request_def build_frame)

lemma holds_source: "holds_request svc work db rq \<Longrightarrow> rs_SourceBlockHash rq = rs_SourceBlockHash (wk_Request work)"
  by (simp add: holds_request_def sameRequestIdentityForResume_def)

lemma step_again:
  assumes "process_step K svc work db r = (db', Inr (Again r'))" "holds_request svc work db (cr_Request r)"
  shows "need (rs_State (cr_Request r')) < need (rs_State (cr_Request r))" "holds_request svc work db' (cr_Request r')"
    "cr_PathProof r' = cr_PathProof r"
proof -
  have "need (rs_State (cr_Request r')) < need (rs_State (cr_Request r)) \<and> holds_request svc work db' (cr_Request r') \<and>
    cr_PathProof r' = cr_PathProof r"
    using assms
    by (cases "rs_State (cr_Request r)")
      (auto simp: process_step_def Let_def bind_op_Inr need_def split: sum.splits if_splits prod.splits
        dest!: plan_holds build_holds dest: transition_holds)
  then show "need (rs_State (cr_Request r')) < need (rs_State (cr_Request r))" "holds_request svc work db' (cr_Request r')"
    "cr_PathProof r' = cr_PathProof r" by blast+
qed

lemma built:
  assumes "holds_request svc work db (cr_Request r)" "svc_Build svc db0 (build_request_for work r plan) = (db1, Inr p)"
  shows "built_proof svc work (Some plan) (Some p)"
  using assms(2) holds_source[OF assms(1)] by (auto simp: built_proof_def build_request_for_def)

lemma built_and_moved:
  assumes "holds_request svc work db (cr_Request r)" "validateWorkPlan K work plan = Inr ()"
    and "svc_Build svc db (build_request_for work r plan) = (db1, Inr p)"
    and "svc_Transition svc db1 (rs_ID (cr_Request r)) f ProofReady m = (db', Inr (rq, c))"
    and "r' = r\<lparr>cr_Plan := Some plan, cr_PathProof := Some p, cr_Request := rq\<rparr>"
  shows "final_result K svc work r' \<and> holds_request svc work db' (cr_Request r')"
proof -
  note t = transition_holds[OF assms(4) build_holds[OF assms(3,1)] refl]
  show ?thesis using t built[OF assms(1,3)] assms(2) by (simp add: assms(5) final_result_def bound_plan_def)
qed

lemma step_return:
  assumes "process_step K svc work db r = (db', Inr (Return r'))" "holds_request svc work db (cr_Request r)" "cr_PathProof r = None"
  shows "final_result K svc work r' \<and> holds_request svc work db' (cr_Request r')"
proof (cases "rs_State (cr_Request r)")
  case Planned
  then obtain plan where plan: "svc_LoadCurrentPlan svc db (rs_ID (cr_Request r)) = Inr plan" "validateWorkPlan K work plan = Inr ()"
    using assms(1) by (auto simp: process_step_def Let_def bind_op_Inr split: if_splits)
  show ?thesis
  proof (cases "pl_Type plan = DirectPlan")
    case True
    then show ?thesis using assms Planned plan
      by (auto simp: process_step_def Let_def bind_op_Inr final_result_def bound_plan_def)
  next
    case False
    then obtain db1 p rq c where
      "svc_Build svc db (build_request_for work r plan) = (db1, Inr p)"
      "svc_Transition svc db1 (rs_ID (cr_Request r)) Planned ProofReady no_metadata = (db', Inr (rq, c))"
      "r' = r\<lparr>cr_Plan := Some plan, cr_PathProof := Some p, cr_Request := rq\<rparr>"
      using assms(1) Planned plan by (auto simp: process_step_def Let_def bind_op_Inr)
    with built_and_moved[OF assms(2) plan(2)] show ?thesis by blast
  qed
next
  case Replanned
  then obtain plan db1 p rq c where "validateWorkPlan K work plan = Inr ()"
    "svc_Build svc db (build_request_for work r plan) = (db1, Inr p)"
    "svc_Transition svc db1 (rs_ID (cr_Request r)) Replanned ProofReady no_metadata = (db', Inr (rq, c))"
    "r' = r\<lparr>cr_Plan := Some plan, cr_PathProof := Some p, cr_Request := rq\<rparr>"
    using assms(1) by (auto simp: process_step_def Let_def bind_op_Inr split: if_splits)
  with built_and_moved[OF assms(2)] show ?thesis by blast
next
  case ProofReady
  then obtain plan p where p: "validateWorkPlan K work plan = Inr ()"
    "svc_Build svc db (build_request_for work r plan) = (db', Inr p)" "r' = r\<lparr>cr_Plan := Some plan, cr_PathProof := Some p\<rparr>"
    using assms(1) by (auto simp: process_step_def Let_def bind_op_Inr split: if_splits)
  show ?thesis using built[OF assms(2) p(2)] build_holds[OF p(2) assms(2)] p(1) ProofReady
    by (simp add: p(3) final_result_def bound_plan_def)
qed (use assms in \<open>auto simp: process_step_def Let_def bind_op_Inr final_result_def bound_plan_def
      split: sum.splits if_splits prod.splits\<close>)

lemma loop_result:
  assumes "process_loop n K svc work db r = Some (db', Inr r')" "holds_request svc work db (cr_Request r)" "cr_PathProof r = None"
  shows "final_result K svc work r' \<and> holds_request svc work db' (cr_Request r')"
  using assms
proof (induction n arbitrary: db r)
  case (Suc n)
  obtain db1 x where step: "process_step K svc work db r = (db1, x)" by force
  show ?case
  proof (cases x)
    case (Inr e)
    then show ?thesis
    proof (cases e)
      case (Return r1)
      then show ?thesis using Suc.prems step Inr step_return[of K work db r db1 r1] by simp
    next
      case (Again r1)
      then show ?thesis
        using Suc.prems step Inr step_again[of K work db r db1 r1] by (intro Suc.IH[of db1 r1]) simp_all
    qed
  qed (use Suc.prems step in simp)
qed simp

lemma loop_returns:
  assumes "need (rs_State (cr_Request r)) \<le> n" "holds_request svc work db (cr_Request r)"
  shows "process_loop n K svc work db r \<noteq> None"
  using assms
proof (induction n arbitrary: db r)
  case 0
  then show ?case by (simp add: need_def split: request_state.splits)
next
  case (Suc n)
  obtain db1 x where step: "process_step K svc work db r = (db1, x)" by force
  show ?case
  proof (cases x)
    case (Inr e)
    then show ?thesis
    proof (cases e)
      case (Again r1)
      then show ?thesis
        using Suc.prems step Inr step_again[of K work db r db1 r1] Suc.IH[of r1 db1] by simp
    qed (use step Inr in simp)
  qed (use step in simp)
qed

lemma entry_holds:
  assumes "process_entry svc work db = (db', Inr rq)"
  shows "holds_request svc work db' rq"
proof (cases "rs_State (wk_Request work) = Observed")
  case True
  then obtain c where o: "svc_Observe svc db (wk_Request work) = (db', Inr (rq, c))"
    using assms by (auto simp: process_entry_def Let_def bind_op_Inr split: if_splits)
  note l = observe_load[OF o]
  then have "rs_ID rq = rs_ID (wk_Request work)" by (simp add: sameRequestIdentityForResume_def)
  with l show ?thesis by (simp add: holds_request_def)
next
  case False
  then have "svc_Load svc db (rs_ID (wk_Request work)) = Inr rq" "db' = db" "sameRequestIdentityForResume rq (wk_Request work)"
    using assms by (auto simp: process_entry_def Let_def bind_op_Inr split: if_splits)
  then show ?thesis by (simp add: holds_request_def sameRequestIdentityForResume_def)
qed

lemma need_bound: "need st \<le> process_bound"
  by (simp add: need_def process_bound_def split: request_state.splits)

lemma process_returns: "\<exists>db' r. Process K svc work db = Some (db', r)"
proof (cases "process_entry svc work db")
  case (Pair db1 x)
  show ?thesis
  proof (cases x)
    case (Inr rq)
    then show ?thesis
      using loop_returns[of "\<lparr>cr_Request = rq, cr_Plan = None, cr_PathProof = None\<rparr>" process_bound work db1 K]
        entry_holds[of work db db1 rq] Pair need_bound by (auto simp: Process_def)
  qed (use Pair in \<open>simp add: Process_def\<close>)
qed

lemma process_result:
  assumes "Process K svc work db = Some (db', Inr r)"
  shows "final_result K svc work r" "svc_Load svc db' (rs_ID (cr_Request r)) = Inr (cr_Request r)"
    "sameRequestIdentityForResume (cr_Request r) (wk_Request work)"
proof -
  obtain db1 rq where e: "process_entry svc work db = (db1, Inr rq)"
    and l: "process_loop process_bound K svc work db1 \<lparr>cr_Request = rq, cr_Plan = None, cr_PathProof = None\<rparr> = Some (db', Inr r)"
    using assms by (auto simp: Process_def split: prod.splits sum.splits)
  have "final_result K svc work r \<and> holds_request svc work db' (cr_Request r)"
    by (rule loop_result[OF l]) (simp_all add: entry_holds[OF e])
  then show "final_result K svc work r" "svc_Load svc db' (rs_ID (cr_Request r)) = Inr (cr_Request r)"
    "sameRequestIdentityForResume (cr_Request r) (wk_Request work)"
    by (simp_all add: holds_request_def)
qed

text \<open>Restart: a request that already has its plan is not planned again.\<close>

lemma evidence_ready_reuses_plan:
  assumes "rs_State (cr_Request r) = EvidenceReady" "svc_LoadCurrentPlan svc db (rs_ID (cr_Request r)) = Inr plan"
  shows "process_step K svc work db r = process_step K (svc\<lparr>svc_Plan := p\<rparr>) work db r"
  using assms by (simp add: process_step_def Let_def)

end

end
