(* ===== verification/Receipts.thy ===== *)
theory Receipts
  imports Gateway ChainABI Coordinator
begin

text \<open>
  \<open>Mapnode/indexer\<close>, the part that reads single transactions: \<open>VerificationRequested\<close> turns a log into a request, and
  \<open>VerifyVerificationReceipt\<close> accepts the receipt of a verification transaction and rebuilds the membership witness of the
  recorded dependency. The lemmas relate an accepted receipt to the sequence of events of one recording of the Gateway.
  \<open>invalidReceipt\<close> wraps one sentinel error; the reasons are texts and are left out.
\<close>

subsection \<open>verification_requested.go\<close>

definition indexed_request :: "keccak \<Rightarrow> eth_log \<Rightarrow> chain_id \<Rightarrow> address \<Rightarrow> go_time \<Rightarrow> request res" where
  "indexed_request K l homeChainID gateway at =
     bind_res (ParseVerificationRequested l) (\<lambda>event.
     bind_res (ComputeGatewayRequestID K homeChainID gateway (vq_Requester event) (Some (int (be_val (bytes32 (vq_RequesterNonce event)))))
                (vq_SourceChainID event) (vq_SourceHeight event) (vq_SourceBlockHash event)) (\<lambda>want.
     if want \<noteq> vq_RequestID event then Inl (ErrMsg ''VerificationRequested request ID mismatch'')
     else Inr \<lparr>rs_ID = vq_RequestID event, rs_HomeChainID = homeChainID, rs_Gateway = gateway, rs_Requester = vq_Requester event,
               rs_Nonce = vq_RequesterNonce event, rs_SourceChainID = vq_SourceChainID event, rs_SourceHeight = vq_SourceHeight event,
               rs_SourceBlockHash = vq_SourceBlockHash event, rs_State = Observed, rs_Reason = [],
               rs_CreatedAt = at, rs_UpdatedAt = at\<rparr>))"

subsection \<open>verification_receipt.go\<close>

text \<open>\<open>types.Receipt\<close> of the Ethereum library; its logs are pointers, and the block number is a \<open>*big.Int\<close>.\<close>

record eth_receipt =
  rc_Status :: u64
  rc_TxHash :: hash
  rc_BlockHash :: hash
  rc_BlockNumber :: "int option"
  rc_TransactionIndex :: u64
  rc_Logs :: "eth_log option list"

record receipt_input =
  ri_Gateway :: address
  ri_BlockHash :: hash
  ri_BlockNumber :: u64
  ri_ParentHash :: hash
  ri_MerkleDepth :: u8
  ri_Request :: request
  ri_Receipt :: "eth_receipt option"

record witness_material =
  wm_LeafIndex :: u32
  wm_Siblings :: "hash list"

record receipt_bundle =
  rb_Success :: verification_succeeded
  rb_Resolution :: request_resolved
  rb_Dependency :: "dependency_recorded option"
  rb_Witness :: "witness_material option"
  rb_Logs :: "eth_log list"

text \<open>The variables of the loop over the logs: each event comes with the log it was parsed from.\<close>

record receipt_scan =
  sc_success :: "(eth_log \<times> verification_succeeded) option"
  sc_resolution :: "(eth_log \<times> request_resolved) option"
  sc_dependency :: "(eth_log \<times> dependency_recorded) option"
  sc_updates :: "(eth_log \<times> trust_root_updated) list"
  sc_logs :: "eth_log list"
  sc_previous :: u64

definition invalidReceipt :: "'a res" where
  "invalidReceipt = Inl ErrInvalidVerificationReceipt"

definition parsed :: "'a res \<Rightarrow> 'a res" where
  "parsed r = (case r of Inl _ \<Rightarrow> invalidReceipt | Inr event \<Rightarrow> Inr event)"

definition check_receipt_context :: "receipt_input \<Rightarrow> eth_receipt res" where
  "check_receipt_context input =
     (if ri_Gateway input = 0 \<or> ri_BlockHash input = 0 \<or> ri_ParentHash input = 0 then invalidReceipt
      else case ri_Receipt input of
        None \<Rightarrow> invalidReceipt
      | Some receipt \<Rightarrow>
      if ri_MerkleDepth input = 0 \<or> ri_MerkleDepth input > MaxTreeDepth then invalidReceipt
      else if rc_Status receipt \<noteq> 1 \<or> rc_TxHash receipt = 0 \<or> rc_BlockHash receipt \<noteq> ri_BlockHash input \<or>
              rc_BlockNumber receipt \<noteq> Some (uint (ri_BlockNumber input)) \<or> rc_TransactionIndex receipt > 0xFFFFFFFF
      then invalidReceipt else Inr receipt)"

definition scan_event :: "eth_log \<Rightarrow> receipt_scan \<Rightarrow> receipt_scan res" where
  "scan_event item st =
     (let topic = lg_Topics item ! 0
      in if topic = DirectVerificationSucceededTopic \<or> topic = PathVerificationSucceededTopic
      then if sc_success st \<noteq> None then invalidReceipt
           else bind_res (parsed (ParseVerificationSucceeded item)) (\<lambda>event. Inr (st\<lparr>sc_success := Some (item, event)\<rparr>))
      else if topic = TrustRootUpdatedTopic
      then bind_res (parsed (ParseTrustRootUpdated item)) (\<lambda>event. Inr (st\<lparr>sc_updates := sc_updates st @ [(item, event)]\<rparr>))
      else if topic = DependencyRecordedTopic
      then if sc_dependency st \<noteq> None then invalidReceipt
           else bind_res (parsed (ParseDependencyRecorded item)) (\<lambda>event. Inr (st\<lparr>sc_dependency := Some (item, event)\<rparr>))
      else if topic = RequestResolvedTopic
      then if sc_resolution st \<noteq> None then invalidReceipt
           else bind_res (parsed (ParseRequestResolved item)) (\<lambda>event. Inr (st\<lparr>sc_resolution := Some (item, event)\<rparr>))
      else invalidReceipt)"

definition scan_log :: "receipt_input \<Rightarrow> eth_receipt \<Rightarrow> nat \<Rightarrow> eth_log option \<Rightarrow> receipt_scan \<Rightarrow> receipt_scan res" where
  "scan_log input receipt position pointer st =
     (case pointer of
        None \<Rightarrow> invalidReceipt
      | Some item \<Rightarrow>
      if lg_BlockHash item \<noteq> ri_BlockHash input \<or> lg_BlockNumber item \<noteq> ri_BlockNumber input \<or>
         lg_TxHash item \<noteq> rc_TxHash receipt \<or> lg_TxIndex item \<noteq> rc_TransactionIndex receipt
      then invalidReceipt
      else if position > 0 \<and> lg_Index item \<le> sc_previous st then invalidReceipt
      else let st = st\<lparr>sc_previous := lg_Index item\<rparr>
      in if lg_Address item \<noteq> ri_Gateway input then Inr st
      else if lg_Topics item = [] then invalidReceipt
      else bind_res (scan_event item st) (\<lambda>st. Inr (st\<lparr>sc_logs := sc_logs st @ [item]\<rparr>)))"

fun scan_logs :: "receipt_input \<Rightarrow> eth_receipt \<Rightarrow> nat \<Rightarrow> eth_log option list \<Rightarrow> receipt_scan \<Rightarrow> receipt_scan res" where
  "scan_logs input receipt position [] st = Inr st"
| "scan_logs input receipt position (item # items) st =
     bind_res (scan_log input receipt position item st) (\<lambda>st. scan_logs input receipt (Suc position) items st)"

definition empty_scan :: receipt_scan where
  "empty_scan = \<lparr>sc_success = None, sc_resolution = None, sc_dependency = None, sc_updates = [], sc_logs = [], sc_previous = 0\<rparr>"

definition verifySuccessAndResolution :: "keccak \<Rightarrow> request \<Rightarrow> verification_succeeded \<Rightarrow> request_resolved \<Rightarrow> unit res" where
  "verifySuccessAndResolution K request success resolved =
     (if vs_RequestID success \<noteq> rs_ID request \<or> vs_SourceChainID success \<noteq> rs_SourceChainID request \<or>
         vs_SourceHeight success \<noteq> rs_SourceHeight request \<or> vs_SourceBlockHash success \<noteq> rs_SourceBlockHash request \<or>
         vs_DependencyKey success \<noteq> re_DependencyKey resolved \<or> re_RequestID resolved \<noteq> rs_ID request \<or>
         re_Requester resolved \<noteq> rs_Requester request
      then invalidReceipt
      else let want = ComputeDependencyKey K (vs_SourceChainID success) (vs_SourceHeight success) (vs_SourceBlockHash success)
                        (vs_SourceTrustRoot success)
      in if vs_DependencyKey success \<noteq> want then invalidReceipt else Inr ())"

text \<open>The checks on the two updates and the recorded dependency; the leaves of the block tree are the result.\<close>

definition check_update_chain ::
  "keccak \<Rightarrow> receipt_input \<Rightarrow> verification_succeeded \<Rightarrow> request_resolved \<Rightarrow> dependency_recorded \<Rightarrow> trust_root_updated \<Rightarrow>
     trust_root_updated \<Rightarrow> (hash \<times> hash) res" where
  "check_update_chain K input success resolution dependency anchor dependencyUpdate =
     (let request = ri_Request input
      in if de_RequestID dependency \<noteq> rs_ID request \<or> de_SourceChainID dependency \<noteq> rs_SourceChainID request \<or>
            de_SourceHeight dependency \<noteq> rs_SourceHeight request \<or> de_SourceBlockHash dependency \<noteq> rs_SourceBlockHash request \<or>
            de_SourceTrustRoot dependency \<noteq> vs_SourceTrustRoot success \<or> de_DependencyKey dependency \<noteq> vs_DependencyKey success \<or>
            de_DependencyKey dependency \<noteq> re_DependencyKey resolution
      then invalidReceipt
      else if de_DependencyKey dependency \<noteq> ComputeDependencyKey K (de_SourceChainID dependency) (de_SourceHeight dependency)
                (de_SourceBlockHash dependency) (de_SourceTrustRoot dependency)
      then invalidReceipt
      else if tu_RequestID anchor \<noteq> rs_ID request \<or> tu_LeafIndex anchor \<noteq> 0 \<or> \<not> tu_IsAnchor anchor then invalidReceipt
      else let wantAnchorLeaf = LeafHash K (tu_OldTrustRoot anchor) (ri_ParentHash input)
      in if tu_Leaf anchor \<noteq> wantAnchorLeaf then invalidReceipt
      else let dependencyLeaf = LeafHash K (de_SourceTrustRoot dependency) (de_SourceBlockHash dependency)
      in if tu_RequestID dependencyUpdate \<noteq> rs_ID request \<or> tu_LeafIndex dependencyUpdate \<noteq> 1 \<or> tu_IsAnchor dependencyUpdate \<or>
            de_LeafIndex dependency \<noteq> 1 \<or> tu_Leaf dependencyUpdate \<noteq> dependencyLeaf \<or>
            tu_OldTrustRoot dependencyUpdate \<noteq> tu_NewTrustRoot anchor \<or>
            re_HomeTrustRoot resolution \<noteq> tu_NewTrustRoot dependencyUpdate
      then invalidReceipt else Inr (wantAnchorLeaf, dependencyLeaf))"

definition append_expected :: "keccak \<Rightarrow> incremental_tree \<Rightarrow> hash \<Rightarrow> hash \<Rightarrow> incremental_tree res" where
  "append_expected K tree leaf root =
     (case Append K tree leaf of Inl _ \<Rightarrow> invalidReceipt | Inr tree \<Rightarrow> if it_root tree \<noteq> root then invalidReceipt else Inr tree)"

definition rebuild_witness :: "keccak \<Rightarrow> u8 \<Rightarrow> hash \<Rightarrow> hash \<Rightarrow> hash \<Rightarrow> hash \<Rightarrow> hash \<Rightarrow> u32 \<Rightarrow> witness_material res" where
  "rebuild_witness K depth anchorLeaf dependencyLeaf anchorRoot dependencyRoot homeRoot leaf =
     bind_res (parsed (NewIncrementalTree K depth)) (\<lambda>tree.
     bind_res (append_expected K tree anchorLeaf anchorRoot) (\<lambda>tree.
     bind_res (append_expected K tree dependencyLeaf dependencyRoot) (\<lambda>tree.
     bind_res (parsed (ZeroHashes K depth)) (\<lambda>zeros.
     let siblings = anchorLeaf # map (\<lambda>level. zeros ! level) [1..<unat depth]
     in case RootFromWitness K dependencyLeaf leaf siblings depth of
          Inl _ \<Rightarrow> invalidReceipt
        | Inr root \<Rightarrow> if root \<noteq> homeRoot then invalidReceipt else Inr \<lparr>wm_LeafIndex = leaf, wm_Siblings = siblings\<rparr>))))"

definition new_dependency_receipt ::
  "keccak \<Rightarrow> receipt_input \<Rightarrow> receipt_scan \<Rightarrow> (eth_log \<times> verification_succeeded) \<Rightarrow> (eth_log \<times> request_resolved) \<Rightarrow> witness_material res" where
  "new_dependency_receipt K input st success resolution =
     (case (sc_dependency st, sc_updates st) of
        (Some (dependencyLog, dependency), [(anchorLog, anchor), (updateLog, dependencyUpdate)]) \<Rightarrow>
          if \<not> (lg_Index (fst success) < lg_Index anchorLog \<and> lg_Index anchorLog < lg_Index updateLog \<and>
                lg_Index updateLog < lg_Index dependencyLog \<and> lg_Index dependencyLog < lg_Index (fst resolution))
          then invalidReceipt
          else bind_res (check_update_chain K input (snd success) (snd resolution) dependency anchor dependencyUpdate)
            (\<lambda>(anchorLeaf, dependencyLeaf).
            rebuild_witness K (ri_MerkleDepth input) anchorLeaf dependencyLeaf (tu_NewTrustRoot anchor)
              (tu_NewTrustRoot dependencyUpdate) (re_HomeTrustRoot (snd resolution)) (de_LeafIndex dependency))
      | _ \<Rightarrow> invalidReceipt)"

definition VerifyVerificationReceipt :: "keccak \<Rightarrow> receipt_input \<Rightarrow> receipt_bundle res" where
  "VerifyVerificationReceipt K input =
     bind_res (check_receipt_context input) (\<lambda>receipt.
     bind_res (scan_logs input receipt 0 (rc_Logs receipt) empty_scan) (\<lambda>st.
     case (sc_success st, sc_resolution st) of
       (Some success, Some resolution) \<Rightarrow>
         if lg_Index (fst success) \<ge> lg_Index (fst resolution) then invalidReceipt
         else bind_res (verifySuccessAndResolution K (ri_Request input) (snd success) (snd resolution)) (\<lambda>_.
           let bundle = \<lparr>rb_Success = snd success, rb_Resolution = snd resolution, rb_Dependency = map_option snd (sc_dependency st),
                         rb_Witness = None, rb_Logs = sc_logs st\<rparr>
           in if \<not> re_NewDependency (snd resolution)
              then if sc_updates st \<noteq> [] \<or> sc_dependency st \<noteq> None then invalidReceipt else Inr bundle
              else bind_res (new_dependency_receipt K input st success resolution) (\<lambda>witness.
                Inr (bundle\<lparr>rb_Witness := Some witness\<rparr>)))
     | _ \<Rightarrow> invalidReceipt))"

subsection \<open>What the loop over the logs finds\<close>

definition log_at :: "receipt_input \<Rightarrow> eth_receipt \<Rightarrow> eth_log \<Rightarrow> bool" where
  "log_at input receipt l \<longleftrightarrow> lg_BlockHash l = ri_BlockHash input \<and> lg_BlockNumber l = ri_BlockNumber input \<and>
     lg_TxHash l = rc_TxHash receipt \<and> lg_TxIndex l = rc_TransactionIndex receipt"

definition has_topic :: "hash set \<Rightarrow> eth_log \<Rightarrow> bool" where
  "has_topic T l \<longleftrightarrow> lg_Topics l \<noteq> [] \<and> lg_Topics l ! 0 \<in> T"

abbreviation success_topics :: "hash set" where
  "success_topics \<equiv> {DirectVerificationSucceededTopic, PathVerificationSucceededTopic}"

abbreviation receipt_topics :: "hash set" where
  "receipt_topics \<equiv> success_topics \<union> {TrustRootUpdatedTopic, DependencyRecordedTopic, RequestResolvedTopic}"

lemmas topic_defs = DirectVerificationSucceededTopic_def PathVerificationSucceededTopic_def TrustRootUpdatedTopic_def
  DependencyRecordedTopic_def RequestResolvedTopic_def VerificationRequestedTopic_def

lemma topics_distinct:
  "distinct [DirectVerificationSucceededTopic, PathVerificationSucceededTopic, TrustRootUpdatedTopic, DependencyRecordedTopic,
     RequestResolvedTopic, VerificationRequestedTopic]"
  by (simp add: topic_defs)

lemmas topics_neq = topics_distinct[simplified distinct.simps list.set insert_iff empty_iff de_Morgan_disj simp_thms]

definition in_order :: "eth_log list \<Rightarrow> bool" where
  "in_order ls \<longleftrightarrow> sorted_wrt (\<lambda>a b. lg_Index a < lg_Index b) ls"

text \<open>The events of one kind are the parsed logs with its topic, in order.\<close>

definition parses :: "(eth_log \<Rightarrow> 'e res) \<Rightarrow> hash set \<Rightarrow> eth_log list \<Rightarrow> (eth_log \<times> 'e) list \<Rightarrow> bool" where
  "parses f T ls es \<longleftrightarrow> filter (has_topic T) ls = map fst es \<and> (\<forall>(l, e) \<in> set es. f l = Inr e)"

definition option_list :: "'a option \<Rightarrow> 'a list" where
  "option_list x = (case x of None \<Rightarrow> [] | Some y \<Rightarrow> [y])"

lemma option_list_simps [simp]: "option_list None = []" "option_list (Some x) = [x]"
  by (simp_all add: option_list_def)

definition scanned :: "receipt_input \<Rightarrow> eth_receipt \<Rightarrow> eth_log list \<Rightarrow> receipt_scan \<Rightarrow> bool" where
  "scanned input receipt ls st \<longleftrightarrow>
     (\<forall>l \<in> set ls. log_at input receipt l) \<and> in_order ls \<and> (ls \<noteq> [] \<longrightarrow> sc_previous st = lg_Index (last ls)) \<and>
     sc_logs st = filter (\<lambda>l. lg_Address l = ri_Gateway input) ls \<and> (\<forall>l \<in> set (sc_logs st). has_topic receipt_topics l) \<and>
     parses ParseVerificationSucceeded success_topics (sc_logs st) (option_list (sc_success st)) \<and>
     parses ParseTrustRootUpdated {TrustRootUpdatedTopic} (sc_logs st) (sc_updates st) \<and>
     parses ParseDependencyRecorded {DependencyRecordedTopic} (sc_logs st) (option_list (sc_dependency st)) \<and>
     parses ParseRequestResolved {RequestResolvedTopic} (sc_logs st) (option_list (sc_resolution st))"

lemma scanned_empty: "scanned input receipt [] empty_scan"
  by (simp add: scanned_def empty_scan_def parses_def in_order_def)

lemma parses_snoc:
  "parses f T ls es \<Longrightarrow> \<not> has_topic T l \<Longrightarrow> parses f T (ls @ [l]) es"
  "parses f T ls es \<Longrightarrow> has_topic T l \<Longrightarrow> f l = Inr e \<Longrightarrow> parses f T (ls @ [l]) (es @ [(l, e)])"
  by (auto simp: parses_def)

lemma in_order_snoc: "in_order (ls @ [l]) \<longleftrightarrow> in_order ls \<and> (ls \<noteq> [] \<longrightarrow> lg_Index (last ls) < lg_Index l)"
proof -
  have "lg_Index x \<le> lg_Index (last ls)" if "in_order ls" "x \<in> set ls" for x
    using that by (cases ls rule: rev_cases) (auto simp: in_order_def sorted_wrt_append)
  then show ?thesis by (cases "ls = []") (auto simp: in_order_def sorted_wrt_append intro: le_less_trans)
qed

lemma parsed_Inr [simp]: "parsed r = Inr x \<longleftrightarrow> r = Inr x"
  by (simp add: parsed_def invalidReceipt_def split: sum.split)

lemma invalidReceipt_neq [simp]: "invalidReceipt \<noteq> Inr x" "Inr x \<noteq> invalidReceipt"
  by (simp_all add: invalidReceipt_def)

text \<open>An event is taken when it parses and is not the second of its kind, updates excepted.\<close>

lemma scan_event_Inr:
  assumes "lg_Topics l \<noteq> []"
  shows "scan_event l st = Inr st' \<longleftrightarrow>
    has_topic success_topics l \<and> sc_success st = None \<and> (\<exists>e. ParseVerificationSucceeded l = Inr e \<and> st' = st\<lparr>sc_success := Some (l, e)\<rparr>) \<or>
    has_topic {TrustRootUpdatedTopic} l \<and> (\<exists>e. ParseTrustRootUpdated l = Inr e \<and> st' = st\<lparr>sc_updates := sc_updates st @ [(l, e)]\<rparr>) \<or>
    has_topic {DependencyRecordedTopic} l \<and> sc_dependency st = None \<and>
      (\<exists>e. ParseDependencyRecorded l = Inr e \<and> st' = st\<lparr>sc_dependency := Some (l, e)\<rparr>) \<or>
    has_topic {RequestResolvedTopic} l \<and> sc_resolution st = None \<and>
      (\<exists>e. ParseRequestResolved l = Inr e \<and> st' = st\<lparr>sc_resolution := Some (l, e)\<rparr>)"
proof -
  consider "lg_Topics l ! 0 \<in> success_topics" | "lg_Topics l ! 0 = TrustRootUpdatedTopic" | "lg_Topics l ! 0 = DependencyRecordedTopic"
    | "lg_Topics l ! 0 = RequestResolvedTopic" | "lg_Topics l ! 0 \<notin> receipt_topics" by blast
  then show ?thesis
  proof cases
    case 1
    then have "lg_Topics l ! 0 \<notin> {TrustRootUpdatedTopic, DependencyRecordedTopic, RequestResolvedTopic}" using topics_neq by auto
    then show ?thesis using 1 assms by (auto simp: scan_event_def has_topic_def Let_def simp del: not_None_eq)
  qed (use assms topics_neq in \<open>auto simp: scan_event_def has_topic_def Let_def simp del: not_None_eq\<close>)
qed

lemma topics_disjoint:
  "has_topic success_topics l \<Longrightarrow> \<not> has_topic {TrustRootUpdatedTopic} l \<and> \<not> has_topic {DependencyRecordedTopic} l \<and> \<not> has_topic {RequestResolvedTopic} l"
  "has_topic {TrustRootUpdatedTopic} l \<Longrightarrow> \<not> has_topic success_topics l \<and> \<not> has_topic {DependencyRecordedTopic} l \<and> \<not> has_topic {RequestResolvedTopic} l"
  "has_topic {DependencyRecordedTopic} l \<Longrightarrow> \<not> has_topic success_topics l \<and> \<not> has_topic {TrustRootUpdatedTopic} l \<and> \<not> has_topic {RequestResolvedTopic} l"
  "has_topic {RequestResolvedTopic} l \<Longrightarrow> \<not> has_topic success_topics l \<and> \<not> has_topic {TrustRootUpdatedTopic} l \<and> \<not> has_topic {DependencyRecordedTopic} l"
  by (use topics_neq in \<open>auto simp: has_topic_def\<close>)

lemma scan_log_Inr:
  "scan_log input receipt position p st = Inr st' \<longleftrightarrow>
     (\<exists>l. p = Some l \<and> log_at input receipt l \<and> (position > 0 \<longrightarrow> sc_previous st < lg_Index l) \<and>
        (if lg_Address l \<noteq> ri_Gateway input then st' = st\<lparr>sc_previous := lg_Index l\<rparr>
         else lg_Topics l \<noteq> [] \<and> (\<exists>st1. scan_event l (st\<lparr>sc_previous := lg_Index l\<rparr>) = Inr st1 \<and> st' = st1\<lparr>sc_logs := sc_logs st1 @ [l]\<rparr>)))"
  by (cases p) (auto simp: scan_log_def log_at_def Let_def not_le)

text \<open>The loop keeps the description of what was scanned.\<close>

lemma scanned_step:
  assumes "scan_log input receipt (length ls) p st = Inr st'" "scanned input receipt ls st"
  obtains l where "p = Some l" "scanned input receipt (ls @ [l]) st'"
proof -
  obtain l where l: "p = Some l" "log_at input receipt l" "length ls > 0 \<longrightarrow> sc_previous st < lg_Index l"
    and st': "if lg_Address l \<noteq> ri_Gateway input then st' = st\<lparr>sc_previous := lg_Index l\<rparr>
      else lg_Topics l \<noteq> [] \<and> (\<exists>st1. scan_event l (st\<lparr>sc_previous := lg_Index l\<rparr>) = Inr st1 \<and> st' = st1\<lparr>sc_logs := sc_logs st1 @ [l]\<rparr>)"
    using assms(1) unfolding scan_log_Inr by blast
  note s = assms(2)[unfolded scanned_def]
  have pr: "parses ParseVerificationSucceeded success_topics (sc_logs st) (option_list (sc_success st))"
    "parses ParseTrustRootUpdated {TrustRootUpdatedTopic} (sc_logs st) (sc_updates st)"
    "parses ParseDependencyRecorded {DependencyRecordedTopic} (sc_logs st) (option_list (sc_dependency st))"
    "parses ParseRequestResolved {RequestResolvedTopic} (sc_logs st) (option_list (sc_resolution st))" using s by blast+
  have o: "in_order (ls @ [l])" using s l(3) by (auto simp: in_order_snoc)
  have "scanned input receipt (ls @ [l]) st'"
  proof (cases "lg_Address l = ri_Gateway input")
    case False
    then show ?thesis using st' s o l(2) unfolding scanned_def by auto
  next
    case True
    then obtain st1 where e: "lg_Topics l \<noteq> []" "scan_event l (st\<lparr>sc_previous := lg_Index l\<rparr>) = Inr st1" "st' = st1\<lparr>sc_logs := sc_logs st1 @ [l]\<rparr>"
      using st' by auto
    note ev = e(2)[unfolded scan_event_Inr[OF e(1)]]
    have kept: "sc_previous st' = lg_Index l" "sc_logs st' = sc_logs st @ [l]" using ev by (auto simp: e(3))
    have known: "has_topic receipt_topics l" using ev by (auto simp: has_topic_def)
    have "parses ParseVerificationSucceeded success_topics (sc_logs st @ [l]) (option_list (sc_success st')) \<and>
     parses ParseTrustRootUpdated {TrustRootUpdatedTopic} (sc_logs st @ [l]) (sc_updates st') \<and>
     parses ParseDependencyRecorded {DependencyRecordedTopic} (sc_logs st @ [l]) (option_list (sc_dependency st')) \<and>
     parses ParseRequestResolved {RequestResolvedTopic} (sc_logs st @ [l]) (option_list (sc_resolution st'))"
      using ev
    proof (elim disjE conjE exE)
      fix x assume x: "has_topic success_topics l" "sc_success (st\<lparr>sc_previous := lg_Index l\<rparr>) = None" "ParseVerificationSucceeded l = Inr x"
        "st1 = st\<lparr>sc_previous := lg_Index l, sc_success := Some (l, x)\<rparr>"
      note no = topics_disjoint(1)[OF x(1)]
      show ?thesis using pr x parses_snoc(2)[of ParseVerificationSucceeded success_topics "sc_logs st" "[]" l x]
        by (simp add: e(3) parses_snoc(1) no)
    next
      fix x assume x: "has_topic {TrustRootUpdatedTopic} l" "ParseTrustRootUpdated l = Inr x"
        "st1 = st\<lparr>sc_previous := lg_Index l, sc_updates := sc_updates (st\<lparr>sc_previous := lg_Index l\<rparr>) @ [(l, x)]\<rparr>"
      note no = topics_disjoint(2)[OF x(1)]
      show ?thesis using pr x no
        by (simp add: e(3) parses_snoc)
    next
      fix x assume x: "has_topic {DependencyRecordedTopic} l" "sc_dependency (st\<lparr>sc_previous := lg_Index l\<rparr>) = None" "ParseDependencyRecorded l = Inr x"
        "st1 = st\<lparr>sc_previous := lg_Index l, sc_dependency := Some (l, x)\<rparr>"
      note no = topics_disjoint(3)[OF x(1)]
      show ?thesis using pr x no
          parses_snoc(2)[of ParseDependencyRecorded "{DependencyRecordedTopic}" "sc_logs st" "[]" l x]
        by (simp add: e(3) parses_snoc(1))
    next
      fix x assume x: "has_topic {RequestResolvedTopic} l" "sc_resolution (st\<lparr>sc_previous := lg_Index l\<rparr>) = None" "ParseRequestResolved l = Inr x"
        "st1 = st\<lparr>sc_previous := lg_Index l, sc_resolution := Some (l, x)\<rparr>"
      note no = topics_disjoint(4)[OF x(1)]
      show ?thesis using pr x no
          parses_snoc(2)[of ParseRequestResolved "{RequestResolvedTopic}" "sc_logs st" "[]" l x]
        by (simp add: e(3) parses_snoc(1))
    qed
    then show ?thesis using s o l(2) True kept known by (simp add: scanned_def)
  qed
  then show thesis using that l(1) by blast
qed

lemma scan_logs_scanned:
  assumes "scan_logs input receipt (length ls) ps st = Inr st'" "scanned input receipt ls st"
  obtains ls' where "ps = map Some ls'" "scanned input receipt (ls @ ls') st'"
  using assms
proof (induction ps arbitrary: ls st thesis)
  case Nil
  then show ?case by simp
next
  case (Cons p ps)
  obtain st1 where s: "scan_log input receipt (length ls) p st = Inr st1" "scan_logs input receipt (Suc (length ls)) ps st1 = Inr st'"
    using Cons.prems(2) by auto
  obtain l where l: "p = Some l" "scanned input receipt (ls @ [l]) st1" using s(1) Cons.prems(3) by (rule scanned_step)
  obtain ls' where "ps = map Some ls'" "scanned input receipt ((ls @ [l]) @ ls') st'"
    by (rule Cons.IH[where ls="ls @ [l]" and st=st1]) (use s(2) l(2) in simp_all)
  then show ?case using l(1) by (intro Cons.prems(1)[of "l # ls'"]) simp_all
qed

definition parseable :: "eth_log \<Rightarrow> bool" where
  "parseable l \<longleftrightarrow> has_topic success_topics l \<and> is_ok (ParseVerificationSucceeded l) \<or>
     has_topic {TrustRootUpdatedTopic} l \<and> is_ok (ParseTrustRootUpdated l) \<or>
     has_topic {DependencyRecordedTopic} l \<and> is_ok (ParseDependencyRecorded l) \<or>
     has_topic {RequestResolvedTopic} l \<and> is_ok (ParseRequestResolved l)"

definition at_most_one :: "hash set \<Rightarrow> eth_log list \<Rightarrow> bool" where
  "at_most_one T ls \<longleftrightarrow> length (filter (has_topic T) ls) \<le> 1"

definition scannable :: "receipt_input \<Rightarrow> eth_receipt \<Rightarrow> eth_log list \<Rightarrow> bool" where
  "scannable input receipt ls \<longleftrightarrow> (\<forall>l \<in> set ls. log_at input receipt l) \<and> in_order ls \<and>
     (let gs = filter (\<lambda>l. lg_Address l = ri_Gateway input) ls
      in (\<forall>l \<in> set gs. parseable l) \<and> at_most_one success_topics gs \<and> at_most_one {DependencyRecordedTopic} gs \<and>
         at_most_one {RequestResolvedTopic} gs)"

lemma parses_none:
  assumes "parses f T ls (option_list x)" "at_most_one T (ls @ l # ls')" "has_topic T l"
  shows "x = None"
  using assms by (cases x) (auto simp: parses_def at_most_one_def)

lemma scan_log_ok:
  assumes "scanned input receipt ls st" "scannable input receipt (ls @ l # ls')"
  shows "\<exists>st'. scan_log input receipt (length ls) (Some l) st = Inr st'"
proof -
  note s = assms(1)[unfolded scanned_def] and g = assms(2)[unfolded scannable_def Let_def]
  let ?st = "st\<lparr>sc_previous := lg_Index l\<rparr>"
  have "in_order (ls @ [l])" using g by (auto simp: in_order_def sorted_wrt_append)
  then have base: "log_at input receipt l" "length ls > 0 \<longrightarrow> sc_previous st < lg_Index l" using s g by (auto simp: in_order_snoc)
  show ?thesis
  proof (cases "lg_Address l = ri_Gateway input")
    case False
    then show ?thesis using base unfolding scan_log_Inr by auto
  next
    case True
    then have ok: "parseable l" using g by simp
    then have t: "lg_Topics l \<noteq> []" by (auto simp: parseable_def has_topic_def)
    have one: "at_most_one success_topics (sc_logs st @ l # filter (\<lambda>l. lg_Address l = ri_Gateway input) ls')"
      "at_most_one {DependencyRecordedTopic} (sc_logs st @ l # filter (\<lambda>l. lg_Address l = ri_Gateway input) ls')"
      "at_most_one {RequestResolvedTopic} (sc_logs st @ l # filter (\<lambda>l. lg_Address l = ri_Gateway input) ls')"
      using s g True by auto
    have none: "has_topic success_topics l \<Longrightarrow> sc_success ?st = None" "has_topic {DependencyRecordedTopic} l \<Longrightarrow> sc_dependency ?st = None"
      "has_topic {RequestResolvedTopic} l \<Longrightarrow> sc_resolution ?st = None"
    proof -
      have pr: "parses ParseVerificationSucceeded success_topics (sc_logs st) (option_list (sc_success st))"
        "parses ParseDependencyRecorded {DependencyRecordedTopic} (sc_logs st) (option_list (sc_dependency st))"
        "parses ParseRequestResolved {RequestResolvedTopic} (sc_logs st) (option_list (sc_resolution st))" using s by blast+
      show "has_topic success_topics l \<Longrightarrow> sc_success ?st = None" "has_topic {DependencyRecordedTopic} l \<Longrightarrow> sc_dependency ?st = None"
        "has_topic {RequestResolvedTopic} l \<Longrightarrow> sc_resolution ?st = None"
        using parses_none[OF pr(1) one(1)] parses_none[OF pr(2) one(2)] parses_none[OF pr(3) one(3)] by simp_all
    qed
    have "\<exists>st1. scan_event l ?st = Inr st1"
      using ok none unfolding parseable_def scan_event_Inr[OF t] by (auto simp: is_ok_def split: sum.splits)
    then show ?thesis using base True t unfolding scan_log_Inr by auto
  qed
qed

lemma scan_logs_ok:
  assumes "scanned input receipt ls st" "scannable input receipt (ls @ ls')"
  shows "\<exists>st'. scan_logs input receipt (length ls) (map Some ls') st = Inr st'"
  using assms
proof (induction ls' arbitrary: ls st)
  case (Cons l ls')
  obtain st1 where s: "scan_log input receipt (length ls) (Some l) st = Inr st1" using scan_log_ok[OF Cons.prems] by blast
  then have "scanned input receipt (ls @ [l]) st1" using Cons.prems(1) by (metis option.inject scanned_step)
  then show ?case using Cons.IH[of "ls @ [l]" st1] Cons.prems(2) s by simp
qed simp

subsection \<open>The trees of a recording\<close>

text \<open>The witness the receipt is turned into is the reference path of the second leaf.\<close>

lemma second_leaf_path:
  assumes "d \<ge> 1"
  shows "merkle_path K d 1 [a, b] = a # map (zero_hash K) [1..<d]"
  using assms
proof (induction d rule: nat_induct_at_least)
  case base
  then show ?case by simp
next
  case (Suc d)
  then have "(2 :: nat) ^ d \<ge> 2" using power_increasing[of 1 d "2 :: nat"] by simp
  then show ?case using Suc by simp
qed

lemma go_two_leaves:
  assumes "1 \<le> unat depth" "unat depth \<le> 32"
  obtains t0 t1 t2 where "NewIncrementalTree K depth = Inr t0" "Append K t0 a = Inr t1" "Append K t1 b = Inr t2"
    "it_root t1 = merkle_root K (unat depth) [a]" "it_root t2 = merkle_root K (unat depth) [a, b]"
proof -
  have "validateDepth depth = Inr ()" using assms by simp
  then obtain t0 where t0: "NewIncrementalTree K depth = Inr t0" by (simp add: NewIncrementalTree_def ZeroHashes_def)
  have i0: "tree_inv K t0 [] \<and> it_depth t0 = depth" using tree_inv_new[OF t0] by simp
  have c: "(2 :: nat) ^ unat depth \<ge> 2" using power_increasing[of 1 "unat depth" "2 :: nat"] assms by simp
  obtain t1 where t1: "Append K t0 a = Inr t1" "tree_inv K t1 [a] \<and> it_depth t1 = depth"
    using go_tree.push_inv[OF i0, of a] by (auto simp: ok_option_def split: sum.splits)
  obtain t2 where t2: "Append K t1 b = Inr t2" "tree_inv K t2 [a, b] \<and> it_depth t2 = depth"
    using go_tree.push_inv[OF t1(2), of b] c by (auto simp: ok_option_def split: sum.splits)
  show thesis using that[OF t0 t1(1) t2(1)] go_tree.inv_root[OF t1(2)] go_tree.inv_root[OF t2(2)] by simp
qed

lemma rebuild_witness_Inr:
  assumes "1 \<le> unat depth" "unat depth \<le> 32"
  shows "rebuild_witness K depth a b r1 r2 home 1 = Inr w \<longleftrightarrow>
    r1 = merkle_root K (unat depth) [a] \<and> r2 = merkle_root K (unat depth) [a, b] \<and> home = r2 \<and>
    w = \<lparr>wm_LeafIndex = 1, wm_Siblings = a # map (zero_hash K) [1..<unat depth]\<rparr>"
proof -
  obtain t0 t1 t2 where t: "NewIncrementalTree K depth = Inr t0" "Append K t0 a = Inr t1" "Append K t1 b = Inr t2"
    "it_root t1 = merkle_root K (unat depth) [a]" "it_root t2 = merkle_root K (unat depth) [a, b]"
    using assms by (rule go_two_leaves)
  obtain zs where z: "ZeroHashes K depth = Inr zs" using t(1) by (auto simp: NewIncrementalTree_def)
  have zs: "map ((!) zs) [1..<unat depth] = map (zero_hash K) [1..<unat depth]"
    using z by (auto simp: ZeroHashes_Inr simp del: upt_Suc)
  have i2: "tree_inv K t2 [a, b] \<and> it_depth t2 = depth"
    using append_all_new[OF t(1), of "[a, b]" t2] t(2,3) by simp
  have "RootFromWitness K b 1 (a # map ((!) zs) [1..<unat depth]) depth = Inr (merkle_root K (unat depth) [a, b])"
    unfolding zs using go_tree.member_witness[OF i2, of 1] second_leaf_path[of "unat depth" K a b] assms(1) t(5) by simp
  then show ?thesis using t z unfolding zs[symmetric] by (auto simp: rebuild_witness_def append_expected_def parsed_def Let_def)
qed

subsection \<open>Accepted receipts\<close>

text \<open>
  The events of one verification: alone with its resolution when the dependency was known, otherwise around the two updates of
  a fresh block tree. The anchor binds the prior root and the parent block, the second leaf the dependency.
\<close>

definition recording_events :: "keccak \<Rightarrow> receipt_input \<Rightarrow> verification_succeeded \<Rightarrow> bool \<Rightarrow> hash \<Rightarrow> sol_event list \<Rightarrow> bool" where
  "recording_events K input success new home es \<longleftrightarrow>
     (let rq = ri_Request input; rid = rs_ID rq; key = vs_DependencyKey success; root = vs_SourceTrustRoot success;
          d = unat (ri_MerkleDepth input); resolved = RequestResolved rid (rs_Requester rq) key new home
      in if new
         then \<exists>old. let a = LeafHash K old (ri_ParentHash input); b = LeafHash K root (rs_SourceBlockHash rq); r1 = merkle_root K d [a]
           in home = merkle_root K d [a, b] \<and>
             es = [succeeded_event success, TrustRootUpdated rid 0 a old r1 True, TrustRootUpdated rid 1 b r1 home False,
               DependencyRecorded key rid (rs_SourceChainID rq) (rs_SourceHeight rq) (rs_SourceBlockHash rq) root 1, resolved]
         else es = [succeeded_event success, resolved])"

definition success_binds :: "keccak \<Rightarrow> request \<Rightarrow> verification_succeeded \<Rightarrow> bool" where
  "success_binds K rq s \<longleftrightarrow> vs_RequestID s = rs_ID rq \<and> vs_SourceChainID s = rs_SourceChainID rq \<and> vs_SourceHeight s = rs_SourceHeight rq \<and>
     vs_SourceBlockHash s = rs_SourceBlockHash rq \<and>
     vs_DependencyKey s = ComputeDependencyKey K (rs_SourceChainID rq) (rs_SourceHeight rq) (rs_SourceBlockHash rq) (vs_SourceTrustRoot s)"

lemma verifySuccessAndResolution_Inr:
  "verifySuccessAndResolution K rq s r = Inr u \<longleftrightarrow>
     success_binds K rq s \<and> re_RequestID r = rs_ID rq \<and> re_Requester r = rs_Requester rq \<and> re_DependencyKey r = vs_DependencyKey s"
  by (auto simp: verifySuccessAndResolution_def success_binds_def Let_def)

lemma ordered_unique:
  assumes "in_order xs" "in_order ys" "set xs = set ys"
  shows "xs = ys"
proof -
  have strict: "sorted_wrt (<) (map lg_Index zs)" if "in_order zs" for zs using that by (simp add: in_order_def sorted_wrt_map)
  have "map lg_Index xs = map lg_Index ys" by (rule strict_sorted_equal) (use assms strict in simp_all)
  moreover have "inj_on lg_Index (set xs \<union> set ys)"
    using strict[OF assms(1)] assms(3) by (simp add: strict_sorted_iff distinct_map)
  ultimately show ?thesis by (metis inj_on_map_eq_map)
qed

lemma scanned_set:
  assumes "scanned input receipt ls st"
  shows "set (sc_logs st) = fst ` (set (option_list (sc_success st))) \<union> fst ` set (sc_updates st) \<union>
    fst ` set (option_list (sc_dependency st)) \<union> fst ` set (option_list (sc_resolution st))" "in_order (sc_logs st)"
proof -
  note s = assms[unfolded scanned_def parses_def]
  let ?f = "\<lambda>T. set (filter (has_topic T) (sc_logs st))"
  have "set (sc_logs st) = ?f success_topics \<union> ?f {TrustRootUpdatedTopic} \<union> ?f {DependencyRecordedTopic} \<union> ?f {RequestResolvedTopic}"
    using s by (auto simp: has_topic_def)
  also have "\<dots> = fst ` (set (option_list (sc_success st))) \<union> fst ` set (sc_updates st) \<union>
    fst ` set (option_list (sc_dependency st)) \<union> fst ` set (option_list (sc_resolution st))"
    using s by (metis list.set_map)
  finally show "set (sc_logs st) = fst ` (set (option_list (sc_success st))) \<union> fst ` set (sc_updates st) \<union>
    fst ` set (option_list (sc_dependency st)) \<union> fst ` set (option_list (sc_resolution st))" .
  show "in_order (sc_logs st)" using s by (simp add: in_order_def sorted_wrt_filter)
qed

lemma check_receipt_context_depth:
  assumes "check_receipt_context input = Inr receipt"
  shows "ri_Receipt input = Some receipt" "1 \<le> unat (ri_MerkleDepth input)" "unat (ri_MerkleDepth input) \<le> 32"
proof -
  show "ri_Receipt input = Some receipt" using assms by (auto simp: check_receipt_context_def split: if_splits option.splits)
  have "validateDepth (ri_MerkleDepth input) = Inr ()"
    using assms by (auto simp: check_receipt_context_def validateDepth_def split: if_splits option.splits)
  then show "1 \<le> unat (ri_MerkleDepth input)" "unat (ri_MerkleDepth input) \<le> 32" by simp_all
qed

lemma check_update_chain_Inr:
  assumes "success_binds K (ri_Request input) s" "re_DependencyKey r = vs_DependencyKey s"
  shows "check_update_chain K input s r de an up = Inr (a, b) \<longleftrightarrow>
    de = \<lparr>de_DependencyKey = vs_DependencyKey s, de_RequestID = rs_ID (ri_Request input), de_SourceChainID = rs_SourceChainID (ri_Request input),
      de_SourceHeight = rs_SourceHeight (ri_Request input), de_SourceBlockHash = rs_SourceBlockHash (ri_Request input),
      de_SourceTrustRoot = vs_SourceTrustRoot s, de_LeafIndex = 1\<rparr> \<and>
    a = LeafHash K (tu_OldTrustRoot an) (ri_ParentHash input) \<and> b = LeafHash K (vs_SourceTrustRoot s) (rs_SourceBlockHash (ri_Request input)) \<and>
    tu_RequestID an = rs_ID (ri_Request input) \<and> tu_LeafIndex an = 0 \<and> tu_Leaf an = a \<and> tu_IsAnchor an \<and>
    tu_RequestID up = rs_ID (ri_Request input) \<and> tu_LeafIndex up = 1 \<and> tu_Leaf up = b \<and> tu_OldTrustRoot up = tu_NewTrustRoot an \<and>
    tu_NewTrustRoot up = re_HomeTrustRoot r \<and> \<not> tu_IsAnchor up"
  using assms by (cases de) (auto simp: check_update_chain_def success_binds_def Let_def)

lemma accepted_parts:
  assumes "VerifyVerificationReceipt K input = Inr b"
  obtains receipt ls st sl rl where "check_receipt_context input = Inr receipt" "rc_Logs receipt = map Some ls" "scanned input receipt ls st"
    "sc_success st = Some (sl, rb_Success b)" "sc_resolution st = Some (rl, rb_Resolution b)" "lg_Index sl < lg_Index rl"
    "rb_Logs b = sc_logs st" "success_binds K (ri_Request input) (rb_Success b)" "re_RequestID (rb_Resolution b) = rs_ID (ri_Request input)"
    "re_Requester (rb_Resolution b) = rs_Requester (ri_Request input)" "re_DependencyKey (rb_Resolution b) = vs_DependencyKey (rb_Success b)"
    "if re_NewDependency (rb_Resolution b)
     then \<exists>w. new_dependency_receipt K input st (sl, rb_Success b) (rl, rb_Resolution b) = Inr w \<and> rb_Witness b = Some w
     else sc_updates st = [] \<and> sc_dependency st = None \<and> rb_Witness b = None"
proof -
  obtain receipt st where c: "check_receipt_context input = Inr receipt" "scan_logs input receipt 0 (rc_Logs receipt) empty_scan = Inr st"
    using assms by (auto simp: VerifyVerificationReceipt_def)
  obtain ls where ls: "rc_Logs receipt = map Some ls" "scanned input receipt ([] @ ls) st"
    by (rule scan_logs_scanned[of input receipt "[]" "rc_Logs receipt" empty_scan st]) (use c(2) scanned_empty in simp_all)
  obtain sl s rl r where sr: "sc_success st = Some (sl, s)" "sc_resolution st = Some (rl, r)"
    using assms c by (auto simp: VerifyVerificationReceipt_def split: option.splits)
  note v = assms[unfolded VerifyVerificationReceipt_def c(1) bind_res_simps c(2) sr prod.case option.case fst_conv snd_conv Let_def]
  have i: "\<not> lg_Index sl \<ge> lg_Index rl" "verifySuccessAndResolution K (ri_Request input) s r = Inr ()" using v by (auto split: if_splits)
  have b: "rb_Success b = s" "rb_Resolution b = r" "rb_Logs b = sc_logs st" using v by (auto split: if_splits)
  have last: "if re_NewDependency r
     then \<exists>w. new_dependency_receipt K input st (sl, s) (rl, r) = Inr w \<and> rb_Witness b = Some w
     else sc_updates st = [] \<and> sc_dependency st = None \<and> rb_Witness b = None"
    using v by (auto split: if_splits simp del: not_None_eq)
  show thesis
    by (rule that[of receipt ls st sl rl])
      (use c ls sr i last in \<open>simp_all add: b verifySuccessAndResolution_Inr[of K _ _ _ "()"] not_le\<close>)
qed

lemma accepted_recording:
  assumes "VerifyVerificationReceipt K input = Inr b" "gateway_topics K"
  obtains receipt ls es where "ri_Receipt input = Some receipt" "rc_Logs receipt = map Some ls" "in_order ls"
    "rb_Logs b = filter (\<lambda>l. lg_Address l = ri_Gateway input) ls" "list_all2 (is_log_of K) (rb_Logs b) es"
    "recording_events K input (rb_Success b) (re_NewDependency (rb_Resolution b)) (re_HomeTrustRoot (rb_Resolution b)) es"
proof -
  obtain receipt ls st sl rl where c: "check_receipt_context input = Inr receipt" "rc_Logs receipt = map Some ls" "scanned input receipt ls st"
    and sr: "sc_success st = Some (sl, rb_Success b)" "sc_resolution st = Some (rl, rb_Resolution b)" "lg_Index sl < lg_Index rl"
    and b: "rb_Logs b = sc_logs st" "success_binds K (ri_Request input) (rb_Success b)" "re_RequestID (rb_Resolution b) = rs_ID (ri_Request input)"
    "re_Requester (rb_Resolution b) = rs_Requester (ri_Request input)" "re_DependencyKey (rb_Resolution b) = vs_DependencyKey (rb_Success b)"
    and last: "if re_NewDependency (rb_Resolution b)
     then \<exists>w. new_dependency_receipt K input st (sl, rb_Success b) (rl, rb_Resolution b) = Inr w \<and> rb_Witness b = Some w
     else sc_updates st = [] \<and> sc_dependency st = None \<and> rb_Witness b = None"
    using assms(1) by (rule accepted_parts)
  have gs: "in_order ls" "rb_Logs b = filter (\<lambda>l. lg_Address l = ri_Gateway input) ls" using c(3) by (simp_all add: scanned_def b(1))
  have pr: "ParseVerificationSucceeded sl = Inr (rb_Success b)" "ParseRequestResolved rl = Inr (rb_Resolution b)"
    using c(3) sr by (auto simp: scanned_def parses_def)
  have ev: "is_log_of K sl (succeeded_event (rb_Success b))"
    "is_log_of K rl (RequestResolved (rs_ID (ri_Request input)) (rs_Requester (ri_Request input)) (vs_DependencyKey (rb_Success b))
       (re_NewDependency (rb_Resolution b)) (re_HomeTrustRoot (rb_Resolution b)))"
    using pr ParseVerificationSucceeded_iff[OF assms(2)] ParseRequestResolved_iff[OF assms(2)] b(3-5) by metis+
  note set = scanned_set[OF c(3)]
  show thesis
  proof (cases "re_NewDependency (rb_Resolution b)")
    case False
    have "sc_logs st = [sl, rl]" by (rule ordered_unique) (use set False last sr in \<open>auto simp: in_order_def\<close>)
    then show thesis
      by (intro that[of receipt ls, OF check_receipt_context_depth(1)[OF c(1)] c(2) gs, of "[_, _]"])
        (use ev False in \<open>simp_all add: b(1) recording_events_def Let_def\<close>)
  next
    case True
    then obtain w where w: "new_dependency_receipt K input st (sl, rb_Success b) (rl, rb_Resolution b) = Inr w" using last by auto
    then obtain dl de al an ul up where n: "sc_dependency st = Some (dl, de)" "sc_updates st = [(al, an), (ul, up)]"
      by (auto simp: new_dependency_receipt_def split: option.splits list.splits)
    note w' = w[unfolded new_dependency_receipt_def n prod.case option.case list.case fst_conv snd_conv]
    have o: "lg_Index sl < lg_Index al" "lg_Index al < lg_Index ul" "lg_Index ul < lg_Index dl" "lg_Index dl < lg_Index rl"
      using w' by (auto split: if_splits)
    obtain x y where ch: "check_update_chain K input (rb_Success b) (rb_Resolution b) de an up = Inr (x, y)"
      "rebuild_witness K (ri_MerkleDepth input) x y (tu_NewTrustRoot an) (tu_NewTrustRoot up) (re_HomeTrustRoot (rb_Resolution b)) (de_LeafIndex de) = Inr w"
      using w' by (auto split: if_splits)
    note u = ch(1)[unfolded check_update_chain_Inr[OF b(2,5)]]
    have leaf: "de_LeafIndex de = 1" using u by simp
    note t = ch(2)[unfolded leaf rebuild_witness_Inr[OF check_receipt_context_depth(2,3)[OF c(1)]]]
    have "sc_logs st = [sl, al, ul, dl, rl]" by (rule ordered_unique) (use set o sr n in \<open>auto simp: in_order_def\<close>)
    moreover have "ParseTrustRootUpdated al = Inr an" "ParseTrustRootUpdated ul = Inr up" "ParseDependencyRecorded dl = Inr de"
      using c(3) n by (auto simp: scanned_def parses_def)
    then have "is_log_of K al (TrustRootUpdated (tu_RequestID an) (tu_LeafIndex an) (tu_Leaf an) (tu_OldTrustRoot an) (tu_NewTrustRoot an) (tu_IsAnchor an))"
      "is_log_of K ul (TrustRootUpdated (tu_RequestID up) (tu_LeafIndex up) (tu_Leaf up) (tu_OldTrustRoot up) (tu_NewTrustRoot up) (tu_IsAnchor up))"
      "is_log_of K dl (DependencyRecorded (de_DependencyKey de) (de_RequestID de) (de_SourceChainID de) (de_SourceHeight de) (de_SourceBlockHash de)
         (de_SourceTrustRoot de) (de_LeafIndex de))"
      by (simp_all add: ParseTrustRootUpdated_iff[OF assms(2)] ParseDependencyRecorded_iff[OF assms(2)])
    ultimately have logs: "list_all2 (is_log_of K) (rb_Logs b) [succeeded_event (rb_Success b),
        TrustRootUpdated (tu_RequestID an) (tu_LeafIndex an) (tu_Leaf an) (tu_OldTrustRoot an) (tu_NewTrustRoot an) (tu_IsAnchor an),
        TrustRootUpdated (tu_RequestID up) (tu_LeafIndex up) (tu_Leaf up) (tu_OldTrustRoot up) (tu_NewTrustRoot up) (tu_IsAnchor up),
        DependencyRecorded (de_DependencyKey de) (de_RequestID de) (de_SourceChainID de) (de_SourceHeight de) (de_SourceBlockHash de)
          (de_SourceTrustRoot de) (de_LeafIndex de),
        RequestResolved (rs_ID (ri_Request input)) (rs_Requester (ri_Request input)) (vs_DependencyKey (rb_Success b)) True
          (re_HomeTrustRoot (rb_Resolution b))]" (is "list_all2 _ _ ?es")
      using ev True by (simp add: b(1))
    have "recording_events K input (rb_Success b) True (re_HomeTrustRoot (rb_Resolution b)) ?es"
      using u t by (auto simp: recording_events_def Let_def intro!: exI[of _ "tu_OldTrustRoot an"])
    then show thesis using that[of receipt ls ?es] check_receipt_context_depth(1)[OF c(1)] c(2) gs logs True by simp
  qed
qed

lemma rebuild_witness_closes:
  assumes "rebuild_witness K depth a b r1 r2 home leaf = Inr w"
  shows "RootFromWitness K b leaf (wm_Siblings w) depth = Inr home" "wm_LeafIndex w = leaf"
proof -
  obtain zeros where z: "(let siblings = a # map (\<lambda>level. zeros ! level) [1..<unat depth]
     in case RootFromWitness K b leaf siblings depth of
          Inl _ \<Rightarrow> invalidReceipt
        | Inr root \<Rightarrow> if root \<noteq> home then invalidReceipt else Inr \<lparr>wm_LeafIndex = leaf, wm_Siblings = siblings\<rparr>) = Inr w"
    using assms unfolding rebuild_witness_def bind_res_eq_Inr by blast
  then show "RootFromWitness K b leaf (wm_Siblings w) depth = Inr home" "wm_LeafIndex w = leaf"
    by (auto simp: Let_def split: sum.split_asm if_split_asm)
qed

lemma accepted_witness:
  assumes "VerifyVerificationReceipt K input = Inr b" "re_NewDependency (rb_Resolution b)"
  obtains w where "rb_Witness b = Some w"
    "RootFromWitness K (LeafHash K (vs_SourceTrustRoot (rb_Success b)) (rs_SourceBlockHash (ri_Request input))) (wm_LeafIndex w) (wm_Siblings w)
       (ri_MerkleDepth input) = Inr (re_HomeTrustRoot (rb_Resolution b))"
proof -
  obtain receipt ls st sl rl where c: "check_receipt_context input = Inr receipt"
    and b: "success_binds K (ri_Request input) (rb_Success b)" "re_DependencyKey (rb_Resolution b) = vs_DependencyKey (rb_Success b)"
    and last: "if re_NewDependency (rb_Resolution b)
     then \<exists>w. new_dependency_receipt K input st (sl, rb_Success b) (rl, rb_Resolution b) = Inr w \<and> rb_Witness b = Some w
     else sc_updates st = [] \<and> sc_dependency st = None \<and> rb_Witness b = None"
    using assms(1) by (rule accepted_parts)
  then obtain w where w: "new_dependency_receipt K input st (sl, rb_Success b) (rl, rb_Resolution b) = Inr w" "rb_Witness b = Some w"
    using assms(2) by auto
  then obtain de an up x y where ch: "check_update_chain K input (rb_Success b) (rb_Resolution b) de an up = Inr (x, y)"
    "rebuild_witness K (ri_MerkleDepth input) x y (tu_NewTrustRoot an) (tu_NewTrustRoot up) (re_HomeTrustRoot (rb_Resolution b)) (de_LeafIndex de) = Inr w"
    by (auto simp: new_dependency_receipt_def split: option.splits list.splits if_splits prod.splits)
  note u = ch(1)[unfolded check_update_chain_Inr[OF b(1,2)]]
  show thesis using that[OF w(2)] u rebuild_witness_closes[OF ch(2)] by simp
qed

text \<open>Conversely, a receipt with the events of a recording is accepted.\<close>

lemma events_parse:
  assumes "gateway_topics K"
  shows "is_log_of K l (succeeded_event s) \<Longrightarrow> vs_SourceChainID s \<noteq> 0 \<Longrightarrow> hop_count_ok s \<Longrightarrow> ParseVerificationSucceeded l = Inr s"
    "is_log_of K l (TrustRootUpdated r i leaf old new an) \<Longrightarrow> ParseTrustRootUpdated l = Inr \<lparr>tu_RequestID = r, tu_LeafIndex = i, tu_Leaf = leaf,
       tu_OldTrustRoot = old, tu_NewTrustRoot = new, tu_IsAnchor = an\<rparr>"
    "is_log_of K l (DependencyRecorded k r c h bh root i) \<Longrightarrow> c \<noteq> 0 \<Longrightarrow> ParseDependencyRecorded l = Inr \<lparr>de_DependencyKey = k, de_RequestID = r,
       de_SourceChainID = c, de_SourceHeight = h, de_SourceBlockHash = bh, de_SourceTrustRoot = root, de_LeafIndex = i\<rparr>"
    "is_log_of K l (RequestResolved r who k nw home) \<Longrightarrow> ParseRequestResolved l = Inr \<lparr>re_RequestID = r, re_Requester = who, re_DependencyKey = k,
       re_NewDependency = nw, re_HomeTrustRoot = home\<rparr>"
  by (simp_all add: ParseVerificationSucceeded_iff[OF assms] ParseTrustRootUpdated_iff[OF assms] ParseDependencyRecorded_iff[OF assms]
      ParseRequestResolved_iff[OF assms])

lemma events_topic:
  assumes "gateway_topics K"
  shows "is_log_of K l (succeeded_event s) \<Longrightarrow> has_topic success_topics l"
    "is_log_of K l (TrustRootUpdated r i leaf old new an) \<Longrightarrow> has_topic {TrustRootUpdatedTopic} l"
    "is_log_of K l (DependencyRecorded k r c h bh root i) \<Longrightarrow> has_topic {DependencyRecordedTopic} l"
    "is_log_of K l (RequestResolved r who k nw home) \<Longrightarrow> has_topic {RequestResolvedTopic} l"
  using assms by (auto simp: has_topic_def event_layout succeeded_event_def split: option.splits)

lemma in_order_filter: "in_order ls \<Longrightarrow> in_order (filter P ls)"
  by (simp add: in_order_def sorted_wrt_filter)

lemma parses_single:
  assumes "parses f T ls (option_list x)" "filter (has_topic T) ls = [l]" "f l = Inr e"
  shows "x = Some (l, e)"
  using assms by (cases x) (auto simp: parses_def)

lemma parses_empty: "parses f T ls (option_list x) \<Longrightarrow> filter (has_topic T) ls = [] \<Longrightarrow> x = None"
  by (cases x) (auto simp: parses_def)

lemma recording_accepted:
  assumes "gateway_topics K" "check_receipt_context input = Inr receipt" "rc_Logs receipt = map Some ls"
    and "\<forall>l \<in> set ls. log_at input receipt l" "in_order ls"
    and "list_all2 (is_log_of K) (filter (\<lambda>l. lg_Address l = ri_Gateway input) ls) es"
    and "success_binds K (ri_Request input) s" "vs_SourceChainID s \<noteq> 0" "hop_count_ok s" "recording_events K input s new home es"
  obtains b where "VerifyVerificationReceipt K input = Inr b" "rb_Success b = s" "re_NewDependency (rb_Resolution b) = new"
    "re_HomeTrustRoot (rb_Resolution b) = home"
proof -
  let ?rq = "ri_Request input" and ?gs = "filter (\<lambda>l. lg_Address l = ri_Gateway input) ls"
  let ?r = "\<lparr>re_RequestID = rs_ID ?rq, re_Requester = rs_Requester ?rq, re_DependencyKey = vs_DependencyKey s, re_NewDependency = new, re_HomeTrustRoot = home\<rparr>"
  note pe = events_parse[OF assms(1)] and te = events_topic[OF assms(1)]
  note d = check_receipt_context_depth[OF assms(2)]
  have c: "rs_SourceChainID ?rq \<noteq> 0" using assms(7,8) by (simp add: success_binds_def)
  have vs: "verifySuccessAndResolution K ?rq s ?r = Inr ()" using assms(7) by (simp add: verifySuccessAndResolution_Inr)
  have fin: "\<exists>st. scan_logs input receipt 0 (rc_Logs receipt) empty_scan = Inr st \<and> scanned input receipt ls st"
    if sc: "scannable input receipt ls"
  proof -
    obtain st where st: "scan_logs input receipt 0 (rc_Logs receipt) empty_scan = Inr st"
      using scan_logs_ok[OF scanned_empty, of input receipt ls] sc assms(3) by auto
    moreover have "scanned input receipt ls st"
      using scan_logs_scanned[of input receipt "[]" "rc_Logs receipt" empty_scan st] st scanned_empty assms(3)
      by (metis append_Nil list.size(3) map_injective option.inject injI)
    ultimately show ?thesis by blast
  qed
  show thesis
  proof (cases new)
    case False
    then have "list_all2 (is_log_of K) ?gs [succeeded_event s, RequestResolved (rs_ID ?rq) (rs_Requester ?rq) (vs_DependencyKey s) False home]"
      using assms(6,10) by (simp add: recording_events_def Let_def)
    then obtain sl rl where gs: "?gs = [sl, rl]" "is_log_of K sl (succeeded_event s)"
      "is_log_of K rl (RequestResolved (rs_ID ?rq) (rs_Requester ?rq) (vs_DependencyKey s) False home)"
      by (auto simp: list_all2_Cons2)
    have p: "ParseVerificationSucceeded sl = Inr s" "ParseRequestResolved rl = Inr ?r" using pe(1)[OF gs(2) assms(8,9)] pe(4)[OF gs(3)] False by simp_all
    note t1 = te(1)[OF gs(2)] and t2 = te(4)[OF gs(3)]
    note no = t1 topics_disjoint(1)[OF t1] t2 topics_disjoint(4)[OF t2]
    have "scannable input receipt ls"
      using assms(4,5) no p by (simp add: scannable_def gs(1) parseable_def at_most_one_def)
    then obtain st where st: "scan_logs input receipt 0 (rc_Logs receipt) empty_scan = Inr st" "scanned input receipt ls st" using fin by blast
    have lg: "sc_logs st = [sl, rl]" using st(2) gs(1) by (simp add: scanned_def)
    have "in_order [sl, rl]" using in_order_filter[OF assms(5)] gs(1) by metis
    then have o: "lg_Index sl < lg_Index rl" by (simp add: in_order_def)
    have sd: "parses ParseVerificationSucceeded success_topics [sl, rl] (option_list (sc_success st))"
      "parses ParseTrustRootUpdated {TrustRootUpdatedTopic} [sl, rl] (sc_updates st)"
      "parses ParseDependencyRecorded {DependencyRecordedTopic} [sl, rl] (option_list (sc_dependency st))"
      "parses ParseRequestResolved {RequestResolvedTopic} [sl, rl] (option_list (sc_resolution st))"
      using st(2) unfolding scanned_def lg by blast+
    have f: "sc_success st = Some (sl, s)" "sc_resolution st = Some (rl, ?r)" "sc_dependency st = None"
      using parses_single[OF sd(1) _ p(1)] parses_single[OF sd(4) _ p(2)] parses_empty[OF sd(3)] no by simp_all
    have f': "sc_updates st = []" using sd(2) no by (simp add: parses_def)
    have "VerifyVerificationReceipt K input =
        Inr \<lparr>rb_Success = s, rb_Resolution = ?r, rb_Dependency = None, rb_Witness = None, rb_Logs = sc_logs st\<rparr>"
      using vs False by (simp add: VerifyVerificationReceipt_def assms(2) st(1) f f' o not_le Let_def)
    from that[OF this] show thesis by simp
  next
    case True
    then obtain old where e: "home = merkle_root K (unat (ri_MerkleDepth input))
        [LeafHash K old (ri_ParentHash input), LeafHash K (vs_SourceTrustRoot s) (rs_SourceBlockHash ?rq)]"
      "list_all2 (is_log_of K) ?gs [succeeded_event s, TrustRootUpdated (rs_ID ?rq) 0 (LeafHash K old (ri_ParentHash input)) old
           (merkle_root K (unat (ri_MerkleDepth input)) [LeafHash K old (ri_ParentHash input)]) True,
         TrustRootUpdated (rs_ID ?rq) 1 (LeafHash K (vs_SourceTrustRoot s) (rs_SourceBlockHash ?rq))
           (merkle_root K (unat (ri_MerkleDepth input)) [LeafHash K old (ri_ParentHash input)]) home False,
         DependencyRecorded (vs_DependencyKey s) (rs_ID ?rq) (rs_SourceChainID ?rq) (rs_SourceHeight ?rq) (rs_SourceBlockHash ?rq)
           (vs_SourceTrustRoot s) 1, RequestResolved (rs_ID ?rq) (rs_Requester ?rq) (vs_DependencyKey s) True home]"
      using assms(6,10) by (auto simp: recording_events_def Let_def)
    let ?a = "LeafHash K old (ri_ParentHash input)" and ?b = "LeafHash K (vs_SourceTrustRoot s) (rs_SourceBlockHash ?rq)"
    let ?r1 = "merkle_root K (unat (ri_MerkleDepth input)) [?a]"
    let ?an = "\<lparr>tu_RequestID = rs_ID ?rq, tu_LeafIndex = 0, tu_Leaf = ?a, tu_OldTrustRoot = old, tu_NewTrustRoot = ?r1, tu_IsAnchor = True\<rparr>"
    let ?up = "\<lparr>tu_RequestID = rs_ID ?rq, tu_LeafIndex = 1, tu_Leaf = ?b, tu_OldTrustRoot = ?r1, tu_NewTrustRoot = home, tu_IsAnchor = False\<rparr>"
    let ?de = "\<lparr>de_DependencyKey = vs_DependencyKey s, de_RequestID = rs_ID ?rq, de_SourceChainID = rs_SourceChainID ?rq,
      de_SourceHeight = rs_SourceHeight ?rq, de_SourceBlockHash = rs_SourceBlockHash ?rq, de_SourceTrustRoot = vs_SourceTrustRoot s, de_LeafIndex = 1\<rparr>"
    obtain sl al ul dl rl where gs: "?gs = [sl, al, ul, dl, rl]" and ev: "is_log_of K sl (succeeded_event s)"
      "is_log_of K al (TrustRootUpdated (rs_ID ?rq) 0 ?a old ?r1 True)" "is_log_of K ul (TrustRootUpdated (rs_ID ?rq) 1 ?b ?r1 home False)"
      "is_log_of K dl (DependencyRecorded (vs_DependencyKey s) (rs_ID ?rq) (rs_SourceChainID ?rq) (rs_SourceHeight ?rq) (rs_SourceBlockHash ?rq)
           (vs_SourceTrustRoot s) 1)" "is_log_of K rl (RequestResolved (rs_ID ?rq) (rs_Requester ?rq) (vs_DependencyKey s) True home)"
      using e(2) by (auto simp: list_all2_Cons2)
    have p: "ParseVerificationSucceeded sl = Inr s" "ParseTrustRootUpdated al = Inr ?an" "ParseTrustRootUpdated ul = Inr ?up"
      "ParseDependencyRecorded dl = Inr ?de" "ParseRequestResolved rl = Inr ?r"
      using pe(1)[OF ev(1) assms(8,9)] pe(2)[OF ev(2)] pe(2)[OF ev(3)] pe(3)[OF ev(4) c] pe(4)[OF ev(5)] True by simp_all
    note t = te(1)[OF ev(1)] te(2)[OF ev(2)] te(2)[OF ev(3)] te(3)[OF ev(4)] te(4)[OF ev(5)]
    note no = t topics_disjoint(1)[OF t(1)] topics_disjoint(2)[OF t(2)] topics_disjoint(2)[OF t(3)] topics_disjoint(3)[OF t(4)] topics_disjoint(4)[OF t(5)]
    have "scannable input receipt ls"
      using assms(4,5) no p by (simp add: scannable_def gs parseable_def at_most_one_def)
    then obtain st where st: "scan_logs input receipt 0 (rc_Logs receipt) empty_scan = Inr st" "scanned input receipt ls st" using fin by blast
    have lg: "sc_logs st = [sl, al, ul, dl, rl]" using st(2) gs by (simp add: scanned_def)
    have "in_order [sl, al, ul, dl, rl]" using in_order_filter[OF assms(5)] gs by metis
    then have o: "lg_Index sl < lg_Index al" "lg_Index al < lg_Index ul" "lg_Index ul < lg_Index dl" "lg_Index dl < lg_Index rl" "lg_Index sl < lg_Index rl"
      by (simp_all add: in_order_def)
    have sd: "parses ParseVerificationSucceeded success_topics [sl, al, ul, dl, rl] (option_list (sc_success st))"
      "parses ParseTrustRootUpdated {TrustRootUpdatedTopic} [sl, al, ul, dl, rl] (sc_updates st)"
      "parses ParseDependencyRecorded {DependencyRecordedTopic} [sl, al, ul, dl, rl] (option_list (sc_dependency st))"
      "parses ParseRequestResolved {RequestResolvedTopic} [sl, al, ul, dl, rl] (option_list (sc_resolution st))"
      using st(2) unfolding scanned_def lg by blast+
    have f: "sc_success st = Some (sl, s)" "sc_resolution st = Some (rl, ?r)" "sc_dependency st = Some (dl, ?de)"
      using parses_single[OF sd(1) _ p(1)] parses_single[OF sd(4) _ p(5)] parses_single[OF sd(3) _ p(4)] no by simp_all
    have fu: "sc_updates st = [(al, ?an), (ul, ?up)]"
    proof -
      have "map fst (sc_updates st) = [al, ul]" using sd(2) no by (simp add: parses_def)
      then obtain x y where "sc_updates st = [(al, x), (ul, y)]" by (auto simp: map_eq_Cons_conv)
      then show ?thesis using sd(2) p by (simp add: parses_def)
    qed
    have "check_update_chain K input s ?r ?de ?an ?up = Inr (?a, ?b)" by (subst check_update_chain_Inr) (use assms(7) in simp_all)
    moreover obtain w where "rebuild_witness K (ri_MerkleDepth input) ?a ?b ?r1 home home 1 = Inr w"
      using rebuild_witness_Inr[OF d(2,3)] e(1) by auto
    ultimately have "new_dependency_receipt K input st (sl, s) (rl, ?r) = Inr w" using o by (simp add: new_dependency_receipt_def f fu)
    then have "VerifyVerificationReceipt K input =
        Inr \<lparr>rb_Success = s, rb_Resolution = ?r, rb_Dependency = Some ?de, rb_Witness = Some w, rb_Logs = sc_logs st\<rparr>"
      using vs True o(5) by (simp add: VerifyVerificationReceipt_def assms(2) st(1) f not_le Let_def)
    from that[OF this] show thesis by simp
  qed
qed

subsection \<open>The transactions of the Gateway\<close>

lemma recordDependency_events:
  assumes "tree_shape K t" "recordDependency K env rid root key t = Inr (t', new)" "new \<Longrightarrow> activeTreeBlock t \<noteq> block_number env"
    and "a = LeafHash K (currentTrustRoot t) (blockhash env (block_number env - 1))" "b = LeafHash K root (req_sourceBlockHash (requests t rid))"
    and "d = unat (commitmentTreeDepth t)"
  shows "requests t' = requests t" "\<not> new \<Longrightarrow> t' = t"
    "new \<Longrightarrow> currentTrustRoot t' = merkle_root K d [a, b] \<and>
       emitted t' = emitted t @ [TrustRootUpdated rid 0 a (currentTrustRoot t) (merkle_root K d [a]) True,
         TrustRootUpdated rid 1 b (merkle_root K d [a]) (merkle_root K d [a, b]) False,
         DependencyRecorded key rid (req_sourceChainId (requests t rid)) (req_sourceHeight (requests t rid))
           (req_sourceBlockHash (requests t rid)) root 1]"
proof -
  have "requests t' = requests t \<and> (\<not> new \<longrightarrow> t' = t) \<and> (new \<longrightarrow> currentTrustRoot t' = merkle_root K d [a, b] \<and>
       emitted t' = emitted t @ [TrustRootUpdated rid 0 a (currentTrustRoot t) (merkle_root K d [a]) True,
         TrustRootUpdated rid 1 b (merkle_root K d [a]) (merkle_root K d [a, b]) False,
         DependencyRecorded key rid (req_sourceChainId (requests t rid)) (req_sourceHeight (requests t rid))
           (req_sourceBlockHash (requests t rid)) root 1])"
  proof (cases new)
    case False
    then show ?thesis using assms(2) by (auto simp: recordDependency_def Let_def split: if_splits)
  next
    case True
    then have fresh: "activeTreeBlock t \<noteq> block_number env" "\<not> dependencyRecorded t key"
      using assms(2,3) by (auto simp: recordDependency_def split: if_splits)
    obtain s1 where s1: "beginBlockTree K env rid a t = Inr s1" "block_tree K s1 [a]" "commitmentTreeDepth s1 = commitmentTreeDepth t"
      "commitment.more s1 = commitment.more t" "emitted s1 = emitted t @ [TrustRootUpdated rid 0 a (currentTrustRoot t) (currentTrustRoot s1) True]"
      using assms(1) by (rule beginBlockTree_ok)
    note m1 = gateway_more[OF s1(4)]
    have r1: "currentTrustRoot s1 = merkle_root K d [a]" using s1(2,3) by (simp add: block_tree_def assms(6))
    have "(2 :: nat) ^ unat (commitmentTreeDepth s1) \<ge> 2"
      using s1(2) power_increasing[of 1 "unat (commitmentTreeDepth s1)" "2 :: nat"] by (simp add: block_tree_def tree_shape_def)
    then have room: "length [a] < 2 ^ unat (commitmentTreeDepth s1)" by simp
    obtain s2 where s2: "appendLeaf K env rid b False s1 = Inr (s2, of_nat (length [a]))" "block_tree K s2 ([a] @ [b])"
      "commitmentTreeDepth s2 = commitmentTreeDepth s1" "commitment.more s2 = commitment.more s1"
      "emitted s2 = emitted s1 @ [TrustRootUpdated rid (of_nat (length [a])) b (currentTrustRoot s1) (currentTrustRoot s2) False]"
      by (rule appendLeaf_room[OF s1(2) room, of env rid b False])
    note m2 = gateway_more[OF s2(4)]
    have r2: "currentTrustRoot s2 = merkle_root K d [a, b]" using s2(2,3) s1(3) by (simp add: block_tree_def assms(6))
    have "block_number env \<noteq> 0" using assms(2) fresh by (auto simp: recordDependency_def split: if_splits)
    then show ?thesis
      using assms(2) fresh s1(1) s2(1) assms(4,5) True
      by (auto simp: recordDependency_def Let_def m1 m2 s2(5) s1(5) r1 r2)
  qed
  then show "requests t' = requests t" "\<not> new \<Longrightarrow> t' = t"
    "new \<Longrightarrow> currentTrustRoot t' = merkle_root K d [a, b] \<and>
       emitted t' = emitted t @ [TrustRootUpdated rid 0 a (currentTrustRoot t) (merkle_root K d [a]) True,
         TrustRootUpdated rid 1 b (merkle_root K d [a]) (merkle_root K d [a, b]) False,
         DependencyRecorded key rid (req_sourceChainId (requests t rid)) (req_sourceHeight (requests t rid))
           (req_sourceBlockHash (requests t rid)) root 1]" by blast+
qed

text \<open>A verification transaction: a path verification, or a direct one whose verifier does not call the Gateway back.\<close>

definition verification_call :: "keccak \<Rightarrow> sol_env \<Rightarrow> hash \<Rightarrow> gateway \<Rightarrow> gateway \<Rightarrow> bool \<Rightarrow> bool" where
  "verification_call K env rid s s' new \<longleftrightarrow>
     (\<exists>base blocks ws key. verifyPathAndRecord K env rid base blocks ws s = Inr (s', key, new) \<and> length blocks < 2 ^ 256) \<or>
     (\<exists>verify pf key. verifyDirectAndRecord K verify env rid pf s = Inr (s', key, new) \<and>
        (\<forall>t c h b p t' root. verify t c h b p = Inr (t', root) \<longrightarrow> t' = t))"

definition request_matches :: "request \<Rightarrow> hash \<Rightarrow> verification_request \<Rightarrow> bool" where
  "request_matches rq rid r \<longleftrightarrow> rs_ID rq = rid \<and> rs_Requester rq = req_requester r \<and> rs_SourceChainID rq = req_sourceChainId r \<and>
     rs_SourceHeight rq = req_sourceHeight r \<and> rs_SourceBlockHash rq = req_sourceBlockHash r"

lemma finished_events:
  assumes "tree_shape K u" "request_matches rq rid (requests u rid)" "rq = ri_Request input" "hop_count_ok v" "success_binds K rq v"
    and "recordDependency K env rid (vs_SourceTrustRoot v) (vs_DependencyKey v) (u\<lparr>emitted := emitted u @ [succeeded_event v]\<rparr>) = Inr (t', new)"
    and "new \<Longrightarrow> activeTreeBlock u \<noteq> block_number env" "ri_ParentHash input = blockhash env (block_number env - 1)"
    and "ri_MerkleDepth input = commitmentTreeDepth u" "s' = resolveRequest rid (vs_DependencyKey v) new t'"
  obtains es where "emitted s' = emitted u @ es" "recording_events K input v new (currentTrustRoot s') es"
proof -
  let ?u = "u\<lparr>emitted := emitted u @ [succeeded_event v]\<rparr>"
  have sh: "tree_shape K ?u" using assms(1) by (simp add: tree_shape_def)
  note r = recordDependency_events[OF sh assms(6) _ refl refl refl, simplified]
  have m: "rs_ID rq = rid" "req_requester (requests u rid) = rs_Requester rq" "req_sourceChainId (requests u rid) = rs_SourceChainID rq"
    "req_sourceHeight (requests u rid) = rs_SourceHeight rq" "req_sourceBlockHash (requests u rid) = rs_SourceBlockHash rq"
    using assms(2) by (simp_all add: request_matches_def)
  have root: "currentTrustRoot s' = currentTrustRoot t'" by (simp add: assms(10) resolveRequest_def Let_def)
  have em: "emitted s' = emitted t' @ [RequestResolved rid (rs_Requester rq) (vs_DependencyKey v) new (currentTrustRoot t')]"
    using r(1) assms(7) by (simp add: assms(10) resolveRequest_def Let_def m)
  show thesis
  proof (cases new)
    case False
    then have "t' = ?u" using r(2) by simp
    then show thesis
      by (intro that[of "[succeeded_event v, RequestResolved rid (rs_Requester rq) (vs_DependencyKey v) new (currentTrustRoot t')]"])
        (simp_all add: em root recording_events_def Let_def False m(1) flip: assms(3))
  next
    case True
    note n = r(3)[OF assms(7) True]
    show thesis
      by (rule that[of "succeeded_event v # drop (Suc (length (emitted u))) (emitted s')"])
        (use n True in \<open>simp_all add: em root recording_events_def Let_def m assms(8,9) flip: assms(3)\<close>)
  qed
qed

text \<open>The receipt of a transaction: its context is the block, and the logs of the Gateway in it are those of the events.\<close>

definition transaction_receipt :: "keccak \<Rightarrow> receipt_input \<Rightarrow> sol_event list \<Rightarrow> bool" where
  "transaction_receipt K input es \<longleftrightarrow>
     (\<exists>receipt ls. check_receipt_context input = Inr receipt \<and> rc_Logs receipt = map Some ls \<and> (\<forall>l \<in> set ls. log_at input receipt l) \<and>
        in_order ls \<and> list_all2 (is_log_of K) (filter (\<lambda>l. lg_Address l = ri_Gateway input) ls) es)"

text \<open>A verification call marks the request, logs the success, records the dependency and resolves the request.\<close>

lemma verification_call_parts:
  assumes "verification_call K env rid s s' new" "request_matches rq rid (requests s rid)"
  obtains u v t' where "beginRequest rid s = Inr u" "success_binds K rq v" "hop_count_ok v" "vs_SourceChainID v = rs_SourceChainID rq"
    "recordDependency K env rid (vs_SourceTrustRoot v) (vs_DependencyKey v) (u\<lparr>emitted := emitted u @ [succeeded_event v]\<rparr>) = Inr (t', new)"
    "s' = resolveRequest rid (vs_DependencyKey v) new t'"
proof -
  have m: "req_sourceChainId (requests s rid) = rs_SourceChainID rq" "req_sourceHeight (requests s rid) = rs_SourceHeight rq"
    "req_sourceBlockHash (requests s rid) = rs_SourceBlockHash rq" "rs_ID rq = rid"
    using assms(2) by (simp_all add: request_matches_def)
  have key: "computeDependencyKey K c h b r = ComputeDependencyKey K c h b r" for c h b r
    by (simp add: computeDependencyKey_def ComputeDependencyKey_def dependency_words_def)
  let ?v = "\<lambda>root key path hops. \<lparr>vs_RequestID = rid, vs_SourceChainID = rs_SourceChainID rq, vs_SourceHeight = rs_SourceHeight rq,
      vs_SourceBlockHash = rs_SourceBlockHash rq, vs_SourceTrustRoot = root, vs_DependencyKey = key, vs_Path = path, vs_HopCount = hops\<rparr>"
  consider (path) base blocks ws key where "verifyPathAndRecord K env rid base blocks ws s = Inr (s', key, new)" "length blocks < 2 ^ 256"
    | (direct) verify pf key where "verifyDirectAndRecord K verify env rid pf s = Inr (s', key, new)"
      "\<forall>t c h b p t' root. verify t c h b p = Inr (t', root) \<longrightarrow> t' = t"
    using assms(1) unfolding verification_call_def by blast
  then show thesis
  proof cases
    case path
    show thesis
    proof (rule verifyPathAndRecord_InrE[OF path(1)])
      fix s1 t'
      assume "beginRequest rid s = Inr s1" "blocks \<noteq> []" and k: "key = computeDependencyKey K (req_sourceChainId (requests s rid))
          (req_sourceHeight (requests s rid)) (req_sourceBlockHash (requests s rid)) base"
        and "recordDependency K env rid base key (s1\<lparr>emitted := emitted s1 @ [PathVerificationSucceeded rid
       (req_sourceChainId (requests s rid)) (req_sourceHeight (requests s rid)) (req_sourceBlockHash (requests s rid)) base
       (of_nat (length blocks)) key]\<rparr>) = Inr (t', new)" "s' = resolveRequest rid key new t'"
      moreover have "int (length blocks) < 2 ^ 256" using path(2) by (metis of_nat_less_iff of_nat_numeral of_nat_power)
      ultimately show thesis
        by (intro that[of s1 "?v base key True (Some (int (length blocks)))" t'])
          (simp_all add: succeeded_event_def hop_count_ok_def success_binds_def m key)
    qed
  next
    case direct
    show thesis
    proof (rule verifyDirectAndRecord_InrE[OF direct(1)])
      fix s1 t root t'
      assume b: "beginRequest rid s = Inr s1" and v: "verify s1 (req_sourceChainId (requests s rid)) (req_sourceHeight (requests s rid))
          (req_sourceBlockHash (requests s rid)) pf = Inr (t, root)"
        and k: "key = computeDependencyKey K (req_sourceChainId (requests t rid)) (req_sourceHeight (requests t rid)) (req_sourceBlockHash (requests t rid)) root"
        and r: "recordDependency K env rid root key (t\<lparr>emitted := emitted t @ [DirectVerificationSucceeded rid
       (req_sourceChainId (requests t rid)) (req_sourceHeight (requests t rid)) (req_sourceBlockHash (requests t rid)) root key]\<rparr>)
       = Inr (t', new)" "s' = resolveRequest rid key new t'"
      have t: "t = s1" using v direct(2) by blast
      have q: "req_sourceChainId (requests t rid) = rs_SourceChainID rq" "req_sourceHeight (requests t rid) = rs_SourceHeight rq"
        "req_sourceBlockHash (requests t rid) = rs_SourceBlockHash rq" using b m by (auto simp: t beginRequest_Inr)
      show thesis
        by (rule that[OF b, of "?v root key False None" t'])
          (use k r in \<open>simp_all add: succeeded_event_def hop_count_ok_def success_binds_def m(4) q key t[symmetric]\<close>)
    qed
  qed
qed

lemma begin_keeps:
  assumes "beginRequest rid s = Inr u"
  shows "emitted u = emitted s" "activeTreeBlock u = activeTreeBlock s" "commitmentTreeDepth u = commitmentTreeDepth s"
    "tree_shape K u \<longleftrightarrow> tree_shape K s" "request_matches rq rid (requests u rid) \<longleftrightarrow> request_matches rq rid (requests s rid)"
  using assms by (auto simp: beginRequest_Inr tree_shape_def request_matches_def)

lemma verification_call_events:
  assumes "gateway_inv K s" "verification_call K env rid s s' new" "new \<Longrightarrow> activeTreeBlock s \<noteq> block_number env"
    and "request_matches (ri_Request input) rid (requests s rid)" "ri_ParentHash input = blockhash env (block_number env - 1)"
    and "ri_MerkleDepth input = commitmentTreeDepth s"
  obtains v es where "emitted s' = emitted s @ es" "recording_events K input v new (currentTrustRoot s') es"
    "success_binds K (ri_Request input) v" "hop_count_ok v" "vs_SourceChainID v = rs_SourceChainID (ri_Request input)"
  using assms(2,4)
proof (rule verification_call_parts)
  fix u v t'
  assume p: "beginRequest rid s = Inr u" "success_binds K (ri_Request input) v" "hop_count_ok v" "vs_SourceChainID v = rs_SourceChainID (ri_Request input)"
    "recordDependency K env rid (vs_SourceTrustRoot v) (vs_DependencyKey v) (u\<lparr>emitted := emitted u @ [succeeded_event v]\<rparr>) = Inr (t', new)"
    "s' = resolveRequest rid (vs_DependencyKey v) new t'"
  note f = begin_keeps[OF p(1)]
  have sh: "tree_shape K s" using assms(1) by (simp add: gateway_inv_def log_tree_def block_tree_def)
  obtain es where "emitted s' = emitted u @ es" "recording_events K input v new (currentTrustRoot s') es"
    by (rule finished_events[OF _ _ refl p(3,2,5) _ assms(5) _ p(6)]) (use assms(3,4,6) f sh in simp_all)
  then show thesis using that[of es v] f(1) p(2-4) by simp
qed

text \<open>A second recording of a block appends no anchor: the call logs four events, where a first one logs five.\<close>

lemma second_recording_events:
  assumes "verification_call K env rid s s' True" "request_matches rq rid (requests s rid)" "activeTreeBlock s = block_number env"
  shows "length (drop (length (emitted s)) (emitted s')) = 4"
  using assms(1,2)
proof (rule verification_call_parts)
  fix u v t'
  assume p: "beginRequest rid s = Inr u" "recordDependency K env rid (vs_SourceTrustRoot v) (vs_DependencyKey v)
      (u\<lparr>emitted := emitted u @ [succeeded_event v]\<rparr>) = Inr (t', True)" "s' = resolveRequest rid (vs_DependencyKey v) True t'"
  have "length (emitted t') = length (emitted u) + 3"
    using p(2) begin_keeps(2)[OF p(1)] assms(3) by (auto simp: recordDependency_def appendLeaf_def Let_def split: if_splits prod.splits)
  then show ?thesis using begin_keeps(1)[OF p(1)] by (simp add: p(3) resolveRequest_def Let_def)
qed

lemma verification_receipt_ok:
  assumes "gateway_topics K" "new_gateway K has_code depth verifier root0 = Inr s0" "gateway_calls K s0 s"
    and "verification_call K env rid s s' new" "new \<longrightarrow> activeTreeBlock s \<noteq> block_number env"
    and "request_matches (ri_Request input) rid (requests s rid)" "rs_SourceChainID (ri_Request input) \<noteq> 0"
    and "ri_ParentHash input = blockhash env (block_number env - 1)" "ri_MerkleDepth input = depth"
    and "transaction_receipt K input (drop (length (emitted s)) (emitted s'))"
  obtains b where "VerifyVerificationReceipt K input = Inr b" "re_NewDependency (rb_Resolution b) = new"
    "re_HomeTrustRoot (rb_Resolution b) = currentTrustRoot s'"
proof -
  note r = reachable_inv[OF assms(2,3)]
  obtain v es where v: "emitted s' = emitted s @ es" "recording_events K input v new (currentTrustRoot s') es"
    "success_binds K (ri_Request input) v" "hop_count_ok v" "vs_SourceChainID v = rs_SourceChainID (ri_Request input)"
    by (rule verification_call_events[OF r(1) assms(4) _ assms(6,8)]) (use assms(5,9) r(2) in simp_all)
  obtain receipt ls where t: "check_receipt_context input = Inr receipt" "rc_Logs receipt = map Some ls" "\<forall>l \<in> set ls. log_at input receipt l"
    "in_order ls" "list_all2 (is_log_of K) (filter (\<lambda>l. lg_Address l = ri_Gateway input) ls) es"
    using assms(10) by (auto simp: transaction_receipt_def v(1))
  have "vs_SourceChainID v \<noteq> 0" using v(5) assms(7) by simp
  then show thesis using recording_accepted[OF assms(1) t v(3) _ v(4,2)] that by metis
qed

subsection \<open>Properties\<close>

lemma second_recording_rejected:
  assumes "gateway_topics K" "verification_call K env rid s s' True" "activeTreeBlock s = block_number env"
    and "request_matches (ri_Request input) rid (requests s rid)"
    and "transaction_receipt K input (drop (length (emitted s)) (emitted s'))"
  shows "VerifyVerificationReceipt K input \<noteq> Inr b"
proof
  assume "VerifyVerificationReceipt K input = Inr b"
  then obtain receipt ls es where r: "ri_Receipt input = Some receipt" "rc_Logs receipt = map Some ls"
    "rb_Logs b = filter (\<lambda>l. lg_Address l = ri_Gateway input) ls" "list_all2 (is_log_of K) (rb_Logs b) es"
    "recording_events K input (rb_Success b) (re_NewDependency (rb_Resolution b)) (re_HomeTrustRoot (rb_Resolution b)) es"
    using assms(1) by (rule accepted_recording)
  obtain receipt' ls' where t: "check_receipt_context input = Inr receipt'" "rc_Logs receipt' = map Some ls'"
    "list_all2 (is_log_of K) (filter (\<lambda>l. lg_Address l = ri_Gateway input) ls') (drop (length (emitted s)) (emitted s'))"
    using assms(5) unfolding transaction_receipt_def by blast
  have "receipt' = receipt" using t(1) r(1) by (auto simp: check_receipt_context_def split: if_splits option.splits)
  then have "ls' = ls" using t(2) r(2) by (simp add: inj_map_eq_map)
  then have "length es = 4" using list_all2_lengthD[OF t(3)] list_all2_lengthD[OF r(4)] r(3) second_recording_events[OF assms(2,4,3)] by simp
  then show False using r(5) by (auto simp: recording_events_def Let_def split: if_splits)
qed

text \<open>
  C16. What the indexer makes of a successful Gateway call, for a path verification and for a direct one whose verifier does not
  call the Gateway back, in a reachable storage. When the call finds the dependency known, or is the first to record one
  in its block, \<open>VerifyVerificationReceipt\<close> accepts the receipt: the bundle reports whether the dependency is new and
  the root the Gateway now has, and for a new dependency the rebuilt witness proves it against that root. When the call is
  a second recording in its block, which the contract allows without another anchor, the receipt is rejected: the
  indexer supports one recording per block. The receipt holds the logs of the call at the coordinates of its block, and
  the digests of the event signatures are the topics the parsers compare with.
\<close>

theorem gateway_receipt_accepted:
  assumes "gateway_topics K" "new_gateway K has_code depth verifier root0 = Inr s0" "gateway_calls K s0 s"
    and "verification_call K env rid s s' new"
    and "request_matches (ri_Request input) rid (requests s rid)" "rs_SourceChainID (ri_Request input) \<noteq> 0"
    and "ri_ParentHash input = blockhash env (block_number env - 1)" "ri_MerkleDepth input = depth"
    and "transaction_receipt K input (drop (length (emitted s)) (emitted s'))"
  shows "if new \<and> activeTreeBlock s = block_number env then \<exists>e. VerifyVerificationReceipt K input = Inl e
    else \<exists>b. VerifyVerificationReceipt K input = Inr b \<and> re_NewDependency (rb_Resolution b) = new \<and>
      re_HomeTrustRoot (rb_Resolution b) = currentTrustRoot s' \<and>
      (new \<longrightarrow> (\<exists>w. rb_Witness b = Some w \<and> VerifyPath K (vs_SourceTrustRoot (rb_Success b)) [req_sourceBlockHash (requests s rid)]
         [\<lparr>leafIndex = wm_LeafIndex w, siblings = wm_Siblings w\<rparr>] (currentTrustRoot s') depth = Inr ()))"
proof (cases "new \<and> activeTreeBlock s = block_number env")
  case True
  then have "VerifyVerificationReceipt K input \<noteq> Inr b" for b
    using second_recording_rejected[OF assms(1) _ _ assms(5,9)] assms(4) by simp
  then show ?thesis using True by (metis obj_sumE)
next
  case False
  then have "new \<longrightarrow> activeTreeBlock s \<noteq> block_number env" by blast
  with assms(1-4) obtain b where b: "VerifyVerificationReceipt K input = Inr b" "re_NewDependency (rb_Resolution b) = new"
    "re_HomeTrustRoot (rb_Resolution b) = currentTrustRoot s'" using assms(5-9) by (rule verification_receipt_ok)
  have "rs_SourceBlockHash (ri_Request input) = req_sourceBlockHash (requests s rid)" using assms(5) by (simp add: request_matches_def)
  then have "\<exists>b. VerifyVerificationReceipt K input = Inr b \<and> re_NewDependency (rb_Resolution b) = new \<and>
      re_HomeTrustRoot (rb_Resolution b) = currentTrustRoot s' \<and>
      (new \<longrightarrow> (\<exists>w. rb_Witness b = Some w \<and> VerifyPath K (vs_SourceTrustRoot (rb_Success b)) [req_sourceBlockHash (requests s rid)]
         [\<lparr>leafIndex = wm_LeafIndex w, siblings = wm_Siblings w\<rparr>] (currentTrustRoot s') depth = Inr ()))"
    using b accepted_witness[OF b(1)] assms(8) one_hop by metis
  then show ?thesis using False by presburger
qed

text \<open>
  C17. The indexer accepts nothing else: the Gateway logs of an accepted receipt are, in order, exactly the events of one
  verification of the request, its success, for a new dependency the anchor of a fresh tree over the parent block, the leaf of
  the dependency and its record, and the resolution; the roots are those of that tree, the key is that of the dependency,
  and the bundle of a new dependency has a witness that closes at the reported home root.
\<close>

theorem accepted_receipt_sound:
  assumes "gateway_topics K" "VerifyVerificationReceipt K input = Inr b"
  shows "\<exists>receipt ls es. ri_Receipt input = Some receipt \<and> rc_Logs receipt = map Some ls \<and> in_order ls \<and>
    rb_Logs b = filter (\<lambda>l. lg_Address l = ri_Gateway input) ls \<and> list_all2 (is_log_of K) (rb_Logs b) es \<and>
    recording_events K input (rb_Success b) (re_NewDependency (rb_Resolution b)) (re_HomeTrustRoot (rb_Resolution b)) es \<and>
    success_binds K (ri_Request input) (rb_Success b) \<and>
    (re_NewDependency (rb_Resolution b) \<longrightarrow> (\<exists>w. rb_Witness b = Some w \<and>
       VerifyPath K (vs_SourceTrustRoot (rb_Success b)) [rs_SourceBlockHash (ri_Request input)]
         [\<lparr>leafIndex = wm_LeafIndex w, siblings = wm_Siblings w\<rparr>] (re_HomeTrustRoot (rb_Resolution b)) (ri_MerkleDepth input) = Inr ()))"
proof -
  obtain receipt ls es where r: "ri_Receipt input = Some receipt" "rc_Logs receipt = map Some ls" "in_order ls"
    "rb_Logs b = filter (\<lambda>l. lg_Address l = ri_Gateway input) ls" "list_all2 (is_log_of K) (rb_Logs b) es"
    "recording_events K input (rb_Success b) (re_NewDependency (rb_Resolution b)) (re_HomeTrustRoot (rb_Resolution b)) es"
    using assms(2,1) by (rule accepted_recording)
  moreover have "success_binds K (ri_Request input) (rb_Success b)" using assms(2) by (rule accepted_parts)
  moreover have "\<exists>w. rb_Witness b = Some w \<and> VerifyPath K (vs_SourceTrustRoot (rb_Success b)) [rs_SourceBlockHash (ri_Request input)]
         [\<lparr>leafIndex = wm_LeafIndex w, siblings = wm_Siblings w\<rparr>] (re_HomeTrustRoot (rb_Resolution b)) (ri_MerkleDepth input) = Inr ()"
    if "re_NewDependency (rb_Resolution b)"
    using accepted_witness[OF assms(2) that] one_hop by metis
  ultimately show ?thesis by blast
qed

subsection \<open>A concrete receipt\<close>

definition demo_verifier :: verifier_call where
  "demo_verifier t c h b p = Inr (t, 7)"

lemma demo_verified:
  obtains s0 s rid s' where "new_gateway topic_hash (\<lambda>_. True) 1 5 2239 = Inr s0" "gateway_calls topic_hash s0 s"
    "verification_call topic_hash demo_env rid s s' True" "activeTreeBlock s \<noteq> block_number demo_env"
    "requests s rid = \<lparr>req_requester = 2, req_sourceChainId = 2, req_sourceHeight = 3, req_sourceBlockHash = 1, req_exists = True,
       req_resolved = False, req_processing = False\<rparr>"
proof -
  obtain s0 where s0: "new_gateway topic_hash (\<lambda>_. True) 1 5 2239 = Inr s0" "requests s0 = (\<lambda>_. zero_request)"
    "requestNonce s0 = (\<lambda>_. 0)" "activeTreeBlock s0 = 0" "dependencyRecorded s0 = (\<lambda>_. False)"
    by (simp add: new_gateway_def new_commitment_def new_path_verifier_def commitment.extend_def)
  obtain s rid where s: "requestVerification topic_hash demo_env 2 3 1 s0 = Inr (s, rid)"
    "requests s rid = \<lparr>req_requester = 2, req_sourceChainId = 2, req_sourceHeight = 3, req_sourceBlockHash = 1, req_exists = True,
       req_resolved = False, req_processing = False\<rparr>" "activeTreeBlock s = 0" "dependencyRecorded s = (\<lambda>_. False)"
    using s0(2-5) by (simp add: requestVerification_def Let_def zero_request_def demo_env_def)
  note c = gateway_calls.request[OF gateway_calls.none s(1)]
  let ?u = "s\<lparr>requests := (requests s)(rid := (requests s rid)\<lparr>req_processing := True\<rparr>)\<rparr>"
  let ?key = "computeDependencyKey topic_hash 2 3 1 7"
  let ?t = "?u\<lparr>emitted := emitted ?u @ [DirectVerificationSucceeded rid 2 3 1 7 ?key]\<rparr>"
  have "log_tree topic_hash s" using reachable_inv(1)[OF s0(1) c] by (simp add: gateway_inv_def)
  then have "log_tree topic_hash ?t" by (simp add: log_tree_def block_tree_def tree_shape_def)
  then have "is_ok (recordDependency topic_hash demo_env rid 7 ?key ?t)"
    using s(3) by (simp add: recordDependency_ok has_room_def demo_env_def)
  then obtain t' new where r: "recordDependency topic_hash demo_env rid 7 ?key ?t = Inr (t', new)" by (auto simp: is_ok_def split: sum.splits)
  moreover have "new" using r s(4) by (auto simp: recordDependency_def Let_def split: if_splits)
  ultimately have "verifyDirectAndRecord topic_hash demo_verifier demo_env rid [] s = Inr (resolveRequest rid ?key True t', ?key, True)"
    using s(2) by (simp add: verifyDirectAndRecord_def beginRequest_def demo_verifier_def Let_def)
  then have "verification_call topic_hash demo_env rid s (resolveRequest rid ?key True t') True"
    unfolding verification_call_def by (intro disjI2 exI[of _ demo_verifier] exI[of _ "[]"] exI[of _ ?key]) (simp add: demo_verifier_def)
  then show thesis using that[OF s0(1) c] s(2,3) by (simp add: demo_env_def)
qed

definition demo_logs :: "sol_event list \<Rightarrow> eth_log list" where
  "demo_logs es = map (\<lambda>i. (log_of topic_hash (es ! i))\<lparr>lg_Index := of_nat i\<rparr>) [0..<length es]"

definition demo_input :: "hash \<Rightarrow> sol_event list \<Rightarrow> receipt_input" where
  "demo_input rid es = \<lparr>ri_Gateway = 1, ri_BlockHash = 1, ri_BlockNumber = 1, ri_ParentHash = 9, ri_MerkleDepth = 1,
     ri_Request = \<lparr>rs_ID = rid, rs_HomeChainID = 1, rs_Gateway = 1, rs_Requester = 2, rs_Nonce = 0, rs_SourceChainID = 2,
       rs_SourceHeight = 3, rs_SourceBlockHash = 1, rs_State = DirectFallback, rs_Reason = [], rs_CreatedAt = 1, rs_UpdatedAt = 1\<rparr>,
     ri_Receipt = Some \<lparr>rc_Status = 1, rc_TxHash = 1, rc_BlockHash = 1, rc_BlockNumber = Some 1, rc_TransactionIndex = 0,
       rc_Logs = map Some (demo_logs es)\<rparr>\<rparr>"

lemma demo_transaction:
  assumes "length es \<le> 5"
  shows "transaction_receipt topic_hash (demo_input rid es) es"
proof -
  let ?receipt = "\<lparr>rc_Status = 1, rc_TxHash = 1, rc_BlockHash = 1, rc_BlockNumber = Some 1, rc_TransactionIndex = 0,
       rc_Logs = map Some (demo_logs es)\<rparr>"
  have "check_receipt_context (demo_input rid es) = Inr ?receipt"
    by (simp add: check_receipt_context_def demo_input_def MaxTreeDepth_def)
  moreover have "\<forall>l \<in> set (demo_logs es). log_at (demo_input rid es) ?receipt l"
    by (simp add: demo_logs_def log_at_def demo_input_def log_of_def)
  moreover have "(of_nat i :: u64) < of_nat j" if "i < j" "j < length es" for i j
    using that assms by (simp add: word_less_nat_alt unat_of_nat)
  then have "in_order (demo_logs es)"
    by (simp add: in_order_def demo_logs_def sorted_wrt_iff_nth_less)
  moreover have "filter (\<lambda>l. lg_Address l = ri_Gateway (demo_input rid es)) (demo_logs es) = demo_logs es"
    by (simp add: demo_logs_def log_of_def demo_input_def filter_id_conv)
  moreover have "list_all2 (is_log_of topic_hash) (demo_logs es) es"
    by (simp add: list_all2_conv_all_nth demo_logs_def is_log_of_def log_of_def)
  ultimately show ?thesis unfolding transaction_receipt_def by (intro exI[of _ ?receipt] exI[of _ "demo_logs es"]) simp
qed

lemma recording_length: "recording_events K input v new home es \<Longrightarrow> length es \<le> 5"
  by (auto simp: recording_events_def Let_def split: if_splits)

lemma demo_receipt:
  obtains s0 s rid s' input where "new_gateway topic_hash (\<lambda>_. True) 1 5 2239 = Inr s0" "gateway_calls topic_hash s0 s"
    "verification_call topic_hash demo_env rid s s' True" "activeTreeBlock s \<noteq> block_number demo_env"
    "request_matches (ri_Request input) rid (requests s rid)" "rs_SourceChainID (ri_Request input) \<noteq> 0"
    "ri_ParentHash input = blockhash demo_env (block_number demo_env - 1)" "ri_MerkleDepth input = 1"
    "transaction_receipt topic_hash input (drop (length (emitted s)) (emitted s'))"
proof -
  obtain s0 s rid s' where d: "new_gateway topic_hash (\<lambda>_. True) 1 5 2239 = Inr s0" "gateway_calls topic_hash s0 s"
    "verification_call topic_hash demo_env rid s s' True" "activeTreeBlock s \<noteq> block_number demo_env"
    and rq: "requests s rid = \<lparr>req_requester = 2, req_sourceChainId = 2, req_sourceHeight = 3, req_sourceBlockHash = 1, req_exists = True,
       req_resolved = False, req_processing = False\<rparr>" by (rule demo_verified)
  let ?in = "demo_input rid (drop (length (emitted s)) (emitted s'))"
  have i: "request_matches (ri_Request ?in) rid (requests s rid)" "rs_SourceChainID (ri_Request ?in) \<noteq> 0"
    "ri_ParentHash ?in = blockhash demo_env (block_number demo_env - 1)" "ri_MerkleDepth ?in = 1"
    by (simp_all add: rq demo_input_def request_matches_def demo_env_def)
  obtain v es where "emitted s' = emitted s @ es" "recording_events topic_hash ?in v True (currentTrustRoot s') es"
    by (rule verification_call_events[OF reachable_inv(1)[OF d(1,2)] d(3) d(4) i(1,3)]) (use i(4) reachable_inv(2)[OF d(1,2)] in simp)
  then have "length (drop (length (emitted s)) (emitted s')) \<le> 5" using recording_length by simp
  then show thesis using that[OF d i] demo_transaction by blast
qed

theorem gateway_receipt_accepted_witness:
  "\<exists>s0 s rid s' input b. new_gateway topic_hash (\<lambda>_. True) 1 5 2239 = Inr s0 \<and> gateway_calls topic_hash s0 s \<and>
     verification_call topic_hash demo_env rid s s' True \<and> VerifyVerificationReceipt topic_hash input = Inr b \<and>
     re_HomeTrustRoot (rb_Resolution b) = currentTrustRoot s' \<and> rb_Witness b \<noteq> None"
proof -
  obtain s0 s rid s' input where d: "new_gateway topic_hash (\<lambda>_. True) 1 5 2239 = Inr s0" "gateway_calls topic_hash s0 s"
    "verification_call topic_hash demo_env rid s s' True" "activeTreeBlock s \<noteq> block_number demo_env"
    "request_matches (ri_Request input) rid (requests s rid)" "rs_SourceChainID (ri_Request input) \<noteq> 0"
    "ri_ParentHash input = blockhash demo_env (block_number demo_env - 1)" "ri_MerkleDepth input = 1"
    "transaction_receipt topic_hash input (drop (length (emitted s)) (emitted s'))" by (rule demo_receipt)
  obtain b where "VerifyVerificationReceipt topic_hash input = Inr b" "re_HomeTrustRoot (rb_Resolution b) = currentTrustRoot s'" "rb_Witness b \<noteq> None"
    using gateway_receipt_accepted[OF gateway_topics_topic_hash d(1-3,5-9)] d(4) by auto
  then show ?thesis using d(1-3) by blast
qed

theorem accepted_receipt_sound_witness:
  "\<exists>input b. VerifyVerificationReceipt topic_hash input = Inr b \<and> re_NewDependency (rb_Resolution b) \<and>
     success_binds topic_hash (ri_Request input) (rb_Success b) \<and>
     (\<exists>es. list_all2 (is_log_of topic_hash) (rb_Logs b) es \<and>
        recording_events topic_hash input (rb_Success b) True (re_HomeTrustRoot (rb_Resolution b)) es)"
proof -
  obtain s0 s rid s' input where d: "new_gateway topic_hash (\<lambda>_. True) 1 5 2239 = Inr s0" "gateway_calls topic_hash s0 s"
    "verification_call topic_hash demo_env rid s s' True" "activeTreeBlock s \<noteq> block_number demo_env"
    "request_matches (ri_Request input) rid (requests s rid)" "rs_SourceChainID (ri_Request input) \<noteq> 0"
    "ri_ParentHash input = blockhash demo_env (block_number demo_env - 1)" "ri_MerkleDepth input = 1"
    "transaction_receipt topic_hash input (drop (length (emitted s)) (emitted s'))" by (rule demo_receipt)
  obtain b where b: "VerifyVerificationReceipt topic_hash input = Inr b" "re_NewDependency (rb_Resolution b) = True"
    by (rule verification_receipt_ok[OF gateway_topics_topic_hash d(1-3) _ d(5-9)]) (use d(4) in simp_all)
  show ?thesis using accepted_receipt_sound[OF gateway_topics_topic_hash b(1)] b by auto
qed

end
