(* ===== verification/Chains.thy ===== *)
theory Chains
  imports Observation ChainABI
begin

text \<open>
  \<open>Mapnode/chain\<close> and \<open>Mapnode/reorg\<close>: confirmed canonical blocks, the TrustRoot read from a Gateway at a block hash,
  and the cursor that follows a chain and stops for good when the chain it followed is no longer canonical.

  The RPC client is a parameter: a record of functions on the state of the remote node, which may change with
  every call, so that two reads of one header need not agree. The order of the calls is the order of these states.
\<close>

subsection \<open>The RPC client\<close>

record header =
  hd_Number :: "int option"
  hd_Hash :: hash
  hd_ParentHash :: hash

record 'w eth_rpc =
  rpc_HeaderByNumber :: "'w \<Rightarrow> int option \<Rightarrow> 'w \<times> header option res"
  rpc_ChainID :: "'w \<Rightarrow> 'w \<times> int option res"
  rpc_CodeAtHash :: "'w \<Rightarrow> address \<Rightarrow> hash \<Rightarrow> 'w \<times> byte list res"
  rpc_CallContractAtHash :: "'w \<Rightarrow> address \<Rightarrow> byte list \<Rightarrow> hash \<Rightarrow> 'w \<times> byte list res"

subsection \<open>Chains\<close>

text \<open>An entry of the catalog of chains.\<close>

record live_chain =
  lc_Name :: string
  lc_ChainID :: chain_id
  lc_HTTPRPC :: string
  lc_Confirmations :: u64
  lc_DeploymentManifest :: string
  lc_Home :: bool

subsection \<open>Canonical blocks\<close>

record canonical_block =
  cb_Height :: block_height
  cb_Hash :: hash
  cb_ParentHash :: hash
  cb_ConfirmedHeadHeight :: block_height
  cb_ConfirmedHeadHash :: hash
  cb_Confirmations :: u64

definition header_matches :: "header option \<Rightarrow> block_height \<Rightarrow> hash \<Rightarrow> bool" where
  "header_matches h height expectedHash \<longleftrightarrow>
     (case h of None \<Rightarrow> False | Some h \<Rightarrow> hd_Number h = Some (BigInt height) \<and> hd_Hash h = expectedHash)"

definition ConfirmedBlock :: "'w eth_rpc \<Rightarrow> 'w \<Rightarrow> block_height \<Rightarrow> hash \<Rightarrow> u64 \<Rightarrow> 'w \<times> canonical_block res" where
  "ConfirmedBlock rpc w height expectedHash confirmations =
     (if expectedHash = 0 \<or> confirmations = 0
      then (w, Inl (ErrMsg ''canonical block hash and confirmations are required''))
      else bind_op (rpc_HeaderByNumber rpc w (Some (BigInt height))) (\<lambda>w header.
      if \<not> header_matches header height expectedHash then (w, Inl ErrCanonicalBlockMismatch)
      else bind_op (rpc_HeaderByNumber rpc w None) (\<lambda>w head.
      case head of None \<Rightarrow> (w, Inl ErrMalformedRPCResponse)
      | Some head \<Rightarrow>
      case hd_Number head of None \<Rightarrow> (w, Inl ErrMalformedRPCResponse)
      | Some headNumber \<Rightarrow>
      if headNumber < BigInt height + uint confirmations then (w, Inl ErrBlockUnconfirmed)
      else bind_op (rpc_HeaderByNumber rpc w (Some (BigInt height))) (\<lambda>w rechecked.
      if \<not> header_matches rechecked height expectedHash then (w, Inl ErrCanonicalBlockMismatch)
      else bind_op (w, NewBlockHeightFromBig (Some headNumber)) (\<lambda>w headHeight.
      (w, Inr \<lparr>cb_Height = height, cb_Hash = expectedHash, cb_ParentHash = hd_ParentHash (the rechecked),
               cb_ConfirmedHeadHeight = headHeight, cb_ConfirmedHeadHash = hd_Hash head,
               cb_Confirmations = confirmations\<rparr>))))))"

subsection \<open>The TrustRoot of a Gateway\<close>

record gateway_deployment =
  gd_ChainID :: chain_id
  gd_Address :: address
  gd_CodeHash :: hash

definition NewGatewayClient :: "gateway_deployment \<Rightarrow> gateway_deployment res" where
  "NewGatewayClient deployment =
     bind_res (chain_Validate (gd_ChainID deployment)) (\<lambda>_.
     if gd_Address deployment = 0 \<or> gd_CodeHash deployment = 0
     then Inl (ErrMsg ''Gateway address and code hash are required'') else Inr deployment)"

definition CurrentTrustRoot ::
  "keccak \<Rightarrow> 'w eth_rpc \<Rightarrow> gateway_deployment \<Rightarrow> 'w \<Rightarrow> canonical_block \<Rightarrow> 'w \<times> trust_root res" where
  "CurrentTrustRoot K rpc deployment w block =
     bind_op (rpc_ChainID rpc w) (\<lambda>w chainID.
     if chainID \<noteq> Some (BigInt (gd_ChainID deployment)) then (w, Inl ErrRemoteChainIDMismatch)
     else bind_op (rpc_CodeAtHash rpc w (gd_Address deployment) (cb_Hash block)) (\<lambda>w code.
     if code = [] \<or> K code \<noteq> gd_CodeHash deployment then (w, Inl ErrGatewayCodeMismatch)
     else bind_op (rpc_CallContractAtHash rpc w (gd_Address deployment) EncodeCurrentTrustRootCall (cb_Hash block)) (\<lambda>w encoded.
     case DecodeCurrentTrustRootResult encoded of
       Inl _ \<Rightarrow> (w, Inl ErrGatewayABIMismatch)
     | Inr root \<Rightarrow> (w, Inr root))))"

text \<open>\<open>TrustRootReader.Observe\<close>: canonicality is checked again after the root has been read.\<close>

definition ObserveTrustRoot ::
  "keccak \<Rightarrow> 'w eth_rpc \<Rightarrow> gateway_deployment \<Rightarrow> go_time \<Rightarrow> 'w \<Rightarrow> block_height \<Rightarrow> hash \<Rightarrow> u64 \<Rightarrow> 'w \<times> observation res" where
  "ObserveTrustRoot K rpc deployment now w height blockHash confirmations =
     bind_op (ConfirmedBlock rpc w height blockHash confirmations) (\<lambda>w block.
     bind_op (CurrentTrustRoot K rpc deployment w block) (\<lambda>w root.
     bind_op (ConfirmedBlock rpc w height blockHash confirmations) (\<lambda>w block.
     bind_op (w, NewTrustRootObservation K
        \<lparr>ob_ChainID = gd_ChainID deployment, ob_Height = height, ob_BlockHash = blockHash,
         ob_Gateway = gd_Address deployment, ob_TrustRoot = root, ob_GatewayCodeHash = gd_CodeHash deployment,
         ob_RequiredConfirmations = confirmations, ob_ConfirmedHeadHeight = cb_ConfirmedHeadHeight block,
         ob_ConfirmedHeadHash = cb_ConfirmedHeadHash block\<rparr>) (\<lambda>w ob.
     (w, Inr (ob\<lparr>ob_ObservedAt := now\<rparr>))))))"

subsection \<open>The canonical cursor\<close>

datatype cursor_state = Healthy | Degraded | OtherCursorState string

record block_ref =
  bk_Height :: block_height
  bk_Hash :: hash
  bk_ParentHash :: hash

record canonical_cursor =
  cc_ChainID :: chain_id
  cc_Height :: block_height
  cc_Hash :: hash
  cc_State :: cursor_state
  cc_DegradedReason :: string

definition NewCanonicalCursor :: "chain_id \<Rightarrow> block_height \<Rightarrow> hash \<Rightarrow> canonical_cursor" where
  "NewCanonicalCursor chainID height h =
     \<lparr>cc_ChainID = chainID, cc_Height = height, cc_Hash = h, cc_State = Healthy, cc_DegradedReason = []\<rparr>"

definition cursor_Advance :: "canonical_cursor \<Rightarrow> hash \<Rightarrow> block_ref \<Rightarrow> canonical_cursor res" where
  "cursor_Advance cursor recheckedHash next_block =
     (if cc_State cursor = Degraded then Inl ErrCursorDegraded
      else if recheckedHash \<noteq> cc_Hash cursor then Inl ErrCanonicalMismatch
      else if bk_ParentHash next_block \<noteq> recheckedHash then Inl ErrCanonicalMismatch
      else if BigInt (bk_Height next_block) \<noteq> BigInt (cc_Height cursor) + 1 \<or> bk_Hash next_block = 0
      then Inl ErrNonMonotonicCursor
      else Inr (cursor\<lparr>cc_Height := bk_Height next_block, cc_Hash := bk_Hash next_block\<rparr>))"

definition cursor_Degrade :: "canonical_cursor \<Rightarrow> string \<Rightarrow> canonical_cursor" where
  "cursor_Degrade cursor reason =
     cursor\<lparr>cc_State := Degraded,
            cc_DegradedReason := (if reason = [] then ''persisted canonical block hash mismatch'' else reason)\<rparr>"

subsection \<open>What an observation rests on\<close>

text \<open>
  A confirmed block is three successive reads of the remote node: the header at the height, the head, and the header
  at the height again. Each read starts in the state the read before it left.
\<close>

lemma ConfirmedBlock_Inr:
  assumes "ConfirmedBlock rpc w height h conf = (w', Inr b)"
  obtains hdr w1 head w2 rechecked where
    "cb_Hash b = h" "rpc_HeaderByNumber rpc w (Some (BigInt height)) = (w1, Inr (Some hdr))" "header_matches (Some hdr) height h"
    "rpc_HeaderByNumber rpc w1 None = (w2, Inr (Some head))" "hd_Number head = Some (BigInt (cb_ConfirmedHeadHeight b))"
    "BigInt height + uint conf \<le> BigInt (cb_ConfirmedHeadHeight b)" "hd_Hash head = cb_ConfirmedHeadHash b"
    "rpc_HeaderByNumber rpc w2 (Some (BigInt height)) = (w', Inr (Some rechecked))" "header_matches (Some rechecked) height h"
proof -
  obtain w1 h1 w2 head n w3 rechecked hh where c:
    "rpc_HeaderByNumber rpc w (Some (BigInt height)) = (w1, Inr h1)" "header_matches h1 height h"
    "rpc_HeaderByNumber rpc w1 None = (w2, Inr (Some head))" "hd_Number head = Some n" "\<not> n < BigInt height + uint conf"
    "rpc_HeaderByNumber rpc w2 (Some (BigInt height)) = (w3, Inr rechecked)" "header_matches rechecked height h"
    "NewBlockHeightFromBig (Some n) = Inr hh" "w' = w3"
    "b = \<lparr>cb_Height = height, cb_Hash = h, cb_ParentHash = hd_ParentHash (the rechecked),
               cb_ConfirmedHeadHeight = hh, cb_ConfirmedHeadHash = hd_Hash head, cb_Confirmations = conf\<rparr>"
    using assms by (auto simp: ConfirmedBlock_def elim!: bind_op_InrE split: if_splits option.splits)
  obtain r r1 where r: "rechecked = Some r" "h1 = Some r1" using c(2,7) by (auto simp: header_matches_def split: option.splits)
  have "n = BigInt hh" using c(8)
    by (auto simp: NewBlockHeightFromBig_def uint256FromBig_def BigInt_def uint_word_of_int_eq take_bit_int_eq_self split: if_splits)
  then show thesis using c r by (intro that[of w1 r1 w2 head r]) simp_all
qed

text \<open>
  C28. An observation \<open>TrustRootReader.Observe\<close> returns is backed by a sequence of reads of the remote node, each in the
  state the one before it left. The block is confirmed first. Then the node answers with the right chain, with code at
  the Gateway address that has the configured code hash, and to \<open>currentTrustRoot\<close> with exactly the 32 bytes of the
  observed root, code and call bound to the block hash. After these, the height still has that block hash, the head
  recorded in the observation is at least the required number of confirmations above it, and in the last read of all the
  height has that block hash again. The observation validates and its identifier is the hash of its content.
\<close>

theorem trust_root_observation_sound:
  assumes "ObserveTrustRoot K rpc dep now w height bh conf = (w', Inr ob)"
  shows "observation_Validate ob = Inr () \<and> ob_ID ob = observation_ComputeID K ob \<and> ob_ObservedAt ob = now \<and>
    ob_ChainID ob = gd_ChainID dep \<and> ob_Height ob = height \<and> ob_BlockHash ob = bh \<and>
    (\<exists>first w1 w2 code w3 w4 hdr w5 head w6 last.
       ConfirmedBlock rpc w height bh conf = (w1, Inr first) \<and>
       rpc_ChainID rpc w1 = (w2, Inr (Some (BigInt (gd_ChainID dep)))) \<and>
       rpc_CodeAtHash rpc w2 (gd_Address dep) bh = (w3, Inr code) \<and> code \<noteq> [] \<and> K code = gd_CodeHash dep \<and>
       rpc_CallContractAtHash rpc w3 (gd_Address dep) EncodeCurrentTrustRootCall bh = (w4, Inr (bytes32 (ob_TrustRoot ob))) \<and>
       rpc_HeaderByNumber rpc w4 (Some (BigInt height)) = (w5, Inr (Some hdr)) \<and> header_matches (Some hdr) height bh \<and>
       rpc_HeaderByNumber rpc w5 None = (w6, Inr (Some head)) \<and> hd_Hash head = ob_ConfirmedHeadHash ob \<and>
       hd_Number head = Some (BigInt (ob_ConfirmedHeadHeight ob)) \<and>
       BigInt height + uint conf \<le> BigInt (ob_ConfirmedHeadHeight ob) \<and>
       rpc_HeaderByNumber rpc w6 (Some (BigInt height)) = (w', Inr (Some last)) \<and> header_matches (Some last) height bh)"
proof -
  obtain w1 b w4 root b' o' where s:
    "ConfirmedBlock rpc w height bh conf = (w1, Inr b)" "CurrentTrustRoot K rpc dep w1 b = (w4, Inr root)"
    "ConfirmedBlock rpc w4 height bh conf = (w', Inr b')"
    "NewTrustRootObservation K \<lparr>ob_ChainID = gd_ChainID dep, ob_Height = height, ob_BlockHash = bh,
       ob_Gateway = gd_Address dep, ob_TrustRoot = root, ob_GatewayCodeHash = gd_CodeHash dep,
       ob_RequiredConfirmations = conf, ob_ConfirmedHeadHeight = cb_ConfirmedHeadHeight b',
       ob_ConfirmedHeadHash = cb_ConfirmedHeadHash b'\<rparr> = Inr o'" "ob = o'\<lparr>ob_ObservedAt := now\<rparr>"
    using assms by (auto simp: ObserveTrustRoot_def bind_op_Inr)
  have hash: "cb_Hash b = bh" using s(1) by (rule ConfirmedBlock_Inr)
  obtain w2 code w3 encoded where t: "rpc_ChainID rpc w1 = (w2, Inr (Some (BigInt (gd_ChainID dep))))"
    "rpc_CodeAtHash rpc w2 (gd_Address dep) bh = (w3, Inr code)" "code \<noteq> []" "K code = gd_CodeHash dep"
    "rpc_CallContractAtHash rpc w3 (gd_Address dep) EncodeCurrentTrustRootCall bh = (w4, Inr encoded)"
    "DecodeCurrentTrustRootResult encoded = Inr root"
    using s(2) by (auto simp: CurrentTrustRoot_def hash elim!: bind_op_InrE split: if_splits sum.splits)
  then have root: "encoded = bytes32 root"
    by (auto simp: DecodeCurrentTrustRootResult_def bytes32_BytesToHash split: if_splits)
  have ob: "observation_Validate ob = Inr ()" "ob_ID ob = observation_ComputeID K ob" "ob_ObservedAt ob = now"
    "ob_ChainID ob = gd_ChainID dep" "ob_Height ob = height" "ob_BlockHash ob = bh" "ob_TrustRoot ob = root"
    "ob_ConfirmedHeadHeight ob = cb_ConfirmedHeadHeight b'" "ob_ConfirmedHeadHash ob = cb_ConfirmedHeadHash b'"
    using s(4) by (auto simp: s(5) NewTrustRootObservation_def observation_Validate_def observation_ComputeID_def
        observation_bytes_def observation_content.defs split: if_splits)
  show ?thesis using s(3) by (rule ConfirmedBlock_Inr) (use ob t(1-5) s(1) in \<open>auto simp: root\<close>)
qed

text \<open>
  A node whose chain grows by a block with every call: its state is the number of calls, block 5 has hash 7, the head is
  at height 9 at first, and the Gateway has root 3. From call \<open>reorg\<close> on, block 5 has another hash.
\<close>

definition demo_rpc :: "nat \<Rightarrow> nat eth_rpc" where
  "demo_rpc reorg = \<lparr>rpc_HeaderByNumber = (\<lambda>w n. (Suc w, Inr (Some (case n of
       None \<Rightarrow> \<lparr>hd_Number = Some (9 + int w), hd_Hash = 8, hd_ParentHash = 7\<rparr>
     | Some i \<Rightarrow> \<lparr>hd_Number = Some i, hd_Hash = (if w < reorg then 7 else 17), hd_ParentHash = 6\<rparr>)))),
     rpc_ChainID = (\<lambda>w. (Suc w, Inr (Some 1))),
     rpc_CodeAtHash = (\<lambda>w a h. (Suc w, Inr (bytes32 5))),
     rpc_CallContractAtHash = (\<lambda>w a d h. (Suc w, Inr (bytes32 3)))\<rparr>"

definition demo_deployment :: gateway_deployment where
  "demo_deployment = \<lparr>gd_ChainID = 1, gd_Address = 2, gd_CodeHash = demo_hash (bytes32 5)\<rparr>"

lemma demo_deployment_fields [simp]: "gd_ChainID demo_deployment = 1" "gd_Address demo_deployment = 2"
  "gd_CodeHash demo_deployment = demo_hash (bytes32 5)"
  by (simp_all add: demo_deployment_def)

lemma demo_confirmed:
  "w + 3 \<le> reorg \<Longrightarrow> w < 100 \<Longrightarrow> ConfirmedBlock (demo_rpc reorg) w 5 7 4 = (w + 3, Inr \<lparr>cb_Height = 5, cb_Hash = 7, cb_ParentHash = 6,
     cb_ConfirmedHeadHeight = of_nat (10 + w), cb_ConfirmedHeadHash = 8, cb_Confirmations = 4\<rparr>)"
  by (simp add: ConfirmedBlock_def demo_rpc_def header_matches_def BigInt_def NewBlockHeightFromBig_def uint256FromBig_def)

lemma demo_bytes [simp]: "bytes32 h \<noteq> []"
  using length_words(1)[of h] by (metis list.size(3) zero_neq_numeral)

lemma demo_root: "CurrentTrustRoot demo_hash (demo_rpc reorg) demo_deployment w b = (w + 3, Inr 3)"
  by (simp add: CurrentTrustRoot_def demo_rpc_def BigInt_def DecodeCurrentTrustRootResult_def)

text \<open>
  Without a reorganization the observation takes nine calls and records the head of the recheck, at height 16, not
  the one of the first confirmation. A reorganization between the read of the root and the recheck is noticed.
\<close>

lemma demo_reorg:
  "ObserveTrustRoot demo_hash (demo_rpc 6) demo_deployment 1 0 5 7 4 = (7, Inl ErrCanonicalBlockMismatch)"
  by (simp add: ObserveTrustRoot_def demo_confirmed demo_root)
    (simp add: ConfirmedBlock_def demo_rpc_def header_matches_def BigInt_def)

theorem trust_root_observation_sound_witness:
  "\<exists>ob head. ObserveTrustRoot demo_hash (demo_rpc 9) demo_deployment 1 0 5 7 4 = (9, Inr ob) \<and> ob_TrustRoot ob = 3 \<and>
     observation_Validate ob = Inr () \<and> rpc_HeaderByNumber (demo_rpc 9) 7 None = (8, Inr (Some head)) \<and>
     hd_Number head = Some (BigInt (ob_ConfirmedHeadHeight ob)) \<and> ob_ConfirmedHeadHeight ob = 16"
proof -
  obtain ob where ob: "ObserveTrustRoot demo_hash (demo_rpc 9) demo_deployment 1 0 5 7 4 = (9, Inr ob)" "ob_TrustRoot ob = 3"
    "ob_ConfirmedHeadHeight ob = 16"
    by (simp add: ObserveTrustRoot_def demo_confirmed demo_root NewTrustRootObservation_def observation_Validate_def
        chain_Validate_def BigInt_def observation_content.defs)
  show ?thesis using trust_root_observation_sound[OF ob(1)] ob by (auto simp: demo_rpc_def BigInt_def)
qed

end
