(* ===== verification/Store.thy ===== *)
theory Store
  imports Coordinator Chains
begin

text \<open>
  \<open>Mapnode/store\<close>: the SQLite database of a node as a record of tables, and \<open>repository.go\<close>, the repositories of
  evidence and of requests with their audited transitions.

  A table is a list of rows in insertion order, a query by a key is \<open>find\<close>. The CHECK, UNIQUE and FOREIGN KEY
  constraints and the triggers of \<open>migrations.go\<close> are conditions of the statements that can violate them; a
  violated constraint is an error and, as every operation is one transaction, leaves the database as it was.
  Rows of a child table that are written in the transaction of their parent row (the siblings of a witness, the
  nodes and edges of a snapshot, the hops of a plan) are fields of the parent. Columns the program never reads
  back are left out. A time column holds the instant itself: \<open>UnixNano\<close> is exact for the years 1678 to 2262.
\<close>

subsection \<open>Tables\<close>

record ('i, 's) transition_row =
  tr_ID :: 'i
  tr_From :: 's
  tr_To :: 's
  tr_Reason :: string
  tr_ChangedAt :: go_time

record edge_row = trust_edge +
  er_Active :: bool

record observation_row = observation +
  or_EvidenceID :: evidence_id

text \<open>The catalog of chains; before a deployment is bound its four columns are NULL, here the zero values.\<close>

record validated_live_chain =
  vl_Chain :: live_chain
  vl_Gateway :: address
  vl_GatewayCodeHash :: hash
  vl_DeploymentBlock :: block_height
  vl_ValidatedAt :: go_time

record store =
  t_evidence :: "evidence_record list"
  t_evidence_transitions :: "(evidence_id, evidence_state) transition_row list"
  t_requests :: "request list"
  t_request_transitions :: "(request_id, request_state) transition_row list"
  t_live_chains :: "validated_live_chain list"
  t_cursors :: "canonical_cursor list"
  t_observations :: "observation_row list"
  g_revision :: nat
  t_nodes :: "trust_node list"
  t_edges :: "edge_row list"
  t_witnesses :: "stored_witness list"
  t_snapshots :: "trust_view_snapshot list"
  t_plans :: "plan list"
  t_current_plan :: "(request_id \<times> plan_id) list"
  t_proofs :: "path_proof list"

definition empty_store :: store where
  "empty_store = \<lparr>t_evidence = [], t_evidence_transitions = [], t_requests = [], t_request_transitions = [],
     t_live_chains = [], t_cursors = [], t_observations = [], g_revision = 0, t_nodes = [], t_edges = [], t_witnesses = [], t_snapshots = [],
     t_plans = [], t_current_plan = [], t_proofs = []\<rparr>"

text \<open>The statements \<open>SELECT\<close> by a key and \<open>UPDATE\<close>, with the number of rows the latter affects.\<close>

definition select_row :: "go_error \<Rightarrow> ('r \<Rightarrow> bool) \<Rightarrow> 'r list \<Rightarrow> 'r res" where
  "select_row e p rows = (case find p rows of None \<Rightarrow> Inl e | Some r \<Rightarrow> Inr r)"

definition update_rows :: "('r \<Rightarrow> bool) \<Rightarrow> ('r \<Rightarrow> 'r) \<Rightarrow> 'r list \<Rightarrow> 'r list" where
  "update_rows p f rows = map (\<lambda>r. if p r then f r else r) rows"

definition rows_affected :: "('r \<Rightarrow> bool) \<Rightarrow> 'r list \<Rightarrow> nat" where
  "rows_affected p rows = length (filter p rows)"

text \<open>\<open>toUnix\<close>: nanoseconds since 1970, which is this many nanoseconds after the zero \<open>Time\<close>.\<close>

definition unix_epoch :: go_time where
  "unix_epoch = 62135596800 * 10 ^ 9"

definition toUnix :: "go_time \<Rightarrow> int" where
  "toUnix t = t - unix_epoch"

definition fromUnix :: "int \<Rightarrow> go_time" where
  "fromUnix v = v + unix_epoch"

definition normalizedTimes :: "go_time \<Rightarrow> go_time \<Rightarrow> go_time \<Rightarrow> go_time \<times> go_time" where
  "normalizedTimes now createdAt updatedAt =
     (let createdAt = (if createdAt = zero_time then now else createdAt)
      in (createdAt, if updatedAt = zero_time then createdAt else updatedAt))"

text \<open>\<open>UNIQUE(id,from_state,to_state)\<close> of the two transition tables.\<close>

definition logged :: "('i, 's) transition_row list \<Rightarrow> 'i \<Rightarrow> 's \<Rightarrow> 's \<Rightarrow> bool" where
  "logged rows i f t \<longleftrightarrow> (\<exists>row \<in> set rows. tr_ID row = i \<and> tr_From row = f \<and> tr_To row = t)"

subsection \<open>Evidence\<close>

definition LoadEvidence :: "'a store_scheme \<Rightarrow> evidence_id \<Rightarrow> evidence_record res" where
  "LoadEvidence db i = select_row ErrRecordNotFound (\<lambda>r. ev_ID r = i) (t_evidence db)"

definition loadByLocator :: "'a store_scheme \<Rightarrow> locator \<Rightarrow> evidence_record res" where
  "loadByLocator db l = select_row ErrRecordNotFound (\<lambda>r. ev_Locator r = l) (t_evidence db)"

definition ObserveEvidence ::
  "keccak \<Rightarrow> go_time \<Rightarrow> 'a store_scheme \<Rightarrow> evidence_record \<Rightarrow> 'a store_scheme \<times> (evidence_record \<times> bool) res" where
  "ObserveEvidence K now db ev =
     (if ev_State ev \<noteq> Candidate \<or> ev_InvalidReason ev \<noteq> []
      then (db, Inl (ErrMsg ''new evidence must be candidate without an invalid reason''))
      else case ComputeID K (ev_Locator ev) of
        Inl e \<Rightarrow> (db, Inl e)
      | Inr wantID \<Rightarrow>
      if ev_ID ev \<noteq> wantID then (db, Inl ErrRecordConflict)
      else let ts = normalizedTimes now (ev_CreatedAt ev) (ev_UpdatedAt ev);
               ev = ev\<lparr>ev_CreatedAt := fst ts, ev_UpdatedAt := snd ts\<rparr>
      in if toUnix (ev_CreatedAt ev) \<le> 0 \<or> toUnix (ev_UpdatedAt ev) \<le> 0 then (db, Inl (ErrMsg ''insert evidence''))
      else if \<not> (\<exists>r \<in> set (t_evidence db). ev_ID r = ev_ID ev \<or> ev_Locator r = ev_Locator ev)
      then (db\<lparr>t_evidence := t_evidence db @ [ev]\<rparr>, Inr (ev, True))
      else case LoadEvidence db (ev_ID ev) of
        Inl e \<Rightarrow>
          if e = ErrRecordNotFound
          then (case loadByLocator db (ev_Locator ev) of Inl e' \<Rightarrow> (db, Inl e') | Inr byLocator \<Rightarrow> (db, Inl ErrRecordConflict))
          else (db, Inl e)
      | Inr persisted \<Rightarrow>
          if ev_ID persisted \<noteq> ev_ID ev \<or> ev_Locator persisted \<noteq> ev_Locator ev then (db, Inl ErrRecordConflict)
          else (db, Inr (persisted, False)))"

text \<open>
  The \<open>UPDATE\<close> of an evidence row fails for the synthetic evidence of an observation
  (trigger \<open>prevent_observation_evidence_update\<close>).
\<close>

definition TransitionEvidence ::
  "go_time \<Rightarrow> 'a store_scheme \<Rightarrow> evidence_id \<Rightarrow> evidence_state \<Rightarrow> evidence_state \<Rightarrow> transition_metadata \<Rightarrow>
     'a store_scheme \<times> (evidence_record \<times> bool) res" where
  "TransitionEvidence now db i expectedFrom to metadata =
     (case ValidateTransition expectedFrom to (tm_Reason metadata) of
        Inl e \<Rightarrow> (db, Inl e)
      | Inr requestedChange \<Rightarrow>
      case LoadEvidence db i of
        Inl e \<Rightarrow> (db, Inl e)
      | Inr current \<Rightarrow>
      if ev_State current = to then (db, Inr (current, False))
      else if ev_State current \<noteq> expectedFrom then (db, Inl ErrConcurrentUpdate)
      else if \<not> requestedChange then (db, Inr (current, False))
      else let changedAt = (if tm_At metadata = zero_time then now else tm_At metadata);
               invalidReason = (if to = Invalid then tm_Reason metadata else []);
               this_row = (\<lambda>r. ev_ID r = i \<and> ev_State r = expectedFrom)
      in if toUnix changedAt \<le> 0 \<or> (\<exists>ob \<in> set (t_observations db). or_EvidenceID ob = i)
         then (db, Inl (ErrMsg ''update evidence state''))
      else if rows_affected this_row (t_evidence db) \<noteq> 1 then (db, Inl ErrConcurrentUpdate)
      else if logged (t_evidence_transitions db) i expectedFrom to then (db, Inl (ErrMsg ''insert evidence transition''))
      else let db' = db\<lparr>t_evidence := update_rows this_row
                 (\<lambda>r. r\<lparr>ev_State := to, ev_InvalidReason := invalidReason, ev_UpdatedAt := changedAt\<rparr>) (t_evidence db),
               t_evidence_transitions := t_evidence_transitions db @
                 [\<lparr>tr_ID = i, tr_From = expectedFrom, tr_To = to, tr_Reason = tm_Reason metadata, tr_ChangedAt = changedAt\<rparr>]\<rparr>
      in case LoadEvidence db' i of Inl e \<Rightarrow> (db, Inl e) | Inr updated \<Rightarrow> (db', Inr (updated, True)))"

subsection \<open>Requests\<close>

definition LoadRequest :: "'a store_scheme \<Rightarrow> request_id \<Rightarrow> request res" where
  "LoadRequest db rid = select_row ErrRecordNotFound (\<lambda>r. rs_ID r = rid) (t_requests db)"

definition sameRequestFields :: "request \<Rightarrow> request \<Rightarrow> bool" where
  "sameRequestFields left right \<longleftrightarrow>
     rs_HomeChainID left = rs_HomeChainID right \<and> rs_Gateway left = rs_Gateway right \<and>
     rs_Requester left = rs_Requester right \<and> rs_Nonce left = rs_Nonce right \<and>
     rs_SourceChainID left = rs_SourceChainID right \<and> rs_SourceHeight left = rs_SourceHeight right \<and>
     rs_SourceBlockHash left = rs_SourceBlockHash right"

definition sameRequestIdentity :: "request \<Rightarrow> request \<Rightarrow> bool" where
  "sameRequestIdentity left right \<longleftrightarrow> rs_ID left = rs_ID right \<and> sameRequestFields left right"

definition loadByFields :: "'a store_scheme \<Rightarrow> request \<Rightarrow> request res" where
  "loadByFields db rq = select_row ErrRecordNotFound (\<lambda>r. sameRequestFields r rq) (t_requests db)"

definition ObserveRequest ::
  "keccak \<Rightarrow> go_time \<Rightarrow> 'a store_scheme \<Rightarrow> request \<Rightarrow> 'a store_scheme \<times> (request \<times> bool) res" where
  "ObserveRequest K now db rq =
     (if rs_State rq \<noteq> Observed then (db, Inl (ErrMsg ''new request must be observed''))
      else case ComputeGatewayRequestID K (rs_HomeChainID rq) (rs_Gateway rq) (rs_Requester rq) (Some (BigInt (rs_Nonce rq)))
                  (rs_SourceChainID rq) (rs_SourceHeight rq) (rs_SourceBlockHash rq) of
        Inl e \<Rightarrow> (db, Inl e)
      | Inr wantID \<Rightarrow>
      if rs_ID rq \<noteq> wantID then (db, Inl ErrRecordConflict)
      else let ts = normalizedTimes now (rs_CreatedAt rq) (rs_UpdatedAt rq);
               rq = rq\<lparr>rs_CreatedAt := fst ts, rs_UpdatedAt := snd ts\<rparr>
      in if toUnix (rs_CreatedAt rq) \<le> 0 \<or> toUnix (rs_UpdatedAt rq) \<le> 0 then (db, Inl (ErrMsg ''insert request''))
      else if \<not> (\<exists>r \<in> set (t_requests db). rs_ID r = rs_ID rq \<or> sameRequestFields r rq)
      then (db\<lparr>t_requests := t_requests db @ [rq]\<rparr>, Inr (rq, True))
      else case LoadRequest db (rs_ID rq) of
        Inl e \<Rightarrow>
          if e = ErrRecordNotFound
          then (case loadByFields db rq of Inl e' \<Rightarrow> (db, Inl e') | Inr byFields \<Rightarrow> (db, Inl ErrRecordConflict))
          else (db, Inl e)
      | Inr persisted \<Rightarrow>
          if \<not> sameRequestIdentity persisted rq then (db, Inl ErrRecordConflict)
          else (db, Inr (persisted, False)))"

definition TransitionRequest ::
  "go_time \<Rightarrow> 'a store_scheme \<Rightarrow> request_id \<Rightarrow> request_state \<Rightarrow> request_state \<Rightarrow> transition_metadata \<Rightarrow>
     'a store_scheme \<times> (request \<times> bool) res" where
  "TransitionRequest now db rid expectedFrom to metadata =
     (case ValidateRequestTransition expectedFrom to of
        Inl e \<Rightarrow> (db, Inl e)
      | Inr requestedChange \<Rightarrow>
      case LoadRequest db rid of
        Inl e \<Rightarrow> (db, Inl e)
      | Inr current \<Rightarrow>
      if rs_State current = to then (db, Inr (current, False))
      else if rs_State current \<noteq> expectedFrom then (db, Inl ErrConcurrentUpdate)
      else if \<not> requestedChange then (db, Inr (current, False))
      else let changedAt = (if tm_At metadata = zero_time then now else tm_At metadata);
               this_row = (\<lambda>r. rs_ID r = rid \<and> rs_State r = expectedFrom)
      in if toUnix changedAt \<le> 0 then (db, Inl (ErrMsg ''update request state''))
      else if rows_affected this_row (t_requests db) \<noteq> 1 then (db, Inl ErrConcurrentUpdate)
      else if logged (t_request_transitions db) rid expectedFrom to then (db, Inl (ErrMsg ''insert request transition''))
      else let db' = db\<lparr>t_requests := update_rows this_row
                 (\<lambda>r. r\<lparr>rs_State := to, rs_Reason := tm_Reason metadata, rs_UpdatedAt := changedAt\<rparr>) (t_requests db),
               t_request_transitions := t_request_transitions db @
                 [\<lparr>tr_ID = rid, tr_From = expectedFrom, tr_To = to, tr_Reason = tm_Reason metadata, tr_ChangedAt = changedAt\<rparr>]\<rparr>
      in case LoadRequest db' rid of Inl e \<Rightarrow> (db, Inl e) | Inr updated \<Rightarrow> (db', Inr (updated, True)))"

subsection \<open>Audited repositories\<close>

text \<open>
  The contract the two repositories share: an operation that reports no change keeps the database, observing
  adds a record in the initial state, and a transition that reports a change moves one record along a legal edge
  that is not in its log yet, and logs it.
\<close>

definition edges_of :: "('i, 's) transition_row list \<Rightarrow> 'i \<Rightarrow> ('s \<times> 's) list" where
  "edges_of rows i = map (\<lambda>row. (tr_From row, tr_To row)) (filter (\<lambda>row. tr_ID row = i) rows)"

fun edge_path :: "'s \<Rightarrow> ('s \<times> 's) list \<Rightarrow> 's \<Rightarrow> bool" where
  "edge_path s [] t \<longleftrightarrow> s = t"
| "edge_path s ((a, b) # es) t \<longleftrightarrow> a = s \<and> edge_path b es t"

text \<open>The log of a record is a path of the state machine without repeated edges that leads to its state.\<close>

definition logs_history :: "('s \<Rightarrow> 's \<Rightarrow> bool) \<Rightarrow> 's \<Rightarrow> ('s \<times> 's) list \<Rightarrow> 's option \<Rightarrow> bool" where
  "logs_history legal initial es st \<longleftrightarrow>
     (case st of None \<Rightarrow> es = []
      | Some s \<Rightarrow> edge_path initial es s \<and> distinct es \<and> list_all (\<lambda>(f, t). legal f t) es)"

locale audited_repository =
  fixes load :: "'db \<Rightarrow> 'i \<Rightarrow> 'r res" and log :: "'db \<Rightarrow> ('i, 's) transition_row list" and state_of :: "'r \<Rightarrow> 's"
    and initial :: 's and legal :: "'s \<Rightarrow> 's \<Rightarrow> bool"
    and observe :: "'db \<Rightarrow> 'q \<Rightarrow> 'db \<times> ('r \<times> bool) res" and key :: "'q \<Rightarrow> 'i"
    and transition :: "'db \<Rightarrow> 'm \<Rightarrow> 'i \<Rightarrow> 's \<Rightarrow> 's \<Rightarrow> 'db \<times> ('r \<times> bool) res"
  assumes observe_kept: "observe db q = (db', x) \<Longrightarrow> (\<And>r. x \<noteq> Inr (r, True)) \<Longrightarrow> db' = db"
    and observe_new: "observe db q = (db', Inr (r, True)) \<Longrightarrow>
      \<not> is_ok (load db (key q)) \<and> load db' (key q) = Inr r \<and> state_of r = initial \<and> log db' = log db"
    and observe_frame: "observe db q = (db', x) \<Longrightarrow> j \<noteq> key q \<Longrightarrow> load db' j = load db j"
    and transition_kept: "transition db m i f t = (db', x) \<Longrightarrow> (\<And>r. x \<noteq> Inr (r, True)) \<Longrightarrow> db' = db"
    and transition_moves: "transition db m i f t = (db', Inr (r, True)) \<Longrightarrow>
      legal f t \<and> \<not> logged (log db) i f t \<and> (\<exists>r0. load db i = Inr r0 \<and> state_of r0 = f) \<and>
      load db' i = Inr r \<and> state_of r = t \<and>
      (\<exists>row. log db' = log db @ [row] \<and> tr_ID row = i \<and> tr_From row = f \<and> tr_To row = t)"
    and transition_frame: "transition db m i f t = (db', x) \<Longrightarrow> j \<noteq> i \<Longrightarrow> load db' j = load db j"

lemma edge_path_append: "edge_path s (es @ fs) t \<longleftrightarrow> (\<exists>u. edge_path s es u \<and> edge_path u fs t)"
  by (induction es arbitrary: s) auto

lemma edges_of_append: "edges_of (rows @ rows') i = edges_of rows i @ edges_of rows' i"
  by (simp add: edges_of_def)

lemma logged_iff: "logged rows i f t \<longleftrightarrow> (f, t) \<in> set (edges_of rows i)"
  by (auto simp: logged_def edges_of_def)

definition ok_state :: "('r \<Rightarrow> 's) \<Rightarrow> 'r res \<Rightarrow> 's option" where
  "ok_state f r = (case r of Inl _ \<Rightarrow> None | Inr x \<Rightarrow> Some (f x))"

lemma ok_state_simps [simp]: "ok_state f (Inl e) = None" "ok_state f (Inr x) = Some (f x)"
  by (simp_all add: ok_state_def)

context audited_repository
begin

lemma observe_history:
  assumes "observe db q = (db', x)" "\<And>i. logs_history legal initial (edges_of (log db) i) (ok_state state_of (load db i))"
  shows "logs_history legal initial (edges_of (log db') i) (ok_state state_of (load db' i))"
proof (cases "\<exists>r. x = Inr (r, True)")
  case True
  then obtain r where "observe db q = (db', Inr (r, True))" using assms(1) by blast
  note n = observe_new[OF this]
  show ?thesis
  proof (cases "i = key q")
    case True
    then have "edges_of (log db) i = []"
      using n assms(2)[of i] by (cases "load db (key q)") (simp_all add: logs_history_def)
    then show ?thesis using n True by (simp add: logs_history_def)
  qed (use n observe_frame[OF assms(1)] assms(2)[of i] in simp)
qed (use observe_kept[OF assms(1)] assms(2) in blast)

lemma transition_history:
  assumes "transition db m j f t = (db', x)" "\<And>i. logs_history legal initial (edges_of (log db) i) (ok_state state_of (load db i))"
  shows "logs_history legal initial (edges_of (log db') i) (ok_state state_of (load db' i))"
proof (cases "\<exists>r. x = Inr (r, True)")
  case True
  then obtain r where "transition db m j f t = (db', Inr (r, True))" using assms(1) by blast
  note n = transition_moves[OF this]
  obtain row where row: "log db' = log db @ [row]" "tr_ID row = j" "tr_From row = f" "tr_To row = t" using n by blast
  show ?thesis
  proof (cases "i = j")
    case True
    obtain r0 where r0: "load db j = Inr r0" "state_of r0 = f" using n by blast
    have "edges_of (log db') i = edges_of (log db) i @ [(f, t)]"
      by (simp add: row edges_of_append True) (simp add: edges_of_def row)
    then show ?thesis using n r0 assms(2)[of j]
      by (simp add: True logs_history_def edge_path_append logged_iff)
  next
    case False
    then have "edges_of (log db') i = edges_of (log db) i" by (simp add: row edges_of_append) (simp add: edges_of_def row)
    then show ?thesis using transition_frame[OF assms(1) False] assms(2)[of i] by simp
  qed
qed (use transition_kept[OF assms(1)] assms(2) in blast)

text \<open>An edge that is in the log of a record is never taken again.\<close>

lemma edge_once:
  assumes "logged (log db) i f t" "transition db m i f t = (db', x)"
  shows "db' = db" "x \<noteq> Inr (r, True)"
proof -
  have no: "\<And>r. x \<noteq> Inr (r, True)" using assms transition_moves[of db m i f t db'] by blast
  then show "db' = db" using transition_kept[OF assms(2)] by blast
  show "x \<noteq> Inr (r, True)" using no by blast
qed

end

subsection \<open>The two repositories keep the contract\<close>

lemma find_append_none: "find p xs = None \<Longrightarrow> find p (xs @ ys) = find p ys"
  by (induction xs) (auto split: if_splits)

lemma find_append_single: "\<not> p y \<Longrightarrow> find p (xs @ [y]) = find p xs"
  by (induction xs) auto

lemma find_cong_pred: "(\<And>x. x \<in> set xs \<Longrightarrow> p x = q x) \<Longrightarrow> find p xs = find q xs"
  by (induction xs) auto

lemma find_map_same:
  assumes "\<And>x. p (f x) = p x"
  shows "find p (map f xs) = map_option f (find p xs)"
  using assms by (induction xs) auto

lemma find_update_rows:
  assumes "\<And>r. p (f r) = p r"
  shows "find p (update_rows q f rows) = map_option (\<lambda>r. if q r then f r else r) (find p rows)"
  unfolding update_rows_def by (rule find_map_same) (simp add: assms)

lemma select_row_Inr: "select_row e p rows = Inr r \<longleftrightarrow> find p rows = Some r"
  by (simp add: select_row_def split: option.splits)

lemma find_SomeD: "find p xs = Some x \<Longrightarrow> p x \<and> x \<in> set xs"
  by (auto simp: find_Some_iff)

lemma select_row_InrD: "select_row e p rows = Inr r \<Longrightarrow> p r \<and> r \<in> set rows"
  by (simp add: select_row_Inr find_SomeD)

lemma select_update:
  assumes "\<And>r. key (f r) = key r"
  shows "select_row e (\<lambda>r. key r = j) (update_rows (\<lambda>r. key r = i \<and> q r) f rows) =
    (case select_row e (\<lambda>r. key r = j) rows of Inl e \<Rightarrow> Inl e | Inr r \<Rightarrow> Inr (if j = i \<and> q r then f r else r))"
  using find_SomeD[of "\<lambda>r. key r = j" rows]
  by (cases "find (\<lambda>r. key r = j) rows") (auto simp: select_row_def find_update_rows assms)

lemma select_row_append:
  "\<forall>r \<in> set rows. \<not> p r \<Longrightarrow> p x \<Longrightarrow> select_row e p (rows @ [x]) = Inr x"
proof -
  assume "\<forall>r \<in> set rows. \<not> p r" "p x"
  then have "find p rows = None" by (simp add: find_None_iff)
  with \<open>p x\<close> show ?thesis by (simp add: select_row_def find_append_none)
qed

lemma select_row_append_other: "\<not> p x \<Longrightarrow> select_row e p (rows @ [x]) = select_row e p rows"
  by (simp add: select_row_def find_append_single)

lemma select_row_none: "\<forall>r \<in> set rows. \<not> p r \<Longrightarrow> select_row e p rows = Inl e"
proof -
  assume "\<forall>r \<in> set rows. \<not> p r"
  then have "find p rows = None" by (simp add: find_None_iff)
  then show ?thesis by (simp add: select_row_def)
qed

lemma ObserveRequest_kept:
  assumes "ObserveRequest K now db rq = (db', x)" "\<And>r. x \<noteq> Inr (r, True)"
  shows "db' = db"
  using assms by (auto simp: ObserveRequest_def Let_def split: if_splits sum.splits)

lemma ObserveRequest_new:
  assumes "ObserveRequest K now db rq = (db', Inr (r, True))"
  shows "\<forall>x \<in> set (t_requests db). rs_ID x \<noteq> rs_ID r \<and> \<not> sameRequestFields x r"
    "sameRequestIdentity r rq" "rs_State r = Observed" "db' = db\<lparr>t_requests := t_requests db @ [r]\<rparr>"
    "ComputeGatewayRequestID K (rs_HomeChainID r) (rs_Gateway r) (rs_Requester r) (Some (BigInt (rs_Nonce r)))
       (rs_SourceChainID r) (rs_SourceHeight r) (rs_SourceBlockHash r) = Inr (rs_ID r)"
  using assms by (auto simp: ObserveRequest_def sameRequestIdentity_def sameRequestFields_def Let_def split: if_splits sum.splits)

lemma ObserveRequest_old:
  assumes "ObserveRequest K now db rq = (db', Inr (r, False))"
  shows "db' = db" "LoadRequest db (rs_ID rq) = Inr r" "sameRequestIdentity r rq"
  using assms by (auto simp: ObserveRequest_def sameRequestIdentity_def sameRequestFields_def Let_def split: if_splits sum.splits)

lemma TransitionRequest_kept:
  assumes "TransitionRequest now db rid f t m = (db', x)" "\<And>r. x \<noteq> Inr (r, True)"
  shows "db' = db"
  using assms by (auto simp: TransitionRequest_def Let_def split: if_splits sum.splits)

lemma TransitionRequest_same:
  assumes "TransitionRequest now db rid f t m = (db', Inr (r, False))"
  shows "db' = db" "LoadRequest db rid = Inr r" "rs_State r = t"
  using assms by (auto simp: TransitionRequest_def ValidateRequestTransition_def Let_def split: if_splits sum.splits)

lemma TransitionRequest_moved:
  assumes "TransitionRequest now db rid f t m = (db', Inr (r, True))"
  obtains r0 c where "legal_request_transition f t" "\<not> logged (t_request_transitions db) rid f t"
    "LoadRequest db rid = Inr r0" "rs_State r0 = f"
    "r = r0\<lparr>rs_State := t, rs_Reason := tm_Reason m, rs_UpdatedAt := c\<rparr>"
    "db' = db\<lparr>t_requests := update_rows (\<lambda>r. rs_ID r = rid \<and> rs_State r = f)
       (\<lambda>r. r\<lparr>rs_State := t, rs_Reason := tm_Reason m, rs_UpdatedAt := c\<rparr>) (t_requests db),
      t_request_transitions := t_request_transitions db @
       [\<lparr>tr_ID = rid, tr_From = f, tr_To = t, tr_Reason = tm_Reason m, tr_ChangedAt = c\<rparr>]\<rparr>"
proof -
  define c where "c = (if tm_At m = zero_time then now else tm_At m)"
  let ?p = "\<lambda>r. rs_ID r = rid \<and> rs_State r = f"
  let ?f = "\<lambda>r. r\<lparr>rs_State := t, rs_Reason := tm_Reason m, rs_UpdatedAt := c\<rparr>"
  let ?db = "db\<lparr>t_requests := update_rows ?p ?f (t_requests db),
      t_request_transitions := t_request_transitions db @
       [\<lparr>tr_ID = rid, tr_From = f, tr_To = t, tr_Reason = tm_Reason m, tr_ChangedAt = c\<rparr>]\<rparr>"
  obtain r0 where r0: "LoadRequest db rid = Inr r0" "rs_State r0 = f" "legal_request_transition f t"
    "\<not> logged (t_request_transitions db) rid f t" "LoadRequest ?db rid = Inr r" "db' = ?db"
    using assms
    by (auto simp: TransitionRequest_def ValidateRequestTransition_def Let_def c_def split: if_splits sum.splits)
  have "rs_ID r0 = rid" using r0(1) by (auto simp: LoadRequest_def select_row_Inr find_Some_iff)
  then have "r = ?f r0"
    using r0(1,2,5) by (auto simp: LoadRequest_def select_row_Inr find_update_rows)
  with r0 show thesis by (intro that[of r0 c]) simp_all
qed

lemma LoadRequest_update:
  "LoadRequest (db\<lparr>t_requests := update_rows (\<lambda>r. rs_ID r = rid \<and> q r) (\<lambda>r. r\<lparr>rs_State := t, rs_Reason := a, rs_UpdatedAt := c\<rparr>) (t_requests db),
     t_request_transitions := l\<rparr>) j =
   (case LoadRequest db j of Inl e \<Rightarrow> Inl e
    | Inr r \<Rightarrow> Inr (if j = rid \<and> q r then r\<lparr>rs_State := t, rs_Reason := a, rs_UpdatedAt := c\<rparr> else r))"
  by (simp add: LoadRequest_def select_update)

lemma ObserveRequest_creates:
  assumes "ObserveRequest K now db rq = (db', Inr (r, True))"
  shows "\<not> is_ok (LoadRequest db (rs_ID rq)) \<and> LoadRequest db' (rs_ID rq) = Inr r \<and> rs_State r = Observed \<and>
    t_request_transitions db' = t_request_transitions db"
proof -
  note n = ObserveRequest_new[OF assms]
  have "rs_ID r = rs_ID rq" using n(2) by (simp add: sameRequestIdentity_def)
  with n(1) have "LoadRequest db (rs_ID rq) = Inl ErrRecordNotFound" "LoadRequest db' (rs_ID rq) = Inr r"
    by (simp_all add: LoadRequest_def select_row_none n(4) select_row_append)
  with n(3,4) show ?thesis by simp
qed

lemma ObserveRequest_frame:
  assumes "ObserveRequest K now db rq = (db', x)" "j \<noteq> rs_ID rq"
  shows "LoadRequest db' j = LoadRequest db j"
proof (cases "\<exists>r. x = Inr (r, True)")
  case True
  then obtain r where "ObserveRequest K now db rq = (db', Inr (r, True))" using assms by blast
  from ObserveRequest_new(2,4)[OF this] assms(2) show ?thesis
    by (simp add: LoadRequest_def sameRequestIdentity_def select_row_append_other)
qed (use ObserveRequest_kept[OF assms(1)] in blast)

lemma TransitionRequest_frame:
  assumes "TransitionRequest now db rid f t m = (db', x)" "j \<noteq> rid"
  shows "LoadRequest db' j = LoadRequest db j"
proof (cases "\<exists>r. x = Inr (r, True)")
  case True
  then obtain r where "TransitionRequest now db rid f t m = (db', Inr (r, True))" using assms by blast
  then show ?thesis by (rule TransitionRequest_moved) (use assms(2) in \<open>simp add: LoadRequest_update split: sum.splits\<close>)
qed (use TransitionRequest_kept[OF assms(1)] in blast)

lemma TransitionRequest_moves:
  assumes "TransitionRequest now db rid f t m = (db', Inr (r, True))"
  shows "legal_request_transition f t \<and> \<not> logged (t_request_transitions db) rid f t \<and>
    (\<exists>r0. LoadRequest db rid = Inr r0 \<and> rs_State r0 = f) \<and> LoadRequest db' rid = Inr r \<and> rs_State r = t \<and>
    (\<exists>row. t_request_transitions db' = t_request_transitions db @ [row] \<and> tr_ID row = rid \<and> tr_From row = f \<and> tr_To row = t)"
  using assms by (rule TransitionRequest_moved) (simp add: LoadRequest_update)

interpretation request_audit: audited_repository "LoadRequest :: 'a store_scheme \<Rightarrow> _" t_request_transitions rs_State Observed
  legal_request_transition "\<lambda>db q. ObserveRequest (fst q) (fst (snd q)) db (snd (snd q))" "\<lambda>q. rs_ID (snd (snd q))"
  "\<lambda>db m rid f t. TransitionRequest (fst m) db rid f t (snd m)"
  by unfold_locales (fact ObserveRequest_kept ObserveRequest_creates ObserveRequest_frame
    TransitionRequest_kept TransitionRequest_moves TransitionRequest_frame)+

lemma ObserveEvidence_kept:
  assumes "ObserveEvidence K now db ev = (db', x)" "\<And>r. x \<noteq> Inr (r, True)"
  shows "db' = db"
  using assms by (auto simp: ObserveEvidence_def Let_def split: if_splits sum.splits)

lemma ObserveEvidence_new:
  assumes "ObserveEvidence K now db ev = (db', Inr (r, True))"
  shows "\<forall>x \<in> set (t_evidence db). ev_ID x \<noteq> ev_ID r \<and> ev_Locator x \<noteq> ev_Locator r" "ev_ID r = ev_ID ev"
    "ev_State r = Candidate" "ev_InvalidReason r = []" "db' = db\<lparr>t_evidence := t_evidence db @ [r]\<rparr>"
    "ComputeID K (ev_Locator r) = Inr (ev_ID r)" "ev_Locator r = ev_Locator ev"
  using assms by (auto simp: ObserveEvidence_def Let_def split: if_splits sum.splits)

lemma ObserveEvidence_creates:
  assumes "ObserveEvidence K now db ev = (db', Inr (r, True))"
  shows "\<not> is_ok (LoadEvidence db (ev_ID ev)) \<and> LoadEvidence db' (ev_ID ev) = Inr r \<and> ev_State r = Candidate \<and>
    t_evidence_transitions db' = t_evidence_transitions db"
proof -
  note n = ObserveEvidence_new[OF assms]
  from n(1,2) have "LoadEvidence db (ev_ID ev) = Inl ErrRecordNotFound" "LoadEvidence db' (ev_ID ev) = Inr r"
    by (simp_all add: LoadEvidence_def select_row_none n(5) select_row_append)
  with n(3,5) show ?thesis by simp
qed

lemma ObserveEvidence_frame:
  assumes "ObserveEvidence K now db ev = (db', x)" "j \<noteq> ev_ID ev"
  shows "LoadEvidence db' j = LoadEvidence db j"
proof (cases "\<exists>r. x = Inr (r, True)")
  case True
  then obtain r where "ObserveEvidence K now db ev = (db', Inr (r, True))" using assms by blast
  from ObserveEvidence_new(2,5)[OF this] assms(2) show ?thesis
    by (simp add: LoadEvidence_def select_row_append_other)
qed (use ObserveEvidence_kept[OF assms(1)] in blast)

lemma TransitionEvidence_kept:
  assumes "TransitionEvidence now db i f t m = (db', x)" "\<And>r. x \<noteq> Inr (r, True)"
  shows "db' = db"
  using assms by (auto simp: TransitionEvidence_def Let_def split: if_splits sum.splits)

lemma LoadEvidence_update:
  "LoadEvidence (db\<lparr>t_evidence := update_rows (\<lambda>r. ev_ID r = i \<and> q r) (\<lambda>r. r\<lparr>ev_State := t, ev_InvalidReason := a, ev_UpdatedAt := c\<rparr>) (t_evidence db),
     t_evidence_transitions := l\<rparr>) j =
   (case LoadEvidence db j of Inl e \<Rightarrow> Inl e
    | Inr r \<Rightarrow> Inr (if j = i \<and> q r then r\<lparr>ev_State := t, ev_InvalidReason := a, ev_UpdatedAt := c\<rparr> else r))"
  by (simp add: LoadEvidence_def select_update)

lemma TransitionEvidence_moved:
  assumes "TransitionEvidence now db i f t m = (db', Inr (r, True))"
  obtains r0 a c where "legal_transition f t" "\<not> logged (t_evidence_transitions db) i f t"
    "LoadEvidence db i = Inr r0" "ev_State r0 = f" "\<forall>ob \<in> set (t_observations db). or_EvidenceID ob \<noteq> i"
    "r = r0\<lparr>ev_State := t, ev_InvalidReason := a, ev_UpdatedAt := c\<rparr>"
    "db' = db\<lparr>t_evidence := update_rows (\<lambda>r. ev_ID r = i \<and> ev_State r = f)
       (\<lambda>r. r\<lparr>ev_State := t, ev_InvalidReason := a, ev_UpdatedAt := c\<rparr>) (t_evidence db),
      t_evidence_transitions := t_evidence_transitions db @
       [\<lparr>tr_ID = i, tr_From = f, tr_To = t, tr_Reason = tm_Reason m, tr_ChangedAt = c\<rparr>]\<rparr>"
proof -
  define c where "c = (if tm_At m = zero_time then now else tm_At m)"
  define a where "a = (if t = Invalid then tm_Reason m else [])"
  let ?db = "db\<lparr>t_evidence := update_rows (\<lambda>r. ev_ID r = i \<and> ev_State r = f)
       (\<lambda>r. r\<lparr>ev_State := t, ev_InvalidReason := a, ev_UpdatedAt := c\<rparr>) (t_evidence db),
      t_evidence_transitions := t_evidence_transitions db @
       [\<lparr>tr_ID = i, tr_From = f, tr_To = t, tr_Reason = tm_Reason m, tr_ChangedAt = c\<rparr>]\<rparr>"
  obtain r0 where r0: "LoadEvidence db i = Inr r0" "ev_State r0 = f" "legal_transition f t"
    "\<not> logged (t_evidence_transitions db) i f t" "LoadEvidence ?db i = Inr r" "db' = ?db"
    "\<forall>ob \<in> set (t_observations db). or_EvidenceID ob \<noteq> i"
    using assms
    by (auto simp: TransitionEvidence_def ValidateTransition_def Let_def c_def a_def split: if_splits sum.splits)
  then have "r = r0\<lparr>ev_State := t, ev_InvalidReason := a, ev_UpdatedAt := c\<rparr>" by (simp add: LoadEvidence_update)
  then show thesis by (rule that[OF r0(3,4,1,2,7) _ r0(6)])
qed

lemma TransitionEvidence_frame:
  assumes "TransitionEvidence now db i f t m = (db', x)" "j \<noteq> i"
  shows "LoadEvidence db' j = LoadEvidence db j"
proof (cases "\<exists>r. x = Inr (r, True)")
  case True
  then obtain r where "TransitionEvidence now db i f t m = (db', Inr (r, True))" using assms by blast
  then show ?thesis by (rule TransitionEvidence_moved) (use assms(2) in \<open>simp add: LoadEvidence_update split: sum.splits\<close>)
qed (use TransitionEvidence_kept[OF assms(1)] in blast)

lemma TransitionEvidence_moves:
  assumes "TransitionEvidence now db i f t m = (db', Inr (r, True))"
  shows "legal_transition f t \<and> \<not> logged (t_evidence_transitions db) i f t \<and>
    (\<exists>r0. LoadEvidence db i = Inr r0 \<and> ev_State r0 = f) \<and> LoadEvidence db' i = Inr r \<and> ev_State r = t \<and>
    (\<exists>row. t_evidence_transitions db' = t_evidence_transitions db @ [row] \<and> tr_ID row = i \<and> tr_From row = f \<and> tr_To row = t)"
  using assms by (rule TransitionEvidence_moved) (simp add: LoadEvidence_update)

interpretation evidence_audit: audited_repository "LoadEvidence :: 'a store_scheme \<Rightarrow> _" t_evidence_transitions ev_State Candidate
  legal_transition "\<lambda>db q. ObserveEvidence (fst q) (fst (snd q)) db (snd (snd q))" "\<lambda>q. ev_ID (snd (snd q))"
  "\<lambda>db m i f t. TransitionEvidence (fst m) db i f t (snd m)"
  by unfold_locales (fact ObserveEvidence_kept ObserveEvidence_creates ObserveEvidence_frame
    TransitionEvidence_kept TransitionEvidence_moves TransitionEvidence_frame)+

end
