(* ===== verification/ChainStore.thy ===== *)
theory ChainStore
  imports Store
begin

text \<open>
  The catalog of chains (\<open>live_chain_repository.go\<close>) and the persisted canonical cursors
  (\<open>canonical_cursor_repository.go\<close>). The operations on cursors return a cursor together with an error in several
  branches, as the code does: a third component holds the error, and a cursor is \<open>None\<close> where the code returns the zero value.
\<close>

subsection \<open>The catalog of chains\<close>

definition MaxInt64 :: u64 where
  "MaxInt64 = 0x7FFFFFFFFFFFFFFF"

definition loadLiveChain :: "'a store_scheme \<Rightarrow> chain_id \<Rightarrow> validated_live_chain res" where
  "loadLiveChain db chainID = select_row ErrRecordNotFound (\<lambda>r. lc_ChainID (vl_Chain r) = chainID) (t_live_chains db)"

text \<open>The column checks of \<open>live_chains\<close>; SQL \<open>trim\<close> removes blanks.\<close>

definition live_chain_checks :: "live_chain \<Rightarrow> bool" where
  "live_chain_checks item \<longleftrightarrow>
     lc_Name item \<noteq> [] \<and> hd (lc_Name item) \<noteq> CHR '' '' \<and> last (lc_Name item) \<noteq> CHR '' '' \<and>
     lc_HTTPRPC item \<noteq> [] \<and> lc_Confirmations item > 0 \<and> lc_DeploymentManifest item \<noteq> []"

definition sync_entry :: "'a store_scheme \<Rightarrow> live_chain \<Rightarrow> 'a store_scheme res" where
  "sync_entry db item =
     (if lc_Confirmations item > MaxInt64 then Inl (ErrMsg ''live chain confirmations exceed SQLite INTEGER range'')
      else if \<not> live_chain_checks item then Inl (ErrMsg ''insert live chain'')
      else let present = (\<exists>r \<in> set (t_live_chains db). lc_ChainID (vl_Chain r) = lc_ChainID item)
      in if \<not> present \<and> (\<exists>r \<in> set (t_live_chains db). lc_Name (vl_Chain r) = lc_Name item)
      then Inl (ErrMsg ''insert live chain'')
      else let db = (if present then db
             else db\<lparr>t_live_chains := t_live_chains db @
               [\<lparr>vl_Chain = item, vl_Gateway = 0, vl_GatewayCodeHash = 0, vl_DeploymentBlock = 0, vl_ValidatedAt = zero_time\<rparr>]\<rparr>)
      in bind_res (loadLiveChain db (lc_ChainID item)) (\<lambda>persisted.
         if vl_Chain persisted \<noteq> item then Inl ErrRecordConflict else Inr db))"

fun sync_entries :: "'a store_scheme \<Rightarrow> live_chain list \<Rightarrow> 'a store_scheme res" where
  "sync_entries db [] = Inr db"
| "sync_entries db (item # entries) = bind_res (sync_entry db item) (\<lambda>db. sync_entries db entries)"

definition SyncChains :: "'a store_scheme \<Rightarrow> live_chain list \<Rightarrow> 'a store_scheme \<times> unit res" where
  "SyncChains db entries =
     (case sync_entries db entries of
        Inl e \<Rightarrow> (db, Inl e)
      | Inr db' \<Rightarrow>
          if length (t_live_chains db') \<noteq> length entries \<or>
             length (filter (\<lambda>r. lc_Home (vl_Chain r)) (t_live_chains db')) \<noteq> 1
          then (db, Inl ErrRecordConflict) else (db', Inr ()))"

definition BindDeployment ::
  "go_time \<Rightarrow> 'a store_scheme \<Rightarrow> gateway_deployment \<Rightarrow> block_height \<Rightarrow> 'a store_scheme \<times> unit res" where
  "BindDeployment now db deployment block =
     (if gd_Address deployment = 0 \<or> gd_CodeHash deployment = 0
      then (db, Inl (ErrMsg ''validated Gateway deployment is incomplete''))
      else let unbound = (\<lambda>r. lc_ChainID (vl_Chain r) = gd_ChainID deployment \<and> vl_ValidatedAt r = zero_time)
      in if rows_affected unbound (t_live_chains db) = 1
      then if toUnix now \<le> 0 then (db, Inl (ErrMsg ''bind live Gateway deployment''))
           else (db\<lparr>t_live_chains := update_rows unbound (\<lambda>r. r\<lparr>vl_Gateway := gd_Address deployment,
                   vl_GatewayCodeHash := gd_CodeHash deployment, vl_DeploymentBlock := block, vl_ValidatedAt := now\<rparr>)
                   (t_live_chains db)\<rparr>, Inr ())
      else case loadLiveChain db (gd_ChainID deployment) of
        Inl e \<Rightarrow> (db, Inl e)
      | Inr persisted \<Rightarrow>
          if vl_Gateway persisted \<noteq> gd_Address deployment \<or> vl_GatewayCodeHash persisted \<noteq> gd_CodeHash deployment \<or>
             vl_DeploymentBlock persisted \<noteq> block
          then (db, Inl ErrRecordConflict) else (db, Inr ()))"

subsection \<open>Cursors\<close>

type_synonym 'a cursor_result = "'a store_scheme \<times> canonical_cursor option \<times> bool \<times> go_error option"

definition LoadCursor :: "'a store_scheme \<Rightarrow> chain_id \<Rightarrow> canonical_cursor res" where
  "LoadCursor db chainID = select_row ErrRecordNotFound (\<lambda>r. cc_ChainID r = chainID) (t_cursors db)"

definition InitializeCursor :: "'a store_scheme \<Rightarrow> canonical_cursor \<Rightarrow> 'a cursor_result" where
  "InitializeCursor db cursor =
     (if cc_State cursor \<noteq> Healthy \<or> cc_Hash cursor = 0 \<or> cc_DegradedReason cursor \<noteq> []
      then (db, None, False, Some (ErrMsg ''initial canonical cursor must be healthy''))
      else let present = (\<exists>r \<in> set (t_cursors db). cc_ChainID r = cc_ChainID cursor)
      in if \<not> present \<and> \<not> is_ok (loadLiveChain db (cc_ChainID cursor))
      then (db, None, False, Some (ErrMsg ''initialize canonical cursor''))
      else let db = (if present then db else db\<lparr>t_cursors := t_cursors db @ [NewCanonicalCursor (cc_ChainID cursor) (cc_Height cursor) (cc_Hash cursor)]\<rparr>)
      in case LoadCursor db (cc_ChainID cursor) of
        Inl e \<Rightarrow> (db, None, False, Some e)
      | Inr persisted \<Rightarrow>
          if present \<and> persisted \<noteq> cursor then (db, Some persisted, False, Some ErrRecordConflict)
          else (db, Some persisted, \<not> present, None))"

definition HasDegradedCursor :: "'a store_scheme \<Rightarrow> bool" where
  "HasDegradedCursor db \<longleftrightarrow> (\<exists>r \<in> set (t_cursors db). cc_State r = Degraded)"

definition persistCursorDegraded ::
  "'a store_scheme \<Rightarrow> canonical_cursor \<Rightarrow> string \<Rightarrow> 'a store_scheme \<times> canonical_cursor \<times> go_error option" where
  "persistCursorDegraded db current reason =
     (let degraded = cursor_Degrade current reason;
          this_row = (\<lambda>r. cc_ChainID r = cc_ChainID current \<and> cc_Height r = cc_Height current \<and> cc_Hash r = cc_Hash current \<and>
                          cc_State r = Healthy)
      in if rows_affected this_row (t_cursors db) \<noteq> 1 then (db, current, Some ErrConcurrentUpdate)
         else (db\<lparr>t_cursors := update_rows this_row
                 (\<lambda>r. r\<lparr>cc_State := Degraded, cc_DegradedReason := cc_DegradedReason degraded\<rparr>) (t_cursors db)\<rparr>,
               degraded, None))"

definition DegradeCursor :: "'a store_scheme \<Rightarrow> chain_id \<Rightarrow> string \<Rightarrow> 'a store_scheme \<times> canonical_cursor option \<times> go_error option" where
  "DegradeCursor db chainID reason =
     (if reason = [] then (db, None, Some (ErrMsg ''canonical cursor degradation requires repository and reason''))
      else case LoadCursor db chainID of
        Inl e \<Rightarrow> (db, None, Some e)
      | Inr current \<Rightarrow>
          if cc_State current = Degraded then (db, Some current, None)
          else case persistCursorDegraded db current reason of (db, cursor, err) \<Rightarrow> (db, Some cursor, err))"

text \<open>The branch that records a mismatch: the degraded cursor is stored and the error is returned with it.\<close>

definition degrade_on_mismatch :: "'a store_scheme \<Rightarrow> canonical_cursor \<Rightarrow> string \<Rightarrow> 'a cursor_result" where
  "degrade_on_mismatch db current reason =
     (case persistCursorDegraded db current reason of
        (db, cursor, Some persistErr) \<Rightarrow> (db, Some current, False, Some persistErr)
      | (db, degraded, None) \<Rightarrow> (db, Some degraded, True, Some ErrCanonicalMismatch))"

definition AdvanceCursor :: "'a store_scheme \<Rightarrow> chain_id \<Rightarrow> hash \<Rightarrow> block_ref \<Rightarrow> 'a cursor_result" where
  "AdvanceCursor db chainID recheckedHash next_block =
     (case LoadCursor db chainID of
        Inl e \<Rightarrow> (db, None, False, Some e)
      | Inr current \<Rightarrow>
      if cc_State current = Degraded then (db, Some current, False, Some ErrCursorDegraded)
      else if cc_Height current = bk_Height next_block
      then if cc_Hash current \<noteq> bk_Hash next_block
           then degrade_on_mismatch db current ''canonical block hash changed at persisted height''
           else if bk_ParentHash next_block \<noteq> recheckedHash
           then degrade_on_mismatch db current ''duplicate canonical block parent no longer matches rechecked parent''
           else (db, Some current, False, None)
      else case cursor_Advance current recheckedHash next_block of
        Inl e \<Rightarrow>
          if e = ErrCanonicalMismatch
          then degrade_on_mismatch db current ''persisted canonical block hash no longer matches RPC''
          else (db, Some current, False, Some e)
      | Inr advanced \<Rightarrow>
          (db\<lparr>t_cursors := update_rows (\<lambda>r. cc_ChainID r = chainID \<and> cc_State r = Healthy)
                (\<lambda>r. r\<lparr>cc_Height := cc_Height advanced, cc_Hash := cc_Hash advanced\<rparr>) (t_cursors db)\<rparr>,
           Some advanced, True, None))"

subsection \<open>A cursor follows one chain of blocks\<close>

fun linked :: "block_height \<Rightarrow> hash \<Rightarrow> block_ref list \<Rightarrow> block_height \<Rightarrow> hash \<Rightarrow> bool" where
  "linked h x [] h' x' \<longleftrightarrow> h = h' \<and> x = x'"
| "linked h x (b # bs) h' x' \<longleftrightarrow> bk_ParentHash b = x \<and> BigInt (bk_Height b) = BigInt h + 1 \<and> bk_Hash b \<noteq> 0 \<and>
     linked (bk_Height b) (bk_Hash b) bs h' x'"

text \<open>Any sequence of calls on the cursors of all chains; the list holds the blocks the cursor of one chain advanced over.\<close>

inductive cursor_run :: "chain_id \<Rightarrow> 'a store_scheme \<Rightarrow> block_ref list \<Rightarrow> 'a store_scheme \<Rightarrow> bool" for c db where
  start: "cursor_run c db [] db"
| advanced: "cursor_run c db bs d1 \<Longrightarrow> AdvanceCursor d1 c h b = (d2, r, True, None) \<Longrightarrow> cursor_run c db (bs @ [b]) d2"
| other_advance: "cursor_run c db bs d1 \<Longrightarrow> AdvanceCursor d1 c' h b = (d2, r, changed, err) \<Longrightarrow>
    c' \<noteq> c \<or> \<not> changed \<or> err \<noteq> None \<Longrightarrow> cursor_run c db bs d2"
| degraded: "cursor_run c db bs d1 \<Longrightarrow> DegradeCursor d1 c' reason = (d2, r) \<Longrightarrow> cursor_run c db bs d2"
| initialized: "cursor_run c db bs d1 \<Longrightarrow> InitializeCursor d1 cur = (d2, r) \<Longrightarrow> cursor_run c db bs d2"

lemma linked_append: "linked h x (bs @ bs') h' x' \<longleftrightarrow> (\<exists>h1 x1. linked h x bs h1 x1 \<and> linked h1 x1 bs' h' x')"
  by (induction bs arbitrary: h x) auto

lemma LoadCursor_chain: "LoadCursor db c = Inr cur \<Longrightarrow> cc_ChainID cur = c"
  by (auto simp: LoadCursor_def dest: select_row_InrD)

lemma LoadCursor_update:
  assumes "\<And>r. cc_ChainID (f r) = cc_ChainID r"
  shows "LoadCursor (db\<lparr>t_cursors := update_rows (\<lambda>r. cc_ChainID r = i \<and> q r) f (t_cursors db)\<rparr>) j =
    (case LoadCursor db j of Inl e \<Rightarrow> Inl e | Inr r \<Rightarrow> Inr (if j = i \<and> q r then f r else r))"
  by (simp add: LoadCursor_def select_update assms)

text \<open>The cursor of a chain after one call: unchanged, or degraded in place.\<close>

definition kept_or_degraded :: "canonical_cursor \<Rightarrow> canonical_cursor \<Rightarrow> bool" where
  "kept_or_degraded cur cur' \<longleftrightarrow> cur' = cur \<or>
     (cc_State cur = Healthy \<and> (\<exists>reason. cur' = cur\<lparr>cc_State := Degraded, cc_DegradedReason := reason\<rparr>))"

lemma persistCursorDegraded_load:
  assumes "persistCursorDegraded db current reason = (db', x)" "LoadCursor db c = Inr cur"
  shows "\<exists>cur'. LoadCursor db' c = Inr cur' \<and> kept_or_degraded cur cur'"
proof (cases "db' = db")
  case True
  then show ?thesis using assms(2) by (auto simp: kept_or_degraded_def)
next
  case False
  then have "db' = db\<lparr>t_cursors := update_rows (\<lambda>r. cc_ChainID r = cc_ChainID current \<and> cc_Height r = cc_Height current \<and>
      cc_Hash r = cc_Hash current \<and> cc_State r = Healthy)
      (\<lambda>r. r\<lparr>cc_State := Degraded, cc_DegradedReason := cc_DegradedReason (cursor_Degrade current reason)\<rparr>) (t_cursors db)\<rparr>"
    using assms(1) by (auto simp: persistCursorDegraded_def Let_def split: if_splits)
  then show ?thesis using assms(2) by (auto simp: LoadCursor_update kept_or_degraded_def)
qed

lemma degrade_on_mismatch_load:
  assumes "degrade_on_mismatch db current reason = (db', r, changed, err)" "LoadCursor db c = Inr cur"
  shows "\<exists>cur'. LoadCursor db' c = Inr cur' \<and> kept_or_degraded cur cur'" "err \<noteq> None"
proof -
  obtain db1 x y where p: "persistCursorDegraded db current reason = (db1, x, y)" by (metis prod_cases3)
  show "\<exists>cur'. LoadCursor db' c = Inr cur' \<and> kept_or_degraded cur cur'"
    using persistCursorDegraded_load[OF p assms(2)] p assms(1) by (auto simp: degrade_on_mismatch_def split: option.splits)
  show "err \<noteq> None" using p assms(1) by (auto simp: degrade_on_mismatch_def split: option.splits)
qed

lemma AdvanceCursor_cases:
  assumes "AdvanceCursor db c h b = (db', r, changed, err)"
  obtains "db' = db" "\<not> changed"
  | current reason where "degrade_on_mismatch db current reason = (db', r, changed, err)"
  | cur cur' where "LoadCursor db c = Inr cur" "cursor_Advance cur h b = Inr cur'" "changed" "err = None"
      "db' = db\<lparr>t_cursors := update_rows (\<lambda>r. cc_ChainID r = c \<and> cc_State r = Healthy)
                (\<lambda>r. r\<lparr>cc_Height := cc_Height cur', cc_Hash := cc_Hash cur'\<rparr>) (t_cursors db)\<rparr>"
  using assms by (auto simp: AdvanceCursor_def split: sum.splits if_splits)

lemma AdvanceCursor_kept:
  assumes "AdvanceCursor db c' h b = (db', r, changed, err)" "c' \<noteq> c \<or> \<not> changed \<or> err \<noteq> None" "LoadCursor db c = Inr cur"
  shows "\<exists>cur'. LoadCursor db' c = Inr cur' \<and> kept_or_degraded cur cur'"
  using assms(1)
proof (cases rule: AdvanceCursor_cases)
  case 1
  then show ?thesis using assms(3) by (auto simp: kept_or_degraded_def)
next
  case (2 current reason)
  then show ?thesis by (rule degrade_on_mismatch_load(1)[OF _ assms(3)])
next
  case (3 cur1 cur2)
  then have "c' \<noteq> c" using assms(2) by blast
  then have "LoadCursor db' c = Inr cur" using assms(3) by (simp add: 3(5) LoadCursor_update)
  then show ?thesis by (simp add: kept_or_degraded_def)
qed

lemma AdvanceCursor_advanced:
  assumes "AdvanceCursor db c h b = (db', r, True, None)" "LoadCursor db c = Inr cur" "cc_State cur \<in> {Healthy, Degraded}"
  shows "\<exists>cur'. LoadCursor db' c = Inr cur' \<and> cc_State cur = Healthy \<and> cc_State cur' = Healthy \<and>
    linked (cc_Height cur) (cc_Hash cur) [b] (cc_Height cur') (cc_Hash cur')"
  using assms(1)
proof (cases rule: AdvanceCursor_cases)
  case 1
  then show ?thesis by simp
next
  case (2 current reason)
  then show ?thesis using degrade_on_mismatch_load(2)[OF _ assms(2)] by blast
next
  case (3 cur1 cur2)
  then have "cur1 = cur" using assms(2) by simp
  then have "cursor_Advance cur h b = Inr cur2" using 3 by simp
  then have "cc_State cur \<noteq> Degraded" "linked (cc_Height cur) (cc_Hash cur) [b] (cc_Height cur2) (cc_Hash cur2)"
    by (auto simp: cursor_Advance_def split: if_splits)
  then show ?thesis using assms(2,3) by (auto simp: 3(5) LoadCursor_update)
qed

lemma DegradeCursor_kept:
  assumes "DegradeCursor db c' reason = (db', r)" "LoadCursor db c = Inr cur"
  shows "\<exists>cur'. LoadCursor db' c = Inr cur' \<and> kept_or_degraded cur cur'"
proof (cases "\<exists>current x. persistCursorDegraded db current reason = (db', x)")
  case True
  then show ?thesis using persistCursorDegraded_load[OF _ assms(2)] by blast
next
  case False
  then have "db' = db" using assms(1)
    by (auto simp: DegradeCursor_def split: sum.splits if_splits prod.splits)
  then show ?thesis using assms(2) by (auto simp: kept_or_degraded_def)
qed

lemma InitializeCursor_kept:
  assumes "InitializeCursor db x = (db', r)" "LoadCursor db c = Inr cur"
  shows "LoadCursor db' c = Inr cur"
proof -
  have "db' = db \<or> (\<exists>y. db' = db\<lparr>t_cursors := t_cursors db @ [y]\<rparr> \<and> (\<forall>r \<in> set (t_cursors db). cc_ChainID r \<noteq> cc_ChainID y))"
    using assms(1) by (auto simp: InitializeCursor_def Let_def NewCanonicalCursor_def split: if_splits sum.splits)
  then show ?thesis
  proof
    assume "\<exists>y. db' = db\<lparr>t_cursors := t_cursors db @ [y]\<rparr> \<and> (\<forall>r \<in> set (t_cursors db). cc_ChainID r \<noteq> cc_ChainID y)"
    then obtain y where y: "db' = db\<lparr>t_cursors := t_cursors db @ [y]\<rparr>" "\<forall>r \<in> set (t_cursors db). cc_ChainID r \<noteq> cc_ChainID y" by blast
    have "c \<noteq> cc_ChainID y" using y(2) assms(2) by (auto simp: LoadCursor_def dest: select_row_InrD)
    then show ?thesis using assms(2) by (simp add: y(1) LoadCursor_def select_row_append_other)
  qed (simp add: assms(2))
qed

text \<open>
  C29. Whatever calls are made on the stored cursors of all chains, in any order, the cursor of a chain follows one
  chain of blocks: the blocks it advanced over have consecutive heights, each names the hash of the one before as its
  parent, and they lead from where the cursor was to where it is. A mismatch degrades the cursor without moving it,
  and a degraded cursor never changes again, so the node does not silently continue on another fork.
\<close>

theorem cursor_follows_chain:
  assumes "cursor_run c db bs db'" "LoadCursor db c = Inr cur" "cc_State cur \<in> {Healthy, Degraded}"
  shows "\<exists>cur'. LoadCursor db' c = Inr cur' \<and> linked (cc_Height cur) (cc_Hash cur) bs (cc_Height cur') (cc_Hash cur') \<and>
    cc_State cur' \<in> {Healthy, Degraded} \<and> (cc_State cur = Degraded \<longrightarrow> bs = [] \<and> cur' = cur)"
  using assms(1)
proof (induction rule: cursor_run.induct)
  case start
  then show ?case using assms(2,3) by auto
next
  case (advanced bs d1 h b d2 r)
  then obtain cur1 where cur1: "LoadCursor d1 c = Inr cur1" "linked (cc_Height cur) (cc_Hash cur) bs (cc_Height cur1) (cc_Hash cur1)"
    "cc_State cur1 \<in> {Healthy, Degraded}" "cc_State cur = Degraded \<longrightarrow> bs = [] \<and> cur1 = cur" by blast
  obtain cur2 where "LoadCursor d2 c = Inr cur2" "cc_State cur1 = Healthy" "cc_State cur2 = Healthy"
    "linked (cc_Height cur1) (cc_Hash cur1) [b] (cc_Height cur2) (cc_Hash cur2)"
    using AdvanceCursor_advanced[OF advanced(2) cur1(1,3)] by blast
  then show ?case using cur1 by (auto simp: linked_append)
next
  case (other_advance bs d1 c' h b d2 r changed err)
  then show ?case using AdvanceCursor_kept[OF other_advance(2,3)] by (fastforce simp: kept_or_degraded_def)
next
  case (degraded bs d1 c' reason d2 r)
  then show ?case using DegradeCursor_kept[OF degraded(2)] by (fastforce simp: kept_or_degraded_def)
next
  case (initialized bs d1 cur1 d2 r)
  then show ?case using InitializeCursor_kept[OF initialized(2)] by blast
qed

definition demo_cursor_store :: store where
  "demo_cursor_store = empty_store\<lparr>t_cursors := [NewCanonicalCursor 1 5 7]\<rparr>"

definition demo_block :: block_ref where
  "demo_block = \<lparr>bk_Height = 6, bk_Hash = 8, bk_ParentHash = 7\<rparr>"

theorem cursor_follows_chain_witness:
  "\<exists>db' cur'. cursor_run 1 demo_cursor_store [demo_block] db' \<and> LoadCursor db' 1 = Inr cur' \<and> linked 5 7 [demo_block] (cc_Height cur') (cc_Hash cur')"
proof -
  let ?d = "demo_cursor_store\<lparr>t_cursors := [NewCanonicalCursor 1 6 8]\<rparr>"
  have "AdvanceCursor demo_cursor_store 1 7 demo_block = (?d, Some (NewCanonicalCursor 1 6 8), True, None)"
    by (simp add: AdvanceCursor_def LoadCursor_def select_row_def demo_cursor_store_def demo_block_def NewCanonicalCursor_def
        cursor_Advance_def BigInt_def update_rows_def)
  then have run: "cursor_run 1 demo_cursor_store ([] @ [demo_block]) ?d"
    by (rule cursor_run.advanced[OF cursor_run.start])
  have load: "LoadCursor demo_cursor_store 1 = Inr (NewCanonicalCursor 1 5 7)"
    by (simp add: LoadCursor_def select_row_def demo_cursor_store_def NewCanonicalCursor_def)
  show ?thesis using cursor_follows_chain[OF run load] run by (auto simp: NewCanonicalCursor_def)
qed

end
