(* ===== verification/GraphStore.thy ===== *)
theory GraphStore
  imports ChainStore
begin

text \<open>
  The graph of the store: \<open>trust_view_repository.go\<close>, the merge of active edges, witnesses and snapshots, and
  \<open>trust_root_observation_repository.go\<close>, the observations with their synthetic evidence. Nodes are inserted with
  \<open>evidence_state = 'active'\<close> only and never updated, so that column is left out; every join with \<open>evidence\<close> stays.
\<close>

subsection \<open>Reading the graph\<close>

definition evidence_active :: "'a store_scheme \<Rightarrow> evidence_id \<Rightarrow> bool" where
  "evidence_active db i \<longleftrightarrow> (\<exists>e \<in> set (t_evidence db). ev_ID e = i \<and> ev_State e = Active)"

definition active_nodes :: "'a store_scheme \<Rightarrow> trust_node list" where
  "active_nodes db = filter (\<lambda>n. evidence_active db (tn_EvidenceID n)) (t_nodes db)"

definition stored_witness_for :: "'a store_scheme \<Rightarrow> evidence_id \<Rightarrow> stored_witness option" where
  "stored_witness_for db i = find (\<lambda>w. sw_EvidenceID w = i) (t_witnesses db)"

definition row_edge :: "'a store_scheme \<Rightarrow> edge_row \<Rightarrow> trust_edge" where
  "row_edge db row =
     \<lparr>te_ID = te_ID row, te_From = te_From row, te_To = te_To row, te_EvidenceID = te_EvidenceID row,
      te_LeafIndex = te_LeafIndex row, te_WitnessID = map_option sw_ID (stored_witness_for db (te_EvidenceID row)),
      te_PathStepCost = te_PathStepCost row\<rparr>"

definition active_edges :: "'a store_scheme \<Rightarrow> trust_edge list" where
  "active_edges db = map (row_edge db) (filter (\<lambda>r. er_Active r \<and> evidence_active db (te_EvidenceID r)) (t_edges db))"

definition CurrentTrustView :: "keccak \<Rightarrow> 'a store_scheme \<Rightarrow> trust_view res" where
  "CurrentTrustView K db =
     NewTrustView K (of_nat (g_revision db)) (sort_key tn_ID (active_nodes db)) (sort_key te_ID (active_edges db))"

definition RequireEvidenceReady :: "'a store_scheme \<Rightarrow> request \<Rightarrow> unit res" where
  "RequireEvidenceReady db rq =
     (if length (filter (\<lambda>n. nk_ChainID (tn_Key n) = rs_SourceChainID rq \<and> nk_Height (tn_Key n) = rs_SourceHeight rq \<and>
          nk_BlockHash (tn_Key n) = rs_SourceBlockHash rq) (active_nodes db)) \<noteq> 1
      then Inl ErrInactiveEvidence else Inr ())"

definition loadActiveEvidence :: "'a store_scheme \<Rightarrow> evidence_id \<Rightarrow> evidence_record res" where
  "loadActiveEvidence db i =
     (case LoadEvidence db i of
        Inl e \<Rightarrow> if e = ErrRecordNotFound then Inl ErrInactiveEvidence else Inl e
      | Inr ev \<Rightarrow> if ev_State ev \<noteq> Active then Inl ErrInactiveEvidence else Inr ev)"

definition loadActiveTrustNode :: "'a store_scheme \<Rightarrow> node_id \<Rightarrow> trust_node res" where
  "loadActiveTrustNode db nid = select_row ErrRecordNotFound (\<lambda>n. tn_ID n = nid) (active_nodes db)"

definition evidenceLocatorMatchesNode :: "locator \<Rightarrow> trust_node \<Rightarrow> bool" where
  "evidenceLocatorMatchesNode l node \<longleftrightarrow>
     loc_ChainID l = nk_ChainID (tn_Key node) \<and> loc_BlockNumber l = nk_Height (tn_Key node) \<and>
     loc_BlockHash l = nk_BlockHash (tn_Key node)"

subsection \<open>Merging nodes and edges\<close>

definition mergeTrustNode :: "'a store_scheme \<Rightarrow> trust_node \<Rightarrow> ('a store_scheme \<times> bool) res" where
  "mergeTrustNode db node =
     (case find (\<lambda>n. tn_Key n = tn_Key node) (t_nodes db) of
        Some n \<Rightarrow>
          if tn_ID n \<noteq> tn_ID node then Inl ErrGraphConflict
          else if tn_Root n \<noteq> tn_Root node then Inl ErrTrustRootConflict
          else if tn_EvidenceID n \<noteq> tn_EvidenceID node then Inl ErrGraphConflict
          else Inr (db, False)
      | None \<Rightarrow>
          if \<not> evidence_active db (tn_EvidenceID node) \<or> (\<exists>n \<in> set (t_nodes db). tn_ID n = tn_ID node)
          then Inl (ErrMsg ''insert TrustView node'')
          else Inr (db\<lparr>t_nodes := t_nodes db @ [node]\<rparr>, True))"

text \<open>The trigger on \<open>trust_edges\<close> (as replaced by the third migration) and the foreign keys of its rows.\<close>

definition edge_allowed :: "'a store_scheme \<Rightarrow> trust_edge \<Rightarrow> bool" where
  "edge_allowed db edge \<longleftrightarrow>
     evidence_active db (te_EvidenceID edge) \<and> \<not> (\<exists>ob \<in> set (t_observations db). or_EvidenceID ob = te_EvidenceID edge) \<and>
     te_From edge \<in> tn_ID ` set (t_nodes db) \<and> te_To edge \<in> tn_ID ` set (t_nodes db)"

definition new_edge_row :: "trust_edge \<Rightarrow> edge_row" where
  "new_edge_row edge = trust_edge.extend (edge\<lparr>te_WitnessID := None\<rparr>) \<lparr>er_Active = True\<rparr>"

definition mergeTrustEdge :: "'a store_scheme \<Rightarrow> trust_edge \<Rightarrow> ('a store_scheme \<times> bool) res" where
  "mergeTrustEdge db edge =
     (case find (\<lambda>r. te_ID r = te_ID edge) (t_edges db) of
        Some r \<Rightarrow>
          if te_From r \<noteq> te_From edge \<or> te_To r \<noteq> te_To edge \<or> te_EvidenceID r \<noteq> te_EvidenceID edge \<or>
             te_LeafIndex r \<noteq> te_LeafIndex edge \<or> te_PathStepCost r \<noteq> te_PathStepCost edge
          then Inl ErrGraphConflict
          else if er_Active r then Inr (db, False)
          else if \<not> edge_allowed db edge then Inl (ErrMsg ''activate TrustEdge'')
          else Inr (db\<lparr>t_edges := update_rows (\<lambda>r. te_ID r = te_ID edge) (\<lambda>r. r\<lparr>er_Active := True\<rparr>) (t_edges db)\<rparr>, True)
      | None \<Rightarrow>
          if \<exists>r \<in> set (t_edges db). te_EvidenceID r = te_EvidenceID edge then Inl ErrGraphConflict
          else if \<not> edge_allowed db edge then Inl (ErrMsg ''insert TrustEdge'')
          else Inr (db\<lparr>t_edges := t_edges db @ [new_edge_row edge]\<rparr>, True))"

definition bumpGraphRevision :: "'a store_scheme \<Rightarrow> 'a store_scheme res" where
  "bumpGraphRevision db =
     (if g_revision db < 9223372036854775807 then Inr (db\<lparr>g_revision := g_revision db + 1\<rparr>)
      else Inl (ErrMsg ''TrustView graph revision exhausted''))"

text \<open>A transaction commits its final state or leaves the database as it was.\<close>

definition in_tx :: "'db \<Rightarrow> ('db \<times> 'b) res \<Rightarrow> 'db \<times> 'b res" where
  "in_tx db r = (case r of Inl e \<Rightarrow> (db, Inl e) | Inr (db', x) \<Rightarrow> (db', Inr x))"

definition check_merge :: "keccak \<Rightarrow> trust_node \<Rightarrow> trust_node \<Rightarrow> trust_edge \<Rightarrow> unit res" where
  "check_merge K fromNode toNode edge =
     bind_res (node_Validate K fromNode) (\<lambda>_.
     bind_res (node_Validate K toNode) (\<lambda>_.
     bind_res (edge_Validate K edge) (\<lambda>_.
     if te_From edge \<noteq> tn_ID fromNode \<or> te_To edge \<noteq> tn_ID toNode then Inl ErrInvalidTrustEdge
     else if nk_ChainID (tn_Key fromNode) = nk_ChainID (tn_Key toNode) then Inl ErrInvalidTrustEdge
     else if te_PathStepCost edge > MaxInt64 then Inl (ErrMsg ''path step cost exceeds SQLite INTEGER range'')
     else Inr ())))"

text \<open>The writes of the merge: both nodes, the edge, and a new revision if anything changed.\<close>

definition merge_graph :: "'a store_scheme \<Rightarrow> trust_node \<Rightarrow> trust_node \<Rightarrow> trust_edge \<Rightarrow> ('a store_scheme \<times> bool) res" where
  "merge_graph db fromNode toNode edge =
     bind_res (mergeTrustNode db fromNode) (\<lambda>(db1, insertedFrom).
     bind_res (mergeTrustNode db1 toNode) (\<lambda>(db2, insertedTo).
     bind_res (mergeTrustEdge db2 edge) (\<lambda>(db3, insertedEdge).
     if insertedFrom \<or> insertedTo \<or> insertedEdge then bind_res (bumpGraphRevision db3) (\<lambda>db4. Inr (db4, True))
     else Inr (db3, False))))"

definition MergeActiveTrustEdge ::
  "keccak \<Rightarrow> 'a store_scheme \<Rightarrow> trust_node \<Rightarrow> trust_node \<Rightarrow> trust_edge \<Rightarrow> verified_dependency \<Rightarrow> 'a store_scheme \<times> bool res" where
  "MergeActiveTrustEdge K db fromNode toNode edge dep =
     in_tx db (
     bind_res (check_merge K fromNode toNode edge) (\<lambda>_.
     bind_res (loadActiveEvidence db (tn_EvidenceID fromNode)) (\<lambda>fromEvidence.
     bind_res (loadActiveEvidence db (tn_EvidenceID toNode)) (\<lambda>toEvidence.
     bind_res (loadActiveEvidence db (te_EvidenceID edge)) (\<lambda>edgeEvidence.
     if \<not> evidenceLocatorMatchesNode (ev_Locator fromEvidence) fromNode \<or>
        \<not> evidenceLocatorMatchesNode (ev_Locator toEvidence) toNode \<or>
        \<not> evidenceLocatorMatchesNode (ev_Locator edgeEvidence) fromNode \<or>
        vd_EvidenceID dep \<noteq> te_EvidenceID edge \<or> te_LeafIndex edge \<noteq> vd_LeafIndex dep
     then Inl ErrEvidenceBinding
     else case verified_dependency_Validate K dep toNode (loc_PayloadDigest (ev_Locator edgeEvidence)) of
       Inl _ \<Rightarrow> Inl ErrEvidenceBinding
     | Inr _ \<Rightarrow> merge_graph db fromNode toNode edge)))))"

subsection \<open>Witnesses\<close>

definition SaveMembershipWitness :: "keccak \<Rightarrow> 'a store_scheme \<Rightarrow> stored_witness \<Rightarrow> 'a store_scheme \<times> bool res" where
  "SaveMembershipWitness K db w =
     in_tx db (
     if sw_ID w \<noteq> sw_ID (NewStoredWitness K (sw_EvidenceID w) (sw_LeafIndex w) (sw_Siblings w)) \<or> sw_Siblings w = []
     then Inl (ErrMsg ''invalid TrustRoot membership witness'')
     else bind_res (loadActiveEvidence db (sw_EvidenceID w)) (\<lambda>_.
     case find (\<lambda>r. te_EvidenceID r = sw_EvidenceID w \<and> er_Active r) (t_edges db) of
       None \<Rightarrow> Inl ErrEvidenceBinding
     | Some edge \<Rightarrow>
     if te_LeafIndex edge \<noteq> sw_LeafIndex w then Inl ErrEvidenceBinding
     else case stored_witness_for db (sw_EvidenceID w) of
       Some existing \<Rightarrow>
         if sw_ID existing \<noteq> sw_ID w \<or> sw_LeafIndex existing \<noteq> sw_LeafIndex w then Inl ErrGraphConflict
         else if sw_Siblings existing \<noteq> sw_Siblings w then Inl ErrGraphConflict
         else Inr (db, False)
     | None \<Rightarrow>
         if (\<exists>r \<in> set (t_witnesses db). sw_ID r = sw_ID w) \<or> length (sw_Siblings w) > 2 ^ 32 \<or>
            (\<exists>sn \<in> set (t_snapshots db). \<exists>e \<in> set (sn_Edges sn). te_WitnessID e = Some (sw_ID w))
         then Inl (ErrMsg ''insert membership witness'')
         else bind_res (bumpGraphRevision (db\<lparr>t_witnesses := t_witnesses db @ [w]\<rparr>)) (\<lambda>db'. Inr (db', True))))"

subsection \<open>Snapshots\<close>

record snapshot_request =
  sr_RequestID :: request_id
  sr_Attempt :: u64
  sr_HomeChainID :: chain_id
  sr_ExpectedHomeTrustRoot :: trust_root
  sr_StartNodeID :: node_id
  sr_TargetNodeID :: node_id

definition LoadSnapshot :: "'a store_scheme \<Rightarrow> snapshot_id \<Rightarrow> trust_view_snapshot res" where
  "LoadSnapshot db i = select_row ErrRecordNotFound (\<lambda>sn. sn_ID sn = i) (t_snapshots db)"

definition strip_evidence :: "trust_node \<Rightarrow> trust_node" where
  "strip_evidence n = n\<lparr>tn_EvidenceID := 0\<rparr>"

text \<open>
  The snapshot the statements materialize: the active nodes, without their evidence identifiers, which
  \<open>snapshot_nodes\<close> does not keep, and the active edges with their witnesses, both in the order they are read back.
\<close>

definition materialize :: "'a store_scheme \<Rightarrow> snapshot_id \<Rightarrow> snapshot_request \<Rightarrow> trust_view_snapshot" where
  "materialize db i rq =
     \<lparr>sn_ID = i, sn_Revision = of_nat (g_revision db), sn_HomeChainID = sr_HomeChainID rq,
      sn_HomeTrustRoot = sr_ExpectedHomeTrustRoot rq, sn_StartNodeID = sr_StartNodeID rq,
      sn_TargetNodeID = sr_TargetNodeID rq, sn_Sealed = True,
      sn_Nodes = sort_key tn_ID (map strip_evidence (active_nodes db)),
      sn_Edges = sort_key te_ID (active_edges db)\<rparr>"

text \<open>The foreign keys of \<open>snapshot_edges\<close>: both endpoints are nodes of the snapshot, and a witness has the leaf of its edge.\<close>

definition snapshot_edges_ok :: "'a store_scheme \<Rightarrow> trust_view_snapshot \<Rightarrow> bool" where
  "snapshot_edges_ok db sn \<longleftrightarrow>
     (\<forall>e \<in> set (sn_Edges sn). te_From e \<in> tn_ID ` set (sn_Nodes sn) \<and> te_To e \<in> tn_ID ` set (sn_Nodes sn) \<and>
        (case stored_witness_for db (te_EvidenceID e) of None \<Rightarrow> True | Some w \<Rightarrow> sw_LeafIndex w = te_LeafIndex e))"

definition CreateTrustViewSnapshot ::
  "keccak \<Rightarrow> 'a store_scheme \<Rightarrow> snapshot_request \<Rightarrow> 'a store_scheme \<times> trust_view_snapshot res" where
  "CreateTrustViewSnapshot K db rq =
     in_tx db (
     if sr_Attempt rq > MaxInt64 then Inl (ErrMsg ''snapshot attempt exceeds SQLite INTEGER range'')
     else if sr_StartNodeID rq = sr_TargetNodeID rq then Inl (ErrMsg ''TrustView snapshot start and target must differ'')
     else bind_res (LoadRequest db (sr_RequestID rq)) (\<lambda>persistedRequest.
     if rs_HomeChainID persistedRequest \<noteq> sr_HomeChainID rq then Inl ErrRecordConflict
     else bind_res (loadActiveTrustNode db (sr_StartNodeID rq)) (\<lambda>start.
     bind_res (loadActiveTrustNode db (sr_TargetNodeID rq)) (\<lambda>target.
     if nk_ChainID (tn_Key start) \<noteq> sr_HomeChainID rq \<or> tn_Root start \<noteq> sr_ExpectedHomeTrustRoot rq
     then Inl ErrTrustRootConflict
     else if nk_ChainID (tn_Key target) \<noteq> rs_SourceChainID persistedRequest \<or>
             nk_Height (tn_Key target) \<noteq> rs_SourceHeight persistedRequest \<or>
             nk_BlockHash (tn_Key target) \<noteq> rs_SourceBlockHash persistedRequest
     then Inl ErrEvidenceBinding
     else let i = ComputeSnapshotID K (sr_RequestID rq) (sr_Attempt rq) (of_nat (g_revision db)) (sr_StartNodeID rq)
                    (sr_TargetNodeID rq) (sr_ExpectedHomeTrustRoot rq)
     in case LoadSnapshot db i of
       Inr existing \<Rightarrow> Inr (db, existing)
     | Inl e \<Rightarrow>
         if e \<noteq> ErrRecordNotFound then Inl e
         else let sn = materialize db i rq
         in if \<not> snapshot_edges_ok db sn then Inl (ErrMsg ''materialize TrustEdges'')
         else if sr_StartNodeID rq \<notin> tn_ID ` set (sn_Nodes sn) \<or> sr_TargetNodeID rq \<notin> tn_ID ` set (sn_Nodes sn)
         then Inl ErrDanglingTrustEdge
         else let db' = db\<lparr>t_snapshots := t_snapshots db @ [sn]\<rparr>
         in bind_res (LoadSnapshot db' i) (\<lambda>loaded. Inr (db', loaded))))))"

subsection \<open>Observations\<close>

definition scanObservation :: "keccak \<Rightarrow> observation_row res \<Rightarrow> observation res" where
  "scanObservation K r =
     bind_res r (\<lambda>row.
     let result = observation.truncate row
     in if ob_ID result \<noteq> observation_ComputeID K result \<or> or_EvidenceID row \<noteq> ev_ID (SyntheticEvidence K result)
        then Inl ErrRecordConflict else Inr result)"

definition loadObservation :: "keccak \<Rightarrow> 'a store_scheme \<Rightarrow> hash \<Rightarrow> observation res" where
  "loadObservation K db i = scanObservation K (select_row ErrRecordNotFound (\<lambda>r. ob_ID r = i) (t_observations db))"

definition loadObservationByTuple :: "keccak \<Rightarrow> 'a store_scheme \<Rightarrow> observation \<Rightarrow> observation res" where
  "loadObservationByTuple K db ob =
     scanObservation K (select_row ErrRecordNotFound (\<lambda>r. ob_ChainID r = ob_ChainID ob \<and> ob_Height r = ob_Height ob \<and>
       ob_BlockHash r = ob_BlockHash ob \<and> ob_Gateway r = ob_Gateway ob) (t_observations db))"

definition sameObservationContent :: "observation \<Rightarrow> observation \<Rightarrow> bool" where
  "sameObservationContent left right \<longleftrightarrow>
     ob_ID left = ob_ID right \<and> observation_content.truncate left = observation_content.truncate right"

definition sameObservationTarget :: "observation \<Rightarrow> observation \<Rightarrow> bool" where
  "sameObservationTarget left right \<longleftrightarrow>
     ob_ChainID left = ob_ChainID right \<and> ob_Height left = ob_Height right \<and> ob_BlockHash left = ob_BlockHash right \<and>
     ob_Gateway left = ob_Gateway right \<and> ob_TrustRoot left = ob_TrustRoot right \<and>
     ob_GatewayCodeHash left = ob_GatewayCodeHash right \<and>
     ob_RequiredConfirmations left = ob_RequiredConfirmations right"

text \<open>The loop that takes the synthetic evidence through its states; it is \<open>Active\<close> afterwards.\<close>

definition observation_reason :: string where
  "observation_reason = ''TrustRootObservation RPC validation''"

fun advance_evidence ::
  "go_time \<Rightarrow> evidence_id \<Rightarrow> evidence_state \<Rightarrow> evidence_state list \<Rightarrow> 'a store_scheme \<Rightarrow> 'a store_scheme res" where
  "advance_evidence t i f [] db = Inr db"
| "advance_evidence t i f (to # states) db =
     (if \<exists>ob \<in> set (t_observations db). or_EvidenceID ob = i then Inl (ErrMsg ''TrustRootObservation evidence is immutable'')
      else if logged (t_evidence_transitions db) i f to then Inl (ErrMsg ''insert evidence transition'')
      else advance_evidence t i to states
        (db\<lparr>t_evidence := update_rows (\<lambda>r. ev_ID r = i \<and> ev_State r = f) (\<lambda>r. r\<lparr>ev_State := to, ev_UpdatedAt := t\<rparr>) (t_evidence db),
            t_evidence_transitions := t_evidence_transitions db @
              [\<lparr>tr_ID = i, tr_From = f, tr_To = to, tr_Reason = observation_reason, tr_ChangedAt = t\<rparr>]\<rparr>))"

definition observation_row_of :: "observation \<Rightarrow> evidence_id \<Rightarrow> observation_row" where
  "observation_row_of ob i = observation.extend ob \<lparr>or_EvidenceID = i\<rparr>"

text \<open>The insertion of a new observation with everything it brings along.\<close>

definition insert_observation :: "keccak \<Rightarrow> 'a store_scheme \<Rightarrow> observation \<Rightarrow> ('a store_scheme \<times> trust_node) res" where
  "insert_observation K db ob =
     (let ev = SyntheticEvidence K ob
      in if toUnix (ob_ObservedAt ob) \<le> 0 \<or> (\<exists>r \<in> set (t_evidence db). ev_ID r = ev_ID ev \<or> ev_Locator r = ev_Locator ev)
      then Inl (ErrMsg ''insert synthetic observation evidence'')
      else bind_res (advance_evidence (ob_ObservedAt ob) (ev_ID ev) Candidate [Verified, Confirmed, Active]
                       (db\<lparr>t_evidence := t_evidence db @ [ev]\<rparr>)) (\<lambda>db.
      if \<exists>r \<in> set (t_observations db). or_EvidenceID r = ev_ID ev \<or> ob_ID r = ob_ID ob
      then Inl (ErrMsg ''insert TrustRootObservation'')
      else let db = db\<lparr>t_observations := t_observations db @ [observation_row_of ob (ev_ID ev)]\<rparr>
      in bind_res (mergeTrustNode db (observation_TrustNode K ob)) (\<lambda>(db, _).
         bind_res (bumpGraphRevision db) (\<lambda>db. Inr (db, observation_TrustNode K ob)))))"

definition SaveObservation ::
  "keccak \<Rightarrow> go_time \<Rightarrow> 'a store_scheme \<Rightarrow> observation \<Rightarrow> 'a store_scheme \<times> (observation \<times> trust_node \<times> bool) res" where
  "SaveObservation K now db ob =
     in_tx db (
     bind_res (observation_Validate ob) (\<lambda>_.
     if ob_ID ob \<noteq> observation_ComputeID K ob then Inl ErrRecordConflict
     else if ob_RequiredConfirmations ob > MaxInt64 then Inl (ErrMsg ''observation confirmations exceed SQLite INTEGER range'')
     else let ob = (if ob_ObservedAt ob = zero_time then ob\<lparr>ob_ObservedAt := now\<rparr> else ob)
     in case loadObservation K db (ob_ID ob) of
       Inr persisted \<Rightarrow>
         if \<not> sameObservationContent persisted ob then Inl ErrRecordConflict
         else Inr (db, persisted, observation_TrustNode K persisted, False)
     | Inl e \<Rightarrow>
     if e \<noteq> ErrRecordNotFound then Inl e
     else case loadObservationByTuple K db ob of
       Inr persisted \<Rightarrow>
         if \<not> sameObservationTarget persisted ob then Inl ErrRecordConflict
         else Inr (db, persisted, observation_TrustNode K persisted, False)
     | Inl e \<Rightarrow>
     if e \<noteq> ErrRecordNotFound then Inl e
     else bind_res (loadLiveChain db (ob_ChainID ob)) (\<lambda>live.
     if vl_ValidatedAt live = zero_time \<or> vl_Gateway live \<noteq> ob_Gateway ob \<or> vl_GatewayCodeHash live \<noteq> ob_GatewayCodeHash ob \<or>
        lc_Confirmations (vl_Chain live) \<noteq> ob_RequiredConfirmations ob
     then Inl ErrRecordConflict
     else bind_res (insert_observation K db ob) (\<lambda>(db, node). Inr (db, ob, node, True)))))"

subsection \<open>The graph is well formed\<close>

definition node_rows_ok :: "keccak \<Rightarrow> 'a store_scheme \<Rightarrow> bool" where
  "node_rows_ok K db \<longleftrightarrow> distinct (map tn_ID (t_nodes db)) \<and>
     (\<forall>n \<in> set (t_nodes db). node_Validate K n = Inr () \<and> evidence_active db (tn_EvidenceID n))"

definition cross_chain :: "trust_node set \<Rightarrow> node_id \<Rightarrow> node_id \<Rightarrow> bool" where
  "cross_chain N f t \<longleftrightarrow> (\<exists>m \<in> N. \<exists>n \<in> N. tn_ID m = f \<and> tn_ID n = t \<and> nk_ChainID (tn_Key m) \<noteq> nk_ChainID (tn_Key n))"

definition edge_row_ok :: "keccak \<Rightarrow> 'a store_scheme \<Rightarrow> edge_row \<Rightarrow> bool" where
  "edge_row_ok K db r \<longleftrightarrow> edge_Validate K (row_edge db r) = Inr () \<and> er_Active r \<and> te_PathStepCost r \<le> MaxInt64 \<and>
     evidence_active db (te_EvidenceID r) \<and> cross_chain (set (t_nodes db)) (te_From r) (te_To r)"

definition edge_rows_ok :: "keccak \<Rightarrow> 'a store_scheme \<Rightarrow> bool" where
  "edge_rows_ok K db \<longleftrightarrow> distinct (map te_ID (t_edges db)) \<and> distinct (map te_EvidenceID (t_edges db)) \<and>
     (\<forall>r \<in> set (t_edges db). edge_row_ok K db r)"

definition witness_rows_ok :: "keccak \<Rightarrow> 'a store_scheme \<Rightarrow> bool" where
  "witness_rows_ok K db \<longleftrightarrow> distinct (map sw_ID (t_witnesses db)) \<and> distinct (map sw_EvidenceID (t_witnesses db)) \<and>
     (\<forall>w \<in> set (t_witnesses db). sw_Siblings w \<noteq> [] \<and>
        sw_ID w = sw_ID (NewStoredWitness K (sw_EvidenceID w) (sw_LeafIndex w) (sw_Siblings w)) \<and>
        (\<exists>r \<in> set (t_edges db). te_EvidenceID r = sw_EvidenceID w \<and> te_LeafIndex r = sw_LeafIndex w))"

text \<open>A sealed snapshot is a consistent view with distinct endpoints, and its witnesses are stored.\<close>

definition snapshot_ok :: "keccak \<Rightarrow> 'a store_scheme \<Rightarrow> trust_view_snapshot \<Rightarrow> bool" where
  "snapshot_ok K db sn \<longleftrightarrow> sn_Sealed sn \<and> nodes_consistent K (set (sn_Nodes sn)) \<and>
     edges_consistent K (set (sn_Nodes sn)) (set (sn_Edges sn)) \<and>
     distinct (map tn_ID (sn_Nodes sn)) \<and> distinct (map te_ID (sn_Edges sn)) \<and> sn_StartNodeID sn \<noteq> sn_TargetNodeID sn \<and>
     (\<exists>n \<in> set (sn_Nodes sn). tn_ID n = sn_StartNodeID sn \<and> nk_ChainID (tn_Key n) = sn_HomeChainID sn \<and> tn_Root n = sn_HomeTrustRoot sn) \<and>
     (\<exists>n \<in> set (sn_Nodes sn). tn_ID n = sn_TargetNodeID sn) \<and>
     (\<forall>e \<in> set (sn_Edges sn). te_PathStepCost e \<le> MaxInt64 \<and>
        (\<forall>i. te_WitnessID e = Some i \<longrightarrow> (\<exists>w \<in> set (t_witnesses db). sw_ID w = i \<and> sw_EvidenceID w = te_EvidenceID e \<and>
           sw_LeafIndex w = te_LeafIndex e)))"

definition snapshot_rows_ok :: "keccak \<Rightarrow> 'a store_scheme \<Rightarrow> bool" where
  "snapshot_rows_ok K db \<longleftrightarrow> distinct (map sn_ID (t_snapshots db)) \<and> (\<forall>sn \<in> set (t_snapshots db). snapshot_ok K db sn)"

definition graph_ok :: "keccak \<Rightarrow> 'a store_scheme \<Rightarrow> bool" where
  "graph_ok K db \<longleftrightarrow> node_rows_ok K db \<and> edge_rows_ok K db \<and> witness_rows_ok K db \<and> snapshot_rows_ok K db \<and>
     g_revision db < 2 ^ 63"

lemma evidence_active_frame [simp]:
  "evidence_active (db\<lparr>t_nodes := a\<rparr>) = evidence_active db" "evidence_active (db\<lparr>t_edges := b\<rparr>) = evidence_active db"
  "evidence_active (db\<lparr>t_witnesses := c\<rparr>) = evidence_active db" "evidence_active (db\<lparr>t_snapshots := d\<rparr>) = evidence_active db"
  "evidence_active (db\<lparr>g_revision := n\<rparr>) = evidence_active db" "evidence_active (db\<lparr>t_observations := ob\<rparr>) = evidence_active db"
  "evidence_active (db\<lparr>t_requests := rq\<rparr>) = evidence_active db" "evidence_active (db\<lparr>t_evidence_transitions := l\<rparr>) = evidence_active db"
  by (simp_all add: evidence_active_def fun_eq_iff)

lemma edge_Validate_row: "edge_Validate K (row_edge db r) = edge_Validate K (row_edge db' r)"
  by (simp add: edge_Validate_def row_edge_def NewTrustEdge_def)

lemma row_edge_fields [simp]:
  "te_ID (row_edge db r) = te_ID r" "te_From (row_edge db r) = te_From r" "te_To (row_edge db r) = te_To r"
  "te_EvidenceID (row_edge db r) = te_EvidenceID r" "te_LeafIndex (row_edge db r) = te_LeafIndex r"
  "te_PathStepCost (row_edge db r) = te_PathStepCost r"
  by (simp_all add: row_edge_def)

lemma edge_row_ok_mono:
  assumes "edge_row_ok K db r" "set (t_nodes db) \<subseteq> set (t_nodes db')" "\<And>i. evidence_active db i \<Longrightarrow> evidence_active db' i"
  shows "edge_row_ok K db' r"
  using assms edge_Validate_row[of K db' r db] unfolding edge_row_ok_def cross_chain_def by fastforce

lemma snapshot_ok_mono:
  assumes "snapshot_ok K db sn" "set (t_witnesses db) \<subseteq> set (t_witnesses db')"
  shows "snapshot_ok K db' sn"
  using assms unfolding snapshot_ok_def by blast

text \<open>What is not a table of the graph does not matter, and evidence only gains active rows.\<close>

lemma graph_ok_frame:
  assumes "graph_ok K db" "\<And>i. evidence_active db i \<Longrightarrow> evidence_active db' i"
    and "t_nodes db' = t_nodes db" "t_edges db' = t_edges db" "t_witnesses db' = t_witnesses db"
    and "t_snapshots db' = t_snapshots db" "g_revision db' = g_revision db"
  shows "graph_ok K db'"
proof -
  have "node_rows_ok K db'" using assms by (simp add: graph_ok_def node_rows_ok_def)
  moreover have "edge_rows_ok K db'"
    using assms edge_row_ok_mono[of K db _ db'] by (simp add: graph_ok_def edge_rows_ok_def)
  moreover have "witness_rows_ok K db'" using assms by (simp add: graph_ok_def witness_rows_ok_def)
  moreover have "snapshot_rows_ok K db'"
    using assms snapshot_ok_mono[of K db _ db'] by (simp add: graph_ok_def snapshot_rows_ok_def)
  ultimately show ?thesis using assms by (simp add: graph_ok_def)
qed

lemma graph_ok_empty: "graph_ok K empty_store"
  by (simp add: graph_ok_def node_rows_ok_def edge_rows_ok_def witness_rows_ok_def snapshot_rows_ok_def empty_store_def)

lemma bump_ok:
  assumes "bumpGraphRevision db = Inr db'" "graph_ok K db"
  shows "graph_ok K db'" "db' = db\<lparr>g_revision := g_revision db + 1\<rparr>"
proof -
  have db': "db' = db\<lparr>g_revision := g_revision db + 1\<rparr>" "g_revision db + 1 < 2 ^ 63"
    using assms(1) by (auto simp: bumpGraphRevision_def split: if_splits)
  have "edge_row_ok K db' r = edge_row_ok K db r" for r
    using edge_Validate_row[of K db' r db] by (simp add: edge_row_ok_def db' evidence_active_def)
  moreover have "snapshot_ok K db' sn = snapshot_ok K db sn" for sn by (simp add: snapshot_ok_def db')
  ultimately show "graph_ok K db'"
    using assms(2) db'(2) unfolding graph_ok_def node_rows_ok_def edge_rows_ok_def witness_rows_ok_def snapshot_rows_ok_def
    by (simp add: db' evidence_active_def)
qed (use assms in \<open>auto simp: bumpGraphRevision_def split: if_splits\<close>)

lemma mergeTrustNode_Inr:
  assumes "mergeTrustNode db node = Inr (db', c)" "graph_ok K db" "node_Validate K node = Inr ()"
  obtains "db' = db" "\<not> c" "node \<in> set (t_nodes db)"
  | "db' = db\<lparr>t_nodes := t_nodes db @ [node]\<rparr>" "c" "evidence_active db (tn_EvidenceID node)" "tn_ID node \<notin> tn_ID ` set (t_nodes db)"
proof (cases "find (\<lambda>n. tn_Key n = tn_Key node) (t_nodes db)")
  case None
  then show ?thesis using assms(1) that(2) by (force simp: mergeTrustNode_def split: if_splits)
next
  case (Some n)
  then have n: "tn_Key n = tn_Key node" "n \<in> set (t_nodes db)" by (auto dest: find_SomeD)
  then have "tn_ID n = tn_ID node" "tn_Root n = tn_Root node" "tn_EvidenceID n = tn_EvidenceID node" "db' = db" "\<not> c"
    using assms(1) Some by (auto simp: mergeTrustNode_def split: if_splits)
  with n have "n = node" by (cases n; cases node) simp
  with n \<open>db' = db\<close> \<open>\<not> c\<close> show ?thesis by (intro that(1)) simp_all
qed

lemma mergeTrustNode_ok:
  assumes "mergeTrustNode db node = Inr (db', c)" "graph_ok K db" "node_Validate K node = Inr ()"
  shows "graph_ok K db'" "node \<in> set (t_nodes db')" "set (t_nodes db) \<subseteq> set (t_nodes db')"
    "t_evidence db' = t_evidence db" "t_observations db' = t_observations db"
proof -
  show "node \<in> set (t_nodes db')" using assms by (rule mergeTrustNode_Inr) simp_all
  show "set (t_nodes db) \<subseteq> set (t_nodes db')" using assms by (rule mergeTrustNode_Inr) auto
  show "t_evidence db' = t_evidence db" using assms by (rule mergeTrustNode_Inr) simp_all
  show "t_observations db' = t_observations db" using assms by (rule mergeTrustNode_Inr) simp_all
  show "graph_ok K db'"
    using assms(1-3)
  proof (rule mergeTrustNode_Inr)
    assume "db' = db"
    then show ?thesis using assms(2) by simp
  next
    assume d: "db' = db\<lparr>t_nodes := t_nodes db @ [node]\<rparr>" "evidence_active db (tn_EvidenceID node)" "tn_ID node \<notin> tn_ID ` set (t_nodes db)"
    have act: "evidence_active db' i = evidence_active db i" for i by (simp add: d(1))
    have "node_rows_ok K db'" using assms(2,3) d by (simp add: graph_ok_def node_rows_ok_def)
    moreover have "edge_row_ok K db' r" if "edge_row_ok K db r" for r
      using edge_row_ok_mono[OF that, of db'] act by (auto simp: d(1))
    then have "edge_rows_ok K db'" using assms(2) by (simp add: graph_ok_def edge_rows_ok_def d(1))
    moreover have "witness_rows_ok K db'" using assms(2) by (simp add: graph_ok_def witness_rows_ok_def d(1))
    moreover have "snapshot_rows_ok K db'"
      using assms(2) snapshot_ok_mono[of K db _ db'] by (simp add: graph_ok_def snapshot_rows_ok_def d(1))
    ultimately show ?thesis using assms(2) by (simp add: graph_ok_def d(1))
  qed
qed

lemma new_edge_row_fields [simp]:
  "te_ID (new_edge_row e) = te_ID e" "te_From (new_edge_row e) = te_From e" "te_To (new_edge_row e) = te_To e"
  "te_EvidenceID (new_edge_row e) = te_EvidenceID e" "te_LeafIndex (new_edge_row e) = te_LeafIndex e"
  "te_PathStepCost (new_edge_row e) = te_PathStepCost e" "er_Active (new_edge_row e)"
  by (simp_all add: new_edge_row_def trust_edge.defs)

lemma edge_Validate_new_row: "edge_Validate K (row_edge db (new_edge_row e)) = edge_Validate K e"
  by (simp add: edge_Validate_def NewTrustEdge_def)

lemma mergeTrustEdge_Inr:
  assumes "mergeTrustEdge db edge = Inr (db', c)" "graph_ok K db"
  obtains "db' = db" "\<not> c" "\<exists>r \<in> set (t_edges db). te_ID r = te_ID edge"
  | "db' = db\<lparr>t_edges := t_edges db @ [new_edge_row edge]\<rparr>" "c" "evidence_active db (te_EvidenceID edge)"
    "te_ID edge \<notin> te_ID ` set (t_edges db)" "te_EvidenceID edge \<notin> te_EvidenceID ` set (t_edges db)"
proof (cases "find (\<lambda>r. te_ID r = te_ID edge) (t_edges db)")
  case None
  then have "\<forall>r \<in> set (t_edges db). te_ID r \<noteq> te_ID edge" by (simp add: find_None_iff)
  then have "te_ID edge \<notin> te_ID ` set (t_edges db)" by auto
  moreover have "\<forall>r \<in> set (t_edges db). te_EvidenceID r \<noteq> te_EvidenceID edge" "edge_allowed db edge"
    "db' = db\<lparr>t_edges := t_edges db @ [new_edge_row edge]\<rparr>" "c"
    using assms(1) None by (simp_all add: mergeTrustEdge_def split: if_splits)
  moreover from this(1) have "te_EvidenceID edge \<notin> te_EvidenceID ` set (t_edges db)" by auto
  ultimately show ?thesis by (intro that(2)) (simp_all add: edge_allowed_def)
next
  case (Some r)
  then have r: "r \<in> set (t_edges db)" "te_ID r = te_ID edge" by (auto dest: find_SomeD)
  then have "er_Active r" using assms(2) by (simp add: graph_ok_def edge_rows_ok_def edge_row_ok_def)
  then show ?thesis using assms(1) Some r that(1) by (auto simp: mergeTrustEdge_def split: if_splits)
qed

lemma mergeTrustEdge_ok:
  assumes "mergeTrustEdge db edge = Inr (db', c)" "graph_ok K db" "edge_Validate K edge = Inr ()"
    and "te_PathStepCost edge \<le> MaxInt64" "cross_chain (set (t_nodes db)) (te_From edge) (te_To edge)"
  shows "graph_ok K db'"
  using assms(1,2)
proof (rule mergeTrustEdge_Inr)
  assume "db' = db"
  then show ?thesis using assms(2) by simp
next
  assume d: "db' = db\<lparr>t_edges := t_edges db @ [new_edge_row edge]\<rparr>" "evidence_active db (te_EvidenceID edge)"
    "te_ID edge \<notin> te_ID ` set (t_edges db)" "te_EvidenceID edge \<notin> te_EvidenceID ` set (t_edges db)"
  have act: "evidence_active db' i = evidence_active db i" for i by (simp add: d(1) evidence_active_def)
  have "node_rows_ok K db'" using assms(2) by (simp add: graph_ok_def node_rows_ok_def d(1) evidence_active_def)
  moreover have "edge_row_ok K db' r" if "edge_row_ok K db r" for r
    using edge_row_ok_mono[OF that, of db'] act by (simp add: d(1))
  moreover have "edge_row_ok K db' (new_edge_row edge)"
    using assms(3-5) d(2) by (simp add: edge_row_ok_def act edge_Validate_new_row) (simp add: d(1))
  ultimately have "node_rows_ok K db'" "edge_rows_ok K db'" 
    using assms(2) d(3,4) by (auto simp: graph_ok_def edge_rows_ok_def d(1))
  moreover have "witness_rows_ok K db'" using assms(2) by (simp add: graph_ok_def witness_rows_ok_def d(1))
  moreover have "snapshot_rows_ok K db'"
    using assms(2) snapshot_ok_mono[of K db _ db'] by (simp add: graph_ok_def snapshot_rows_ok_def d(1))
  ultimately show ?thesis using assms(2) by (simp add: graph_ok_def d(1))
qed

lemma in_tx_kept: "in_tx db r = (db', Inl e) \<Longrightarrow> db' = db"
  by (auto simp: in_tx_def split: sum.splits)

lemma in_tx_Inr: "in_tx db r = (db', Inr x) \<longleftrightarrow> r = Inr (db', x)"
  by (auto simp: in_tx_def split: sum.splits)

lemma in_tx_ok:
  assumes "in_tx db r = (db', x)" "P db" "\<And>d y. r = Inr (d, y) \<Longrightarrow> P d"
  shows "P db'"
  using assms by (auto simp: in_tx_def split: sum.splits)

lemma check_merge_ok:
  "check_merge K f t e = Inr u \<longleftrightarrow> node_Validate K f = Inr () \<and> node_Validate K t = Inr () \<and> edge_Validate K e = Inr () \<and>
     te_From e = tn_ID f \<and> te_To e = tn_ID t \<and> nk_ChainID (tn_Key f) \<noteq> nk_ChainID (tn_Key t) \<and> te_PathStepCost e \<le> MaxInt64"
  by (auto simp: check_merge_def not_less)

lemma merge_graph_ok:
  assumes "merge_graph db f t e = Inr (db', y)" "check_merge K f t e = Inr u" "graph_ok K db"
  shows "graph_ok K db'"
proof -
  obtain db1 c1 db2 c2 db3 c3 where m: "mergeTrustNode db f = Inr (db1, c1)"
    "mergeTrustNode db1 t = Inr (db2, c2)" "mergeTrustEdge db2 e = Inr (db3, c3)" "bumpGraphRevision db3 = Inr db' \<or> db' = db3"
    using assms(1) by (auto simp: merge_graph_def split: if_splits)
  note c = assms(2)[unfolded check_merge_ok]
  note m1 = mergeTrustNode_ok[OF m(1) assms(3)]
  have g1: "graph_ok K db1" "f \<in> set (t_nodes db1)" using m1 c by blast+
  note m2 = mergeTrustNode_ok[OF m(2) g1(1)]
  have g2: "graph_ok K db2" "t \<in> set (t_nodes db2)" "f \<in> set (t_nodes db2)" using m2 c g1(2) by blast+
  then have "cross_chain (set (t_nodes db2)) (te_From e) (te_To e)" using c by (auto simp: cross_chain_def)
  then have "graph_ok K db3" using mergeTrustEdge_ok[OF m(3) g2(1)] c by blast
  then show "graph_ok K db'" using m(4) bump_ok(1) by blast
qed

lemma MergeActiveTrustEdge_ok:
  assumes "MergeActiveTrustEdge K db f t e d = (db', x)" "graph_ok K db"
  shows "graph_ok K db'"
proof (cases x)
  case (Inl err)
  show ?thesis using in_tx_kept[OF assms(1)[unfolded Inl MergeActiveTrustEdge_def]] assms(2) by simp
next
  case (Inr y)
  then have "check_merge K f t e = Inr ()" "merge_graph db f t e = Inr (db', y)"
    using assms(1) unfolding Inr MergeActiveTrustEdge_def in_tx_Inr by (auto split: if_splits sum.splits)
  then show ?thesis using merge_graph_ok assms(2) by blast
qed

lemma SaveMembershipWitness_Inr:
  assumes "SaveMembershipWitness K db w = (db', Inr c)"
  obtains "db' = db" "\<not> c"
  | r where "bumpGraphRevision (db\<lparr>t_witnesses := t_witnesses db @ [w]\<rparr>) = Inr db'" "c" "sw_Siblings w \<noteq> []"
    "sw_ID w = sw_ID (NewStoredWitness K (sw_EvidenceID w) (sw_LeafIndex w) (sw_Siblings w))"
    "r \<in> set (t_edges db)" "te_EvidenceID r = sw_EvidenceID w" "te_LeafIndex r = sw_LeafIndex w"
    "sw_ID w \<notin> sw_ID ` set (t_witnesses db)" "stored_witness_for db (sw_EvidenceID w) = None"
proof -
  obtain r where r: "find (\<lambda>r. te_EvidenceID r = sw_EvidenceID w \<and> er_Active r) (t_edges db) = Some r"
    "te_LeafIndex r = sw_LeafIndex w" "sw_Siblings w \<noteq> []"
    "sw_ID w = sw_ID (NewStoredWitness K (sw_EvidenceID w) (sw_LeafIndex w) (sw_Siblings w))"
    using assms unfolding SaveMembershipWitness_def in_tx_Inr by (auto split: if_splits option.splits)
  then have r': "r \<in> set (t_edges db)" "te_EvidenceID r = sw_EvidenceID w" by (auto dest: find_SomeD)
  show ?thesis
  proof (cases "stored_witness_for db (sw_EvidenceID w)")
    case None
    have "\<forall>x \<in> set (t_witnesses db). sw_ID x \<noteq> sw_ID w" "bumpGraphRevision (db\<lparr>t_witnesses := t_witnesses db @ [w]\<rparr>) = Inr db'" "c"
      using assms r None unfolding SaveMembershipWitness_def in_tx_Inr by (auto split: if_splits)
    moreover from this(1) have "sw_ID w \<notin> sw_ID ` set (t_witnesses db)" by auto
    ultimately show ?thesis using that(2) r r' None by blast
  next
    case (Some x)
    then have "db' = db" "\<not> c"
      using assms r unfolding SaveMembershipWitness_def in_tx_Inr by (auto split: if_splits)
    then show ?thesis by (rule that(1))
  qed
qed

lemma graph_ok_add_witness:
  assumes "graph_ok K db" "sw_Siblings w \<noteq> []" "sw_ID w = sw_ID (NewStoredWitness K (sw_EvidenceID w) (sw_LeafIndex w) (sw_Siblings w))"
    and "r \<in> set (t_edges db)" "te_EvidenceID r = sw_EvidenceID w" "te_LeafIndex r = sw_LeafIndex w"
    and "sw_ID w \<notin> sw_ID ` set (t_witnesses db)" "stored_witness_for db (sw_EvidenceID w) = None"
  shows "graph_ok K (db\<lparr>t_witnesses := t_witnesses db @ [w]\<rparr>)"
proof -
  let ?d = "db\<lparr>t_witnesses := t_witnesses db @ [w]\<rparr>"
  have "\<forall>x \<in> set (t_witnesses db). sw_EvidenceID x \<noteq> sw_EvidenceID w"
    using assms(8) by (simp add: stored_witness_for_def find_None_iff)
  then have ev: "sw_EvidenceID w \<notin> sw_EvidenceID ` set (t_witnesses db)" by auto
  have "node_rows_ok K ?d" using assms(1) by (simp add: graph_ok_def node_rows_ok_def)
  moreover have "edge_row_ok K ?d r" if "edge_row_ok K db r" for r
    using edge_row_ok_mono[OF that, of ?d] by simp
  then have "edge_rows_ok K ?d" using assms(1) by (simp add: graph_ok_def edge_rows_ok_def)
  moreover have "witness_rows_ok K ?d"
    using assms(1-7) ev unfolding graph_ok_def witness_rows_ok_def by auto
  moreover have "snapshot_rows_ok K ?d"
    using assms(1) snapshot_ok_mono[of K db _ ?d] by (auto simp: graph_ok_def snapshot_rows_ok_def)
  ultimately show ?thesis using assms(1) by (simp add: graph_ok_def)
qed

lemma SaveMembershipWitness_ok:
  assumes "SaveMembershipWitness K db w = (db', x)" "graph_ok K db"
  shows "graph_ok K db'"
proof (cases x)
  case (Inl e)
  show ?thesis using in_tx_kept[OF assms(1)[unfolded Inl SaveMembershipWitness_def]] assms(2) by simp
next
  case (Inr c)
  from assms(1)[unfolded Inr] show ?thesis
  proof (rule SaveMembershipWitness_Inr)
    fix r assume r: "bumpGraphRevision (db\<lparr>t_witnesses := t_witnesses db @ [w]\<rparr>) = Inr db'" "sw_Siblings w \<noteq> []"
      "sw_ID w = sw_ID (NewStoredWitness K (sw_EvidenceID w) (sw_LeafIndex w) (sw_Siblings w))"
      "r \<in> set (t_edges db)" "te_EvidenceID r = sw_EvidenceID w" "te_LeafIndex r = sw_LeafIndex w"
      "sw_ID w \<notin> sw_ID ` set (t_witnesses db)" "stored_witness_for db (sw_EvidenceID w) = None"
    show ?thesis using bump_ok(1)[OF r(1)] graph_ok_add_witness[OF assms(2) r(2-8)] by blast
  qed (simp add: assms(2))
qed

subsection \<open>The current view and the snapshots are consistent\<close>

lemma active_nodes_all: "graph_ok K db \<Longrightarrow> active_nodes db = t_nodes db"
  by (simp add: active_nodes_def graph_ok_def node_rows_ok_def)

lemma active_edges_all: "graph_ok K db \<Longrightarrow> active_edges db = map (row_edge db) (t_edges db)"
proof -
  assume "graph_ok K db"
  then have "filter (\<lambda>r. er_Active r \<and> evidence_active db (te_EvidenceID r)) (t_edges db) = t_edges db"
    by (simp add: graph_ok_def edge_rows_ok_def edge_row_ok_def)
  then show ?thesis by (simp add: active_edges_def)
qed

lemma nodes_consistent_rows: "graph_ok K db \<Longrightarrow> nodes_consistent K (set (t_nodes db))"
  by (simp add: graph_ok_def node_rows_ok_def nodes_consistent_def distinct_map)

lemma edges_consistent_rows:
  assumes "graph_ok K db"
  shows "edges_consistent K (set (t_nodes db)) (row_edge db ` set (t_edges db))"
proof -
  have "inj_on te_ID (row_edge db ` set (t_edges db))"
    using assms by (auto simp: graph_ok_def edge_rows_ok_def distinct_map inj_on_def)
  then show ?thesis using assms
    by (auto simp: graph_ok_def edge_rows_ok_def edge_row_ok_def cross_chain_def edges_consistent_def)
qed

lemma current_view_ok:
  assumes "graph_ok K db"
  obtains v where "CurrentTrustView K db = Inr v" "set (tv_Nodes v) = set (t_nodes db)"
    "set (tv_Edges v) = row_edge db ` set (t_edges db)" "tv_Revision v = of_nat (g_revision db)"
proof -
  have n: "set (sort_key tn_ID (active_nodes db)) = set (t_nodes db)" by (simp add: active_nodes_all[OF assms])
  have e: "set (sort_key te_ID (active_edges db)) = row_edge db ` set (t_edges db)" by (simp add: active_edges_all[OF assms])
  have con: "nodes_consistent K (set (sort_key tn_ID (active_nodes db)))"
    "edges_consistent K (set (sort_key tn_ID (active_nodes db))) (set (sort_key te_ID (active_edges db)))"
    unfolding n e using nodes_consistent_rows[OF assms] edges_consistent_rows[OF assms] by blast+
  obtain v where "NewTrustView K (of_nat (g_revision db)) (sort_key tn_ID (active_nodes db)) (sort_key te_ID (active_edges db)) = Inr v"
    "tv_Revision v = of_nat (g_revision db)" "set (tv_Nodes v) = set (sort_key tn_ID (active_nodes db))"
    "set (tv_Edges v) = set (sort_key te_ID (active_edges db))"
    by (rule NewTrustView_ok[OF con])
  then show thesis using n e by (intro that[of v]) (simp_all add: CurrentTrustView_def)
qed

lemma strip_evidence_fields [simp]:
  "tn_ID (strip_evidence n) = tn_ID n" "tn_Key (strip_evidence n) = tn_Key n" "tn_Root (strip_evidence n) = tn_Root n"
  by (simp_all add: strip_evidence_def)

lemma node_Validate_strip [simp]: "node_Validate K (strip_evidence n) = node_Validate K n"
  by (cases "chain_Validate (nk_ChainID (tn_Key n))") (simp_all add: node_Validate_def NewTrustNode_def Let_def)

lemma nodes_consistent_strip: "nodes_consistent K N \<Longrightarrow> nodes_consistent K (strip_evidence ` N)"
  by (auto simp: nodes_consistent_def inj_on_def)

lemma edges_consistent_strip: "edges_consistent K N E \<Longrightarrow> edges_consistent K (strip_evidence ` N) E"
  by (fastforce simp: edges_consistent_def)

lemma materialize_nodes:
  "graph_ok K db \<Longrightarrow> sn_Nodes (materialize db i rq) = sort_key tn_ID (map strip_evidence (t_nodes db))"
  by (simp add: materialize_def active_nodes_all)

lemma materialize_edges:
  "graph_ok K db \<Longrightarrow> sn_Edges (materialize db i rq) = sort_key te_ID (map (row_edge db) (t_edges db))"
  by (simp add: materialize_def active_edges_all)

lemma distinct_map_comp: "distinct (map f (map g xs)) \<longleftrightarrow> distinct (map (\<lambda>x. f (g x)) xs)"
  by (simp add: comp_def)

lemma row_witness:
  assumes "te_WitnessID (row_edge db r) = Some i"
  obtains w where "stored_witness_for db (te_EvidenceID r) = Some w" "w \<in> set (t_witnesses db)" "sw_ID w = i"
    "sw_EvidenceID w = te_EvidenceID r"
  using assms by (auto simp: row_edge_def stored_witness_for_def dest: find_SomeD)

lemma materialize_ok:
  assumes "graph_ok K db" "start \<in> set (t_nodes db)" "target \<in> set (t_nodes db)" "tn_ID start = sr_StartNodeID rq"
    and "tn_ID target = sr_TargetNodeID rq" "sr_StartNodeID rq \<noteq> sr_TargetNodeID rq"
    and "nk_ChainID (tn_Key start) = sr_HomeChainID rq" "tn_Root start = sr_ExpectedHomeTrustRoot rq"
    and "snapshot_edges_ok db (materialize db i rq)"
  shows "snapshot_ok K db (materialize db i rq)"
proof -
  let ?sn = "materialize db i rq"
  have n: "set (sn_Nodes ?sn) = strip_evidence ` set (t_nodes db)" by (simp add: materialize_nodes[OF assms(1)])
  have e: "set (sn_Edges ?sn) = row_edge db ` set (t_edges db)" by (simp add: materialize_edges[OF assms(1)])
  have f: "sn_Sealed ?sn" "sn_StartNodeID ?sn = sr_StartNodeID rq" "sn_TargetNodeID ?sn = sr_TargetNodeID rq"
    "sn_HomeChainID ?sn = sr_HomeChainID rq" "sn_HomeTrustRoot ?sn = sr_ExpectedHomeTrustRoot rq"
    by (simp_all add: materialize_def)
  have con: "nodes_consistent K (set (sn_Nodes ?sn))" "edges_consistent K (set (sn_Nodes ?sn)) (set (sn_Edges ?sn))"
    unfolding n e using nodes_consistent_strip[OF nodes_consistent_rows[OF assms(1)]]
      edges_consistent_strip[OF edges_consistent_rows[OF assms(1)]] by blast+
  have dist: "distinct (map tn_ID (sn_Nodes ?sn))" "distinct (map te_ID (sn_Edges ?sn))"
    unfolding materialize_nodes[OF assms(1)] materialize_edges[OF assms(1)] distinct_map_sort_key distinct_map_comp
    using assms(1) by (simp_all add: graph_ok_def node_rows_ok_def edge_rows_ok_def)
  have st: "\<exists>n \<in> set (sn_Nodes ?sn). tn_ID n = sn_StartNodeID ?sn \<and> nk_ChainID (tn_Key n) = sn_HomeChainID ?sn \<and>
      tn_Root n = sn_HomeTrustRoot ?sn" "\<exists>n \<in> set (sn_Nodes ?sn). tn_ID n = sn_TargetNodeID ?sn"
    unfolding n f using assms(2-5,7,8) by auto
  have "te_PathStepCost x \<le> MaxInt64 \<and> (\<forall>j. te_WitnessID x = Some j \<longrightarrow> (\<exists>w \<in> set (t_witnesses db). sw_ID w = j \<and>
      sw_EvidenceID w = te_EvidenceID x \<and> sw_LeafIndex w = te_LeafIndex x))" if "x \<in> set (sn_Edges ?sn)" for x
  proof -
    obtain r where r: "r \<in> set (t_edges db)" "x = row_edge db r" using \<open>x \<in> set (sn_Edges ?sn)\<close> e by auto
    have leaf: "sw_LeafIndex w = te_LeafIndex x" if "stored_witness_for db (te_EvidenceID x) = Some w" for w
      using assms(9) \<open>x \<in> set (sn_Edges ?sn)\<close> that by (auto simp: snapshot_edges_ok_def)
    have "te_PathStepCost x \<le> MaxInt64" using assms(1) r by (simp add: graph_ok_def edge_rows_ok_def edge_row_ok_def)
    moreover have "\<exists>w \<in> set (t_witnesses db). sw_ID w = j \<and> sw_EvidenceID w = te_EvidenceID x \<and> sw_LeafIndex w = te_LeafIndex x"
      if "te_WitnessID x = Some j" for j
      using that leaf unfolding r(2) by (auto elim: row_witness)
    ultimately show ?thesis by blast
  qed
  then show ?thesis using f con dist st assms(6) by (simp add: snapshot_ok_def)
qed

lemma CreateTrustViewSnapshot_Inr:
  assumes "CreateTrustViewSnapshot K db rq = (db', Inr sn)" "graph_ok K db"
  obtains rec i where "i = ComputeSnapshotID K (sr_RequestID rq) (sr_Attempt rq) (of_nat (g_revision db)) (sr_StartNodeID rq)
      (sr_TargetNodeID rq) (sr_ExpectedHomeTrustRoot rq)"
    "LoadRequest db (sr_RequestID rq) = Inr rec" "rs_HomeChainID rec = sr_HomeChainID rq" "sr_Attempt rq \<le> MaxInt64"
    "LoadSnapshot db i = Inr sn \<and> db' = db \<or>
     \<not> is_ok (LoadSnapshot db i) \<and> sn = materialize db i rq \<and> snapshot_ok K db sn \<and> db' = db\<lparr>t_snapshots := t_snapshots db @ [sn]\<rparr>"
proof -
  let ?i = "ComputeSnapshotID K (sr_RequestID rq) (sr_Attempt rq) (of_nat (g_revision db)) (sr_StartNodeID rq)
      (sr_TargetNodeID rq) (sr_ExpectedHomeTrustRoot rq)"
  obtain rec start target where c: "LoadRequest db (sr_RequestID rq) = Inr rec" "rs_HomeChainID rec = sr_HomeChainID rq"
    "\<not> sr_Attempt rq > MaxInt64" "sr_StartNodeID rq \<noteq> sr_TargetNodeID rq" "loadActiveTrustNode db (sr_StartNodeID rq) = Inr start"
    "loadActiveTrustNode db (sr_TargetNodeID rq) = Inr target" "nk_ChainID (tn_Key start) = sr_HomeChainID rq"
    "tn_Root start = sr_ExpectedHomeTrustRoot rq"
    and body: "(case LoadSnapshot db ?i of Inr existing \<Rightarrow> Inr (db, existing)
     | Inl e \<Rightarrow>
         if e \<noteq> ErrRecordNotFound then Inl e
         else let sn = materialize db ?i rq
         in if \<not> snapshot_edges_ok db sn then Inl (ErrMsg ''materialize TrustEdges'')
         else if sr_StartNodeID rq \<notin> tn_ID ` set (sn_Nodes sn) \<or> sr_TargetNodeID rq \<notin> tn_ID ` set (sn_Nodes sn)
         then Inl ErrDanglingTrustEdge
         else let db' = db\<lparr>t_snapshots := t_snapshots db @ [sn]\<rparr>
         in bind_res (LoadSnapshot db' ?i) (\<lambda>loaded. Inr (db', loaded))) = Inr (db', sn)"
    using assms(1) unfolding CreateTrustViewSnapshot_def in_tx_Inr by (auto simp: Let_def split: if_splits)
  have nodes: "start \<in> set (t_nodes db)" "tn_ID start = sr_StartNodeID rq" "target \<in> set (t_nodes db)" "tn_ID target = sr_TargetNodeID rq"
    using c(5,6) by (auto simp: loadActiveTrustNode_def active_nodes_all[OF assms(2)] dest: select_row_InrD)
  have final: "LoadSnapshot db ?i = Inr sn \<and> db' = db \<or> \<not> is_ok (LoadSnapshot db ?i) \<and> sn = materialize db ?i rq \<and>
      snapshot_ok K db sn \<and> db' = db\<lparr>t_snapshots := t_snapshots db @ [sn]\<rparr>"
  proof (cases "LoadSnapshot db ?i")
    case (Inr x)
    then show ?thesis using body by simp
  next
    case (Inl e)
    let ?sn = "materialize db ?i rq"
    let ?d = "db\<lparr>t_snapshots := t_snapshots db @ [?sn]\<rparr>"
    have ok: "snapshot_edges_ok db ?sn" "db' = ?d" "LoadSnapshot ?d ?i = Inr sn"
      using body Inl by (auto simp: Let_def split: if_splits)
    have new: "\<forall>x \<in> set (t_snapshots db). sn_ID x \<noteq> ?i"
      using Inl by (auto simp: LoadSnapshot_def select_row_def find_None_iff split: option.splits)
    have "LoadSnapshot ?d ?i = Inr ?sn"
      using new by (simp add: LoadSnapshot_def select_row_append materialize_def)
    then have "sn = ?sn" using ok(3) by simp
    moreover have "snapshot_ok K db ?sn"
      by (rule materialize_ok[OF assms(2) nodes(1,3,2,4) c(4,7,8) ok(1)])
    ultimately show ?thesis using Inl ok(2) by simp
  qed
  show thesis by (rule that[OF refl c(1,2) _ final]) (use c(3) in simp)
qed

lemma CreateTrustViewSnapshot_ok:
  assumes "CreateTrustViewSnapshot K db rq = (db', x)" "graph_ok K db"
  shows "graph_ok K db'"
proof (cases x)
  case (Inl e)
  show ?thesis using in_tx_kept[OF assms(1)[unfolded Inl CreateTrustViewSnapshot_def]] assms(2) by simp
next
  case (Inr sn)
  obtain i where i: "LoadSnapshot db i = Inr sn \<and> db' = db \<or> \<not> is_ok (LoadSnapshot db i) \<and> sn = materialize db i rq \<and>
      snapshot_ok K db sn \<and> db' = db\<lparr>t_snapshots := t_snapshots db @ [sn]\<rparr>"
    by (rule CreateTrustViewSnapshot_Inr[OF assms(1)[unfolded Inr] assms(2)])
  show ?thesis
  proof (cases "db' = db")
    case False
    then have sn: "\<not> is_ok (LoadSnapshot db i)" "sn = materialize db i rq" "snapshot_ok K db sn" "db' = db\<lparr>t_snapshots := t_snapshots db @ [sn]\<rparr>"
      using i by blast+
    have "\<forall>y \<in> set (t_snapshots db). sn_ID y \<noteq> i"
      using sn(1) by (auto simp: LoadSnapshot_def select_row_def find_None_iff split: option.splits)
    then have new: "sn_ID sn \<notin> sn_ID ` set (t_snapshots db)" by (auto simp: sn(2) materialize_def)
    have "snapshot_ok K db' y" if "snapshot_ok K db y" for y using snapshot_ok_mono[OF that, of db'] by (simp add: sn(4))
    moreover have "edge_row_ok K db' r" if "edge_row_ok K db r" for r using edge_row_ok_mono[OF that, of db'] by (simp add: sn(4))
    ultimately show ?thesis using assms(2) sn(3) new
      unfolding graph_ok_def node_rows_ok_def edge_rows_ok_def witness_rows_ok_def snapshot_rows_ok_def by (auto simp: sn(4))
  qed (simp add: assms(2))
qed

lemma TransitionEvidence_graph:
  assumes "TransitionEvidence now db i f t m = (db', x)" "graph_ok K db"
  shows "graph_ok K db'"
proof (cases "\<exists>r. x = Inr (r, True)")
  case True
  then obtain r where "TransitionEvidence now db i f t m = (db', Inr (r, True))" using assms(1) by blast
  then show ?thesis
  proof (rule TransitionEvidence_moved)
    fix a c
    assume l: "legal_transition f t" and d: "db' = db\<lparr>t_evidence := update_rows (\<lambda>r. ev_ID r = i \<and> ev_State r = f)
       (\<lambda>r. r\<lparr>ev_State := t, ev_InvalidReason := a, ev_UpdatedAt := c\<rparr>) (t_evidence db),
      t_evidence_transitions := t_evidence_transitions db @
       [\<lparr>tr_ID = i, tr_From = f, tr_To = t, tr_Reason = tm_Reason m, tr_ChangedAt = c\<rparr>]\<rparr>"
    have "f \<noteq> Active" using l by (auto simp: legal_transition_def)
    then have "evidence_active db' j" if "evidence_active db j" for j
      using that by (force simp: evidence_active_def d update_rows_def)
    then show ?thesis by (rule graph_ok_frame[OF assms(2)]) (simp_all add: d)
  qed
qed (use TransitionEvidence_kept[OF assms(1)] assms(2) in blast)

lemma ObserveEvidence_graph:
  assumes "ObserveEvidence K now db ev = (db', x)" "graph_ok K' db"
  shows "graph_ok K' db'"
proof (cases "\<exists>r. x = Inr (r, True)")
  case True
  then obtain r where "ObserveEvidence K now db ev = (db', Inr (r, True))" using assms(1) by blast
  note d = ObserveEvidence_new(5)[OF this]
  show ?thesis by (rule graph_ok_frame[OF assms(2)]) (auto simp: d evidence_active_def)
qed (use ObserveEvidence_kept[OF assms(1)] assms(2) in blast)

lemma ObserveRequest_graph:
  assumes "ObserveRequest K now db rq = (db', x)" "graph_ok K' db"
  shows "graph_ok K' db'"
proof (cases "\<exists>r. x = Inr (r, True)")
  case True
  then obtain r where "ObserveRequest K now db rq = (db', Inr (r, True))" using assms(1) by blast
  note d = ObserveRequest_new(4)[OF this]
  show ?thesis by (rule graph_ok_frame[OF assms(2)]) (auto simp: d)
qed (use ObserveRequest_kept[OF assms(1)] assms(2) in blast)

lemma TransitionRequest_graph:
  assumes "TransitionRequest now db rid f t m = (db', x)" "graph_ok K db"
  shows "graph_ok K db'"
proof (cases "\<exists>r. x = Inr (r, True)")
  case True
  then obtain r where "TransitionRequest now db rid f t m = (db', Inr (r, True))" using assms(1) by blast
  then show ?thesis by (rule TransitionRequest_moved) (rule graph_ok_frame[OF assms(2)], auto simp: evidence_active_def)
qed (use TransitionRequest_kept[OF assms(1)] assms(2) in blast)

text \<open>
  \<open>SaveObservation\<close> stores the node of an observation without validating it: when the hash of its key is the zero word, which
  the code reads as an absent identifier, the stored node is one that readers refuse. The node is in the table afterwards.
\<close>

lemma observation_node_ok:
  "\<lbrakk>observation_Validate ob = Inr (); tn_ID (observation_TrustNode K ob) \<noteq> 0\<rbrakk> \<Longrightarrow> node_Validate K (observation_TrustNode K ob) = Inr ()"
  by (simp add: node_Validate_ok observation_Validate_ok observation_TrustNode_def NewTrustNode_def)

lemma insert_observation_stored:
  assumes "insert_observation K db ob = Inr (db', n)"
  shows "tn_ID (observation_TrustNode K ob) \<in> tn_ID ` set (t_nodes db')"
proof -
  have m: "mergeTrustNode d n = Inr (d', c) \<Longrightarrow> tn_ID n \<in> tn_ID ` set (t_nodes d')" for d n d' c
    by (auto simp: mergeTrustNode_def find_Some_iff image_iff split: option.splits if_splits) (metis nth_mem)
  obtain d d' c where "mergeTrustNode d (observation_TrustNode K ob) = Inr (d', c)" "bumpGraphRevision d' = Inr db'"
    using assms by (auto simp: insert_observation_def Let_def simp del: advance_evidence.simps split: if_splits)
  then show ?thesis using m by (fastforce simp: bumpGraphRevision_def split: if_splits)
qed

lemma advance_evidence_graph:
  assumes "advance_evidence t i f states db = Inr db'" "graph_ok K db" "f \<noteq> Active" "Active \<notin> set (butlast states)"
  shows "graph_ok K db'"
  using assms
proof (induction states arbitrary: f db)
  case (Cons s states)
  let ?db = "db\<lparr>t_evidence := update_rows (\<lambda>r. ev_ID r = i \<and> ev_State r = f) (\<lambda>r. r\<lparr>ev_State := s, ev_UpdatedAt := t\<rparr>) (t_evidence db),
            t_evidence_transitions := t_evidence_transitions db @
              [\<lparr>tr_ID = i, tr_From = f, tr_To = s, tr_Reason = observation_reason, tr_ChangedAt = t\<rparr>]\<rparr>"
  have step: "advance_evidence t i s states ?db = Inr db'" using Cons.prems(1) by (simp split: if_splits)
  have "evidence_active ?db j" if "evidence_active db j" for j
    using that Cons.prems(3) by (force simp: evidence_active_def update_rows_def)
  then have g: "graph_ok K ?db" by (rule graph_ok_frame[OF Cons.prems(2)]) simp_all
  show ?case
  proof (cases states)
    case Nil
    then show ?thesis using step g by simp
  next
    case (Cons s' ss)
    then show ?thesis using Cons.IH[OF step g] Cons.prems(4) by auto
  qed
qed simp

lemma insert_observation_ok:
  assumes "insert_observation K db ob = Inr (db', n)" "graph_ok K db" "node_Validate K (observation_TrustNode K ob) = Inr ()"
  shows "graph_ok K db'" "n = observation_TrustNode K ob" "n \<in> set (t_nodes db')"
proof -
  let ?i = "ev_ID (SyntheticEvidence K ob)"
  let ?d0 = "db\<lparr>t_evidence := t_evidence db @ [SyntheticEvidence K ob]\<rparr>"
  obtain d1 d2 c where s: "advance_evidence (ob_ObservedAt ob) ?i Candidate [Verified, Confirmed, Active] ?d0 = Inr d1"
    "mergeTrustNode (d1\<lparr>t_observations := t_observations d1 @ [observation_row_of ob ?i]\<rparr>) (observation_TrustNode K ob) = Inr (d2, c)"
    "bumpGraphRevision d2 = Inr db'" and n: "n = observation_TrustNode K ob"
    using assms(1) by (auto simp: insert_observation_def Let_def simp del: advance_evidence.simps split: if_splits)
  have "graph_ok K ?d0" by (rule graph_ok_frame[OF assms(2)]) (auto simp: evidence_active_def)
  then have "graph_ok K d1" using advance_evidence_graph[OF s(1)] by simp
  then have "graph_ok K (d1\<lparr>t_observations := t_observations d1 @ [observation_row_of ob ?i]\<rparr>)"
    by (rule graph_ok_frame) (auto simp: evidence_active_def)
  note m = mergeTrustNode_ok[OF s(2) this assms(3)]
  show "graph_ok K db'" "n = observation_TrustNode K ob" "n \<in> set (t_nodes db')" using bump_ok[OF s(3) m(1)] m(2) n by simp_all
qed

lemma SaveObservation_graph:
  assumes "SaveObservation K now db ob = (db', x)" "graph_ok K db" "0 \<notin> tn_ID ` set (t_nodes db')"
  shows "graph_ok K db'"
proof (cases x)
  case (Inl err)
  show ?thesis using in_tx_kept[OF assms(1)[unfolded Inl SaveObservation_def]] assms(2) by simp
next
  case (Inr y)
  let ?ob = "if ob_ObservedAt ob = zero_time then ob\<lparr>ob_ObservedAt := now\<rparr> else ob"
  have "observation_Validate ob = Inr ()" using assms(1) unfolding Inr SaveObservation_def in_tx_Inr by auto
  then have v: "observation_Validate ?ob = Inr ()" by (simp add: observation_Validate_ok)
  have "db' = db \<or> (\<exists>n. insert_observation K db ?ob = Inr (db', n))"
    using assms(1) unfolding Inr SaveObservation_def in_tx_Inr by (auto simp: Let_def split: if_splits sum.splits)
  then show ?thesis
  proof (elim disjE exE)
    fix n assume n: "insert_observation K db ?ob = Inr (db', n)"
    have "tn_ID (observation_TrustNode K ?ob) \<noteq> 0" using insert_observation_stored[OF n] assms(3) by metis
    then show ?thesis using insert_observation_ok(1)[OF n assms(2)] observation_node_ok[OF v] by blast
  qed (simp add: assms(2))
qed

lemma find_inj: "\<lbrakk>n \<in> set xs; inj_on f (set xs)\<rbrakk> \<Longrightarrow> find (\<lambda>x. f x = f n) xs = Some n"
  by (induction xs) (auto simp: inj_on_def)

text \<open>What the planner checks of a snapshot holds of a stored one with a matching identifier.\<close>

lemma snapshot_check:
  assumes "snapshot_ok K db sn" "rq_SnapshotID rq = sn_ID sn" "rq_HomeChainID rq = sn_HomeChainID sn"
    and "sn_ID sn = ComputeSnapshotID K (rq_ID rq) (rq_Attempt rq) (sn_Revision sn) (sn_StartNodeID sn) (sn_TargetNodeID sn) (sn_HomeTrustRoot sn)"
  shows "check_snapshot K rq sn = Inr ()"
proof -
  note o = assms(1)[unfolded snapshot_ok_def]
  have con: "nodes_consistent K (set (sn_Nodes sn))" "edges_consistent K (set (sn_Nodes sn)) (set (sn_Edges sn))" using o by blast+
  obtain v where v: "NewTrustView K (sn_Revision sn) (sn_Nodes sn) (sn_Edges sn) = Inr v" "set (tv_Nodes v) = set (sn_Nodes sn)"
    "set (tv_Edges v) = set (sn_Edges sn)" "distinct (map tn_ID (tv_Nodes v))" "distinct (map te_ID (tv_Edges v))"
    using con by (rule NewTrustView_ok)
  have len: "length (tv_Nodes v) = length (sn_Nodes sn)" "length (tv_Edges v) = length (sn_Edges sn)"
    using o v(2-5) by (metis distinct_card distinct_map)+
  have find: "findSnapshotNode sn (tn_ID n) = Some n" if "n \<in> set (sn_Nodes sn)" for n
    using that con(1) find_inj[of n "sn_Nodes sn" tn_ID] by (simp add: findSnapshotNode_def nodes_consistent_def)
  obtain start target where n: "start \<in> set (sn_Nodes sn)" "target \<in> set (sn_Nodes sn)" "tn_ID start = sn_StartNodeID sn"
    "nk_ChainID (tn_Key start) = sn_HomeChainID sn" "tn_Root start = sn_HomeTrustRoot sn" "tn_ID target = sn_TargetNodeID sn"
    using o by blast
  show ?thesis
    using find[OF n(1)] find[OF n(2)] n(3-6) o assms(2,3) assms(4)[symmetric] v(1) len
    by (simp add: check_snapshot_def snapshotHasNode_def)
qed

end
