(* ===== verification/PlanStore.thy ===== *)
theory PlanStore
  imports GraphStore "HOL-Library.AList"
begin

text \<open>
  \<open>Mapnode/store/plan_repository.go\<close>: the plans the planner decides. A plan is stored once, under its content
  address and for one attempt of a request; the row of \<open>request_current_plan\<close> names the plan in force. The hops of
  a plan are a field of its row, so their number is that of the row by construction.
\<close>

subsection \<open>Operations\<close>

definition validatePlanForStorage :: "plan \<Rightarrow> unit res" where
  "validatePlanForStorage plan =
     (if pl_ID plan = 0 \<or> pl_RequestID plan = 0 \<or> pl_SnapshotID plan = 0 \<or> pl_HomeNodeID plan = 0 \<or>
         pl_TargetNodeID plan = 0 \<or> pl_ProfileID plan = []
      then Inl (ErrMsg ''plan identity fields are required'')
      else if pl_Attempt plan > MaxInt64 \<or> pl_PathStepCost plan > MaxInt64 then Inl (ErrMsg ''plan integer exceeds SQLite range'')
      else if \<exists>cost \<in> set [pl_PathCost plan, pl_DirectCost plan]. cost \<noteq> None \<and> the cost > MaxInt64
      then Inl (ErrMsg ''plan cost exceeds SQLite range'')
      else if length (pl_Hops plan) > 0 \<and>
         (pl_PathStepCost plan = 0 \<or> pl_PathCost plan = None \<or>
          of_nat (length (pl_Hops plan)) > MaxUint64 div pl_PathStepCost plan \<or>
          the (pl_PathCost plan) \<noteq> of_nat (length (pl_Hops plan)) * pl_PathStepCost plan)
      then Inl (ErrMsg ''plan path cost does not match hop count and trusted step cost'')
      else if length (pl_Hops plan) = 0 \<and> (pl_PathCost plan \<noteq> None \<or> pl_PathStepCost plan \<noteq> 0)
      then Inl (ErrMsg ''zero-hop plan must not persist a path cost'')
      else if pl_Type plan = PathPlan
      then if length (pl_Hops plan) = 0 \<or> pl_PathCost plan = None \<or> pl_DirectCost plan = None \<or> pl_FallbackReason plan \<noteq> []
           then Inl (ErrMsg ''invalid PathPlan persistence fields'') else Inr ()
      else if pl_Type plan = DirectPlan
      then if pl_FallbackReason plan = [] then Inl (ErrMsg ''DirectPlan requires fallback reason'') else Inr ()
      else Inl (ErrMsg ''invalid plan type''))"

definition loadPlan :: "keccak \<Rightarrow> 'a store_scheme \<Rightarrow> plan_id \<Rightarrow> plan res" where
  "loadPlan K db i =
     bind_res (select_row ErrPlanNotFound (\<lambda>p. pl_ID p = i) (t_plans db)) (\<lambda>plan.
     if pl_ID plan \<noteq> ComputePlanID K plan then Inl ErrPlanIDMismatch else Inr plan)"

definition LoadCurrentPlan :: "keccak \<Rightarrow> 'a store_scheme \<Rightarrow> request_id \<Rightarrow> plan res" where
  "LoadCurrentPlan K db requestID =
     (case map_of (t_current_plan db) requestID of None \<Rightarrow> Inl ErrPlanNotFound | Some i \<Rightarrow> loadPlan K db i)"

definition validatePlanSnapshotBinding :: "keccak \<Rightarrow> 'a store_scheme \<Rightarrow> plan \<Rightarrow> unit res" where
  "validatePlanSnapshotBinding K db plan =
     bind_res (select_row (ErrMsg ''load plan TrustViewSnapshot'') (\<lambda>sn. sn_ID sn = pl_SnapshotID plan) (t_snapshots db)) (\<lambda>sn.
     if \<not> sn_Sealed sn then Inl ErrSnapshotUnsealed
     else let expected = ComputeSnapshotID K (pl_RequestID plan) (pl_Attempt plan) (sn_Revision sn) (sn_StartNodeID sn)
                (sn_TargetNodeID sn) (sn_HomeTrustRoot sn)
     in if expected \<noteq> pl_SnapshotID plan \<or> sn_StartNodeID sn \<noteq> pl_HomeNodeID plan \<or> sn_TargetNodeID sn \<noteq> pl_TargetNodeID plan
        then Inl ErrSnapshotEndpoint else Inr ())"

definition sameOptionalCost :: "u64 option \<Rightarrow> u64 option \<Rightarrow> bool" where
  "sameOptionalCost left right \<longleftrightarrow>
     left = None \<and> right = None \<or> left \<noteq> None \<and> right \<noteq> None \<and> the left = the right"

definition samePlanDecision :: "plan \<Rightarrow> plan \<Rightarrow> bool" where
  "samePlanDecision left right =
     (if pl_ID left \<noteq> pl_ID right \<or> pl_RequestID left \<noteq> pl_RequestID right \<or> pl_Attempt left \<noteq> pl_Attempt right \<or>
         pl_SnapshotID left \<noteq> pl_SnapshotID right \<or> pl_ProfileID left \<noteq> pl_ProfileID right \<or>
         pl_ProfileFingerprint left \<noteq> pl_ProfileFingerprint right \<or> pl_Type left \<noteq> pl_Type right \<or>
         pl_HomeNodeID left \<noteq> pl_HomeNodeID right \<or> pl_TargetNodeID left \<noteq> pl_TargetNodeID right \<or>
         pl_PathStepCost left \<noteq> pl_PathStepCost right \<or> pl_FallbackReason left \<noteq> pl_FallbackReason right \<or>
         \<not> sameOptionalCost (pl_PathCost left) (pl_PathCost right) \<or> \<not> sameOptionalCost (pl_DirectCost left) (pl_DirectCost right) \<or>
         length (pl_Hops left) \<noteq> length (pl_Hops right)
      then False
      else \<forall>i \<in> set [0..<length (pl_Hops left)]. pl_Hops left ! i = pl_Hops right ! i)"

text \<open>The upsert of \<open>request_current_plan\<close>; a plan is the current plan of at most one request.\<close>

definition bind_current :: "'a store_scheme \<Rightarrow> request_id \<Rightarrow> plan_id \<Rightarrow> 'a store_scheme res" where
  "bind_current db rid i =
     (if \<exists>(r, j) \<in> set (t_current_plan db). r \<noteq> rid \<and> j = i then Inl (ErrMsg ''bind current plan'')
      else Inr (db\<lparr>t_current_plan := AList.update rid i (t_current_plan db)\<rparr>))"

text \<open>
  The rows of a new plan with the constraints on them: the request exists, the endpoints are nodes of the
  snapshot, the creation time is positive and every hop is an edge of the snapshot.
\<close>

definition insert_plan :: "go_time \<Rightarrow> 'a store_scheme \<Rightarrow> plan \<Rightarrow> 'a store_scheme res" where
  "insert_plan now db plan =
     (let createdAt = (if pl_CreatedAt plan = zero_time then now else pl_CreatedAt plan);
          snapshots = filter (\<lambda>sn. sn_ID sn = pl_SnapshotID plan) (t_snapshots db);
          nodeIDs = concat (map (\<lambda>sn. map tn_ID (sn_Nodes sn)) snapshots);
          edgeIDs = concat (map (\<lambda>sn. map te_ID (sn_Edges sn)) snapshots)
      in if toUnix createdAt \<le> 0 \<or> pl_RequestID plan \<notin> set (map rs_ID (t_requests db)) \<or>
            pl_HomeNodeID plan \<notin> set nodeIDs \<or> pl_TargetNodeID plan \<notin> set nodeIDs
      then Inl (ErrMsg ''insert plan'')
      else if \<exists>edgeID \<in> set (pl_Hops plan). edgeID \<notin> set edgeIDs then Inl (ErrMsg ''insert plan hop'')
      else Inr (db\<lparr>t_plans := t_plans db @ [plan\<lparr>pl_CreatedAt := createdAt\<rparr>]\<rparr>))"

definition save_attempt :: "keccak \<Rightarrow> go_time \<Rightarrow> 'a store_scheme \<Rightarrow> plan \<Rightarrow> 'a store_scheme res" where
  "save_attempt K now db plan =
     bind_res (validatePlanSnapshotBinding K db plan) (\<lambda>_.
     case loadPlan K db (pl_ID plan) of
       Inr persisted \<Rightarrow>
         if \<not> samePlanDecision persisted plan then Inl ErrRecordConflict
         else bind_current db (pl_RequestID plan) (pl_ID plan)
     | Inl loadErr \<Rightarrow>
     if loadErr \<noteq> ErrPlanNotFound then Inl loadErr
     else if \<exists>p \<in> set (t_plans db). pl_RequestID p = pl_RequestID plan \<and> pl_Attempt p = pl_Attempt plan
     then Inl ErrRecordConflict
     else bind_res (insert_plan now db plan) (\<lambda>db. bind_current db (pl_RequestID plan) (pl_ID plan)))"

definition SavePlan :: "keccak \<Rightarrow> go_time \<Rightarrow> 'a store_scheme \<Rightarrow> plan \<Rightarrow> 'a store_scheme res" where
  "SavePlan K now db plan =
     (if pl_ID plan \<noteq> ComputePlanID K plan then Inl ErrPlanIDMismatch
      else bind_res (validatePlanForStorage plan) (\<lambda>_.
      case find (\<lambda>p. map_of (t_current_plan db) (pl_RequestID plan) = Some (pl_ID p)) (t_plans db) of
        None \<Rightarrow> save_attempt K now db plan
      | Some current \<Rightarrow>
          if pl_Attempt plan < pl_Attempt current then Inl ErrStalePlanningAttempt
          else if pl_Attempt plan = pl_Attempt current
          then if pl_ID current \<noteq> pl_ID plan then Inl ErrRecordConflict
               else bind_res (loadPlan K db (pl_ID plan)) (\<lambda>persisted.
                 if \<not> samePlanDecision persisted plan then Inl ErrRecordConflict else Inr db)
          else save_attempt K now db plan))"

subsection \<open>Stored plans\<close>

lemma sameOptionalCost_iff [simp]: "sameOptionalCost a b \<longleftrightarrow> a = b"
  by (cases a; cases b) (simp_all add: sameOptionalCost_def)

lemma samePlanDecision_fields:
  "samePlanDecision a b \<longleftrightarrow>
     pl_ID a = pl_ID b \<and> pl_RequestID a = pl_RequestID b \<and> pl_Attempt a = pl_Attempt b \<and> pl_SnapshotID a = pl_SnapshotID b \<and>
     pl_ProfileID a = pl_ProfileID b \<and> pl_ProfileFingerprint a = pl_ProfileFingerprint b \<and> pl_Type a = pl_Type b \<and>
     pl_HomeNodeID a = pl_HomeNodeID b \<and> pl_TargetNodeID a = pl_TargetNodeID b \<and> pl_Hops a = pl_Hops b \<and>
     pl_PathStepCost a = pl_PathStepCost b \<and> pl_PathCost a = pl_PathCost b \<and> pl_DirectCost a = pl_DirectCost b \<and>
     pl_FallbackReason a = pl_FallbackReason b"
proof -
  have "pl_Hops a = pl_Hops b \<longleftrightarrow>
    length (pl_Hops a) = length (pl_Hops b) \<and> (\<forall>i \<in> set [0..<length (pl_Hops a)]. pl_Hops a ! i = pl_Hops b ! i)"
    by (subst list_eq_iff_nth_eq) (simp add: Ball_def)
  then show ?thesis unfolding samePlanDecision_def sameOptionalCost_iff by meson
qed

lemma samePlanDecision_iff: "samePlanDecision a b \<longleftrightarrow> a\<lparr>pl_CreatedAt := t\<rparr> = b\<lparr>pl_CreatedAt := t\<rparr>"
  unfolding samePlanDecision_fields by (cases a; cases b) (simp only: plan.select_convs plan.update_convs plan.ext_inject simp_thms)

lemma ComputePlanID_created [simp]: "ComputePlanID K (p\<lparr>pl_CreatedAt := t\<rparr>) = ComputePlanID K p"
  by (simp add: ComputePlanID_def plan_bytes_def)

lemma validatePlanForStorage_created [simp]: "validatePlanForStorage (p\<lparr>pl_CreatedAt := t\<rparr>) = validatePlanForStorage p"
  by (cases p) (simp only: validatePlanForStorage_def plan.select_convs plan.update_convs)

definition plan_row_ok :: "keccak \<Rightarrow> 'a store_scheme \<Rightarrow> plan \<Rightarrow> bool" where
  "plan_row_ok K db p \<longleftrightarrow> pl_ID p = ComputePlanID K p \<and> validatePlanForStorage p = Inr () \<and>
     pl_RequestID p \<in> rs_ID ` set (t_requests db) \<and> toUnix (pl_CreatedAt p) > 0 \<and>
     (\<exists>sn \<in> set (t_snapshots db). sn_ID sn = pl_SnapshotID p \<and> sn_StartNodeID sn = pl_HomeNodeID p \<and>
        sn_TargetNodeID sn = pl_TargetNodeID p \<and> set (pl_Hops p) \<subseteq> te_ID ` set (sn_Edges sn))"

text \<open>The current plan of a request is the one of its latest attempt.\<close>

definition is_current :: "plan list \<Rightarrow> request_id \<Rightarrow> plan_id \<Rightarrow> bool" where
  "is_current plans rid i \<longleftrightarrow> (\<exists>p \<in> set plans. pl_ID p = i \<and> pl_RequestID p = rid \<and>
     (\<forall>q \<in> set plans. pl_RequestID q = rid \<longrightarrow> pl_Attempt q \<le> pl_Attempt p))"

definition plans_ok :: "keccak \<Rightarrow> 'a store_scheme \<Rightarrow> bool" where
  "plans_ok K db \<longleftrightarrow> distinct (map pl_ID (t_plans db)) \<and> (\<forall>p \<in> set (t_plans db). plan_row_ok K db p) \<and>
     inj_on (\<lambda>p. (pl_RequestID p, pl_Attempt p)) (set (t_plans db)) \<and>
     distinct (map fst (t_current_plan db)) \<and>
     (\<forall>(rid, i) \<in> set (t_current_plan db). is_current (t_plans db) rid i) \<and>
     pl_RequestID ` set (t_plans db) \<subseteq> fst ` set (t_current_plan db)"

lemma plans_ok_empty: "plans_ok K empty_store"
  by (simp add: plans_ok_def empty_store_def)

lemma plan_row_ok_mono:
  "\<lbrakk>plan_row_ok K db p; rs_ID ` set (t_requests db) \<subseteq> rs_ID ` set (t_requests db'); set (t_snapshots db) \<subseteq> set (t_snapshots db')\<rbrakk>
   \<Longrightarrow> plan_row_ok K db' p"
  by (auto simp: plan_row_ok_def)

lemma plans_ok_frame:
  assumes "plans_ok K db" "rs_ID ` set (t_requests db) \<subseteq> rs_ID ` set (t_requests db')"
    and "set (t_snapshots db) \<subseteq> set (t_snapshots db')" "t_plans db' = t_plans db" "t_current_plan db' = t_current_plan db"
  shows "plans_ok K db'"
  using assms plan_row_ok_mono[OF _ assms(2,3)] by (simp add: plans_ok_def)

lemma loadPlan_row:
  assumes "plans_ok K db" "p \<in> set (t_plans db)"
  shows "loadPlan K db (pl_ID p) = Inr p"
proof -
  have "find (\<lambda>q. pl_ID q = pl_ID p) (t_plans db) = Some p"
    using assms by (intro find_inj) (auto simp: plans_ok_def distinct_map)
  moreover have "pl_ID p = ComputePlanID K p" using assms by (auto simp: plans_ok_def plan_row_ok_def)
  ultimately show ?thesis by (simp add: loadPlan_def select_row_def)
qed

lemma loadPlan_Inr: "loadPlan K db i = Inr p \<Longrightarrow> p \<in> set (t_plans db) \<and> pl_ID p = i \<and> pl_ID p = ComputePlanID K p"
  by (auto simp: loadPlan_def dest: select_row_InrD split: if_splits)

lemma LoadCurrentPlan_Inr:
  assumes "LoadCurrentPlan K db rid = Inr p"
  shows "map_of (t_current_plan db) rid = Some (pl_ID p)" "loadPlan K db (pl_ID p) = Inr p"
  using assms loadPlan_Inr[of K db _ p] by (fastforce simp: LoadCurrentPlan_def split: option.splits)+

lemma loadPlan_NotFound: "loadPlan K db i = Inl ErrPlanNotFound \<Longrightarrow> i \<notin> pl_ID ` set (t_plans db)"
  by (auto simp: loadPlan_def select_row_def find_None_iff split: option.splits if_splits)

lemma current_plan_row:
  assumes "plans_ok K db" "map_of (t_current_plan db) rid = Some i"
  obtains p where "p \<in> set (t_plans db)" "pl_ID p = i" "pl_RequestID p = rid"
    "\<forall>q \<in> set (t_plans db). pl_RequestID q = rid \<longrightarrow> pl_Attempt q \<le> pl_Attempt p"
    "LoadCurrentPlan K db rid = Inr p"
proof -
  have "(rid, i) \<in> set (t_current_plan db)" using assms(2) by (rule map_of_SomeD)
  then have "is_current (t_plans db) rid i" using assms(1) by (auto simp: plans_ok_def)
  then obtain p where p: "p \<in> set (t_plans db)" "pl_ID p = i" "pl_RequestID p = rid"
    "\<forall>q \<in> set (t_plans db). pl_RequestID q = rid \<longrightarrow> pl_Attempt q \<le> pl_Attempt p" by (auto simp: is_current_def)
  show thesis by (rule that[OF p]) (use loadPlan_row[OF assms(1) p(1)] assms(2) p(2) in \<open>simp add: LoadCurrentPlan_def\<close>)
qed

lemma no_current_plan:
  assumes "plans_ok K db" "map_of (t_current_plan db) rid = None"
  shows "rid \<notin> pl_RequestID ` set (t_plans db)"
  using assms by (auto simp: plans_ok_def map_of_eq_None_iff)

text \<open>
  A save that succeeds either finds the decision stored as the current plan, or stores the plan of an attempt
  later than every attempt before. The branch that finds the plan stored but not current is never taken.
\<close>

lemma insert_plan_Inr:
  assumes "insert_plan now db p = Inr d"
  shows "d = db\<lparr>t_plans := t_plans db @ [p\<lparr>pl_CreatedAt := if pl_CreatedAt p = zero_time then now else pl_CreatedAt p\<rparr>]\<rparr>"
    "pl_RequestID p \<in> rs_ID ` set (t_requests db)"
    "toUnix (if pl_CreatedAt p = zero_time then now else pl_CreatedAt p) > 0"
    "\<forall>i \<in> set (pl_Hops p). \<exists>sn \<in> set (t_snapshots db). sn_ID sn = pl_SnapshotID p \<and> i \<in> te_ID ` set (sn_Edges sn)"
proof -
  let ?t = "if pl_CreatedAt p = zero_time then now else pl_CreatedAt p"
  have "d = db\<lparr>t_plans := t_plans db @ [p\<lparr>pl_CreatedAt := ?t\<rparr>]\<rparr> \<and> pl_RequestID p \<in> rs_ID ` set (t_requests db) \<and> \<not> toUnix ?t \<le> 0 \<and>
    (\<forall>i \<in> set (pl_Hops p). \<exists>sn \<in> set (t_snapshots db). sn_ID sn = pl_SnapshotID p \<and> i \<in> te_ID ` set (sn_Edges sn))"
  proof (cases "pl_CreatedAt p = zero_time")
    case True
    show ?thesis using assms unfolding insert_plan_def Let_def if_P[OF True] by (force split: if_splits)
  next
    case False
    show ?thesis using assms unfolding insert_plan_def Let_def if_not_P[OF False] by (force split: if_splits)
  qed
  then show "d = db\<lparr>t_plans := t_plans db @ [p\<lparr>pl_CreatedAt := ?t\<rparr>]\<rparr>" "pl_RequestID p \<in> rs_ID ` set (t_requests db)" "toUnix ?t > 0"
    "\<forall>i \<in> set (pl_Hops p). \<exists>sn \<in> set (t_snapshots db). sn_ID sn = pl_SnapshotID p \<and> i \<in> te_ID ` set (sn_Edges sn)" by auto
qed

lemma save_attempt_Inr:
  assumes "save_attempt K now db p = Inr db'" "plans_ok K db"
    and later: "\<forall>q \<in> set (t_plans db). pl_RequestID q = pl_RequestID p \<longrightarrow> pl_Attempt q < pl_Attempt p"
  obtains t where "pl_ID p \<notin> pl_ID ` set (t_plans db)" "validatePlanSnapshotBinding K db p = Inr ()"
    "insert_plan now db p = Inr (db\<lparr>t_plans := t_plans db @ [p\<lparr>pl_CreatedAt := t\<rparr>]\<rparr>)"
    "db' = db\<lparr>t_plans := t_plans db @ [p\<lparr>pl_CreatedAt := t\<rparr>], t_current_plan := AList.update (pl_RequestID p) (pl_ID p) (t_current_plan db)\<rparr>"
proof -
  let ?t = "if pl_CreatedAt p = zero_time then now else pl_CreatedAt p"
  have b: "validatePlanSnapshotBinding K db p = Inr ()" using assms(1) by (auto simp: save_attempt_def)
  have nf: "loadPlan K db (pl_ID p) = Inl ErrPlanNotFound"
  proof (cases "loadPlan K db (pl_ID p)")
    case (Inr q)
    then have "q \<in> set (t_plans db)" "pl_RequestID q = pl_RequestID p" "pl_Attempt q = pl_Attempt p"
      using assms(1) b loadPlan_Inr[OF Inr] by (auto simp: save_attempt_def samePlanDecision_fields split: if_splits)
    then show ?thesis using later by auto
  qed (use assms(1) b in \<open>auto simp: save_attempt_def split: if_splits\<close>)
  then obtain d where d: "insert_plan now db p = Inr d" "bind_current d (pl_RequestID p) (pl_ID p) = Inr db'"
    using assms(1) b by (auto simp: save_attempt_def split: if_splits)
  note ins = insert_plan_Inr(1)[OF d(1)]
  with d b loadPlan_NotFound[OF nf] show thesis by (intro that[of ?t]) (auto simp: bind_current_def split: if_splits)
qed

lemma SavePlan_Inr:
  assumes "SavePlan K now db p = Inr db'" "plans_ok K db"
  shows "pl_ID p = ComputePlanID K p" "validatePlanForStorage p = Inr ()"
    "(db' = db \<and> (\<exists>q. LoadCurrentPlan K db (pl_RequestID p) = Inr q \<and> samePlanDecision q p)) \<or>
     (save_attempt K now db p = Inr db' \<and> (\<forall>q \<in> set (t_plans db). pl_RequestID q = pl_RequestID p \<longrightarrow> pl_Attempt q < pl_Attempt p))"
proof -
  show v: "pl_ID p = ComputePlanID K p" "validatePlanForStorage p = Inr ()" using assms(1) by (auto simp: SavePlan_def split: if_splits)
  let ?m = "map_of (t_current_plan db) (pl_RequestID p)"
  show "(db' = db \<and> (\<exists>q. LoadCurrentPlan K db (pl_RequestID p) = Inr q \<and> samePlanDecision q p)) \<or>
     (save_attempt K now db p = Inr db' \<and> (\<forall>q \<in> set (t_plans db). pl_RequestID q = pl_RequestID p \<longrightarrow> pl_Attempt q < pl_Attempt p))"
  proof (cases ?m)
    case None
    then have "find (\<lambda>q. ?m = Some (pl_ID q)) (t_plans db) = None" by (simp add: find_None_iff)
    then have "save_attempt K now db p = Inr db'" using assms(1) v by (simp add: SavePlan_def)
    moreover have "\<forall>q \<in> set (t_plans db). pl_RequestID q \<noteq> pl_RequestID p" using no_current_plan[OF assms(2) None] by (metis image_eqI)
    ultimately show ?thesis by simp
  next
    case (Some i)
    obtain q where q: "q \<in> set (t_plans db)" "pl_ID q = i" "pl_RequestID q = pl_RequestID p"
      "\<forall>r \<in> set (t_plans db). pl_RequestID r = pl_RequestID p \<longrightarrow> pl_Attempt r \<le> pl_Attempt q"
      "LoadCurrentPlan K db (pl_RequestID p) = Inr q" using assms(2) Some by (rule current_plan_row)
    have "find (\<lambda>r. pl_ID r = pl_ID q) (t_plans db) = Some q"
      using assms(2) q(1) by (intro find_inj) (auto simp: plans_ok_def distinct_map)
    moreover have "find (\<lambda>r. ?m = Some (pl_ID r)) (t_plans db) = find (\<lambda>r. pl_ID r = pl_ID q) (t_plans db)"
      by (rule find_cong) (use Some q(2) in auto)
    ultimately have "find (\<lambda>r. ?m = Some (pl_ID r)) (t_plans db) = Some q" by (rule trans[rotated])
    then show ?thesis using assms(1) v q(4,5) loadPlan_row[OF assms(2) q(1)]
      by (fastforce simp: SavePlan_def split: if_splits)
  qed
qed

lemma update_pairs:
  assumes "distinct (map fst al)"
  shows "set (AList.update k v al) = insert (k, v) {x \<in> set al. fst x \<noteq> k}"
  using assms by (induction al) (auto intro: rev_image_eqI)

lemma is_current_new:
  assumes "\<forall>q \<in> set plans. pl_RequestID q = pl_RequestID p \<longrightarrow> pl_Attempt q < pl_Attempt p"
  shows "is_current (plans @ [p]) (pl_RequestID p) (pl_ID p)"
    and "is_current plans rid i \<Longrightarrow> rid \<noteq> pl_RequestID p \<Longrightarrow> is_current (plans @ [p]) rid i"
  using assms by (auto simp: is_current_def)

lemma new_plan_ok:
  assumes "pl_ID p \<notin> pl_ID ` set (t_plans db)" "validatePlanSnapshotBinding K db p = Inr ()"
    and "insert_plan now db p = Inr (db\<lparr>t_plans := t_plans db @ [p\<lparr>pl_CreatedAt := t\<rparr>]\<rparr>)"
    and "pl_ID p = ComputePlanID K p" "validatePlanForStorage p = Inr ()"
    and later: "\<forall>q \<in> set (t_plans db). pl_RequestID q = pl_RequestID p \<longrightarrow> pl_Attempt q < pl_Attempt p"
    and "plans_ok K db" "graph_ok K db"
  shows "plans_ok K (db\<lparr>t_plans := t_plans db @ [p\<lparr>pl_CreatedAt := t\<rparr>], t_current_plan := AList.update (pl_RequestID p) (pl_ID p) (t_current_plan db)\<rparr>)"
    (is "plans_ok K ?db")
proof -
  let ?p = "p\<lparr>pl_CreatedAt := t\<rparr>"
  note i = insert_plan_Inr[OF assms(3)] and o = assms(7)[unfolded plans_ok_def]
  have t: "t = (if pl_CreatedAt p = zero_time then now else pl_CreatedAt p)"
  proof -
    have "[?p] = [p\<lparr>pl_CreatedAt := if pl_CreatedAt p = zero_time then now else pl_CreatedAt p\<rparr>]"
      using arg_cong[OF i(1), of t_plans] by simp
    then have "pl_CreatedAt ?p = pl_CreatedAt (p\<lparr>pl_CreatedAt := if pl_CreatedAt p = zero_time then now else pl_CreatedAt p\<rparr>)" by simp
    then show ?thesis by simp
  qed
  obtain sn where sn: "sn \<in> set (t_snapshots db)" "sn_ID sn = pl_SnapshotID p" "sn_StartNodeID sn = pl_HomeNodeID p" "sn_TargetNodeID sn = pl_TargetNodeID p"
    using assms(2) by (auto simp: validatePlanSnapshotBinding_def Let_def dest: select_row_InrD split: if_splits)
  have uniq: "sn' = sn" if "sn' \<in> set (t_snapshots db)" "sn_ID sn' = pl_SnapshotID p" for sn'
    using that sn(1,2) assms(8) by (auto simp: graph_ok_def snapshot_rows_ok_def distinct_map inj_on_def)
  have "set (pl_Hops p) \<subseteq> te_ID ` set (sn_Edges sn)" using i(4) uniq by blast
  then have row: "plan_row_ok K ?db ?p" using sn assms(4,5) i(2,3) t by (auto simp: plan_row_ok_def)
  have "plan_row_ok K ?db q" if "q \<in> set (t_plans db)" for q
    using plan_row_ok_mono[of K db q ?db] that o by simp
  with row have rows: "\<forall>q \<in> set (t_plans ?db). plan_row_ok K ?db q" by simp
  have cur: "is_current (t_plans db @ [?p]) (pl_RequestID ?p) (pl_ID ?p)"
    "is_current (t_plans db) rid j \<Longrightarrow> rid \<noteq> pl_RequestID p \<Longrightarrow> is_current (t_plans db @ [?p]) rid j" for rid j
    using is_current_new[of "t_plans db" ?p] later by simp_all
  have "\<forall>(rid, j) \<in> set (AList.update (pl_RequestID p) (pl_ID p) (t_current_plan db)). is_current (t_plans db @ [?p]) rid j"
    using o cur by (auto simp: update_pairs)
  moreover have "inj_on (\<lambda>p. (pl_RequestID p, pl_Attempt p)) (set (t_plans db @ [?p]))"
    using o later by (auto simp: inj_on_def)
  moreover have "distinct (map pl_ID (t_plans db @ [?p]))" using o assms(1) by simp
  moreover have "distinct (map fst (AList.update (pl_RequestID p) (pl_ID p) (t_current_plan db)))"
    using o by (simp add: distinct_update)
  moreover have "pl_RequestID ` set (t_plans db @ [?p]) \<subseteq> fst ` set (AList.update (pl_RequestID p) (pl_ID p) (t_current_plan db))"
    using o by (auto simp: dom_update)
  ultimately show ?thesis using rows by (simp add: plans_ok_def)
qed

lemma SavePlan_ok:
  assumes "SavePlan K now db p = Inr db'" "plans_ok K db" "graph_ok K db"
  shows "plans_ok K db'"
    and "\<exists>q. LoadCurrentPlan K db' (pl_RequestID p) = Inr q \<and> loadPlan K db' (pl_ID p) = Inr q \<and> samePlanDecision q p"
    and "db' = db\<lparr>t_plans := t_plans db', t_current_plan := t_current_plan db'\<rparr>" "set (t_plans db) \<subseteq> set (t_plans db')"
proof -
  note s = SavePlan_Inr[OF assms(1,2)]
  have "plans_ok K db' \<and> (\<exists>q. LoadCurrentPlan K db' (pl_RequestID p) = Inr q \<and> loadPlan K db' (pl_ID p) = Inr q \<and> samePlanDecision q p) \<and>
    db' = db\<lparr>t_plans := t_plans db', t_current_plan := t_current_plan db'\<rparr> \<and> set (t_plans db) \<subseteq> set (t_plans db')"
    using s(3)
  proof (elim disjE conjE exE)
    fix q assume "db' = db" "LoadCurrentPlan K db (pl_RequestID p) = Inr q" "samePlanDecision q p"
    moreover from this have "loadPlan K db (pl_ID q) = Inr q" by (metis LoadCurrentPlan_Inr)
    moreover have "pl_ID q = pl_ID p" using \<open>samePlanDecision q p\<close> by (simp add: samePlanDecision_fields)
    ultimately show ?thesis using assms(2) by auto
  next
    assume sv: "save_attempt K now db p = Inr db'" and later: "\<forall>q \<in> set (t_plans db). pl_RequestID q = pl_RequestID p \<longrightarrow> pl_Attempt q < pl_Attempt p"
    obtain t where t: "pl_ID p \<notin> pl_ID ` set (t_plans db)" "validatePlanSnapshotBinding K db p = Inr ()"
      "insert_plan now db p = Inr (db\<lparr>t_plans := t_plans db @ [p\<lparr>pl_CreatedAt := t\<rparr>]\<rparr>)"
      "db' = db\<lparr>t_plans := t_plans db @ [p\<lparr>pl_CreatedAt := t\<rparr>], t_current_plan := AList.update (pl_RequestID p) (pl_ID p) (t_current_plan db)\<rparr>"
      using sv assms(2) later by (rule save_attempt_Inr)
    let ?p = "p\<lparr>pl_CreatedAt := t\<rparr>"
    have ok: "plans_ok K db'" unfolding t(4) by (rule new_plan_ok[OF t(1-3) s(1,2) later assms(2,3)])
    have "loadPlan K db' (pl_ID ?p) = Inr ?p" by (rule loadPlan_row[OF ok]) (simp add: t(4))
    then show ?thesis using ok by (auto simp: t(4) LoadCurrentPlan_def samePlanDecision_fields AList.update_conv)
  qed
  then show "plans_ok K db'" "\<exists>q. LoadCurrentPlan K db' (pl_RequestID p) = Inr q \<and> loadPlan K db' (pl_ID p) = Inr q \<and> samePlanDecision q p"
    "db' = db\<lparr>t_plans := t_plans db', t_current_plan := t_current_plan db'\<rparr>" "set (t_plans db) \<subseteq> set (t_plans db')" by blast+
qed

lemma SavePlan_append:
  assumes "SavePlan K now db p = Inr db'" "plans_ok K db"
  shows "\<exists>ps. t_plans db' = t_plans db @ ps"
  using SavePlan_Inr(3)[OF assms]
proof (elim disjE conjE)
  assume "save_attempt K now db p = Inr db'" "\<forall>q \<in> set (t_plans db). pl_RequestID q = pl_RequestID p \<longrightarrow> pl_Attempt q < pl_Attempt p"
  then show ?thesis using assms(2) by - (rule save_attempt_Inr, auto)
qed simp

subsection \<open>The planner's plans can be stored\<close>

text \<open>The plans \<open>decide\<close> returns, with every field.\<close>

definition decided_shape :: "trust_view_snapshot \<Rightarrow> direct_profile \<Rightarrow> plan \<Rightarrow> plan \<Rightarrow> bool" where
  "decided_shape sn profile start p \<longleftrightarrow>
     p = start\<lparr>pl_Type := pl_Type p, pl_Hops := pl_Hops p, pl_PathStepCost := pl_PathStepCost p, pl_PathCost := pl_PathCost p,
       pl_DirectCost := pl_DirectCost p, pl_FallbackReason := pl_FallbackReason p\<rparr> \<and>
     set (pl_Hops p) \<subseteq> te_ID ` set (sn_Edges sn) \<and> (\<forall>d. pl_DirectCost p = Some d \<longrightarrow> d = dp_DirectCost profile) \<and>
     (if pl_Hops p = [] then pl_PathStepCost p = 0 \<and> pl_PathCost p = None
      else pl_PathStepCost p \<noteq> 0 \<and> (\<forall>e \<in> set (sn_Edges sn). te_PathStepCost e = pl_PathStepCost p) \<and>
        length (pl_Hops p) * unat (pl_PathStepCost p) < 2 ^ 64 \<and>
        pl_PathCost p = Some (of_nat (length (pl_Hops p)) * pl_PathStepCost p)) \<and>
     (pl_Type p = PathPlan \<and> pl_FallbackReason p = [] \<and> pl_Hops p \<noteq> [] \<and> pl_DirectCost p \<noteq> None \<or>
      pl_Type p = DirectPlan \<and> pl_FallbackReason p \<noteq> [])"

lemma decide_eq:
  assumes "profiles (rq_HomeChainID rq) = (profile, found)"
  shows "decide profiles now rq sn =
    (let plan = initial_plan (if found then profile else profile\<lparr>dp_ID := ''unavailable''\<rparr>) now rq sn
     in if \<not> dp_Calibrated profile then Inr (plan\<lparr>pl_Type := DirectPlan, pl_FallbackReason := UncalibratedProfile\<rparr>)
        else let plan = plan\<lparr>pl_DirectCost := Some (dp_DirectCost profile)\<rparr>
        in bind_res (trustedPathStepCost (sn_Edges sn)) (\<lambda>c.
           if \<not> snd (directedReachability sn) then Inr (plan\<lparr>pl_Type := DirectPlan, pl_FallbackReason := NoPath\<rparr>)
           else case shortestPath sn (fst (directedReachability sn)) of
               None \<Rightarrow> Inl (Panic ''search bound'') | Some (Inl err) \<Rightarrow> Inl err
             | Some (Inr (path, _)) \<Rightarrow> decide_path (dp_DirectCost profile) c plan path))"
proof -
  have upd: "dp_Calibrated (profile\<lparr>dp_ID := u\<rparr>) = dp_Calibrated profile" "dp_DirectCost (profile\<lparr>dp_ID := u\<rparr>) = dp_DirectCost profile" for u
    by simp_all
  show ?thesis unfolding decide_def assms prod.case Let_def by (cases found) (simp_all only: if_True if_False upd split_beta)
qed

lemma decide_shape:
  assumes "decide profiles now rq sn = Inr p" "sn_StartNodeID sn \<noteq> sn_TargetNodeID sn" "profiles (rq_HomeChainID rq) = (profile, found)"
  shows "decided_shape sn profile (initial_plan (if found then profile else profile\<lparr>dp_ID := ''unavailable''\<rparr>) now rq sn) p"
    (is "decided_shape sn profile (initial_plan ?profile now rq sn) p")
proof -
  note d = assms(1)[unfolded decide_eq[where profiles=profiles and rq=rq, OF assms(3)] Let_def]
  define prof where "prof = ?profile"
  note d = d[folded prof_def]
  show ?thesis
  proof (cases "dp_Calibrated profile")
    case False
    then show ?thesis using d unfolding prof_def[symmetric] by (auto simp: initial_plan_def decided_shape_def)
  next
    case True
    then obtain c where c: "trustedPathStepCost (sn_Edges sn) = Inr c" using d by auto
    show ?thesis
    proof (cases "snd (directedReachability sn)")
      case False
      then show ?thesis using d True c unfolding prof_def[symmetric] by (auto simp: initial_plan_def decided_shape_def)
    next
      case reach: True
      let ?init = "(initial_plan prof now rq sn)\<lparr>pl_DirectCost := Some (dp_DirectCost profile)\<rparr>"
      obtain path cost where p: "shortestPath sn (fst (directedReachability sn)) = Some (Inr (path, cost))" "least_walk sn path" "path \<noteq> []"
        "c \<noteq> 0" "\<forall>e \<in> set (sn_Edges sn). te_PathStepCost e = c" "length path * unat c < 2 ^ 64"
        using decide_path_phase[OF c assms(2) reach] d True c reach by auto
      have "decide_path (dp_DirectCost profile) c ?init path = Inr p" using d True c reach p(1) by simp
      moreover have "set (map te_ID path) \<subseteq> te_ID ` set (sn_Edges sn)"
        using walk_edges[of "sn_Edges sn" "sn_StartNodeID sn" path "sn_TargetNodeID sn"] p(2) by (auto simp: least_walk_def)
      ultimately show ?thesis using p(3-6) unfolding prof_def[symmetric]
        by (auto simp: decide_path_def Let_def initial_plan_def decided_shape_def split: if_splits)
    qed
  qed
qed

lemma snapshot_nodes_nonzero:
  assumes "check_snapshot K rq sn = Inr ()"
  shows "sn_StartNodeID sn \<noteq> 0" "sn_TargetNodeID sn \<noteq> 0" "sn_ID sn = ComputeSnapshotID K (rq_ID rq) (rq_Attempt rq) (sn_Revision sn) (sn_StartNodeID sn)
    (sn_TargetNodeID sn) (sn_HomeTrustRoot sn)"
proof -
  obtain v where "NewTrustView K (sn_Revision sn) (sn_Nodes sn) (sn_Edges sn) = Inr v"
    and has: "snapshotHasNode sn (sn_StartNodeID sn)" "snapshotHasNode sn (sn_TargetNodeID sn)"
    using assms by (auto simp: check_snapshot_def split: if_splits)
  then have "nodes_consistent K (set (sn_Nodes sn))" using NewTrustView_consistent by blast
  then have "n \<in> set (sn_Nodes sn) \<Longrightarrow> tn_ID n \<noteq> 0" for n by (auto simp: nodes_consistent_def node_Validate_ok)
  then show "sn_StartNodeID sn \<noteq> 0" "sn_TargetNodeID sn \<noteq> 0"
    using has by (auto simp: snapshotHasNode_def findSnapshotNode_def find_None_iff dest: find_SomeD)
  show "sn_ID sn = ComputeSnapshotID K (rq_ID rq) (rq_Attempt rq) (sn_Revision sn) (sn_StartNodeID sn) (sn_TargetNodeID sn) (sn_HomeTrustRoot sn)"
    using assms by (auto simp: check_snapshot_def split: if_splits)
qed

end
