(* ===== verification/ProofStore.thy ===== *)
theory ProofStore
  imports PlanStore "HOL-Library.Sublist"
begin

text \<open>
  \<open>Mapnode/store/path_proof_repository.go\<close>: path proofs. A stored proof keeps its hops but neither its block hashes
  nor its witnesses: loading it rebuilds both from the plan, the sealed snapshot and the membership witnesses, and
  checks the content address again. A row of \<open>t_proofs\<close> is therefore a proof with these two lists empty.
\<close>

subsection \<open>Proof material\<close>

definition loadSnapshotNode :: "'a store_scheme \<Rightarrow> snapshot_id \<Rightarrow> node_id \<Rightarrow> trust_node option" where
  "loadSnapshotNode db snapshotID nodeID =
     (case find (\<lambda>sn. sn_ID sn = snapshotID) (t_snapshots db) of
        None \<Rightarrow> None | Some sn \<Rightarrow> find (\<lambda>n. tn_ID n = nodeID) (sn_Nodes sn))"

definition loadWitnessSiblings :: "'a store_scheme \<Rightarrow> witness_id \<Rightarrow> hash list" where
  "loadWitnessSiblings db i = (case find (\<lambda>w. sw_ID w = i) (t_witnesses db) of None \<Rightarrow> [] | Some w \<Rightarrow> sw_Siblings w)"

text \<open>The join of \<open>plan_hops\<close> with \<open>snapshot_edges\<close>.\<close>

definition planned_edge :: "'a store_scheme \<Rightarrow> plan_id \<Rightarrow> snapshot_id \<Rightarrow> nat \<Rightarrow> edge_id \<Rightarrow> trust_edge option" where
  "planned_edge db planID snapshotID planHopIndex edgeID =
     (case find (\<lambda>p. pl_ID p = planID \<and> pl_SnapshotID p = snapshotID \<and> planHopIndex < length (pl_Hops p) \<and>
                   pl_Hops p ! planHopIndex = edgeID) (t_plans db) of
        None \<Rightarrow> None
      | Some _ \<Rightarrow>
          (case find (\<lambda>sn. sn_ID sn = snapshotID) (t_snapshots db) of
             None \<Rightarrow> None | Some sn \<Rightarrow> find (\<lambda>e. te_ID e = edgeID) (sn_Edges sn)))"

definition loadPathProofMaterial ::
  "keccak \<Rightarrow> 'a store_scheme \<Rightarrow> plan_id \<Rightarrow> snapshot_id \<Rightarrow> nat \<Rightarrow> edge_id \<Rightarrow> path_proof_material res" where
  "loadPathProofMaterial K db planID snapshotID planHopIndex edgeID =
     (case planned_edge db planID snapshotID planHopIndex edgeID of
        None \<Rightarrow> Inl ErrProofMaterialMissing
      | Some edge \<Rightarrow>
      (case te_WitnessID edge of
        None \<Rightarrow> Inl (ErrMsg ''PathProof witness ID'')
      | Some witnessID \<Rightarrow>
      let witness = \<lparr>sw_ID = witnessID, sw_EvidenceID = te_EvidenceID edge, sw_LeafIndex = te_LeafIndex edge,
                     sw_Siblings = loadWitnessSiblings db witnessID\<rparr>
      in if sw_Siblings witness = [] then Inl ErrProofMaterialMissing
      else case (loadSnapshotNode db snapshotID (te_From edge), loadSnapshotNode db snapshotID (te_To edge)) of
        (Some fromNode, Some toNode) \<Rightarrow>
          if sw_ID (NewStoredWitness K (sw_EvidenceID witness) (sw_LeafIndex witness) (sw_Siblings witness)) \<noteq> sw_ID witness
          then Inl ErrProofMaterialMissing
          else Inr \<lparr>pm_PlanID = planID, pm_SnapshotID = snapshotID, pm_PlanHopIndex = planHopIndex, pm_Edge = edge,
                    pm_FromNode = fromNode, pm_ToNode = toNode, pm_Witness = witness\<rparr>
      | _ \<Rightarrow> Inl ErrProofMaterialMissing))"

subsection \<open>Loading\<close>

text \<open>The loop over the stored hops; \<open>index\<close> counts the hops in verification order, against the order of the plan.\<close>

fun load_hops :: "keccak \<Rightarrow> 'a store_scheme \<Rightarrow> plan \<Rightarrow> nat \<Rightarrow> path_proof_hop list \<Rightarrow> path_proof \<Rightarrow> path_proof res" where
  "load_hops K db plan index [] result = Inr result"
| "load_hops K db plan index (hop # hops) result =
     (let wantPlanIndex = length (pl_Hops plan) - 1 - index
      in if ph_PlanHopIndex hop \<noteq> wantPlanIndex \<or> ph_EdgeID hop \<noteq> pl_Hops plan ! wantPlanIndex then Inl ErrProofMaterialMissing
      else bind_res (loadPathProofMaterial K db (pp_PlanID result) (pp_SnapshotID result) (ph_PlanHopIndex hop) (ph_EdgeID hop)) (\<lambda>m.
      if sw_ID (pm_Witness m) \<noteq> ph_WitnessID hop \<or> tn_ID (pm_ToNode m) \<noteq> ph_ToNodeID hop \<or>
         nk_BlockHash (tn_Key (pm_ToNode m)) \<noteq> ph_BlockHash hop
      then Inl ErrProofMaterialMissing
      else case NewMembershipWitness (sw_LeafIndex (pm_Witness m)) (sw_Siblings (pm_Witness m)) of
        Inl _ \<Rightarrow> Inl ErrProofMaterialMissing
      | Inr witness \<Rightarrow>
          load_hops K db plan (Suc index) hops
            (result\<lparr>pp_BlockHashes := pp_BlockHashes result @ [ph_BlockHash hop], pp_Witnesses := pp_Witnesses result @ [witness]\<rparr>)))"

definition loadProofPlan :: "keccak \<Rightarrow> 'a store_scheme \<Rightarrow> plan_id \<Rightarrow> plan res" where
  "loadProofPlan K db i =
     (case loadPlan K db i of Inl e \<Rightarrow> Inl (if e = ErrPlanNotFound then ErrProofMaterialMissing else e) | Inr plan \<Rightarrow> Inr plan)"

definition loadPathProof :: "keccak \<Rightarrow> 'a store_scheme \<Rightarrow> path_proof_id \<Rightarrow> path_proof res" where
  "loadPathProof K db i =
     bind_res (select_row ErrPathProofNotFound (\<lambda>p. pp_ID p = i) (t_proofs db)) (\<lambda>result.
     bind_res (loadProofPlan K db (pp_PlanID result)) (\<lambda>plan.
     if pl_Type plan \<noteq> PathPlan \<or> pl_RequestID plan \<noteq> pp_RequestID result \<or> pl_SnapshotID plan \<noteq> pp_SnapshotID result \<or>
        length (pp_Hops result) = 0 \<or> length (pp_Hops result) \<noteq> length (pl_Hops plan)
     then Inl ErrProofMaterialMissing
     else case loadSnapshotNode db (pp_SnapshotID result) (pl_TargetNodeID plan) of
       None \<Rightarrow> Inl ErrProofMaterialMissing
     | Some target \<Rightarrow>
     if tn_Root target \<noteq> pp_BaseTrustRoot result then Inl ErrProofMaterialMissing
     else bind_res (load_hops K db plan 0 (pp_Hops result) result) (\<lambda>result.
     if pp_ID result \<noteq> ComputePathProofID K result then Inl ErrPathProofIDMismatch else Inr result)))"

definition loadPathProofForPlan :: "keccak \<Rightarrow> 'a store_scheme \<Rightarrow> plan_id \<Rightarrow> path_proof res" where
  "loadPathProofForPlan K db planID =
     bind_res (select_row ErrPathProofNotFound (\<lambda>p. pp_PlanID p = planID) (t_proofs db)) (\<lambda>row. loadPathProof K db (pp_ID row))"

subsection \<open>Saving\<close>

definition sameHashes :: "hash list \<Rightarrow> hash list \<Rightarrow> bool" where
  "sameHashes left right =
     (if length left \<noteq> length right then False else \<forall>i \<in> set [0..<length left]. left ! i = right ! i)"

text \<open>One iteration of the loop that compares a proof with its material.\<close>

definition check_hop :: "keccak \<Rightarrow> 'a store_scheme \<Rightarrow> plan \<Rightarrow> path_proof \<Rightarrow> nat \<Rightarrow> unit res" where
  "check_hop K db plan value index =
     (let hop = pp_Hops value ! index; wantPlanIndex = length (pp_Hops value) - 1 - index
      in if ph_PlanHopIndex hop \<noteq> wantPlanIndex \<or> ph_EdgeID hop \<noteq> pl_Hops plan ! wantPlanIndex \<or>
            ph_BlockHash hop \<noteq> pp_BlockHashes value ! index \<or> ph_ToNodeID hop = 0
      then Inl ErrProofMaterialMissing
      else bind_res (loadPathProofMaterial K db (pp_PlanID value) (pp_SnapshotID value) wantPlanIndex (ph_EdgeID hop)) (\<lambda>m.
      if tn_ID (pm_ToNode m) \<noteq> ph_ToNodeID hop \<or> nk_BlockHash (tn_Key (pm_ToNode m)) \<noteq> ph_BlockHash hop \<or>
         sw_ID (pm_Witness m) \<noteq> ph_WitnessID hop \<or> sw_LeafIndex (pm_Witness m) \<noteq> leafIndex (pp_Witnesses value ! index) \<or>
         \<not> sameHashes (sw_Siblings (pm_Witness m)) (siblings (pp_Witnesses value ! index))
      then Inl ErrProofMaterialMissing else Inr ()))"

fun check_hops :: "keccak \<Rightarrow> 'a store_scheme \<Rightarrow> plan \<Rightarrow> path_proof \<Rightarrow> nat list \<Rightarrow> unit res" where
  "check_hops K db plan value [] = Inr ()"
| "check_hops K db plan value (index # indices) =
     bind_res (check_hop K db plan value index) (\<lambda>_. check_hops K db plan value indices)"

text \<open>
  The rows of a new proof. The foreign keys of \<open>proof_hops\<close> repeat what the loop has checked; what remains are the
  request, the creation time, and \<open>unique_pathproof_per_plan\<close>.
\<close>

definition insert_proof :: "go_time \<Rightarrow> 'a store_scheme \<Rightarrow> path_proof \<Rightarrow> 'a store_scheme res" where
  "insert_proof now db value =
     (let createdAt = (if pp_CreatedAt value = zero_time then now else pp_CreatedAt value)
      in if toUnix createdAt \<le> 0 \<or> pp_RequestID value \<notin> set (map rs_ID (t_requests db)) \<or>
            (\<exists>p \<in> set (t_proofs db). pp_PlanID p = pp_PlanID value)
      then Inl (ErrMsg ''insert PathProof'')
      else Inr (db\<lparr>t_proofs := t_proofs db @ [value\<lparr>pp_BlockHashes := [], pp_Witnesses := [], pp_CreatedAt := createdAt\<rparr>]\<rparr>))"

definition savePathProof :: "keccak \<Rightarrow> go_time \<Rightarrow> 'a store_scheme \<Rightarrow> path_proof \<Rightarrow> 'a store_scheme res" where
  "savePathProof K now db value =
     (if pp_ID value = 0 \<or> pp_ID value \<noteq> ComputePathProofID K value then Inl ErrPathProofIDMismatch
      else if length (pp_Hops value) = 0 \<or> length (pp_Hops value) \<noteq> length (pp_BlockHashes value) \<or>
              length (pp_Hops value) \<noteq> length (pp_Witnesses value)
      then Inl ErrProofMaterialMissing
      else bind_res (loadProofPlan K db (pp_PlanID value)) (\<lambda>plan.
      if pl_Type plan \<noteq> PathPlan \<or> pl_RequestID plan \<noteq> pp_RequestID value \<or> pl_SnapshotID plan \<noteq> pp_SnapshotID value \<or>
         length (pl_Hops plan) \<noteq> length (pp_Hops value)
      then Inl ErrProofMaterialMissing
      else case loadSnapshotNode db (pp_SnapshotID value) (pl_TargetNodeID plan) of
        None \<Rightarrow> Inl ErrProofMaterialMissing
      | Some target \<Rightarrow>
      if tn_Root target \<noteq> pp_BaseTrustRoot value then Inl ErrProofMaterialMissing
      else bind_res (check_hops K db plan value [0..<length (pp_Hops value)]) (\<lambda>_.
      case loadPathProof K db (pp_ID value) of
        Inr existing \<Rightarrow>
          if pp_ID existing \<noteq> pp_ID value \<or> ComputePathProofID K existing \<noteq> pp_ID value then Inl ErrPathProofIDMismatch
          else Inr db
      | Inl e \<Rightarrow> if e \<noteq> ErrPathProofNotFound then Inl e else insert_proof now db value)))"

text \<open>The repository \<open>Build\<close> is given.\<close>

definition store_proofs :: "keccak \<Rightarrow> go_time \<Rightarrow> 'a store_scheme proof_repository" where
  "store_proofs K now =
     \<lparr>LoadPathPlan = loadPlan K, LoadTrustViewSnapshot = LoadSnapshot, LoadPathProofMaterial = loadPathProofMaterial K,
      SavePathProof = savePathProof K now, LoadPathProof = loadPathProof K\<rparr>"

subsection \<open>A saved proof loads back\<close>

lemma sameHashes_iff [simp]: "sameHashes a b \<longleftrightarrow> a = b"
  unfolding sameHashes_def by (subst list_eq_iff_nth_eq) (simp add: Ball_def)

lemma loadProofPlan_Inr: "loadProofPlan K db i = Inr p \<longleftrightarrow> loadPlan K db i = Inr p"
  by (auto simp: loadProofPlan_def split: sum.splits)

lemma material_siblings: "loadPathProofMaterial K db pid sid i e = Inr m \<Longrightarrow> sw_Siblings (pm_Witness m) \<noteq> []"
  by (auto simp: loadPathProofMaterial_def Let_def split: option.splits if_splits)

lemma check_hops_nth: "check_hops K db plan v is = Inr u \<Longrightarrow> i \<in> set is \<Longrightarrow> check_hop K db plan v i = Inr ()"
  by (induction "is") auto

lemma load_hops_checked:
  assumes "\<forall>j \<in> {i..<length (pp_Hops v)}. check_hop K db plan v j = Inr ()"
    and "length (pl_Hops plan) = length (pp_Hops v)" "length (pp_BlockHashes v) = length (pp_Hops v)" "length (pp_Witnesses v) = length (pp_Hops v)"
    and "pp_PlanID r = pp_PlanID v" "pp_SnapshotID r = pp_SnapshotID v" "i \<le> length (pp_Hops v)"
  shows "load_hops K db plan i (drop i (pp_Hops v)) r =
    Inr (r\<lparr>pp_BlockHashes := pp_BlockHashes r @ drop i (pp_BlockHashes v), pp_Witnesses := pp_Witnesses r @ drop i (pp_Witnesses v)\<rparr>)"
  using assms
proof (induction "length (pp_Hops v) - i" arbitrary: i r)
  case 0
  then show ?case by simp
next
  case (Suc n)
  then have i: "i < length (pp_Hops v)" by simp
  have c: "check_hop K db plan v i = Inr ()" using Suc.prems(1) i by simp
  then obtain m where m: "loadPathProofMaterial K db (pp_PlanID v) (pp_SnapshotID v) (length (pp_Hops v) - 1 - i) (ph_EdgeID (pp_Hops v ! i)) = Inr m"
    by (auto simp: check_hop_def Let_def split: if_splits)
  have w: "NewMembershipWitness (sw_LeafIndex (pm_Witness m)) (sw_Siblings (pm_Witness m)) = Inr (pp_Witnesses v ! i)"
    using c m material_siblings[OF m] by (auto simp: check_hop_def Let_def NewMembershipWitness_def witness_Validate_def split: if_splits)
  let ?r = "r\<lparr>pp_BlockHashes := pp_BlockHashes r @ [pp_BlockHashes v ! i], pp_Witnesses := pp_Witnesses r @ [pp_Witnesses v ! i]\<rparr>"
  have "load_hops K db plan i (drop i (pp_Hops v)) r = load_hops K db plan (Suc i) (drop (Suc i) (pp_Hops v)) ?r"
    using c m w Suc.prems(2,5,6) unfolding Cons_nth_drop_Suc[OF i, symmetric]
    by (auto simp: check_hop_def Let_def split: if_splits)
  also have "\<dots> = Inr (?r\<lparr>pp_BlockHashes := pp_BlockHashes ?r @ drop (Suc i) (pp_BlockHashes v),
      pp_Witnesses := pp_Witnesses ?r @ drop (Suc i) (pp_Witnesses v)\<rparr>)"
    by (rule Suc.hyps(1)) (use Suc.prems Suc.hyps(2) i in auto)
  finally show ?case using i Suc.prems(3,4) by (simp add: Cons_nth_drop_Suc)
qed

text \<open>What has been loaded stays loadable while the tables grow: rows are only ever appended.\<close>

definition extends :: "'a store_scheme \<Rightarrow> 'b store_scheme \<Rightarrow> bool" where
  "extends db db' \<longleftrightarrow> prefix (t_plans db) (t_plans db') \<and> prefix (t_snapshots db) (t_snapshots db') \<and>
     prefix (t_witnesses db) (t_witnesses db')"

lemma extends_refl [simp]: "extends db db"
  by (simp add: extends_def)

lemma find_prefix:
  assumes "find P xs = Some x" "prefix xs ys"
  shows "find P ys = Some x"
proof -
  have "find P (xs @ zs) = Some x" for zs using assms(1) by (induction xs) (auto split: if_splits)
  then show ?thesis using assms(2) by (auto simp: prefix_def)
qed

lemma find_append_None: "find P xs = None \<Longrightarrow> find P (xs @ ys) = find P ys"
  by (induction xs) (auto split: if_splits)

lemma loadPlan_mono:
  assumes "loadPlan K db i = Inr p" "extends db db'"
  shows "loadPlan K db' i = Inr p"
proof -
  have f: "find (\<lambda>p. pl_ID p = i) (t_plans db) = Some p" "pl_ID p = ComputePlanID K p"
    using assms(1) by (auto simp: loadPlan_def select_row_def split: option.splits if_splits)
  show ?thesis using find_prefix[OF f(1), of "t_plans db'"] f(2) assms(2) by (simp add: loadPlan_def select_row_def extends_def)
qed

lemma loadSnapshotNode_mono: "\<lbrakk>loadSnapshotNode db i n = Some x; extends db db'\<rbrakk> \<Longrightarrow> loadSnapshotNode db' i n = Some x"
  by (auto simp: loadSnapshotNode_def extends_def dest: find_prefix split: option.splits)

lemma planned_edge_mono: "\<lbrakk>planned_edge db p i n e = Some x; extends db db'\<rbrakk> \<Longrightarrow> planned_edge db' p i n e = Some x"
  by (auto simp: planned_edge_def extends_def dest: find_prefix split: option.splits)

lemma siblings_mono: "\<lbrakk>loadWitnessSiblings db i \<noteq> []; extends db db'\<rbrakk> \<Longrightarrow> loadWitnessSiblings db' i = loadWitnessSiblings db i"
  by (auto simp: loadWitnessSiblings_def extends_def dest: find_prefix split: option.splits)

lemma material_mono:
  assumes "loadPathProofMaterial K db p i n e = Inr m" "extends db db'"
  shows "loadPathProofMaterial K db' p i n e = Inr m"
proof -
  obtain edge wid a b where m: "planned_edge db p i n e = Some edge" "te_WitnessID edge = Some wid" "loadWitnessSiblings db wid \<noteq> []"
    "loadSnapshotNode db i (te_From edge) = Some a" "loadSnapshotNode db i (te_To edge) = Some b"
    using assms(1) by (auto simp: loadPathProofMaterial_def Let_def split: option.splits if_splits)
  note m' = planned_edge_mono[OF m(1) assms(2)] siblings_mono[OF m(3) assms(2)] loadSnapshotNode_mono[OF m(4) assms(2)]
    loadSnapshotNode_mono[OF m(5) assms(2)]
  show ?thesis using assms(1) m m' by (simp add: loadPathProofMaterial_def Let_def)
qed

lemma load_hops_mono:
  assumes "load_hops K db plan i hops r = Inr r'" "extends db db'"
  shows "load_hops K db' plan i hops r = Inr r'"
  using assms(1)
proof (induction hops arbitrary: i r)
  case (Cons hop hops)
  then obtain m where m: "loadPathProofMaterial K db (pp_PlanID r) (pp_SnapshotID r) (ph_PlanHopIndex hop) (ph_EdgeID hop) = Inr m"
    by (auto simp: Let_def split: if_splits)
  show ?case using Cons.prems m material_mono[OF m assms(2)] Cons.IH by (auto simp: Let_def split: if_splits sum.splits)
qed simp

lemma loadPathProof_mono:
  assumes "loadPathProof K db i = Inr p" "extends db db'" "prefix (t_proofs db) (t_proofs db')"
  shows "loadPathProof K db' i = Inr p"
proof -
  obtain row plan n q where r: "find (\<lambda>p. pp_ID p = i) (t_proofs db) = Some row" "loadPlan K db (pp_PlanID row) = Inr plan"
    "loadSnapshotNode db (pp_SnapshotID row) (pl_TargetNodeID plan) = Some n" "load_hops K db plan 0 (pp_Hops row) row = Inr q"
    using assms(1) by (auto simp: loadPathProof_def loadProofPlan_Inr select_row_def split: option.splits if_splits)
  note r' = find_prefix[OF r(1) assms(3)] loadPlan_mono[OF r(2) assms(2)] loadSnapshotNode_mono[OF r(3) assms(2)] load_hops_mono[OF r(4) assms(2)]
  have "loadPathProof K db' i = loadPathProof K db i"
    unfolding loadPathProof_def loadProofPlan_def select_row_def by (simp add: r r' del: bind_res_eq_Inr)
  then show ?thesis using assms(1) by simp
qed

text \<open>The rows of proofs: identifiers and plans are unique, and every proof loads.\<close>

definition proofs_ok :: "keccak \<Rightarrow> 'a store_scheme \<Rightarrow> bool" where
  "proofs_ok K db \<longleftrightarrow> distinct (map pp_ID (t_proofs db)) \<and> distinct (map pp_PlanID (t_proofs db)) \<and>
     (\<forall>row \<in> set (t_proofs db). \<exists>p. loadPathProof K db (pp_ID row) = Inr p)"

lemma proofs_ok_frame:
  assumes "proofs_ok K db" "extends db db'" "t_proofs db' = t_proofs db"
  shows "proofs_ok K db'"
  using assms loadPathProof_mono[of K db _ _ db'] by (fastforce simp: proofs_ok_def)

lemma insert_proof_Inr:
  assumes "insert_proof now db v = Inr db'"
  obtains t where "db' = db\<lparr>t_proofs := t_proofs db @ [v\<lparr>pp_BlockHashes := [], pp_Witnesses := [], pp_CreatedAt := t\<rparr>]\<rparr>"
    "\<forall>p \<in> set (t_proofs db). pp_PlanID p \<noteq> pp_PlanID v" "t = (if pp_CreatedAt v = zero_time then now else pp_CreatedAt v)"
  using assms by (intro that[of "if pp_CreatedAt v = zero_time then now else pp_CreatedAt v"])
    (simp_all add: insert_proof_def Let_def split: if_split_asm)

lemma savePathProof_Inr:
  assumes "savePathProof K now db v = Inr db'"
  obtains plan target where "pp_ID v = ComputePathProofID K v" "pp_Hops v \<noteq> []" "length (pp_BlockHashes v) = length (pp_Hops v)"
    "length (pp_Witnesses v) = length (pp_Hops v)" "loadPlan K db (pp_PlanID v) = Inr plan" "pl_Type plan = PathPlan"
    "pl_RequestID plan = pp_RequestID v" "pl_SnapshotID plan = pp_SnapshotID v" "length (pl_Hops plan) = length (pp_Hops v)"
    "loadSnapshotNode db (pp_SnapshotID v) (pl_TargetNodeID plan) = Some target" "tn_Root target = pp_BaseTrustRoot v"
    "\<forall>j \<in> {0..<length (pp_Hops v)}. check_hop K db plan v j = Inr ()"
    "db' = db \<and> (\<exists>q. loadPathProof K db (pp_ID v) = Inr q) \<or>
     loadPathProof K db (pp_ID v) = Inl ErrPathProofNotFound \<and> insert_proof now db v = Inr db'"
proof -
  obtain plan target where p: "loadProofPlan K db (pp_PlanID v) = Inr plan"
    "loadSnapshotNode db (pp_SnapshotID v) (pl_TargetNodeID plan) = Some target"
    "check_hops K db plan v [0..<length (pp_Hops v)] = Inr ()"
    using assms by (auto simp: savePathProof_def split: if_splits option.splits)
  have "\<forall>j \<in> {0..<length (pp_Hops v)}. check_hop K db plan v j = Inr ()" using check_hops_nth[OF p(3)] by simp
  then show thesis
    using assms p by (intro that[of plan target]) (auto simp: savePathProof_def loadProofPlan_Inr split: if_splits sum.splits)
qed

lemma row_NotFound: "loadPathProof K db i = Inl ErrPathProofNotFound \<Longrightarrow> proofs_ok K db \<Longrightarrow> i \<notin> pp_ID ` set (t_proofs db)"
  by (auto simp: proofs_ok_def)

lemma loadPathProof_row:
  assumes "find (\<lambda>p. pp_ID p = i) (t_proofs db) = Some row" "pp_ID row = i" "loadPlan K db (pp_PlanID row) = Inr plan"
    and "pl_Type plan = PathPlan" "pl_RequestID plan = pp_RequestID row" "pl_SnapshotID plan = pp_SnapshotID row"
    and "pp_Hops row \<noteq> []" "length (pl_Hops plan) = length (pp_Hops row)"
    and "loadSnapshotNode db (pp_SnapshotID row) (pl_TargetNodeID plan) = Some target" "tn_Root target = pp_BaseTrustRoot row"
    and "load_hops K db plan 0 (pp_Hops row) row = Inr q" "pp_ID q = ComputePathProofID K q"
  shows "loadPathProof K db i = Inr q"
  using assms by (simp add: loadPathProof_def loadProofPlan_def select_row_def)

lemma ComputePathProofID_created [simp]: "ComputePathProofID K (p\<lparr>pp_CreatedAt := t\<rparr>) = ComputePathProofID K p"
  by (simp add: ComputePathProofID_def path_proof_bytes_def)

text \<open>A new proof loads back with every field but the creation time, which the store may have set.\<close>

lemma new_proof_loads:
  assumes "savePathProof K now db v = Inr db'" "proofs_ok K db" "db' \<noteq> db"
  shows "loadPathProof K db' (pp_ID v) = Inr (v\<lparr>pp_CreatedAt := if pp_CreatedAt v = zero_time then now else pp_CreatedAt v\<rparr>)"
    "pp_ID v \<notin> pp_ID ` set (t_proofs db)" "insert_proof now db v = Inr db'"
proof -
  obtain plan target where s: "pp_ID v = ComputePathProofID K v" "pp_Hops v \<noteq> []" "length (pp_BlockHashes v) = length (pp_Hops v)"
    "length (pp_Witnesses v) = length (pp_Hops v)" "loadPlan K db (pp_PlanID v) = Inr plan" "pl_Type plan = PathPlan"
    "pl_RequestID plan = pp_RequestID v" "pl_SnapshotID plan = pp_SnapshotID v" "length (pl_Hops plan) = length (pp_Hops v)"
    "loadSnapshotNode db (pp_SnapshotID v) (pl_TargetNodeID plan) = Some target" "tn_Root target = pp_BaseTrustRoot v"
    "\<forall>j \<in> {0..<length (pp_Hops v)}. check_hop K db plan v j = Inr ()"
    and last: "db' = db \<and> (\<exists>q. loadPathProof K db (pp_ID v) = Inr q) \<or>
     loadPathProof K db (pp_ID v) = Inl ErrPathProofNotFound \<and> insert_proof now db v = Inr db'"
    using assms(1) by (rule savePathProof_Inr)
  have new: "loadPathProof K db (pp_ID v) = Inl ErrPathProofNotFound" "insert_proof now db v = Inr db'" using last assms(3) by blast+
  obtain t where t: "db' = db\<lparr>t_proofs := t_proofs db @ [v\<lparr>pp_BlockHashes := [], pp_Witnesses := [], pp_CreatedAt := t\<rparr>]\<rparr>"
    "t = (if pp_CreatedAt v = zero_time then now else pp_CreatedAt v)" using new(2) by (rule insert_proof_Inr)
  show fresh: "pp_ID v \<notin> pp_ID ` set (t_proofs db)" "insert_proof now db v = Inr db'" using row_NotFound[OF new(1) assms(2)] new(2) by auto
  let ?row = "v\<lparr>pp_BlockHashes := [], pp_Witnesses := [], pp_CreatedAt := t\<rparr>"
  have ext: "extends db db'" by (simp add: t(1) extends_def)
  have hops: "load_hops K db plan 0 (pp_Hops v) ?row = Inr (v\<lparr>pp_CreatedAt := t\<rparr>)"
    using load_hops_checked[OF s(12) s(9) s(3,4), of ?row] by simp
  have "find (\<lambda>p. pp_ID p = pp_ID v) (t_proofs db) = None" using fresh(1) by (simp add: find_None_iff) (metis image_eqI)
  then have row: "find (\<lambda>p. pp_ID p = pp_ID v) (t_proofs db') = Some ?row" by (simp add: t(1) find_append_None)
  have "loadPathProof K db' (pp_ID v) = Inr (v\<lparr>pp_CreatedAt := t\<rparr>)"
    by (rule loadPathProof_row[OF row, where plan=plan and target=target])
      (use s loadPlan_mono[OF s(5) ext] loadSnapshotNode_mono[OF s(10) ext] load_hops_mono[OF hops ext] in simp_all)
  then show "loadPathProof K db' (pp_ID v) = Inr (v\<lparr>pp_CreatedAt := if pp_CreatedAt v = zero_time then now else pp_CreatedAt v\<rparr>)"
    by (simp add: t(2))
qed

lemma savePathProof_ok:
  assumes "savePathProof K now db v = Inr db'" "proofs_ok K db"
  shows "proofs_ok K db'" "db' = db\<lparr>t_proofs := t_proofs db'\<rparr>" "prefix (t_proofs db) (t_proofs db')"
proof -
  have "proofs_ok K db' \<and> db' = db\<lparr>t_proofs := t_proofs db'\<rparr> \<and> prefix (t_proofs db) (t_proofs db')"
  proof (cases "db' = db")
    case False
    note n = new_proof_loads[OF assms False]
    obtain t where t: "db' = db\<lparr>t_proofs := t_proofs db @ [v\<lparr>pp_BlockHashes := [], pp_Witnesses := [], pp_CreatedAt := t\<rparr>]\<rparr>"
      "\<forall>p \<in> set (t_proofs db). pp_PlanID p \<noteq> pp_PlanID v" using n(3) by (rule insert_proof_Inr)
    have "loadPathProof K db' j = Inr p" if "loadPathProof K db j = Inr p" for j p
      by (rule loadPathProof_mono[OF that]) (simp_all add: t(1) extends_def)
    then show ?thesis using assms(2) n(1,2) t(2) unfolding proofs_ok_def by (fastforce simp: t(1))
  qed (simp add: assms(2))
  then show "proofs_ok K db'" "db' = db\<lparr>t_proofs := t_proofs db'\<rparr>" "prefix (t_proofs db) (t_proofs db')" by blast+
qed

end
