(* ===== verification/NodeSystem.thy ===== *)
theory NodeSystem
  imports ProofStore
begin

text \<open>
  The node as one system over its database: every write operation of the repositories for evidence, requests, chains
  and cursors, the graph with its snapshots, plans and path proofs is a step of the store, and the coordinator runs on
  these repositories as its services. The writes of the confirmed event indexer (\<open>ApplyConfirmedBlock\<close>), of evidence
  received from peers and of the transaction executor are not steps. The invariants of the components hold in every store that these steps
  reach, and the states of the requests, seen from outside, follow the abstract state machine.
\<close>

subsection \<open>Steps of the store\<close>

inductive store_step :: "keccak \<Rightarrow> 'a store_scheme \<Rightarrow> 'a store_scheme \<Rightarrow> bool" for K where
  observe_evidence: "ObserveEvidence K now db ev = (db', r1) \<Longrightarrow> store_step K db db'"
| transition_evidence: "TransitionEvidence now db i f t m = (db', r2) \<Longrightarrow> store_step K db db'"
| observe_request: "ObserveRequest K now db rq = (db', r3) \<Longrightarrow> store_step K db db'"
| transition_request: "TransitionRequest now db rid f' t' m = (db', r4) \<Longrightarrow> store_step K db db'"
| sync_chains: "SyncChains db entries = (db', r5) \<Longrightarrow> store_step K db db'"
| bind_deployment: "BindDeployment now db dep block = (db', r6) \<Longrightarrow> store_step K db db'"
| initialize_cursor: "InitializeCursor db cur = (db', r7) \<Longrightarrow> store_step K db db'"
| advance_cursor: "AdvanceCursor db c h b = (db', r8) \<Longrightarrow> store_step K db db'"
| degrade_cursor: "DegradeCursor db c reason = (db', r9) \<Longrightarrow> store_step K db db'"
| save_observation: "SaveObservation K now db ob = (db', r10) \<Longrightarrow> store_step K db db'"
| merge_edge: "MergeActiveTrustEdge K db fromNode toNode edge vdep = (db', r11) \<Longrightarrow> store_step K db db'"
| save_witness: "SaveMembershipWitness K db w = (db', r12) \<Longrightarrow> store_step K db db'"
| create_snapshot: "CreateTrustViewSnapshot K db srq = (db', r13) \<Longrightarrow> store_step K db db'"
| save_plan: "SavePlan K now db p = Inr db' \<Longrightarrow> store_step K db db'"
| save_proof: "savePathProof K now db v = Inr db' \<Longrightarrow> store_step K db db'"

definition reachable_store :: "keccak \<Rightarrow> store \<Rightarrow> bool" where
  "reachable_store K db \<longleftrightarrow> (store_step K)\<^sup>*\<^sup>* empty_store db"

subsection \<open>What a step leaves alone\<close>

text \<open>The tables of requests, plans and proofs are kept; nodes, snapshots and witnesses are only appended.\<close>

definition keeps_plans :: "'a store_scheme \<Rightarrow> 'a store_scheme \<Rightarrow> bool" where
  "keeps_plans db db' \<longleftrightarrow> t_plans db' = t_plans db \<and> t_current_plan db' = t_current_plan db \<and> t_proofs db' = t_proofs db \<and>
     prefix (t_snapshots db) (t_snapshots db') \<and> prefix (t_witnesses db) (t_witnesses db') \<and> prefix (t_nodes db) (t_nodes db')"

definition keeps_requests :: "'a store_scheme \<Rightarrow> 'a store_scheme \<Rightarrow> bool" where
  "keeps_requests db db' \<longleftrightarrow> t_requests db' = t_requests db \<and> t_request_transitions db' = t_request_transitions db"

abbreviation keeps :: "'a store_scheme \<Rightarrow> 'a store_scheme \<Rightarrow> bool" where
  "keeps db db' \<equiv> keeps_plans db db' \<and> keeps_requests db db'"

lemmas keeps_defs = keeps_plans_def keeps_requests_def

lemma keeps_refl [simp]: "keeps_plans db db" "keeps_requests db db"
  by (simp_all add: keeps_defs)

lemma keeps_trans:
  "keeps_plans a b \<Longrightarrow> keeps_plans b c \<Longrightarrow> keeps_plans a c" "keeps_requests a b \<Longrightarrow> keeps_requests b c \<Longrightarrow> keeps_requests a c"
  by (auto simp: keeps_defs)

definition chains_only :: "'a store_scheme \<Rightarrow> 'a store_scheme \<Rightarrow> bool" where
  "chains_only db db' \<longleftrightarrow> (\<exists>x y. db' = db\<lparr>t_live_chains := x, t_cursors := y\<rparr>)"

lemma chains_onlyI: "db' = db\<lparr>t_live_chains := x, t_cursors := y\<rparr> \<Longrightarrow> chains_only db db'"
  by (auto simp: chains_only_def)

lemma chains_only_trans: "chains_only a b \<Longrightarrow> chains_only b c \<Longrightarrow> chains_only a c"
  unfolding chains_only_def by force

lemma chains_only_refl [simp]: "chains_only db db"
  by (rule chains_onlyI[where x="t_live_chains db" and y="t_cursors db"]) simp

lemma chains_only_upd [simp]: "chains_only db (db\<lparr>t_live_chains := x\<rparr>)" "chains_only db (db\<lparr>t_cursors := y\<rparr>)"
  by (rule chains_onlyI[where y="t_cursors db"], simp) (rule chains_onlyI[where x="t_live_chains db"], simp)

lemma sync_entry_chains: "sync_entry db item = Inr db' \<Longrightarrow> chains_only db db'"
  by (auto simp: sync_entry_def Let_def split: if_splits)

lemma sync_chains_only: "sync_entries db entries = Inr db' \<Longrightarrow> chains_only db db'"
  by (induction entries arbitrary: db) (auto dest: sync_entry_chains intro: chains_only_trans)

lemma persist_chains_only: "persistCursorDegraded db c reason = (db', x) \<Longrightarrow> chains_only db db'"
  by (auto simp: persistCursorDegraded_def Let_def split: if_splits)

lemma chain_ops_only:
  "SyncChains db entries = (db', a) \<Longrightarrow> chains_only db db'"
  "BindDeployment now db dep block = (db', b) \<Longrightarrow> chains_only db db'"
  "InitializeCursor db cur = (db', c) \<Longrightarrow> chains_only db db'"
  "AdvanceCursor db ch h blk = (db', d) \<Longrightarrow> chains_only db db'"
  "DegradeCursor db ch reason = (db', e) \<Longrightarrow> chains_only db db'"
proof -
  show "SyncChains db entries = (db', a) \<Longrightarrow> chains_only db db'"
    by (auto simp: SyncChains_def dest: sync_chains_only split: sum.splits if_splits)
  show "BindDeployment now db dep block = (db', b) \<Longrightarrow> chains_only db db'"
    by (auto simp: BindDeployment_def Let_def split: sum.splits if_splits)
  show "InitializeCursor db cur = (db', c) \<Longrightarrow> chains_only db db'"
    by (auto simp: InitializeCursor_def Let_def split: sum.splits if_splits)
  have deg: "degrade_on_mismatch db cur reason = (db', y) \<Longrightarrow> chains_only db db'" for cur reason y
    by (auto simp: degrade_on_mismatch_def dest: persist_chains_only split: prod.splits option.splits)
  show "AdvanceCursor db ch h blk = (db', d) \<Longrightarrow> chains_only db db'"
    by (auto simp: AdvanceCursor_def dest: deg split: sum.splits if_splits)
  show "DegradeCursor db ch reason = (db', e) \<Longrightarrow> chains_only db db'"
    by (auto simp: DegradeCursor_def dest: persist_chains_only split: sum.splits if_splits prod.splits)
qed

lemma chains_only_keeps:
  assumes "chains_only db db'"
  shows "keeps db db'" "graph_ok K db \<Longrightarrow> graph_ok K db'"
proof -
  obtain x y where db': "db' = db\<lparr>t_live_chains := x, t_cursors := y\<rparr>" using assms by (auto simp: chains_only_def)
  show "keeps db db'" by (simp add: db' keeps_defs)
  show "graph_ok K db'" if "graph_ok K db" by (rule graph_ok_frame[OF that]) (simp_all add: db' evidence_active_def)
qed

lemma graph_writes_keep:
  "mergeTrustNode db n = Inr (db', c) \<Longrightarrow> keeps db db'"
  "mergeTrustEdge db e = Inr (db', c) \<Longrightarrow> keeps db db'"
  "bumpGraphRevision db = Inr db' \<Longrightarrow> keeps db db'"
  by (auto simp: mergeTrustNode_def mergeTrustEdge_def bumpGraphRevision_def keeps_defs split: option.splits if_splits)

lemma merge_graph_keeps: "merge_graph db a b e = Inr (db', c) \<Longrightarrow> keeps db db'"
  by (auto simp: merge_graph_def dest!: graph_writes_keep split: if_splits intro: keeps_trans)

lemma advance_keeps: "advance_evidence t i f states db = Inr db' \<Longrightarrow> keeps db db'"
proof (induction states arbitrary: f db)
  case (Cons s states)
  then have "keeps (db\<lparr>t_evidence := update_rows (\<lambda>r. ev_ID r = i \<and> ev_State r = f) (\<lambda>r. r\<lparr>ev_State := s, ev_UpdatedAt := t\<rparr>) (t_evidence db),
            t_evidence_transitions := t_evidence_transitions db @
              [\<lparr>tr_ID = i, tr_From = f, tr_To = s, tr_Reason = observation_reason, tr_ChangedAt = t\<rparr>]\<rparr>) db'"
    by (simp split: if_splits)
  then show ?case by (simp add: keeps_defs)
qed simp

lemma insert_observation_keeps:
  assumes "insert_observation K db ob = Inr (db', n)"
  shows "keeps db db'"
proof -
  let ?i = "ev_ID (SyntheticEvidence K ob)"
  obtain d1 d2 c where s: "advance_evidence (ob_ObservedAt ob) ?i Candidate [Verified, Confirmed, Active]
      (db\<lparr>t_evidence := t_evidence db @ [SyntheticEvidence K ob]\<rparr>) = Inr d1"
    "mergeTrustNode (d1\<lparr>t_observations := t_observations d1 @ [observation_row_of ob ?i]\<rparr>) (observation_TrustNode K ob) = Inr (d2, c)"
    "bumpGraphRevision d2 = Inr db'"
    using assms by (auto simp: insert_observation_def Let_def simp del: advance_evidence.simps split: if_splits)
  have "keeps db d1" using advance_keeps[OF s(1)] by (simp add: keeps_defs)
  moreover have "keeps d1 d2" using graph_writes_keep(1)[OF s(2)] by (simp add: keeps_defs)
  ultimately show ?thesis using graph_writes_keep(3)[OF s(3)] by (blast intro: keeps_trans)
qed

lemma in_tx_keeps:
  assumes "in_tx db r = (db', x)" "\<And>d y. r = Inr (d, y) \<Longrightarrow> keeps db d"
  shows "keeps db db'"
  using in_tx_ok[OF assms(1), of "keeps db"] assms(2) by simp

lemma SaveObservation_keeps: "SaveObservation K now db ob = (db', x) \<Longrightarrow> keeps db db'"
  unfolding SaveObservation_def
  by (erule in_tx_keeps) (auto simp: Let_def dest: insert_observation_keeps split: sum.splits if_splits)

lemma MergeActiveTrustEdge_keeps:
  assumes "MergeActiveTrustEdge K db a b e d = (db', x)"
  shows "keeps db db'"
proof (cases x)
  case (Inl err)
  then show ?thesis using in_tx_kept[OF assms[unfolded Inl MergeActiveTrustEdge_def]] by simp
next
  case (Inr y)
  then have "merge_graph db a b e = Inr (db', y)"
    using assms unfolding Inr MergeActiveTrustEdge_def in_tx_Inr by (auto split: if_splits sum.splits)
  then show ?thesis by (rule merge_graph_keeps)
qed

lemma SaveMembershipWitness_keeps: "SaveMembershipWitness K db w = (db', x) \<Longrightarrow> keeps db db'"
  unfolding SaveMembershipWitness_def
  by (erule in_tx_keeps) (auto simp: Let_def bumpGraphRevision_def keeps_defs split: option.splits if_splits)

lemma CreateTrustViewSnapshot_keeps: "CreateTrustViewSnapshot K db rq = (db', x) \<Longrightarrow> keeps db db'"
  unfolding CreateTrustViewSnapshot_def
  by (erule in_tx_keeps) (auto simp: Let_def keeps_defs split: sum.splits if_splits)

lemma evidence_ops_keep:
  "ObserveEvidence K now db ev = (db', a) \<Longrightarrow> keeps db db'" "TransitionEvidence now db i f t m = (db', b) \<Longrightarrow> keeps db db'"
proof -
  show "keeps db db'" if "ObserveEvidence K now db ev = (db', a)"
    using that by (auto simp: ObserveEvidence_def Let_def keeps_defs split: if_splits sum.splits)
  show "keeps db db'" if t: "TransitionEvidence now db i f t m = (db', b)"
  proof (cases "\<exists>r. b = Inr (r, True)")
    case True
    then obtain r where "TransitionEvidence now db i f t m = (db', Inr (r, True))" using t by blast
    then show ?thesis by (rule TransitionEvidence_moved) (simp add: keeps_defs)
  qed (use TransitionEvidence_kept[OF t] in auto)
qed

subsection \<open>The invariant of the database\<close>

definition store_ok :: "keccak \<Rightarrow> 'a store_scheme \<Rightarrow> bool" where
  "store_ok K db \<longleftrightarrow> graph_ok K db \<and> plans_ok K db \<and> proofs_ok K db"

lemma keeps_ok:
  assumes "keeps db db'" "store_ok K db" "graph_ok K db'"
  shows "store_ok K db'"
proof -
  have "plans_ok K db'"
    by (rule plans_ok_frame[of K db]) (use assms in \<open>auto simp: store_ok_def keeps_defs set_mono_prefix\<close>)
  moreover have "proofs_ok K db'"
    by (rule proofs_ok_frame[of K db]) (use assms in \<open>auto simp: store_ok_def keeps_defs extends_def\<close>)
  ultimately show ?thesis using assms(3) by (simp add: store_ok_def)
qed

text \<open>The requests change, their identifiers remain.\<close>

lemma request_ops_ok:
  assumes "keeps_plans db db'" "set (map rs_ID (t_requests db)) \<subseteq> set (map rs_ID (t_requests db'))" "store_ok K db" "graph_ok K db'"
  shows "store_ok K db'"
proof -
  have "plans_ok K db'"
    by (rule plans_ok_frame[of K db]) (use assms in \<open>auto simp: store_ok_def keeps_defs set_mono_prefix\<close>)
  moreover have "proofs_ok K db'"
    by (rule proofs_ok_frame[of K db]) (use assms in \<open>auto simp: store_ok_def keeps_defs extends_def\<close>)
  ultimately show ?thesis using assms(4) by (simp add: store_ok_def)
qed

lemma request_ops_keep:
  "ObserveRequest K now db rq = (db', a) \<Longrightarrow> keeps_plans db db' \<and> set (map rs_ID (t_requests db)) \<subseteq> set (map rs_ID (t_requests db'))"
  "TransitionRequest now db rid f t m = (db', b) \<Longrightarrow> keeps_plans db db' \<and> map rs_ID (t_requests db') = map rs_ID (t_requests db)"
proof -
  show "keeps_plans db db' \<and> set (map rs_ID (t_requests db)) \<subseteq> set (map rs_ID (t_requests db'))" if "ObserveRequest K now db rq = (db', a)"
    using that by (auto simp: ObserveRequest_def Let_def keeps_defs split: if_splits sum.splits)
  show "keeps_plans db db' \<and> map rs_ID (t_requests db') = map rs_ID (t_requests db)" if t: "TransitionRequest now db rid f t m = (db', b)"
  proof (cases "\<exists>r. b = Inr (r, True)")
    case True
    then obtain r where "TransitionRequest now db rid f t m = (db', Inr (r, True))" using t by blast
    then show ?thesis by (rule TransitionRequest_moved) (simp add: keeps_defs update_rows_def comp_def if_distrib[of rs_ID] cong: if_cong)
  qed (use TransitionRequest_kept[OF t] in auto)
qed

lemma SavePlan_store_ok:
  assumes "SavePlan K now db p = Inr db'" "store_ok K db"
  shows "store_ok K db'"
proof -
  note o = assms(2)[unfolded store_ok_def]
  have ok: "plans_ok K db'" and eq: "db' = db\<lparr>t_plans := t_plans db', t_current_plan := t_current_plan db'\<rparr>"
    using SavePlan_ok[OF assms(1)] o by blast+
  have pre: "prefix (t_plans db) (t_plans db')" using SavePlan_append[OF assms(1)] o by (auto simp: prefix_def)
  have "graph_ok K db'"
    by (rule graph_ok_frame[of K db]) (use o in \<open>simp_all add: arg_cong[OF eq, of t_nodes] arg_cong[OF eq, of t_edges]
      arg_cong[OF eq, of t_witnesses] arg_cong[OF eq, of t_snapshots] arg_cong[OF eq, of g_revision] arg_cong[OF eq, of t_evidence] evidence_active_def\<close>)
  moreover have "proofs_ok K db'"
    by (rule proofs_ok_frame[of K db]) (use o pre in \<open>simp_all add: extends_def arg_cong[OF eq, of t_witnesses]
      arg_cong[OF eq, of t_snapshots] arg_cong[OF eq, of t_proofs]\<close>)
  ultimately show ?thesis using ok by (simp add: store_ok_def)
qed

lemma savePathProof_store_ok:
  assumes "savePathProof K now db v = Inr db'" "store_ok K db"
  shows "store_ok K db'"
proof -
  note o = assms(2)[unfolded store_ok_def]
  have ok: "proofs_ok K db'" and eq: "db' = db\<lparr>t_proofs := t_proofs db'\<rparr>" using savePathProof_ok[OF assms(1)] o by blast+
  then obtain ps where ps: "db' = db\<lparr>t_proofs := ps\<rparr>" by blast
  have "graph_ok K db'" by (rule graph_ok_frame[of K db]) (use o in \<open>simp_all add: ps evidence_active_def\<close>)
  moreover have "plans_ok K db'" by (rule plans_ok_frame[of K db]) (use o in \<open>simp_all add: ps\<close>)
  ultimately show ?thesis using ok by (simp add: store_ok_def)
qed

lemma store_step_ok:
  assumes "store_step K db db'" "store_ok K db" "0 \<notin> tn_ID ` set (t_nodes db')"
  shows "store_ok K db'"
proof -
  have g: "graph_ok K db" using assms(2) by (simp add: store_ok_def)
  have chains: "store_ok K db'" if "chains_only db db'"
    using keeps_ok[OF chains_only_keeps(1)[OF that] assms(2)] chains_only_keeps(2)[OF that g] by blast
  note keep = keeps_ok[OF _ assms(2)]
  show ?thesis
    using assms(1)
  proof cases
    case observe_evidence
    show ?thesis by (rule keep[OF evidence_ops_keep(1)[OF observe_evidence] ObserveEvidence_graph[OF observe_evidence g]])
  next
    case transition_evidence
    show ?thesis by (rule keep[OF evidence_ops_keep(2)[OF transition_evidence] TransitionEvidence_graph[OF transition_evidence g]])
  next
    case observe_request
    show ?thesis
      using request_ops_keep(1)[OF observe_request] ObserveRequest_graph[OF observe_request g] by (intro request_ops_ok[OF _ _ assms(2)]) simp_all
  next
    case transition_request
    show ?thesis
      using request_ops_keep(2)[OF transition_request] TransitionRequest_graph[OF transition_request g]
      by (intro request_ops_ok[OF _ _ assms(2)]) simp_all
  next
    case save_observation
    show ?thesis by (rule keep[OF SaveObservation_keeps[OF save_observation] SaveObservation_graph[OF save_observation g assms(3)]])
  next
    case merge_edge
    show ?thesis by (rule keep[OF MergeActiveTrustEdge_keeps[OF merge_edge] MergeActiveTrustEdge_ok[OF merge_edge g]])
  next
    case save_witness
    show ?thesis by (rule keep[OF SaveMembershipWitness_keeps[OF save_witness] SaveMembershipWitness_ok[OF save_witness g]])
  next
    case create_snapshot
    show ?thesis by (rule keep[OF CreateTrustViewSnapshot_keeps[OF create_snapshot] CreateTrustViewSnapshot_ok[OF create_snapshot g]])
  next
    case save_plan
    show ?thesis by (rule SavePlan_store_ok[OF save_plan assms(2)])
  next
    case save_proof
    show ?thesis by (rule savePathProof_store_ok[OF save_proof assms(2)])
  next
    case sync_chains
    show ?thesis by (rule chains[OF chain_ops_only(1)[OF sync_chains]])
  next
    case bind_deployment
    show ?thesis by (rule chains[OF chain_ops_only(2)[OF bind_deployment]])
  next
    case initialize_cursor
    show ?thesis by (rule chains[OF chain_ops_only(3)[OF initialize_cursor]])
  next
    case advance_cursor
    show ?thesis by (rule chains[OF chain_ops_only(4)[OF advance_cursor]])
  next
    case degrade_cursor
    show ?thesis by (rule chains[OF chain_ops_only(5)[OF degrade_cursor]])
  qed
qed

text \<open>Nodes are never removed, so that a store without a zero identifier had none before either.\<close>

lemma plan_save_nodes: "SavePlan K now db p = Inr db' \<Longrightarrow> t_nodes db' = t_nodes db"
  by (auto simp: SavePlan_def save_attempt_def bind_current_def dest!: insert_plan_Inr(1) split: if_splits option.splits sum.splits)

lemma proof_save_nodes: "savePathProof K now db v = Inr db' \<Longrightarrow> t_nodes db' = t_nodes db"
  by (erule savePathProof_Inr) (auto elim!: insert_proof_Inr)

lemma step_nodes:
  assumes "store_step K db db'"
  shows "prefix (t_nodes db) (t_nodes db')"
proof -
  have k: "keeps_plans db db' \<Longrightarrow> prefix (t_nodes db) (t_nodes db')" by (simp add: keeps_plans_def)
  note ops = evidence_ops_keep[THEN conjunct1, THEN k] request_ops_keep[THEN conjunct1, THEN k] SaveObservation_keeps[THEN conjunct1, THEN k]
    MergeActiveTrustEdge_keeps[THEN conjunct1, THEN k] SaveMembershipWitness_keeps[THEN conjunct1, THEN k]
    CreateTrustViewSnapshot_keeps[THEN conjunct1, THEN k] chain_ops_only[THEN chains_only_keeps(1), THEN conjunct1, THEN k]
  show ?thesis using assms by cases ((erule ops | simp add: plan_save_nodes proof_save_nodes)+)
qed

lemma store_steps_ok:
  "(store_step K)\<^sup>*\<^sup>* db db' \<Longrightarrow> store_ok K db \<Longrightarrow> 0 \<notin> tn_ID ` set (t_nodes db') \<Longrightarrow> store_ok K db'"
proof (induction rule: rtranclp_induct)
  case (step d d')
  have "set (t_nodes d) \<subseteq> set (t_nodes d')" by (rule set_mono_prefix[OF step_nodes[OF step.hyps(2)]])
  then have "store_ok K d" using step.IH step.prems by blast
  then show ?case by (rule store_step_ok[OF step.hyps(2) _ step.prems(2)])
qed

lemma empty_store_ok: "store_ok K empty_store"
  by (simp add: store_ok_def graph_ok_empty plans_ok_empty) (simp add: proofs_ok_def empty_store_def)

lemma reachable_ok: "reachable_store K db \<Longrightarrow> 0 \<notin> tn_ID ` set (t_nodes db) \<Longrightarrow> store_ok K db"
  unfolding reachable_store_def by (rule store_steps_ok[OF _ empty_store_ok])

subsection \<open>The states of requests\<close>

text \<open>The abstract machine: a request appears as observed, and moves along the legal transitions.\<close>

inductive request_machine :: "(request_id \<rightharpoonup> request_state) \<Rightarrow> (request_id \<rightharpoonup> request_state) \<Rightarrow> bool" where
  appear: "m rid = None \<Longrightarrow> request_machine m (m(rid \<mapsto> Observed))"
| move: "\<lbrakk>m rid = Some f; legal_request_transition f t\<rbrakk> \<Longrightarrow> request_machine m (m(rid \<mapsto> t))"

definition abs_requests :: "'a store_scheme \<Rightarrow> (request_id \<rightharpoonup> request_state)" where
  "abs_requests db = (\<lambda>rid. ok_state rs_State (LoadRequest db rid))"

lemma abs_requests_keep: "keeps_requests db db' \<Longrightarrow> abs_requests db' = abs_requests db"
  by (simp add: abs_requests_def LoadRequest_def keeps_defs)

lemma observe_refines:
  assumes "ObserveRequest K now db rq = (db', x)"
  shows "request_machine\<^sup>=\<^sup>= (abs_requests db) (abs_requests db')"
proof (cases "\<exists>r. x = Inr (r, True)")
  case True
  then obtain r where o: "ObserveRequest K now db rq = (db', Inr (r, True))" using assms by blast
  note c = ObserveRequest_creates[OF o]
  have "abs_requests db' = (abs_requests db)(rs_ID rq \<mapsto> Observed)"
    using c ObserveRequest_frame[OF assms] by (auto simp: abs_requests_def)
  moreover have "abs_requests db (rs_ID rq) = None"
    using c by (cases "LoadRequest db (rs_ID rq)") (auto simp: abs_requests_def)
  ultimately have "request_machine (abs_requests db) (abs_requests db')" by (simp add: request_machine.appear)
  then show ?thesis by simp
qed (use ObserveRequest_kept[OF assms] in auto)

lemma transition_refines:
  assumes "TransitionRequest now db rid f t m = (db', x)"
  shows "request_machine\<^sup>=\<^sup>= (abs_requests db) (abs_requests db')"
proof (cases "\<exists>r. x = Inr (r, True)")
  case True
  then obtain r where o: "TransitionRequest now db rid f t m = (db', Inr (r, True))" using assms by blast
  note c = TransitionRequest_moves[OF o]
  have "abs_requests db' = (abs_requests db)(rid \<mapsto> t)"
    using c TransitionRequest_frame[OF assms] by (auto simp: abs_requests_def)
  moreover have "abs_requests db rid = Some f" "legal_request_transition f t" using c by (auto simp: abs_requests_def)
  ultimately have "request_machine (abs_requests db) (abs_requests db')" by (simp add: request_machine.move)
  then show ?thesis by simp
qed (use TransitionRequest_kept[OF assms] in auto)

lemma plan_save_requests: "SavePlan K now db p = Inr db' \<Longrightarrow> keeps_requests db db'"
  by (auto simp: SavePlan_def save_attempt_def bind_current_def keeps_defs dest!: insert_plan_Inr(1) split: if_splits option.splits sum.splits)

lemma proof_save_requests: "savePathProof K now db v = Inr db' \<Longrightarrow> keeps_requests db db'"
  by (erule savePathProof_Inr) (auto simp: keeps_defs elim!: insert_proof_Inr)

lemma chain_ops_keep:
  "SyncChains db entries = (db', a) \<Longrightarrow> keeps_requests db db'"
  "BindDeployment now db dep block = (db', b) \<Longrightarrow> keeps_requests db db'"
  "InitializeCursor db cur = (db', c) \<Longrightarrow> keeps_requests db db'"
  "AdvanceCursor db ch h blk = (db', d) \<Longrightarrow> keeps_requests db db'"
  "DegradeCursor db ch reason = (db', e) \<Longrightarrow> keeps_requests db db'"
  by (simp_all add: chain_ops_only chains_only_keeps)

lemmas ops_keep_requests = chain_ops_keep evidence_ops_keep[THEN conjunct2] SaveObservation_keeps[THEN conjunct2]
  MergeActiveTrustEdge_keeps[THEN conjunct2] SaveMembershipWitness_keeps[THEN conjunct2] CreateTrustViewSnapshot_keeps[THEN conjunct2]
  plan_save_requests proof_save_requests

lemma step_requests:
  assumes "store_step K db db'"
  obtains (kept) "keeps_requests db db'" | (observed) now rq x where "ObserveRequest K now db rq = (db', x)"
  | (moved) now rid f t m x where "TransitionRequest now db rid f t m = (db', x)"
  using assms by cases (erule ops_keep_requests[THEN kept] observed moved)+

lemma step_refines:
  assumes "store_step K db db'"
  shows "request_machine\<^sup>=\<^sup>= (abs_requests db) (abs_requests db')"
  using assms
proof (cases rule: step_requests)
  case kept
  then show ?thesis by (simp add: abs_requests_keep)
qed (fact observe_refines transition_refines)+

lemma steps_refine: "(store_step K)\<^sup>*\<^sup>* db db' \<Longrightarrow> request_machine\<^sup>*\<^sup>* (abs_requests db) (abs_requests db')"
  by (induction rule: rtranclp_induct) (auto dest!: step_refines intro: rtranclp.rtrancl_into_rtrancl)

text \<open>The log of transitions only grows.\<close>

lemma step_log:
  assumes "store_step K db db'"
  shows "set (t_request_transitions db) \<subseteq> set (t_request_transitions db')"
  using assms
proof (cases rule: step_requests)
  case (observed now rq x)
  then show ?thesis using ObserveRequest_kept[OF observed] ObserveRequest_creates[of K now db rq db'] by fastforce
next
  case (moved now rid f t m x)
  then show ?thesis using TransitionRequest_kept[OF moved] TransitionRequest_moves[of now db rid f t m db'] by fastforce
qed (simp add: keeps_defs)

lemma steps_log: "(store_step K)\<^sup>*\<^sup>* db db' \<Longrightarrow> set (t_request_transitions db) \<subseteq> set (t_request_transitions db')"
  by (induction rule: rtranclp_induct) (auto dest: step_log)

definition request_history :: "'a store_scheme \<Rightarrow> bool" where
  "request_history db \<longleftrightarrow> (\<forall>rid. logs_history legal_request_transition Observed (edges_of (t_request_transitions db) rid) (abs_requests db rid))"

lemma step_history:
  assumes "store_step K db db'" "request_history db"
  shows "request_history db'"
  using assms(1)
proof (cases rule: step_requests)
  case kept
  then show ?thesis using assms(2) abs_requests_keep[OF kept] by (simp add: request_history_def keeps_defs)
next
  case (observed now rq x)
  then show ?thesis using request_audit.observe_history[where db=db and q="(K, now, rq)" and db'=db' and x=x] assms(2)
    by (simp add: request_history_def abs_requests_def)
next
  case (moved now rid f t m x)
  then show ?thesis using request_audit.transition_history[where db=db and m="(now, m)" and j=rid and f=f and t=t and db'=db' and x=x] assms(2)
    by (simp add: request_history_def abs_requests_def)
qed

lemma steps_history: "(store_step K)\<^sup>*\<^sup>* db db' \<Longrightarrow> request_history db \<Longrightarrow> request_history db'"
  by (induction rule: rtranclp_induct) (auto intro: step_history)

lemma empty_history: "request_history empty_store"
  by (simp add: request_history_def empty_store_def edges_of_def abs_requests_def LoadRequest_def select_row_def logs_history_def)

subsection \<open>The coordinator on the repositories\<close>

text \<open>
  The services of the coordinator. Every call reads the clock anew, which is a function of the store here. A failed
  planning or building leaves the store as it was: \<open>plan_persists\<close> and \<open>build_persists\<close> show that what was saved
  is always loaded back, so that nothing fails after the store has changed.
\<close>

definition plan_service ::
  "keccak \<Rightarrow> (chain_id \<Rightarrow> direct_profile \<times> bool) \<Rightarrow> ('a store_scheme \<Rightarrow> go_time) \<Rightarrow> 'a store_scheme \<Rightarrow> planner_request \<Rightarrow>
     'a store_scheme \<times> plan res" where
  "plan_service K profiles clock db rq =
     (case Plan K LoadSnapshot (\<lambda>db. SavePlan K (clock db) db) (loadPlan K) profiles (clock db) db rq of
        Inl e \<Rightarrow> (db, Inl e) | Inr (plan, db') \<Rightarrow> (db', Inr plan))"

definition build_service ::
  "keccak \<Rightarrow> u8 \<Rightarrow> ('a store_scheme \<Rightarrow> go_time) \<Rightarrow> 'a store_scheme \<Rightarrow> build_request \<Rightarrow> 'a store_scheme \<times> path_proof res" where
  "build_service K depth clock db rq =
     (case Build K (store_proofs K (clock db)) depth (clock db) db rq of
        Inl e \<Rightarrow> (db, Inl e) | Inr (p, db') \<Rightarrow> (db', Inr p))"

definition store_services ::
  "keccak \<Rightarrow> u8 \<Rightarrow> (chain_id \<Rightarrow> direct_profile \<times> bool) \<Rightarrow> ('a store_scheme \<Rightarrow> go_time) \<Rightarrow> (go_error \<Rightarrow> string) \<Rightarrow>
     'a store_scheme services" where
  "store_services K depth profiles clock error_text =
     \<lparr>svc_Observe = \<lambda>db. ObserveRequest K (clock db) db, svc_Load = LoadRequest,
      svc_Transition = \<lambda>db. TransitionRequest (clock db) db, svc_RequireEvidenceReady = RequireEvidenceReady,
      svc_Plan = plan_service K profiles clock, svc_LoadCurrentPlan = LoadCurrentPlan K,
      svc_Build = build_service K depth clock, svc_ErrorText = error_text\<rparr>"

lemma plan_service_step:
  assumes "plan_service K profiles clock db rq = (db', r)"
  shows "(store_step K)\<^sup>=\<^sup>= db db'" "keeps_requests db db'"
proof -
  have "db' = db \<or> (\<exists>p now. SavePlan K now db p = Inr db')"
    using assms by (auto simp: plan_service_def Plan_def persist_def Let_def split: sum.splits)
  then show "(store_step K)\<^sup>=\<^sup>= db db'" "keeps_requests db db'" by (auto intro: save_plan plan_save_requests)
qed

lemma Build_saves:
  assumes "Build K repo depth now db rq = Inr (p, db')"
  shows "\<exists>v. SavePathProof repo db v = Inr db' \<and> LoadPathProof repo db' (pp_ID v) = Inr p"
  using assms by (auto simp: Build_def Let_def split: if_splits option.splits sum.splits)

lemma build_service_step:
  assumes "build_service K depth clock db rq = (db', r)"
  shows "(store_step K)\<^sup>=\<^sup>= db db'" "keeps_requests db db'"
proof -
  have "db' = db \<or> (\<exists>v now. savePathProof K now db v = Inr db')"
    using assms by (auto simp: build_service_def store_proofs_def dest!: Build_saves split: sum.splits)
  then show "(store_step K)\<^sup>=\<^sup>= db db'" "keeps_requests db db'" by (auto intro: save_proof proof_save_requests)
qed

lemma observe_loads:
  assumes "ObserveRequest K now db rq = (db', Inr (r, c))"
  shows "LoadRequest db' (rs_ID rq) = Inr r \<and> sameRequestIdentityForResume r rq"
proof -
  have same: "sameRequestIdentity a b \<Longrightarrow> sameRequestIdentityForResume a b" for a b
    by (simp add: sameRequestIdentity_def sameRequestFields_def sameRequestIdentityForResume_def)
  show ?thesis
  proof (cases c)
    case True
    then show ?thesis using ObserveRequest_creates[of K now db rq db' r] ObserveRequest_new(2)[of K now db rq db' r] assms same by simp
  next
    case False
    then show ?thesis using ObserveRequest_old[of K now db rq db' r] assms same by simp
  qed
qed

lemma transition_loads:
  assumes "TransitionRequest now db rid f t m = (db', Inr (r, c))"
  shows "rs_State r = t" "LoadRequest db' rid = Inr r \<and> (\<exists>r0. LoadRequest db rid = Inr r0 \<and> sameRequestIdentityForResume r r0)"
proof -
  have "rs_State r = t \<and> LoadRequest db' rid = Inr r \<and> (\<exists>r0. LoadRequest db rid = Inr r0 \<and> sameRequestIdentityForResume r r0)"
  proof (cases c)
    case True
    then have o: "TransitionRequest now db rid f t m = (db', Inr (r, True))" using assms by simp
    obtain r0 u where "LoadRequest db rid = Inr r0" "r = r0\<lparr>rs_State := t, rs_Reason := tm_Reason m, rs_UpdatedAt := u\<rparr>"
      using o by (rule TransitionRequest_moved)
    then show ?thesis using TransitionRequest_moves[OF o] by (auto simp: sameRequestIdentityForResume_def)
  next
    case False
    then show ?thesis using TransitionRequest_same[of now db rid f t m db' r] assms by simp
  qed
  then show "rs_State r = t" "LoadRequest db' rid = Inr r \<and> (\<exists>r0. LoadRequest db rid = Inr r0 \<and> sameRequestIdentityForResume r r0)"
    by blast+
qed

interpretation node: request_services "store_services K depth profiles clock error_text"
  for K depth profiles clock error_text
proof unfold_locales
  show "svc_Load (store_services K depth profiles clock error_text) db rid = Inr rq \<Longrightarrow> rs_ID rq = rid" for db rid rq
    by (auto simp: store_services_def LoadRequest_def dest: select_row_InrD)
  show "svc_Plan (store_services K depth profiles clock error_text) db prq = (db', r) \<Longrightarrow>
      svc_Load (store_services K depth profiles clock error_text) db' rid = svc_Load (store_services K depth profiles clock error_text) db rid"
    for db prq db' r rid
    by (auto simp: store_services_def LoadRequest_def keeps_defs dest: plan_service_step(2))
  show "svc_Build (store_services K depth profiles clock error_text) db brq = (db', r') \<Longrightarrow>
      svc_Load (store_services K depth profiles clock error_text) db' rid = svc_Load (store_services K depth profiles clock error_text) db rid"
    for db brq db' r' rid
    by (auto simp: store_services_def LoadRequest_def keeps_defs dest: build_service_step(2))
qed (simp_all add: store_services_def observe_loads transition_loads)

subsection \<open>Processing a request is a run of the store\<close>

lemma bind_op_run:
  assumes "(store_step K)\<^sup>*\<^sup>* db (fst a)" "\<And>d x. a = (d, Inr x) \<Longrightarrow> (store_step K)\<^sup>*\<^sup>* d (fst (f d x))"
  shows "(store_step K)\<^sup>*\<^sup>* db (fst (bind_op a f))"
proof (cases a)
  case (Pair d x)
  then show ?thesis using assms by (cases x) (auto intro: rtranclp_trans)
qed

lemma service_runs:
  "(store_step K)\<^sup>*\<^sup>* db (fst (ObserveRequest K now db rq))" "(store_step K)\<^sup>*\<^sup>* db (fst (TransitionRequest now db rid f t m))"
  "(store_step K)\<^sup>*\<^sup>* db (fst (plan_service K profiles clock db prq))" "(store_step K)\<^sup>*\<^sup>* db (fst (build_service K depth clock db brq))"
proof -
  show "(store_step K)\<^sup>*\<^sup>* db (fst (ObserveRequest K now db rq))" by (metis observe_request prod.collapse r_into_rtranclp)
  show "(store_step K)\<^sup>*\<^sup>* db (fst (TransitionRequest now db rid f t m))" by (metis transition_request prod.collapse r_into_rtranclp)
  show "(store_step K)\<^sup>*\<^sup>* db (fst (plan_service K profiles clock db prq))"
    using plan_service_step(1)[of K profiles clock db prq] by (metis prod.collapse r_into_rtranclp reflclp_idemp rtranclp_reflclp)
  show "(store_step K)\<^sup>*\<^sup>* db (fst (build_service K depth clock db brq))"
    using build_service_step(1)[of K depth clock db brq] by (metis prod.collapse r_into_rtranclp reflclp_idemp rtranclp_reflclp)
qed

lemma process_step_run:
  "(store_step K)\<^sup>*\<^sup>* db (fst (process_step K (store_services K depth profiles clock error_text) work db r))"
  by (cases "rs_State (cr_Request r)")
    (auto simp: process_step_def store_services_def Let_def split: sum.splits prod.splits intro!: bind_op_run service_runs)

lemma process_loop_run:
  "process_loop n K (store_services K depth profiles clock error_text) work db r = Some (db', x) \<Longrightarrow> (store_step K)\<^sup>*\<^sup>* db db'"
proof (induction n arbitrary: db r)
  case (Suc n)
  obtain d y where s: "process_step K (store_services K depth profiles clock error_text) work db r = (d, y)" by force
  have run: "(store_step K)\<^sup>*\<^sup>* db d" using process_step_run[of K db depth profiles clock error_text work r] by (simp add: s)
  show ?case
  proof (cases y)
    case (Inr e)
    then show ?thesis using Suc s run by (cases e) (auto intro: rtranclp_trans)
  qed (use Suc.prems s run in simp)
qed simp

lemma process_entry_run: "(store_step K)\<^sup>*\<^sup>* db (fst (process_entry (store_services K depth profiles clock error_text) work db))"
  by (auto simp: process_entry_def store_services_def Let_def intro!: bind_op_run service_runs)

lemma process_run:
  assumes "Process K (store_services K depth profiles clock error_text) work db = Some (db', x)"
  shows "(store_step K)\<^sup>*\<^sup>* db db'"
proof -
  obtain d y where e: "process_entry (store_services K depth profiles clock error_text) work db = (d, y)" by force
  have "(store_step K)\<^sup>*\<^sup>* db d" using process_entry_run[of K db depth profiles clock error_text work] by (simp add: e)
  then show ?thesis using assms e by (cases y) (auto simp: Process_def dest: process_loop_run intro: rtranclp_trans)
qed

lemma plan_persists:
  "\<lbrakk>SavePlan K now db p = Inr db'; store_ok K db\<rbrakk> \<Longrightarrow> \<exists>q. loadPlan K db' (pl_ID p) = Inr q \<and> samePlanDecision q p"
  using SavePlan_ok(2)[of K now db p db'] by (auto simp: store_ok_def)

lemma build_persists:
  assumes "savePathProof K now db v = Inr db'" "store_ok K db" "db' \<noteq> db"
  shows "\<exists>q. loadPathProof K db' (pp_ID v) = Inr q \<and> pp_ID q = ComputePathProofID K q \<and> samePathProof v q"
proof -
  have "pp_ID v = ComputePathProofID K v" using assms(1) by (rule savePathProof_Inr)
  then show ?thesis using new_proof_loads(1)[OF assms(1) _ assms(3)] assms(2)
    by (auto simp: store_ok_def samePathProof_def)
qed

text \<open>What \<open>Process\<close> returns is one of the four states the executor acts on; a proof it returns is accepted.\<close>

lemma process_final:
  assumes "Process K (store_services K depth profiles clock error_text) work db = Some (db', Inr r)"
  shows "rs_State (cr_Request r) \<in> {ProofReady, DirectFallback, Planned, Rejected}"
    "rs_State (cr_Request r) = ProofReady \<Longrightarrow> \<exists>p. cr_PathProof r = Some p \<and> hd (pp_BlockHashes p) = rs_SourceBlockHash (wk_Request work) \<and>
       VerifyPath K (pp_BaseTrustRoot p) (pp_BlockHashes p) (pp_Witnesses p) (wk_ExpectedHomeTrustRoot work) depth = Inr ()"
    "rs_State (cr_Request r) \<in> {ProofReady, DirectFallback, Planned} \<Longrightarrow> \<exists>p. cr_Plan r = Some p \<and> validateWorkPlan K work p = Inr ()"
    "rs_State (cr_Request r) \<in> {DirectFallback, Planned} \<Longrightarrow> \<exists>p. cr_Plan r = Some p \<and> pl_Type p = DirectPlan"
proof -
  note f = node.process_result(1)[OF assms, unfolded final_result_def]
  show "rs_State (cr_Request r) \<in> {ProofReady, DirectFallback, Planned, Rejected}"
    using f by (cases "rs_State (cr_Request r)") auto
  show "\<exists>p. cr_PathProof r = Some p \<and> hd (pp_BlockHashes p) = rs_SourceBlockHash (wk_Request work) \<and>
       VerifyPath K (pp_BaseTrustRoot p) (pp_BlockHashes p) (pp_Witnesses p) (wk_ExpectedHomeTrustRoot work) depth = Inr ()"
    if st: "rs_State (cr_Request r) = ProofReady"
  proof -
    obtain p d d' and plan :: plan where b: "cr_PathProof r = Some p" "build_service K depth clock d
        \<lparr>br_PlanID = pl_ID plan, br_SourceBlockHash = rs_SourceBlockHash (wk_Request work), br_ExpectedHomeTrustRoot = wk_ExpectedHomeTrustRoot work\<rparr> = (d', Inr p)"
      using f st by (auto simp: built_proof_def store_services_def)
    then have "Build K (store_proofs K (clock d)) depth (clock d) d
        \<lparr>br_PlanID = pl_ID plan, br_SourceBlockHash = rs_SourceBlockHash (wk_Request work), br_ExpectedHomeTrustRoot = wk_ExpectedHomeTrustRoot work\<rparr> = Inr (p, d')"
      by (auto simp: build_service_def split: sum.splits)
    from Build_accepted[OF this] b(1) show ?thesis by simp
  qed
  show "\<exists>p. cr_Plan r = Some p \<and> validateWorkPlan K work p = Inr ()" if "rs_State (cr_Request r) \<in> {ProofReady, DirectFallback, Planned}"
    using f that by (auto simp: bound_plan_def)
  show "\<exists>p. cr_Plan r = Some p \<and> pl_Type p = DirectPlan" if "rs_State (cr_Request r) \<in> {DirectFallback, Planned}"
    using f that by (auto simp: bound_plan_def)
qed

subsection \<open>Planning on a snapshot\<close>

text \<open>
  The limits of the schema a decision has to respect: the columns are signed 64-bit integers, identifiers are not zero
  and the profile has a name.
\<close>

definition plan_limits :: "keccak \<Rightarrow> plan \<Rightarrow> bool" where
  "plan_limits K p \<longleftrightarrow> ComputePlanID K p \<noteq> 0 \<and> pl_RequestID p \<noteq> 0 \<and> pl_SnapshotID p \<noteq> 0 \<and> pl_ProfileID p \<noteq> [] \<and>
     pl_Attempt p \<le> MaxInt64 \<and> pl_PathStepCost p \<le> MaxInt64 \<and>
     (\<forall>c. pl_PathCost p = Some c \<longrightarrow> c \<le> MaxInt64) \<and> (\<forall>c. pl_DirectCost p = Some c \<longrightarrow> c \<le> MaxInt64)"

lemma ComputePlanID_ID [simp]: "ComputePlanID K (p\<lparr>pl_ID := i\<rparr>) = ComputePlanID K p"
  by (simp add: ComputePlanID_def plan_bytes_def)

lemma decided_fields:
  assumes "decide profiles now rq sn = Inr p" "sn_StartNodeID sn \<noteq> sn_TargetNodeID sn"
  shows "pl_RequestID p = rq_ID rq" "pl_Attempt p = rq_Attempt rq" "pl_SnapshotID p = sn_ID sn" "pl_CreatedAt p = now"
    "pl_HomeNodeID p = sn_StartNodeID sn" "pl_TargetNodeID p = sn_TargetNodeID sn" "set (pl_Hops p) \<subseteq> te_ID ` set (sn_Edges sn)"
proof -
  obtain profile found where pr: "profiles (rq_HomeChainID rq) = (profile, found)" by fastforce
  note d = decide_shape[where profiles=profiles, OF assms pr, unfolded decided_shape_def]
  then have eq: "p = (initial_plan (if found then profile else profile\<lparr>dp_ID := ''unavailable''\<rparr>) now rq sn)
    \<lparr>pl_Type := pl_Type p, pl_Hops := pl_Hops p, pl_PathStepCost := pl_PathStepCost p, pl_PathCost := pl_PathCost p,
       pl_DirectCost := pl_DirectCost p, pl_FallbackReason := pl_FallbackReason p\<rparr>" by blast
  show "pl_RequestID p = rq_ID rq" "pl_Attempt p = rq_Attempt rq" "pl_SnapshotID p = sn_ID sn" "pl_CreatedAt p = now"
    "pl_HomeNodeID p = sn_StartNodeID sn" "pl_TargetNodeID p = sn_TargetNodeID sn"
    by (subst eq, simp add: initial_plan_def)+
  show "set (pl_Hops p) \<subseteq> te_ID ` set (sn_Edges sn)" using d by blast
qed

lemma decided_storable:
  assumes "decide profiles now rq sn = Inr p" "check_snapshot K rq sn = Inr ()" "plan_limits K p"
  shows "validatePlanForStorage (p\<lparr>pl_ID := ComputePlanID K p\<rparr>) = Inr ()"
proof -
  obtain profile found where pr: "profiles (rq_HomeChainID rq) = (profile, found)" by fastforce
  note e = check_snapshot_endpoints[OF assms(2)]
  note d = decide_shape[where profiles=profiles, OF assms(1) e pr, unfolded decided_shape_def]
  note f = decided_fields[OF assms(1) e] and n = snapshot_nodes_nonzero[OF assms(2)] and l = assms(3)[unfolded plan_limits_def]
  have ty: "pl_Type p = PathPlan \<and> pl_FallbackReason p = [] \<and> pl_Hops p \<noteq> [] \<and> pl_DirectCost p \<noteq> None \<or>
      pl_Type p = DirectPlan \<and> pl_FallbackReason p \<noteq> []" using d by blast
  have cost: "if pl_Hops p = [] then pl_PathStepCost p = 0 \<and> pl_PathCost p = None
      else pl_PathStepCost p \<noteq> 0 \<and> \<not> of_nat (length (pl_Hops p)) > MaxUint64 div pl_PathStepCost p \<and>
        pl_PathCost p = Some (of_nat (length (pl_Hops p)) * pl_PathStepCost p)"
    using d hop_cost(1)[of "length (pl_Hops p)" "pl_PathStepCost p"] by (auto split: if_splits)
  have ids: "\<not> (pl_ID (p\<lparr>pl_ID := ComputePlanID K p\<rparr>) = 0 \<or> pl_RequestID p = 0 \<or> pl_SnapshotID p = 0 \<or> pl_HomeNodeID p = 0 \<or>
      pl_TargetNodeID p = 0 \<or> pl_ProfileID p = [])" "\<not> (pl_Attempt p > MaxInt64 \<or> pl_PathStepCost p > MaxInt64)"
    "\<not> (\<exists>cost \<in> set [pl_PathCost p, pl_DirectCost p]. cost \<noteq> None \<and> the cost > MaxInt64)"
    using l f n by auto
  show ?thesis
  proof (cases "pl_Hops p = []")
    case True
    then show ?thesis using ty cost ids by (auto simp: validatePlanForStorage_def)
  next
    case False
    then show ?thesis using ty cost ids by (auto simp: validatePlanForStorage_def)
  qed
qed

lemma SavePlan_succeeds:
  assumes "store_ok K db" "pl_ID p = ComputePlanID K p" "validatePlanForStorage p = Inr ()" "validatePlanSnapshotBinding K db p = Inr ()"
    and later: "\<forall>q \<in> set (t_plans db). pl_RequestID q = pl_RequestID p \<longrightarrow> pl_Attempt q < pl_Attempt p"
    and fresh: "pl_ID p \<notin> pl_ID ` set (t_plans db)"
    and ins: "insert_plan now db p = Inr d"
  shows "\<exists>db'. SavePlan K now db p = Inr db'"
proof -
  have ok: "plans_ok K db" using assms(1) by (simp add: store_ok_def)
  have nf: "loadPlan K db (pl_ID p) = Inl ErrPlanNotFound"
  proof -
    have "\<forall>q \<in> set (t_plans db). pl_ID q \<noteq> pl_ID p" using fresh by (metis image_eqI)
    then show ?thesis by (simp add: loadPlan_def select_row_none)
  qed
  have cur: "t_current_plan d = t_current_plan db" using insert_plan_Inr(1)[OF ins] by simp
  have "\<not> (\<exists>(r, j) \<in> set (t_current_plan db). r \<noteq> pl_RequestID p \<and> j = pl_ID p)"
  proof
    assume "\<exists>(r, j) \<in> set (t_current_plan db). r \<noteq> pl_RequestID p \<and> j = pl_ID p"
    then obtain r where "(r, pl_ID p) \<in> set (t_current_plan db)" by auto
    then have "is_current (t_plans db) r (pl_ID p)" using ok by (auto simp: plans_ok_def)
    then show False using fresh by (metis is_current_def image_eqI)
  qed
  then have "is_ok (bind_current d (pl_RequestID p) (pl_ID p))" by (simp add: bind_current_def cur is_ok_def)
  moreover have "\<not> (\<exists>q \<in> set (t_plans db). pl_RequestID q = pl_RequestID p \<and> pl_Attempt q = pl_Attempt p)" using later by auto
  ultimately have sv: "is_ok (save_attempt K now db p)" using assms(4) nf ins by (simp add: save_attempt_def)
  have "SavePlan K now db p = save_attempt K now db p"
  proof (cases "find (\<lambda>q. map_of (t_current_plan db) (pl_RequestID p) = Some (pl_ID q)) (t_plans db)")
    case None
    then show ?thesis using assms(2,3) by (simp add: SavePlan_def)
  next
    case (Some c)
    then have c: "c \<in> set (t_plans db)" "map_of (t_current_plan db) (pl_RequestID p) = Some (pl_ID c)" by (auto dest: find_SomeD)
    obtain q where "q \<in> set (t_plans db)" "pl_ID q = pl_ID c" "pl_RequestID q = pl_RequestID p" using ok c(2) by (rule current_plan_row)
    moreover from this have "q = c" using c(1) ok by (auto simp: plans_ok_def distinct_map inj_on_def)
    ultimately have "pl_Attempt c < pl_Attempt p" using later by blast
    then have "\<not> pl_Attempt p < pl_Attempt c" "pl_Attempt p \<noteq> pl_Attempt c" by auto
    then show ?thesis using Some assms(2,3) by (simp add: SavePlan_def)
  qed
  then show ?thesis using sv by (auto simp: is_ok_def split: sum.splits)
qed

lemma insert_plan_succeeds:
  assumes "sn \<in> set (t_snapshots db)" "sn_ID sn = pl_SnapshotID p" "pl_RequestID p \<in> rs_ID ` set (t_requests db)"
    and "pl_HomeNodeID p \<in> tn_ID ` set (sn_Nodes sn)" "pl_TargetNodeID p \<in> tn_ID ` set (sn_Nodes sn)"
    and "set (pl_Hops p) \<subseteq> te_ID ` set (sn_Edges sn)" "toUnix (pl_CreatedAt p) > 0" "pl_CreatedAt p \<noteq> zero_time"
  shows "is_ok (insert_plan now db p)"
proof -
  have "sn \<in> set (filter (\<lambda>sn. sn_ID sn = pl_SnapshotID p) (t_snapshots db))" using assms(1,2) by simp
  moreover have "\<not> toUnix (pl_CreatedAt p) \<le> 0" using assms(7) by simp
  ultimately show ?thesis using assms(3-6) unfolding insert_plan_def Let_def if_not_P[OF assms(8)]
    by (auto simp: is_ok_def)
qed

lemma plan_on_store:
  assumes "store_ok K db" "LoadSnapshot db (rq_SnapshotID rq) = Inr sn" "check_snapshot K rq sn = Inr ()"
    and "decide profiles now rq sn = Inr p" "plan_limits K p" "toUnix now > 0"
    and "rq_ID rq \<in> rs_ID ` set (t_requests db)" "ComputePlanID K p \<notin> pl_ID ` set (t_plans db)"
    and later: "\<forall>q \<in> set (t_plans db). pl_RequestID q = rq_ID rq \<longrightarrow> pl_Attempt q < rq_Attempt rq"
  shows "\<exists>q db'. Plan K LoadSnapshot (SavePlan K now) (loadPlan K) profiles now db rq = Inr (q, db') \<and>
    samePlanDecision q (p\<lparr>pl_ID := ComputePlanID K p\<rparr>) \<and> LoadCurrentPlan K db' (rq_ID rq) = Inr q \<and> store_ok K db'"
proof -
  let ?p = "p\<lparr>pl_ID := ComputePlanID K p\<rparr>"
  note e = check_snapshot_endpoints[OF assms(3)]
  note f = decided_fields[OF assms(4) e]
  have sn: "sn \<in> set (t_snapshots db)" "sn_ID sn = rq_SnapshotID rq" using assms(2) by (auto simp: LoadSnapshot_def dest: select_row_InrD)
  have ok: "snapshot_ok K db sn" using sn(1) assms(1) by (simp add: store_ok_def graph_ok_def snapshot_rows_ok_def)
  have bind: "validatePlanSnapshotBinding K db ?p = Inr ()"
  proof -
    have "select_row (ErrMsg ''load plan TrustViewSnapshot'') (\<lambda>s. sn_ID s = sn_ID sn) (t_snapshots db) = Inr sn"
      using assms(2) sn(2) by (simp add: LoadSnapshot_def select_row_def split: option.splits)
    then show ?thesis using f ok snapshot_nodes_nonzero(3)[OF assms(3)]
      by (simp add: validatePlanSnapshotBinding_def Let_def snapshot_ok_def)
  qed
  have "toUnix zero_time \<le> 0" by (simp add: toUnix_def zero_time_def unix_epoch_def)
  then have now: "now \<noteq> zero_time" using assms(6) by auto
  have "sn_StartNodeID sn \<in> tn_ID ` set (sn_Nodes sn)" "sn_TargetNodeID sn \<in> tn_ID ` set (sn_Nodes sn)"
    using ok by (metis snapshot_ok_def image_eqI)+
  then have "is_ok (insert_plan now db ?p)"
    by (intro insert_plan_succeeds[OF sn(1)]) (use f assms(6,7) now in simp_all)
  then obtain d where "insert_plan now db ?p = Inr d" by (auto simp: is_ok_def split: sum.splits)
  then obtain db' where s: "SavePlan K now db ?p = Inr db'"
    using SavePlan_succeeds[OF assms(1) _ decided_storable[OF assms(4,3,5)] bind, of now d] f later assms(8) by auto
  have ok': "plans_ok K db" "graph_ok K db" using assms(1) by (simp_all add: store_ok_def)
  obtain q where q: "LoadCurrentPlan K db' (rq_ID rq) = Inr q" "loadPlan K db' (pl_ID ?p) = Inr q" "samePlanDecision q ?p"
    using SavePlan_ok(2)[OF s ok'] f(1) by auto
  have "Plan K LoadSnapshot (SavePlan K now) (loadPlan K) profiles now db rq = Inr (q, db')"
    using assms(2-4) s q(2) by (simp add: Plan_def persist_def Let_def)
  then show ?thesis using q SavePlan_store_ok[OF s assms(1)] by blast
qed

end
