(* ===== verification/Example_Node.thy ===== *)
theory Example_Node
  imports NodeSystem
begin

text \<open>
  A small node store on which the system properties are exercised: one request, two observed blocks of different
  chains, one trust edge with its membership witness, the snapshot of that view and the path plan over it. The hash
  sends the key of the second block to 2 and every other preimage to 1, so that all digests are computed by
  comparing lengths.
\<close>

definition home_key :: node_key where
  "home_key = \<lparr>nk_ChainID = 1, nk_Height = 10, nk_BlockHash = 5\<rparr>"

definition source_key :: node_key where
  "source_key = \<lparr>nk_ChainID = 4, nk_Height = 5, nk_BlockHash = 6\<rparr>"

definition two_hash :: keccak where
  "two_hash bs = (if bs = node_key_bytes source_key then 2 else 1)"

lemma two_hash_length [simp]: "length bs \<noteq> 96 \<Longrightarrow> two_hash bs = 1"
  by (auto simp: two_hash_def node_key_bytes_def)

lemma two_hash_home [simp]: "two_hash (node_key_bytes home_key) = 1"
  by (simp add: two_hash_def node_key_bytes_def home_key_def source_key_def)

lemma two_hash_source [simp]: "two_hash (node_key_bytes source_key) = 2"
  by (simp add: two_hash_def)

definition home_node :: trust_node where
  "home_node = \<lparr>tn_ID = 1, tn_Key = home_key, tn_Root = 1, tn_EvidenceID = 9\<rparr>"

definition source_node :: trust_node where
  "source_node = \<lparr>tn_ID = 2, tn_Key = source_key, tn_Root = 7, tn_EvidenceID = 9\<rparr>"

definition link :: trust_edge where
  "link = \<lparr>te_ID = 1, te_From = 1, te_To = 2, te_EvidenceID = 3, te_LeafIndex = 0, te_WitnessID = Some 1, te_PathStepCost = 1\<rparr>"

definition link_witness :: stored_witness where
  "link_witness = \<lparr>sw_ID = 1, sw_EvidenceID = 3, sw_LeafIndex = 0, sw_Siblings = [8]\<rparr>"

definition example_request :: request where
  "example_request = \<lparr>rs_ID = 1, rs_HomeChainID = 1, rs_Gateway = 2, rs_Requester = 3, rs_Nonce = 0, rs_SourceChainID = 4,
     rs_SourceHeight = 5, rs_SourceBlockHash = 6, rs_State = Planned, rs_Reason = [],
     rs_CreatedAt = unix_epoch + 1, rs_UpdatedAt = unix_epoch + 1\<rparr>"

definition example_snapshot :: trust_view_snapshot where
  "example_snapshot = \<lparr>sn_ID = 1, sn_Revision = 0, sn_HomeChainID = 1, sn_HomeTrustRoot = 1, sn_StartNodeID = 1,
     sn_TargetNodeID = 2, sn_Sealed = True, sn_Nodes = [home_node, source_node], sn_Edges = [link]\<rparr>"

definition example_plan :: plan where
  "example_plan = \<lparr>pl_ID = 1, pl_RequestID = 1, pl_Attempt = 0, pl_SnapshotID = 1, pl_ProfileID = ''profile'',
     pl_ProfileFingerprint = 0, pl_Type = PathPlan, pl_HomeNodeID = 1, pl_TargetNodeID = 2, pl_Hops = [1],
     pl_PathStepCost = 1, pl_PathCost = Some 1, pl_DirectCost = Some 5, pl_FallbackReason = [], pl_CreatedAt = unix_epoch + 1\<rparr>"

definition active_evidence :: "evidence_id \<Rightarrow> evidence_record" where
  "active_evidence i = \<lparr>ev_ID = i, ev_Locator = \<lparr>loc_ChainID = 1, loc_ContractAddress = 2, loc_BlockNumber = 3, loc_BlockHash = 4,
     loc_TxHash = 5, loc_TxIndex = 0, loc_LogIndex = 0, loc_PayloadDigest = 6\<rparr>, ev_State = Active, ev_InvalidReason = [],
     ev_CreatedAt = unix_epoch + 1, ev_UpdatedAt = unix_epoch + 1\<rparr>"

lemmas example_defs = home_key_def source_key_def home_node_def source_node_def link_def link_witness_def example_request_def
  example_snapshot_def example_plan_def active_evidence_def

text \<open>The store before a snapshot is taken, with its snapshot, and with the plan over it.\<close>

definition graph_db :: store where
  "graph_db = empty_store\<lparr>t_evidence := [active_evidence 9, active_evidence 3], t_requests := [example_request],
     t_nodes := [home_node, source_node], t_edges := [trust_edge.extend link \<lparr>er_Active = True\<rparr>], t_witnesses := [link_witness]\<rparr>"

definition snapshot_db :: store where
  "snapshot_db = graph_db\<lparr>t_snapshots := [example_snapshot]\<rparr>"

definition planned_db :: store where
  "planned_db = snapshot_db\<lparr>t_plans := [example_plan], t_current_plan := [(1, 1)]\<rparr>"

lemma example_nodes_valid: "node_Validate two_hash home_node = Inr ()" "node_Validate two_hash source_node = Inr ()"
  using two_hash_home two_hash_source by (simp_all add: node_Validate_def NewTrustNode_def chain_Validate_def example_defs)

lemma link_valid: "edge_Validate two_hash link = Inr ()"
  by (simp add: edge_Validate_ok link_def edge_bytes_def)

lemma example_plan_id [simp]: "ComputePlanID two_hash p = 1"
proof -
  have "length (plan_bytes p) \<noteq> 96" by (simp add: plan_bytes_def length_prefixed_def)
  then show ?thesis by (simp add: ComputePlanID_def)
qed

lemma graph_db_ok: "graph_ok two_hash graph_db"
proof -
  have ev: "evidence_active graph_db i \<longleftrightarrow> i = 9 \<or> i = 3" for i
    by (auto simp: evidence_active_def graph_db_def active_evidence_def)
  have row: "row_edge graph_db (trust_edge.extend link \<lparr>er_Active = True\<rparr>) = link"
    by (simp add: row_edge_def stored_witness_for_def graph_db_def link_def link_witness_def trust_edge.defs)
  have "node_rows_ok two_hash graph_db"
    using example_nodes_valid ev by (simp add: node_rows_ok_def graph_db_def home_node_def source_node_def)
  moreover have "edge_rows_ok two_hash graph_db"
    using row ev link_valid by (simp add: edge_rows_ok_def edge_row_ok_def cross_chain_def MaxInt64_def)
      (simp add: graph_db_def trust_edge.defs example_defs)
  moreover have "witness_rows_ok two_hash graph_db"
    by (simp add: witness_rows_ok_def graph_db_def link_witness_def NewStoredWitness_def witness_bytes_def trust_edge.defs link_def)
  moreover have "snapshot_rows_ok two_hash graph_db" by (simp add: snapshot_rows_ok_def graph_db_def empty_store_def)
  ultimately show ?thesis by (simp add: graph_ok_def) (simp add: graph_db_def empty_store_def)
qed

lemma snapshot_db_ok: "graph_ok two_hash snapshot_db"
proof -
  have "snapshot_ok two_hash snapshot_db example_snapshot" 
    using example_nodes_valid link_valid
    by (simp add: snapshot_ok_def nodes_consistent_def edges_consistent_def example_snapshot_def snapshot_db_def MaxInt64_def)
      (simp add: example_defs graph_db_def)
  then show ?thesis 
    using graph_db_ok unfolding graph_ok_def
    by (simp add: snapshot_rows_ok_def node_rows_ok_def edge_rows_ok_def edge_row_ok_def witness_rows_ok_def snapshot_db_def
        edge_Validate_row[of two_hash "graph_db\<lparr>t_snapshots := [example_snapshot]\<rparr>" _ graph_db])
qed

lemma planned_db_ok: "store_ok two_hash planned_db"
  unfolding store_ok_def
proof (intro conjI)
  show "graph_ok two_hash planned_db"
    by (rule graph_ok_frame[OF snapshot_db_ok]) (simp_all add: planned_db_def evidence_active_def)
  show "plans_ok two_hash planned_db"
    by (simp add: plans_ok_def planned_db_def is_current_def plan_row_ok_def validatePlanForStorage_def snapshot_db_def graph_db_def example_defs
        MaxUint64_def MaxInt64_def toUnix_def unix_epoch_def)
  show "proofs_ok two_hash planned_db"
    by (simp add: proofs_ok_def planned_db_def snapshot_db_def graph_db_def empty_store_def)
qed


subsection \<open>Building the proof\<close>

definition example_proof :: path_proof where
  "example_proof = \<lparr>pp_ID = 1, pp_RequestID = 1, pp_PlanID = 1, pp_SnapshotID = 1, pp_BaseTrustRoot = 7, pp_BlockHashes = [6],
     pp_Witnesses = [\<lparr>leafIndex = 0, siblings = [8]\<rparr>],
     pp_Hops = [\<lparr>ph_PlanHopIndex = 0, ph_EdgeID = 1, ph_ToNodeID = 2, ph_BlockHash = 6, ph_WitnessID = 1\<rparr>],
     pp_CreatedAt = unix_epoch + 1\<rparr>"

definition proved_db :: store where
  "proved_db = planned_db\<lparr>t_proofs := [example_proof\<lparr>pp_BlockHashes := [], pp_Witnesses := []\<rparr>]\<rparr>"

lemma example_proof_id [simp]: "ComputePathProofID two_hash p = 1"
proof -
  have "length (path_proof_bytes p) \<noteq> 96" by (simp add: path_proof_bytes_def length_prefixed_def)
  then show ?thesis by (simp add: ComputePathProofID_def)
qed

lemma example_tables:
  "t_plans planned_db = [example_plan]" "t_snapshots planned_db = [example_snapshot]" "t_witnesses planned_db = [link_witness]"
  "t_proofs planned_db = []" "t_current_plan planned_db = [(1, 1)]" "t_requests planned_db = [example_request]"
  "t_request_transitions planned_db = []"
  by (simp_all add: planned_db_def snapshot_db_def graph_db_def empty_store_def)

lemma example_load_plan: "loadPlan two_hash planned_db 1 = Inr example_plan" "LoadCurrentPlan two_hash planned_db 1 = Inr example_plan"
  "loadProofPlan two_hash planned_db 1 = Inr example_plan"
  by (simp_all add: loadPlan_def LoadCurrentPlan_def loadProofPlan_def select_row_def example_tables example_plan_def)

lemma example_node: "loadSnapshotNode planned_db 1 2 = Some source_node" "loadSnapshotNode planned_db 1 1 = Some home_node"
  by (simp_all add: loadSnapshotNode_def example_tables example_defs)

lemma example_material: "loadPathProofMaterial two_hash planned_db 1 1 0 1 =
    Inr \<lparr>pm_PlanID = 1, pm_SnapshotID = 1, pm_PlanHopIndex = 0, pm_Edge = link, pm_FromNode = home_node, pm_ToNode = source_node,
      pm_Witness = link_witness\<rparr>"
proof -
  have "planned_edge planned_db 1 1 0 1 = Some link"
    by (simp add: planned_edge_def example_tables example_defs)
  moreover have "loadWitnessSiblings planned_db 1 = [8]" by (simp add: loadWitnessSiblings_def example_tables link_witness_def)
  ultimately show ?thesis using example_node
    by (simp add: loadPathProofMaterial_def link_def link_witness_def NewStoredWitness_def witness_bytes_def)
qed

lemma example_save: "savePathProof two_hash (unix_epoch + 1) planned_db example_proof = Inr proved_db"
proof -
  have "loadPathProof two_hash planned_db 1 = Inl ErrPathProofNotFound"
    by (simp add: loadPathProof_def select_row_def example_tables)
  then show ?thesis
    using example_material example_node
    by (simp add: savePathProof_def example_load_plan check_hop_def example_proof_def example_plan_def sameHashes_def
        source_node_def source_key_def link_witness_def)
      (simp add: insert_proof_def example_proof_def proved_db_def example_tables example_request_def zero_time_def unix_epoch_def toUnix_def)
qed

lemma example_load_proof: "loadPathProof two_hash proved_db 1 = Inr example_proof"
proof -
  have "proofs_ok two_hash planned_db" using planned_db_ok by (simp add: store_ok_def)
  moreover have "proved_db \<noteq> planned_db" 
    using example_tables(4) by (auto simp: proved_db_def dest: arg_cong[of _ _ t_proofs])
  ultimately show ?thesis using new_proof_loads(1)[OF example_save] by (simp add: example_proof_def)
qed

definition example_work :: work where
  "example_work = \<lparr>wk_Request = example_request, wk_Attempt = 0, wk_SnapshotID = 1, wk_ExpectedHomeTrustRoot = 1\<rparr>"

lemma example_fields:
  "pl_ID example_plan = 1" "pl_RequestID example_plan = 1" "pl_Attempt example_plan = 0" "pl_SnapshotID example_plan = 1"
  "pl_Type example_plan = PathPlan" "pl_Hops example_plan = [1]" "pl_HomeNodeID example_plan = 1" "pl_TargetNodeID example_plan = 2"
  "sn_ID example_snapshot = 1" "sn_Sealed example_snapshot" "sn_StartNodeID example_snapshot = 1" "sn_TargetNodeID example_snapshot = 2"
  "sn_HomeTrustRoot example_snapshot = 1" "tn_Root source_node = 7" "nk_BlockHash (tn_Key source_node) = 6"
  "findNode example_snapshot 1 = Some home_node" "findNode example_snapshot 2 = Some source_node"
  by (simp_all add: findNode_def example_defs)

lemma store_proofs_fields:
  "LoadPathPlan (store_proofs K now) = loadPlan K" "LoadTrustViewSnapshot (store_proofs K now) = LoadSnapshot"
  "LoadPathProofMaterial (store_proofs K now) = loadPathProofMaterial K" "SavePathProof (store_proofs K now) = savePathProof K now"
  "LoadPathProof (store_proofs K now) = loadPathProof K"
  by (simp_all add: store_proofs_def)

lemma example_build: "Build two_hash (store_proofs two_hash (unix_epoch + 1)) 1 (unix_epoch + 1) planned_db
    \<lparr>br_PlanID = 1, br_SourceBlockHash = 6, br_ExpectedHomeTrustRoot = 1\<rparr> = Inr (example_proof, proved_db)"
proof -
  let ?m = "\<lparr>pm_PlanID = 1, pm_SnapshotID = 1, pm_PlanHopIndex = 0, pm_Edge = link, pm_FromNode = home_node, pm_ToNode = source_node,
    pm_Witness = link_witness\<rparr>"
  have "LoadSnapshot planned_db 1 = Inr example_snapshot"
    by (simp add: LoadSnapshot_def select_row_def example_tables example_snapshot_def)
  moreover have "VerifyPath two_hash 7 [6] [\<lparr>leafIndex = 0, siblings = [8]\<rparr>] 1 1 = Inr ()"
    by (simp add: VerifyPath_def validateDepth_def MaxTreeDepth_def RootFromWitness_def LeafHash_def HashPair_def)
  moreover have "validMaterial two_hash example_plan example_snapshot 0 1 1 ?m"
    by (simp add: validMaterial_def findNode_def example_defs NewStoredWitness_def witness_bytes_def)
  then have "load_materials two_hash (store_proofs two_hash (unix_epoch + 1)) planned_db example_plan example_snapshot 0 [1] 1 = Inr ([?m], 2)"
    using example_material by (simp add: store_proofs_fields example_fields) (simp add: source_node_def)
  moreover have "add_hops [?m] (Suc 0) \<lparr>pp_ID = 0, pp_RequestID = 1, pp_PlanID = 1, pp_SnapshotID = 1, pp_BaseTrustRoot = 7,
      pp_BlockHashes = [], pp_Witnesses = [], pp_Hops = [], pp_CreatedAt = unix_epoch + 1\<rparr> = Inr (example_proof\<lparr>pp_ID := 0\<rparr>)"
    by (simp add: add_hop_def NewMembershipWitness_def witness_Validate_def example_proof_def example_defs)
  moreover have same: "samePathProof example_proof example_proof" by (simp add: samePathProof_def)
  moreover have id: "example_proof\<lparr>pp_ID := 1\<rparr> = example_proof" by (simp add: example_proof_def)
  moreover have "pp_ID example_proof = 1" "pp_BlockHashes example_proof = [6]"
    "pp_BaseTrustRoot example_proof = 7" "pp_Witnesses example_proof = [\<lparr>leafIndex = 0, siblings = [8]\<rparr>]"
    by (simp_all add: example_proof_def)
  ultimately show ?thesis using example_load_plan example_save example_load_proof
    by (simp add: Build_def example_fields store_proofs_fields id Let_def del: load_materials.simps add_hops.simps bind_res_eq_Inr)
qed

abbreviation example_services :: "store services" where
  "example_services \<equiv> store_services two_hash 1 (\<lambda>_. (zero_profile, False)) (\<lambda>_. unix_epoch + 1) (\<lambda>_. [])"

definition ready_request :: request where
  "ready_request = example_request\<lparr>rs_State := ProofReady\<rparr>"

definition ready_db :: store where
  "ready_db = fst (TransitionRequest (unix_epoch + 1) proved_db 1 Planned ProofReady no_metadata)"

lemma example_transition: "TransitionRequest (unix_epoch + 1) proved_db 1 Planned ProofReady no_metadata = (ready_db, Inr (ready_request, True))"
proof -
  have "t_requests proved_db = [example_request]" "t_request_transitions proved_db = []" by (simp_all add: proved_db_def example_tables)
  then have "snd (TransitionRequest (unix_epoch + 1) proved_db 1 Planned ProofReady no_metadata) = Inr (ready_request, True)"
    by (simp add: TransitionRequest_def ValidateRequestTransition_def LoadRequest_def select_row_def example_request_def rows_affected_def
        logged_def update_rows_def toUnix_def zero_time_def unix_epoch_def ready_request_def no_metadata_def legal_request_transition_def)
  then show ?thesis by (metis ready_db_def prod.collapse)
qed

lemma example_process:
  "Process two_hash example_services example_work planned_db =
     Some (ready_db, Inr \<lparr>cr_Request = ready_request, cr_Plan = Some example_plan, cr_PathProof = Some example_proof\<rparr>)"
proof -
  have "LoadRequest planned_db 1 = Inr example_request" 
    by (simp add: LoadRequest_def select_row_def example_tables example_request_def)
  then have e: "process_entry example_services example_work planned_db = (planned_db, Inr example_request)"
    by (simp add: process_entry_def store_services_def example_work_def) (simp add: example_request_def sameRequestIdentityForResume_def)
  have b: "build_service two_hash 1 (\<lambda>_. unix_epoch + 1) planned_db
    \<lparr>br_PlanID = 1, br_SourceBlockHash = 6, br_ExpectedHomeTrustRoot = 1\<rparr> = (proved_db, Inr example_proof)"
    using example_build by (simp add: build_service_def)
  have "rs_State example_request = Planned" "rs_ID example_request = 1" "rs_SourceBlockHash example_request = 6"
    by (simp_all add: example_request_def)
  then have "process_step two_hash example_services example_work planned_db \<lparr>cr_Request = example_request, cr_Plan = None, cr_PathProof = None\<rparr> =
    (ready_db, Inr (Return \<lparr>cr_Request = ready_request, cr_Plan = Some example_plan, cr_PathProof = Some example_proof\<rparr>))"
    using b example_transition example_load_plan(2)
    by (simp add: process_step_def store_services_def validateWorkPlan_def example_fields example_work_def build_request_for_def)
  then show ?thesis using e by (simp add: Process_def process_bound_def numeral_3_eq_3)
qed

subsection \<open>A run from the empty store\<close>

definition observed_db :: store where
  "observed_db = empty_store\<lparr>t_requests := [example_request\<lparr>rs_State := Observed\<rparr>]\<rparr>"

definition evidence_ready_db :: store where
  "evidence_ready_db = fst (TransitionRequest (unix_epoch + 1) observed_db 1 Observed EvidenceReady no_metadata)"

lemma example_observe:
  "ObserveRequest two_hash (unix_epoch + 1) empty_store (example_request\<lparr>rs_State := Observed\<rparr>) =
     (observed_db, Inr (example_request\<lparr>rs_State := Observed\<rparr>, True))"
proof -
  have "ComputeGatewayRequestID two_hash 1 2 3 (Some (BigInt 0)) 4 5 6 = Inr 1"
    by (simp add: ComputeGatewayRequestID_def chain_Validate_def gateway_request_bytes_def encodeUint256_def BigInt_def)
  then show ?thesis
    by (simp add: ObserveRequest_def observed_db_def empty_store_def example_request_def normalizedTimes_def zero_time_def unix_epoch_def
        toUnix_def Let_def)
qed

lemma example_ready:
  "TransitionRequest (unix_epoch + 1) observed_db 1 Observed EvidenceReady no_metadata =
     (evidence_ready_db, Inr (example_request\<lparr>rs_State := EvidenceReady\<rparr>, True))"
proof -
  have "snd (TransitionRequest (unix_epoch + 1) observed_db 1 Observed EvidenceReady no_metadata) = Inr (example_request\<lparr>rs_State := EvidenceReady\<rparr>, True)"
    by (simp add: TransitionRequest_def ValidateRequestTransition_def LoadRequest_def select_row_def observed_db_def empty_store_def
        example_request_def rows_affected_def logged_def update_rows_def toUnix_def zero_time_def unix_epoch_def no_metadata_def
        legal_request_transition_def)
  then show ?thesis by (metis evidence_ready_db_def prod.collapse)
qed

lemma example_run: "(store_step two_hash)\<^sup>*\<^sup>* empty_store evidence_ready_db" "reachable_store two_hash evidence_ready_db"
proof -
  show "(store_step two_hash)\<^sup>*\<^sup>* empty_store evidence_ready_db"
    using observe_request[OF example_observe] transition_request[OF example_ready] by (rule converse_rtranclp_into_rtranclp[OF _ r_into_rtranclp])
  then show "reachable_store two_hash evidence_ready_db" by (simp add: reachable_store_def)
qed

text \<open>Another run: the home chain enters the catalog, its Gateway is bound, and a block of it is observed.\<close>

definition home_chain :: live_chain where
  "home_chain = \<lparr>lc_Name = ''home'', lc_ChainID = 1, lc_HTTPRPC = ''http'', lc_Confirmations = 1, lc_DeploymentManifest = ''json'', lc_Home = True\<rparr>"

definition catalog_db :: store where
  "catalog_db = empty_store\<lparr>t_live_chains := [\<lparr>vl_Chain = home_chain, vl_Gateway = 0, vl_GatewayCodeHash = 0, vl_DeploymentBlock = 0,
     vl_ValidatedAt = zero_time\<rparr>]\<rparr>"

definition bound_db :: store where
  "bound_db = empty_store\<lparr>t_live_chains := [\<lparr>vl_Chain = home_chain, vl_Gateway = 2, vl_GatewayCodeHash = 4, vl_DeploymentBlock = 3,
     vl_ValidatedAt = unix_epoch + 1\<rparr>]\<rparr>"

definition home_observation :: observation where
  "home_observation = \<lparr>ob_ChainID = 1, ob_Height = 10, ob_BlockHash = 5, ob_Gateway = 2, ob_TrustRoot = 1, ob_GatewayCodeHash = 4,
     ob_RequiredConfirmations = 1, ob_ConfirmedHeadHeight = 11, ob_ConfirmedHeadHash = 8, ob_ID = 1, ob_ObservedAt = unix_epoch + 1\<rparr>"

definition home_seen_db :: store where
  "home_seen_db = fst (SaveObservation two_hash (unix_epoch + 1) bound_db home_observation)"

lemma example_catalog: "SyncChains empty_store [home_chain] = (catalog_db, Inr ())"
  by (simp add: SyncChains_def sync_entry_def live_chain_checks_def home_chain_def MaxInt64_def loadLiveChain_def select_row_def
      catalog_db_def empty_store_def Let_def)

lemma example_bound: "BindDeployment (unix_epoch + 1) catalog_db \<lparr>gd_ChainID = 1, gd_Address = 2, gd_CodeHash = 4\<rparr> 3 = (bound_db, Inr ())"
  by (simp add: BindDeployment_def catalog_db_def bound_db_def home_chain_def rows_affected_def update_rows_def empty_store_def
      toUnix_def zero_time_def unix_epoch_def Let_def)

lemma home_evidence:
  "ev_ID (SyntheticEvidence two_hash home_observation) = 1" "ev_State (SyntheticEvidence two_hash home_observation) = Candidate"
  "observation_TrustNode two_hash home_observation = home_node\<lparr>tn_EvidenceID := 1\<rparr>" "observation_ComputeID two_hash home_observation = 1"
proof -
  have p: "two_hash (string_bytes payload_domain @ bytes32 x) = 1" for x
    by (rule two_hash_length) (simp add: payload_domain_def string_bytes_def)
  show e: "ev_ID (SyntheticEvidence two_hash home_observation) = 1" "ev_State (SyntheticEvidence two_hash home_observation) = Candidate"
    by (simp_all add: SyntheticEvidence_def ComputeSyntheticID_def p Let_def chain_Validate_def BigInt_def synthetic_bytes_def)
      (simp_all add: home_observation_def)
  have "\<lparr>nk_ChainID = ob_ChainID home_observation, nk_Height = ob_Height home_observation, nk_BlockHash = ob_BlockHash home_observation\<rparr> = home_key"
    by (simp add: home_observation_def home_key_def)
  then show "observation_TrustNode two_hash home_observation = home_node\<lparr>tn_EvidenceID := 1\<rparr>"
    by (simp add: observation_TrustNode_def NewTrustNode_def e) (simp add: home_node_def home_observation_def)
  show "observation_ComputeID two_hash home_observation = 1" by (simp add: observation_ComputeID_def observation_bytes_def)
qed

lemma example_seen: "t_nodes home_seen_db = [home_node\<lparr>tn_EvidenceID := 1\<rparr>]"
proof -
  have t: "t_nodes bound_db = []" "t_observations bound_db = []" "t_evidence bound_db = []" "t_evidence_transitions bound_db = []" "g_revision bound_db = 0"
    by (simp_all add: bound_db_def empty_store_def)
  have v: "observation_Validate home_observation = Inr ()" "ob_ID home_observation = 1" "ob_ChainID home_observation = 1"
    "ob_RequiredConfirmations home_observation = 1" "ob_ObservedAt home_observation = unix_epoch + 1" "ob_Gateway home_observation = 2"
    "ob_GatewayCodeHash home_observation = 4"
    by (simp_all add: home_observation_def observation_Validate_def chain_Validate_def BigInt_def)
  have l: "loadLiveChain bound_db 1 = Inr \<lparr>vl_Chain = home_chain, vl_Gateway = 2, vl_GatewayCodeHash = 4, vl_DeploymentBlock = 3,
     vl_ValidatedAt = unix_epoch + 1\<rparr>" "lc_Confirmations home_chain = 1"
    by (simp_all add: loadLiveChain_def select_row_def bound_db_def home_chain_def)
  have "\<exists>d. insert_observation two_hash bound_db home_observation = Inr (d, home_node\<lparr>tn_EvidenceID := 1\<rparr>) \<and> t_nodes d = [home_node\<lparr>tn_EvidenceID := 1\<rparr>]"
    by (simp add: insert_observation_def Let_def t v home_evidence logged_def update_rows_def mergeTrustNode_def bumpGraphRevision_def
        evidence_active_def toUnix_def unix_epoch_def zero_time_def)
  then show ?thesis
    using v l by (auto simp: home_seen_db_def SaveObservation_def in_tx_def t loadObservation_def loadObservationByTuple_def select_row_def
        scanObservation_def home_evidence(4) MaxInt64_def zero_time_def unix_epoch_def)
qed

lemma example_seen_run: "reachable_store two_hash home_seen_db"
proof -
  have "store_step two_hash bound_db home_seen_db" unfolding home_seen_db_def by (metis save_observation prod.collapse)
  then show ?thesis
    using sync_chains[OF example_catalog] bind_deployment[OF example_bound] unfolding reachable_store_def
    by (meson converse_rtranclp_into_rtranclp rtranclp.rtrancl_refl)
qed

text \<open>The same store later, when the request has been submitted once and is ready for the second time.\<close>

definition again_db :: store where
  "again_db = planned_db\<lparr>t_requests := [ready_request], t_request_transitions :=
     [\<lparr>tr_ID = 1, tr_From = ProofReady, tr_To = Retryable, tr_Reason = ''expired'', tr_ChangedAt = unix_epoch + 1\<rparr>]\<rparr>"

subsection \<open>A snapshot of the graph\<close>

lemma graph_store_ok: "store_ok two_hash graph_db" "store_ok two_hash snapshot_db"
  using graph_db_ok snapshot_db_ok by (simp_all add: store_ok_def plans_ok_def proofs_ok_def snapshot_db_def)
    (simp_all add: graph_db_def empty_store_def)

definition example_snapshot_request :: snapshot_request where
  "example_snapshot_request = \<lparr>sr_RequestID = 1, sr_Attempt = 0, sr_HomeChainID = 1, sr_ExpectedHomeTrustRoot = 1,
     sr_StartNodeID = 1, sr_TargetNodeID = 2\<rparr>"

lemma example_create:
  obtains db' sn where "CreateTrustViewSnapshot two_hash graph_db example_snapshot_request = (db', Inr sn)" "db' \<noteq> graph_db" "sn_ID sn = 1"
proof -
  have t: "t_snapshots graph_db = []" "t_nodes graph_db = [home_node, source_node]" "g_revision graph_db = 0"
    "t_evidence graph_db = [active_evidence 9, active_evidence 3]" "t_requests graph_db = [example_request]"
    "t_edges graph_db = [trust_edge.extend link \<lparr>er_Active = True\<rparr>]" "t_witnesses graph_db = [link_witness]"
    by (simp_all add: graph_db_def empty_store_def)
  have ev: "evidence_active graph_db i \<longleftrightarrow> i = 9 \<or> i = 3" for i by (auto simp: evidence_active_def t active_evidence_def)
  have n: "active_nodes graph_db = [home_node, source_node]" by (simp add: active_nodes_def t ev) (simp add: home_node_def source_node_def)
  have i: "ComputeSnapshotID two_hash 1 0 0 1 2 1 = 1" by (simp add: ComputeSnapshotID_def snapshot_bytes_def)
  let ?sn = "materialize graph_db 1 example_snapshot_request"
  let ?db = "graph_db\<lparr>t_snapshots := [?sn]\<rparr>"
  have "snapshot_edges_ok graph_db ?sn"
    by (auto simp: snapshot_edges_ok_def materialize_def active_edges_def t n row_edge_def stored_witness_for_def strip_evidence_def
        trust_edge.defs link_def link_witness_def home_node_def source_node_def split: if_splits)
  moreover have "tn_ID ` set (sn_Nodes ?sn) = {1, 2}" by (auto simp: materialize_def n strip_evidence_def home_node_def source_node_def)
  moreover have id: "sn_ID ?sn = 1" by (simp add: materialize_def)
  moreover have "LoadRequest graph_db 1 = Inr example_request" "loadActiveTrustNode graph_db 1 = Inr home_node"
    "loadActiveTrustNode graph_db 2 = Inr source_node"
    by (simp_all add: LoadRequest_def loadActiveTrustNode_def select_row_def t n) (simp_all add: example_defs)
  moreover have "LoadSnapshot graph_db 1 = Inl ErrRecordNotFound" "LoadSnapshot ?db 1 = Inr ?sn"
    by (simp_all add: LoadSnapshot_def select_row_def t id)
  moreover have "sr_RequestID example_snapshot_request = 1" "sr_Attempt example_snapshot_request = 0" "sr_HomeChainID example_snapshot_request = 1"
    "sr_ExpectedHomeTrustRoot example_snapshot_request = 1" "sr_StartNodeID example_snapshot_request = 1" "sr_TargetNodeID example_snapshot_request = 2"
    by (simp_all add: example_snapshot_request_def)
  moreover have "rs_HomeChainID example_request = 1" "nk_ChainID (tn_Key home_node) = 1" "tn_Root home_node = 1"
    "nk_ChainID (tn_Key source_node) = rs_SourceChainID example_request" "nk_Height (tn_Key source_node) = rs_SourceHeight example_request"
    "nk_BlockHash (tn_Key source_node) = rs_SourceBlockHash example_request"
    by (simp_all add: example_defs)
  ultimately have "CreateTrustViewSnapshot two_hash graph_db example_snapshot_request = (?db, Inr ?sn)"
    using i by (simp add: CreateTrustViewSnapshot_def in_tx_def t Let_def)
  moreover have "t_snapshots ?db \<noteq> t_snapshots graph_db" by (simp add: t)
  then have "?db \<noteq> graph_db" by metis
  ultimately show thesis using that id by blast
qed

lemma example_save_plan: "SavePlan two_hash (unix_epoch + 1) snapshot_db example_plan = Inr planned_db"
proof -
  have t: "t_plans snapshot_db = []" "t_current_plan snapshot_db = []" "t_snapshots snapshot_db = [example_snapshot]" "t_requests snapshot_db = [example_request]"
    by (simp_all add: snapshot_db_def graph_db_def empty_store_def)
  have v: "validatePlanForStorage example_plan = Inr ()"
    by (simp add: validatePlanForStorage_def example_plan_def MaxInt64_def MaxUint64_def)
  have b: "validatePlanSnapshotBinding two_hash snapshot_db example_plan = Inr ()"
    by (simp add: validatePlanSnapshotBinding_def t select_row_def example_defs ComputeSnapshotID_def snapshot_bytes_def)
  have "insert_plan (unix_epoch + 1) snapshot_db example_plan = Inr (snapshot_db\<lparr>t_plans := [example_plan]\<rparr>)"
    by (simp add: insert_plan_def t Let_def) (simp add: example_defs zero_time_def unix_epoch_def toUnix_def)
  then have "save_attempt two_hash (unix_epoch + 1) snapshot_db example_plan = Inr planned_db"
    using b by (simp add: save_attempt_def t loadPlan_def select_row_def bind_current_def example_fields planned_db_def)
  then show ?thesis using v by (simp add: SavePlan_def t example_fields)
qed

end
