(* ===== verification/Spec2Isabelle.thy ===== *)
theory Spec2Isabelle
  imports Replay_Store Receipts Example_Node
begin

text \<open>
  A verification development of TrustMap: a node written in Go (\<open>Mapnode\<close>, \<open>internal\<close>) and the contracts of one
  chain written in Solidity (\<open>contracts/src\<close>). Every chain has a Gateway contract that commits the verified
  dependencies of a block as leaves of a Merkle tree, the TrustRoot of that block. A node observes the TrustRoots of
  many chains, keeps them and the dependencies between them as a graph, the TrustView, and serves verification
  requests of its home chain: it seals a snapshot of the graph, plans either a path of dependencies from a home block
  back to the source block or a direct verification, builds the path proof, and sends it to the home Gateway, which
  verifies it, resolves the request and records the new dependency. The receipt of that transaction gives the node
  the membership witness of the new edge.

  \<^bold>\<open>Reading the model.\<close> Go functions are HOL functions of the same name; a receiver, or a package where names
  clash, is a prefix (\<open>chain_Validate\<close>). An error result is \<open>Inl\<close> of a \<open>go_error\<close>, one constructor per sentinel error or
  message; a panic is an error of its own. A Go array of 32 or 20 bytes is a \<open>256 word\<close> or \<open>160 word\<close>, the sized integers
  are words of their size, and unbounded \<open>big.Int\<close> values are \<open>int\<close> or \<open>nat\<close> with the code's own range checks. Keccak-256
  is a parameter \<open>K\<close> from byte strings to digests. Statements about identifiers say that two preimages are equal or the
  pair exhibited is a collision of \<open>K\<close>; no statement assumes that \<open>K\<close> is injective. The SQLite database is a record of
  tables, a statement that violates a constraint fails and, like every failed operation, leaves the tables unchanged.
  RPC endpoints and the direct verifier are parameters whose answers may change with every call.

  \<^bold>\<open>Theories.\<close>
  \<^item> \<open>Prelude\<close>: machine types, errors, big-endian encodings and their injectivity, checked arithmetic.
  \<^item> \<open>Domain\<close> (\<open>internal/domain\<close>), \<open>Evidence\<close> (\<open>Mapnode/evidence\<close>), \<open>Observation\<close> and \<open>TrustView\<close> (\<open>Mapnode/trustview\<close>),
    \<open>Registry\<close> (\<open>Mapnode/registry\<close>): values, their validation, content addresses. The lemmas show that an identifier
    determines what it was computed from, that a TrustView is canonical, and that one chain only has authority.
  \<^item> \<open>Merkle\<close> (\<open>internal/proof\<close>): the incremental tree and the witnesses against a reference tree; the locale
    \<open>merkle_accumulator\<close> states the contract of such a tree and is interpreted here for Go and in \<open>Commitment\<close> for Solidity.
  \<^item> \<open>Go_Heap\<close>, \<open>Best_First\<close>, \<open>Path_Search\<close>, \<open>Planner\<close> (\<open>container/heap\<close>, \<open>Mapnode/planner\<close>): the heap implements the locale
    \<open>priority_queue\<close> for every strict weak order, \<open>best_first\<close> holds the argument for Dijkstra's algorithm, and the searches
    and the decision between path and direct plan are shown to be exact and optimal.
  \<^item> \<open>PathProof\<close> (\<open>Mapnode/proof\<close>): building a proof from a plan; what is built verifies.
  \<^item> \<open>Commitment\<close>, \<open>Gateway\<close> (\<open>TrustRootCommitment.sol\<close>, \<open>PathProofVerifier.sol\<close>, \<open>TrustMapGateway.sol\<close>): the contracts as
    functions on their storage, re-entrant calls included. The lemmas show that the root commits the emitted leaves,
    that requests are resolved once, and that the contract accepts exactly what the Go verifier accepts.
  \<^item> \<open>ChainABI\<close>, \<open>Chains\<close> (\<open>Mapnode/chainabi\<close>, \<open>Mapnode/chain\<close>, \<open>Mapnode/reorg\<close>): event parsers against the layout Solidity
    emits, confirmed reads of a TrustRoot, the canonical cursor.
  \<^item> \<open>Receipts\<close> (\<open>Mapnode/indexer\<close>): requests and verification receipts. Of the successful calls of the Gateway model
    whose verifier does not call back, the node accepts the receipts of those that find the dependency known or are the
    first to record one in their block, with a witness that verifies, and rejects the receipt of a second recording.
  \<^item> \<open>Coordinator\<close> (\<open>Mapnode/coordinator\<close>): the request state machine and \<open>Process\<close> over its services, whose contract is the
    locale \<open>request_services\<close>.
  \<^item> \<open>Store\<close>, \<open>ChainStore\<close>, \<open>GraphStore\<close>, \<open>PlanStore\<close>, \<open>ProofStore\<close> (\<open>Mapnode/store\<close>): the repositories. The locale
    \<open>audited_repository\<close> is the contract of a table with an audit log of transitions; it is interpreted for evidence and
    for requests.
  \<^item> \<open>Replay_View\<close>, \<open>Replay_Search\<close>, \<open>Replay\<close>, \<open>Replay_Store\<close> (\<open>Mapnode/replay\<close>): the offline replay of recorded events. The graph keeps the
    heights of a chain in a treap and links adjacent ones; every reachable graph is well formed. The search reuses its
    arrays between calls and ranges over Go maps: it is an instance of \<open>best_first\<close>, hence optimal, and its outcome does
    not depend on the order of the maps or on earlier searches. The coordinator estimates, plans and records one event
    after the other, and restores recorded ones without planning; its decisions are optimal. The database of a run keeps
    every event with its decision and the tables derived from them, and an interrupted run resumes exactly.
  \<^item> \<open>NodeSystem\<close>, \<open>Example_Node\<close> and this theory: every write of these repositories as a step of the store, the coordinator over
    the repositories as \<open>app.go\<close> composes them, and the properties that span components.

  \<^bold>\<open>Bounds.\<close> The loops of the sources are structural recursion where the code ranges over a slice. Loops with another
  exit have fuel, and the fuel is proved to suffice: the sift loops of the heap (one level per step), the graph
  searches (a potential that falls with every item popped, at most one per edge and two more), following the
  predecessors of a replay path (at most one step per node), and \<open>Process\<close> (a request
  passes each state at most once, \<open>process_returns\<close>).

  \<^bold>\<open>Not modelled.\<close> The network and process layer: libp2p gossip, HTTP handlers, dialling, polling loops and signal
  handling, the command line, YAML and topology rendering, key files, opening and migrating the database file. They are
  input and output around libraries that are not part of the repository. The encoders of calls and transaction signing
  rest on go-ethereum. The in- and outbox of evidence gossip, the confirmed event indexer with its repository, the
  request executor with its transaction repository, and the traces, configurations and exports of replay runs are components
  of their own that the properties here do not need.
\<close>

section \<open>The node as a whole\<close>

text \<open>
  C7. Take any store that sequences of the repository operations of \<open>store_step\<close>, successful or not, reach from an empty
  database, and let no stored node have the zero identifier: \<open>SaveObservation\<close> stores the node of an observation under the
  hash of its key without validating it, and readers refuse the zero word. Then the current TrustView can be read and is
  the view of the stored nodes and edges, every stored plan and every stored path proof can be loaded again, and every
  request with a plan has a current plan, that of its latest attempt. The writes of the confirmed event indexer, of
  evidence from peers and of the executor are not among the operations.
\<close>

theorem reachable_store_wellformed:
  assumes "reachable_store K db" "0 \<notin> tn_ID ` set (t_nodes db)"
  shows "(\<exists>v. CurrentTrustView K db = Inr v \<and> set (tv_Nodes v) = set (t_nodes db) \<and> set (tv_Edges v) = row_edge db ` set (t_edges db)) \<and>
    (\<forall>p \<in> set (t_plans db). loadPlan K db (pl_ID p) = Inr p \<and>
       (\<exists>q. LoadCurrentPlan K db (pl_RequestID p) = Inr q \<and> pl_RequestID q = pl_RequestID p \<and> pl_Attempt p \<le> pl_Attempt q)) \<and>
    (\<forall>row \<in> set (t_proofs db). \<exists>v. loadPathProof K db (pp_ID row) = Inr v)"
proof (intro conjI ballI)
  have ok: "graph_ok K db" "plans_ok K db" "proofs_ok K db" using reachable_ok[OF assms] by (simp_all add: store_ok_def)
  show "\<exists>v. CurrentTrustView K db = Inr v \<and> set (tv_Nodes v) = set (t_nodes db) \<and> set (tv_Edges v) = row_edge db ` set (t_edges db)"
    using ok(1) by (metis current_view_ok)
  show "\<exists>v. loadPathProof K db (pp_ID row) = Inr v" if "row \<in> set (t_proofs db)" for row
    using ok(3) that by (simp add: proofs_ok_def)
  fix p assume p: "p \<in> set (t_plans db)"
  show "loadPlan K db (pl_ID p) = Inr p" by (rule loadPlan_row[OF ok(2) p])
  have "pl_RequestID p \<in> fst ` set (t_current_plan db)" using ok(2) p by (auto simp: plans_ok_def)
  then obtain i where "map_of (t_current_plan db) (pl_RequestID p) = Some i"
    by (metis map_of_eq_None_iff not_None_eq)
  with ok(2) obtain q where "q \<in> set (t_plans db)" "pl_RequestID q = pl_RequestID p" "LoadCurrentPlan K db (pl_RequestID p) = Inr q"
    "\<forall>r \<in> set (t_plans db). pl_RequestID r = pl_RequestID p \<longrightarrow> pl_Attempt r \<le> pl_Attempt q" by (rule current_plan_row)
  then show "\<exists>q. LoadCurrentPlan K db (pl_RequestID p) = Inr q \<and> pl_RequestID q = pl_RequestID p \<and> pl_Attempt p \<le> pl_Attempt q"
    using p by blast
qed

theorem reachable_store_wellformed_witness:
  "reachable_store two_hash home_seen_db \<and> 0 \<notin> tn_ID ` set (t_nodes home_seen_db) \<and>
     (\<exists>v. CurrentTrustView two_hash home_seen_db = Inr v \<and> set (tv_Nodes v) = {home_node\<lparr>tn_EvidenceID := 1\<rparr>})"
proof -
  have "0 \<notin> tn_ID ` set (t_nodes home_seen_db)" by (simp add: example_seen home_node_def)
  then show ?thesis using reachable_store_wellformed[OF example_seen_run] example_seen_run by (auto simp: example_seen)
qed

text \<open>
  C8. The store implements the abstract request machine: along any run of repository operations, the states of the
  requests, seen as a partial map, change only by a new request appearing as observed or by one legal transition of one
  request, so that the run is a run of the machine.
\<close>

theorem store_refines_request_machine:
  assumes "(store_step K)\<^sup>*\<^sup>* db db'"
  shows "request_machine\<^sup>*\<^sup>* (abs_requests db) (abs_requests db')"
  using assms by (rule steps_refine)

theorem store_refines_request_machine_witness:
  "(store_step two_hash)\<^sup>*\<^sup>* empty_store evidence_ready_db \<and> request_machine\<^sup>*\<^sup>* Map.empty (abs_requests evidence_ready_db) \<and>
     abs_requests evidence_ready_db 1 = Some EvidenceReady"
proof -
  have "abs_requests empty_store = Map.empty" by (simp add: abs_requests_def LoadRequest_def select_row_def empty_store_def fun_eq_iff)
  moreover have "abs_requests evidence_ready_db 1 = Some EvidenceReady" using transition_loads[OF example_ready] by (simp add: abs_requests_def)
  ultimately show ?thesis using store_refines_request_machine[OF example_run(1)] example_run(1) by simp
qed

text \<open>
  C15. Processing a request on the repositories always returns, and all it does to the database is a run of repository
  operations; the states of the requests follow the abstract machine, whatever the services answer.
\<close>

theorem process_runs_on_store:
  "\<exists>db' r. Process K (store_services K depth profiles clock error_text) work db = Some (db', r) \<and>
     (store_step K)\<^sup>*\<^sup>* db db' \<and> request_machine\<^sup>*\<^sup>* (abs_requests db) (abs_requests db')"
proof -
  obtain db' r where "Process K (store_services K depth profiles clock error_text) work db = Some (db', r)"
    using node.process_returns by blast
  with process_run[OF this] steps_refine show ?thesis by blast
qed

text \<open>
  C5. What processing returns can be acted on: the returned request is the stored one, with the identity of the work, in one
  of the states the executor handles; with a proof, the proof starts at the requested block and verifies against the
  expected home root; with a direct decision, the plan is a direct plan bound to this work.
\<close>

theorem process_result_sound:
  assumes "Process K (store_services K depth profiles clock error_text) work db = Some (db', Inr r)"
  shows "LoadRequest db' (rs_ID (cr_Request r)) = Inr (cr_Request r) \<and>
    sameRequestIdentityForResume (cr_Request r) (wk_Request work) \<and>
    (rs_State (cr_Request r) = ProofReady \<and> (\<exists>p q. cr_PathProof r = Some p \<and> cr_Plan r = Some q \<and> validateWorkPlan K work q = Inr () \<and>
       hd (pp_BlockHashes p) = rs_SourceBlockHash (wk_Request work) \<and>
       VerifyPath K (pp_BaseTrustRoot p) (pp_BlockHashes p) (pp_Witnesses p) (wk_ExpectedHomeTrustRoot work) depth = Inr ()) \<or>
     rs_State (cr_Request r) \<in> {DirectFallback, Planned} \<and> (\<exists>q. cr_Plan r = Some q \<and> pl_Type q = DirectPlan \<and> validateWorkPlan K work q = Inr ()) \<or>
     rs_State (cr_Request r) = Rejected)"
proof -
  note f = process_final[OF assms]
  have "LoadRequest db' (rs_ID (cr_Request r)) = Inr (cr_Request r)" using node.process_result(2)[OF assms] by (simp add: store_services_def)
  moreover have "rs_State (cr_Request r) = ProofReady \<Longrightarrow> \<exists>p q. cr_PathProof r = Some p \<and> cr_Plan r = Some q \<and> validateWorkPlan K work q = Inr () \<and>
       hd (pp_BlockHashes p) = rs_SourceBlockHash (wk_Request work) \<and>
       VerifyPath K (pp_BaseTrustRoot p) (pp_BlockHashes p) (pp_Witnesses p) (wk_ExpectedHomeTrustRoot work) depth = Inr ()"
    using f(2,3) by blast
  moreover have "rs_State (cr_Request r) \<in> {DirectFallback, Planned} \<Longrightarrow>
      \<exists>q. cr_Plan r = Some q \<and> pl_Type q = DirectPlan \<and> validateWorkPlan K work q = Inr ()"
    using f(3,4) by fastforce
  ultimately show ?thesis using node.process_result(3)[OF assms] f(1) by blast
qed

theorem process_result_sound_witness:
  "\<exists>db' r. Process two_hash example_services example_work planned_db = Some (db', Inr r) \<and> rs_State (cr_Request r) = ProofReady \<and>
     (\<exists>p. cr_PathProof r = Some p \<and> VerifyPath two_hash (pp_BaseTrustRoot p) (pp_BlockHashes p) (pp_Witnesses p) 1 1 = Inr ())"
proof -
  have "rs_State ready_request = ProofReady" "wk_ExpectedHomeTrustRoot example_work = 1" by (simp_all add: ready_request_def example_work_def)
  then show ?thesis using process_result_sound[OF example_process] example_process by auto
qed

text \<open>
  C24. The audit trail of every request in a reachable store is complete and legal: its logged transitions form a path of
  the state machine from observed to the stored state, in order, and no edge occurs twice; a request that is not stored
  has no trail.
\<close>

theorem request_trail_is_legal_path:
  assumes "reachable_store K db"
  shows "case abs_requests db rid of None \<Rightarrow> edges_of (t_request_transitions db) rid = []
    | Some st \<Rightarrow> edge_path Observed (edges_of (t_request_transitions db) rid) st \<and> distinct (edges_of (t_request_transitions db) rid) \<and>
        list_all (\<lambda>(f, t). legal_request_transition f t) (edges_of (t_request_transitions db) rid)"
proof -
  have "request_history db" using assms steps_history[OF _ empty_history] by (simp add: reachable_store_def)
  then show ?thesis unfolding request_history_def logs_history_def by blast
qed

theorem request_trail_is_legal_path_witness:
  "reachable_store two_hash evidence_ready_db \<and> abs_requests evidence_ready_db 1 = Some EvidenceReady \<and>
     edge_path Observed (edges_of (t_request_transitions evidence_ready_db) 1) EvidenceReady"
proof -
  have "abs_requests evidence_ready_db 1 = Some EvidenceReady" using transition_loads[OF example_ready] by (simp add: abs_requests_def)
  then show ?thesis using request_trail_is_legal_path[OF example_run(2), of 1] example_run(2) by simp
qed

text \<open>
  C25. An edge of the state machine can be taken once only: when a transition of a request is in the log, then in every
  later store, with the request back in the source state of that edge, the same transition fails and changes nothing.
\<close>

theorem repeated_transition_fails:
  assumes "logged (t_request_transitions db0) rid f t" "(store_step K)\<^sup>*\<^sup>* db0 db" "f \<noteq> t"
    and "abs_requests db rid = Some f" "TransitionRequest now db rid f t m = (db', x)"
  shows "db' = db \<and> (\<exists>e. x = Inl e)"
proof -
  have "logged (t_request_transitions db) rid f t" using assms(1) steps_log[OF assms(2)] by (auto simp: logged_def)
  then have "x \<noteq> Inr (r, True)" for r using TransitionRequest_moves[of now db rid f t m db' r] assms(5) by blast
  moreover have "x \<noteq> Inr (r, False)" for r
    using TransitionRequest_same[of now db rid f t m db' r] assms(3-5) by (auto simp: abs_requests_def)
  ultimately have "x \<noteq> Inr y" for y by (metis (full_types) surj_pair)
  then show ?thesis using TransitionRequest_kept[OF assms(5)] by (metis obj_sumE)
qed

theorem repeated_transition_fails_witness:
  "\<exists>e. TransitionRequest (unix_epoch + 1) again_db 1 ProofReady Retryable no_metadata = (again_db, Inl e)"
proof -
  have "logged (t_request_transitions again_db) 1 ProofReady Retryable" by (simp add: logged_def again_db_def)
  moreover have "abs_requests again_db 1 = Some ProofReady"
    by (simp add: abs_requests_def LoadRequest_def select_row_def again_db_def ready_request_def example_request_def)
  moreover obtain db' x where "TransitionRequest (unix_epoch + 1) again_db 1 ProofReady Retryable no_metadata = (db', x)" by fastforce
  ultimately show ?thesis
    using repeated_transition_fails[of again_db 1 ProofReady Retryable two_hash again_db "unix_epoch + 1" no_metadata db' x] by auto
qed

text \<open>
  C23. A sealed snapshot can be planned on: a snapshot newly created in a well-formed store loads back and passes the checks
  of the planner. Planning on it succeeds, and stores the decision as the current plan of the request, provided the
  decision respects the limits of the schema, every plan already stored for the request has a smaller attempt, the
  identifier of the new plan is not in use, and the clock is past 1970. (Without these \<open>SavePlan\<close> refuses with a stale
  attempt, a conflict or a violated constraint.)
\<close>

theorem fresh_snapshot_plannable:
  assumes "store_ok K db" "CreateTrustViewSnapshot K db srq = (db', Inr sn)" "db' \<noteq> db"
    and "rq = \<lparr>rq_ID = sr_RequestID srq, rq_Attempt = sr_Attempt srq, rq_SnapshotID = sn_ID sn, rq_HomeChainID = sr_HomeChainID srq\<rparr>"
    and "decide profiles now rq sn = Inr p" "plan_limits K p" "toUnix now > 0" "ComputePlanID K p \<notin> pl_ID ` set (t_plans db)"
    and "\<forall>q \<in> set (t_plans db). pl_RequestID q = rq_ID rq \<longrightarrow> pl_Attempt q < rq_Attempt rq"
  shows "LoadSnapshot db' (sn_ID sn) = Inr sn \<and> check_snapshot K rq sn = Inr () \<and>
    (\<exists>q db2. Plan K LoadSnapshot (SavePlan K now) (loadPlan K) profiles now db' rq = Inr (q, db2) \<and>
       samePlanDecision q (p\<lparr>pl_ID := ComputePlanID K p\<rparr>) \<and> LoadCurrentPlan K db2 (sr_RequestID srq) = Inr q)"
proof -
  have g: "graph_ok K db" using assms(1) by (simp add: store_ok_def)
  obtain rec i where i: "i = ComputeSnapshotID K (sr_RequestID srq) (sr_Attempt srq) (of_nat (g_revision db)) (sr_StartNodeID srq)
      (sr_TargetNodeID srq) (sr_ExpectedHomeTrustRoot srq)" "LoadRequest db (sr_RequestID srq) = Inr rec"
    and new: "\<not> is_ok (LoadSnapshot db i)" "sn = materialize db i srq" "snapshot_ok K db sn" "db' = db\<lparr>t_snapshots := t_snapshots db @ [sn]\<rparr>"
    using CreateTrustViewSnapshot_Inr[OF assms(2) g] assms(3) by metis
  have f: "sn_ID sn = i" "sn_HomeChainID sn = sr_HomeChainID srq" "sn_Revision sn = of_nat (g_revision db)" "sn_StartNodeID sn = sr_StartNodeID srq"
    "sn_TargetNodeID sn = sr_TargetNodeID srq" "sn_HomeTrustRoot sn = sr_ExpectedHomeTrustRoot srq"
    by (simp_all add: new(2) materialize_def)
  have g': "graph_ok K db'" by (rule CreateTrustViewSnapshot_ok[OF assms(2) g])
  have ok: "store_ok K db'" by (rule keeps_ok[OF CreateTrustViewSnapshot_keeps[OF assms(2)] assms(1) g'])
  have "inj_on sn_ID (set (t_snapshots db'))" using g' by (simp add: graph_ok_def snapshot_rows_ok_def distinct_map)
  moreover have "sn \<in> set (t_snapshots db')" by (simp add: new(4))
  ultimately have l: "LoadSnapshot db' (sn_ID sn) = Inr sn" by (simp add: LoadSnapshot_def select_row_def find_inj)
  have c: "check_snapshot K rq sn = Inr ()" by (rule snapshot_check[OF new(3)]) (simp_all add: assms(4) f i(1))
  have same: "t_plans db' = t_plans db" "t_requests db' = t_requests db" by (simp_all add: new(4))
  have "rs_ID rec = sr_RequestID srq" "rec \<in> set (t_requests db)" using i(2) by (auto simp: LoadRequest_def dest: select_row_InrD)
  then have "rq_ID rq \<in> rs_ID ` set (t_requests db')" by (simp add: assms(4) same) (metis image_eqI)
  then show ?thesis
    using plan_on_store[OF ok _ c assms(5-7)] c l assms(8,9) by (simp add: assms(4) same) blast
qed

theorem fresh_snapshot_plannable_witness:
  "\<exists>db' sn q db2. CreateTrustViewSnapshot two_hash graph_db example_snapshot_request = (db', Inr sn) \<and>
     Plan two_hash LoadSnapshot (SavePlan two_hash (unix_epoch + 1)) (loadPlan two_hash) (\<lambda>_. (zero_profile, False)) (unix_epoch + 1) db'
       \<lparr>rq_ID = 1, rq_Attempt = 0, rq_SnapshotID = 1, rq_HomeChainID = 1\<rparr> = Inr (q, db2) \<and> LoadCurrentPlan two_hash db2 1 = Inr q"
proof -
  let ?rq = "\<lparr>rq_ID = 1, rq_Attempt = 0, rq_SnapshotID = 1, rq_HomeChainID = 1\<rparr>"
  obtain db' sn where c: "CreateTrustViewSnapshot two_hash graph_db example_snapshot_request = (db', Inr sn)" "db' \<noteq> graph_db" "sn_ID sn = 1"
    by (rule example_create)
  obtain p where p: "decide (\<lambda>_. (zero_profile, False)) (unix_epoch + 1) ?rq sn = Inr p" "plan_limits two_hash p"
    using c(3) by (simp add: decide_def zero_profile_def plan_limits_def initial_plan_def Let_def MaxInt64_def)
  have "?rq = \<lparr>rq_ID = sr_RequestID example_snapshot_request, rq_Attempt = sr_Attempt example_snapshot_request, rq_SnapshotID = sn_ID sn,
      rq_HomeChainID = sr_HomeChainID example_snapshot_request\<rparr>" by (simp add: example_snapshot_request_def c(3))
  moreover have "t_plans graph_db = []" by (simp add: graph_db_def empty_store_def)
  moreover have "toUnix (unix_epoch + 1) > 0" by (simp add: toUnix_def unix_epoch_def)
  ultimately show ?thesis
    using fresh_snapshot_plannable[OF graph_store_ok(1) c(1,2) _ p(1,2)] c by (fastforce simp: example_snapshot_request_def)
qed

text \<open>
  C21. A saved plan is the current one: after a successful save in a well-formed store, the current plan of the request
  and the plan under the saved identifier are one plan with the saved decision, and every plan stored before still loads
  unchanged.
\<close>

theorem saved_plan_is_current:
  assumes "store_ok K db" "SavePlan K now db p = Inr db'"
  shows "(\<exists>q. LoadCurrentPlan K db' (pl_RequestID p) = Inr q \<and> loadPlan K db' (pl_ID p) = Inr q \<and> samePlanDecision q p) \<and>
    (\<forall>i q. loadPlan K db i = Inr q \<longrightarrow> loadPlan K db' i = Inr q)"
proof (intro conjI allI impI)
  have ok: "plans_ok K db" "graph_ok K db" using assms(1) by (simp_all add: store_ok_def)
  note s = SavePlan_ok[OF assms(2) ok]
  show "\<exists>q. LoadCurrentPlan K db' (pl_RequestID p) = Inr q \<and> loadPlan K db' (pl_ID p) = Inr q \<and> samePlanDecision q p" by (fact s(2))
  show "loadPlan K db' i = Inr q" if "loadPlan K db i = Inr q" for i q
    using loadPlan_Inr[OF that] loadPlan_row[OF s(1)] s(4) by blast
qed

theorem saved_plan_is_current_witness:
  "SavePlan two_hash (unix_epoch + 1) snapshot_db example_plan = Inr planned_db \<and>
     (\<exists>q. LoadCurrentPlan two_hash planned_db 1 = Inr q \<and> samePlanDecision q example_plan)"
  using saved_plan_is_current[OF graph_store_ok(2) example_save_plan] example_save_plan by (auto simp: example_fields)

text \<open>
  C10. A saved path proof is read back: the database keeps only the header and the hops of a proof, and the loader
  rebuilds block hashes and witnesses from the snapshot, yet what it returns after a successful save is the saved proof
  in every field, with the time of the insertion when it had none.
\<close>

theorem saved_proof_loads_back:
  assumes "store_ok K db" "savePathProof K now db v = Inr db'" "db' \<noteq> db"
  shows "loadPathProof K db' (pp_ID v) = Inr (v\<lparr>pp_CreatedAt := if pp_CreatedAt v = zero_time then now else pp_CreatedAt v\<rparr>) \<and>
    loadPathProofForPlan K db' (pp_PlanID v) = loadPathProof K db' (pp_ID v)"
proof -
  have ok: "proofs_ok K db" using assms(1) by (simp add: store_ok_def)
  note n = new_proof_loads[OF assms(2) ok assms(3)]
  have ok': "proofs_ok K db'" by (rule savePathProof_ok(1)[OF assms(2) ok])
  obtain t where t: "db' = db\<lparr>t_proofs := t_proofs db @ [v\<lparr>pp_BlockHashes := [], pp_Witnesses := [], pp_CreatedAt := t\<rparr>]\<rparr>"
    using n(3) by (rule insert_proof_Inr)
  let ?row = "v\<lparr>pp_BlockHashes := [], pp_Witnesses := [], pp_CreatedAt := t\<rparr>"
  have "?row \<in> set (t_proofs db')" by (simp add: t)
  moreover have "inj_on pp_PlanID (set (t_proofs db'))" using ok' by (simp add: proofs_ok_def distinct_map)
  ultimately have "find (\<lambda>p. pp_PlanID p = pp_PlanID ?row) (t_proofs db') = Some ?row" by (rule find_inj)
  then have "loadPathProofForPlan K db' (pp_PlanID v) = loadPathProof K db' (pp_ID v)"
    by (simp add: loadPathProofForPlan_def select_row_def)
  then show ?thesis using n(1) by simp
qed

theorem saved_proof_loads_back_witness:
  "savePathProof two_hash (unix_epoch + 1) planned_db example_proof = Inr proved_db \<and>
     loadPathProofForPlan two_hash proved_db 1 = Inr example_proof"
proof -
  have "proved_db \<noteq> planned_db" using example_tables(4) by (auto simp: proved_db_def dest: arg_cong[of _ _ t_proofs])
  note s = saved_proof_loads_back[OF planned_db_ok example_save this]
  have "pp_PlanID example_proof = 1" "pp_ID example_proof = 1" by (simp_all add: example_proof_def)
  then show ?thesis using s example_save example_load_proof by simp
qed

end
